(* ===== verification/Prelude.thy ===== *)
theory Prelude
  imports Main "HOL-Library.Word"
begin

text \<open>
  Shared vocabulary of the development: the C integer types as words, the big-endian byte
  sequences of the wire format, and the generic lemmas on words, lists and sums that the
  component theories use.  The collections \<open>word_bytes\<close> (splitting a word into bytes and
  joining the bytes again) and \<open>seq_simps\<close> (lists that are written and read by position)
  are passed to the simplifier by the component proofs.
\<close>

unbundle bit_operations_syntax

type_synonym byte = "8 word"
type_synonym u8 = "8 word"
type_synonym u16 = "16 word"
type_synonym u32 = "32 word"
type_synonym u64 = "64 word"

text \<open>A C \<open>float\<close> is carried as its 32-bit object representation.\<close>

type_synonym f32 = "32 word"

named_theorems word_bytes
named_theorems seq_simps

subsection \<open>Words, bit by bit\<close>

lemma word_bitsI:
  "list_all (\<lambda>n. bit v n = bit w n) [0..<LENGTH('a)] \<Longrightarrow> v = (w :: 'a::len word)"
  by (rule bit_word_eqI) (simp add: list_all_iff)

lemma word_bit_beyond: "LENGTH('a) \<le> n \<Longrightarrow> \<not> bit (w :: 'a::len word) n"
  using bit_imp_le_length by fastforce

lemma upt_word_bits:
  shows "[0..<8] = [(0::nat), 1, 2, 3, 4, 5, 6, 7]"
    and "[0..<16] = [(0::nat), 1, 2, 3, 4, 5, 6, 7, 8, 9, 10, 11, 12, 13, 14, 15]"
    and "[0..<32] = [(0::nat), 1, 2, 3, 4, 5, 6, 7, 8, 9, 10, 11, 12, 13, 14, 15, 16, 17, 18, 19, 20, 21, 22, 23, 24, 25, 26, 27, 28, 29, 30, 31]"
    and "[0..<64] = [(0::nat), 1, 2, 3, 4, 5, 6, 7, 8, 9, 10, 11, 12, 13, 14, 15, 16, 17, 18, 19, 20, 21, 22, 23, 24, 25, 26, 27, 28, 29, 30, 31, 32, 33, 34, 35, 36, 37, 38, 39, 40, 41, 42, 43, 44, 45, 46, 47, 48, 49, 50, 51, 52, 53, 54, 55, 56, 57, 58, 59, 60, 61, 62, 63]"
  by code_simp+

lemma ucast_via [word_bytes]:
  "LENGTH('c) \<le> LENGTH('b) \<or> LENGTH('a) \<le> LENGTH('b) \<Longrightarrow>
   (ucast (ucast (x :: 'a::len word) :: 'b::len word) :: 'c::len word) = ucast x"
  by (rule bit_word_eqI) (auto simp: bit_simps dest: bit_imp_le_length)

lemma sint_uint_nonneg:
  fixes x :: "'a::len word"
  assumes "0 \<le> sint x" shows "sint x = uint x"
proof -
  have "sint x < 2 ^ (LENGTH('a) - 1)" by (rule sint_lt)
  also have "\<dots> \<le> (2::int) ^ LENGTH('a)" by (rule power_increasing) simp_all
  finally show ?thesis using assms by (simp add: uint_sint take_bit_int_eq_self)
qed

text \<open>A value that fits a narrower word survives the conversion there and back.\<close>

lemma ucast_narrow:
  assumes "unat i < 2 ^ LENGTH('b::len)" "LENGTH('b) \<le> LENGTH('a)"
  shows "ucast (ucast i :: 'b word) = (i :: 'a::len word)"
  using assms by (simp add: word_unat_eq_iff unsigned_ucast_eq unsigned_take_bit_eq take_bit_nat_eq_self)

lemma scast_narrow:
  assumes "- (2 ^ (LENGTH('b::len) - 1)) \<le> sint i" "sint i < 2 ^ (LENGTH('b) - 1)"
    "LENGTH('b) \<le> LENGTH('a)"
  shows "scast (ucast i :: 'b word) = (i :: 'a::len word)"
proof -
  have "sint (ucast i :: 'b word) = signed_take_bit (LENGTH('b) - 1) (uint i)"
    by (rule bit_eqI) (auto simp: bit_simps min_def)
  also have "\<dots> = signed_take_bit (LENGTH('b) - 1) (sint i)"
    using assms(3) by (intro bit_eqI) (auto simp: bit_simps min_def)
  also have "\<dots> = sint i"
    using assms(1,2) by (rule signed_take_bit_int_eq_self)
  finally have "sint (ucast i :: 'b word) = sint i" .
  then have "scast (ucast i :: 'b word) = (word_of_int (sint i) :: 'a word)"
    by (simp only: scast_eq)
  also have "\<dots> = scast i" by (rule scast_eq [symmetric])
  finally show ?thesis by simp
qed
lemma unat_of_nat_small: "k < 2 ^ LENGTH('a) \<Longrightarrow> unat (of_nat k :: 'a::len word) = k"
  by (simp add: unsigned_of_nat take_bit_nat_eq_self)

lemma unat_plus_one_less:
  fixes x y :: "'a::len word"
  assumes "x < y" shows "unat (x + 1) = unat x + 1"
proof -
  have "unat x + 1 \<le> unat y" using assms by (simp add: word_less_nat_alt)
  also have "\<dots> < 2 ^ LENGTH('a)" by (rule unsigned_less)
  finally show ?thesis by (simp add: unat_word_ariths)
qed

text \<open>Arithmetic on a promoted value that does not wrap.\<close>

lemma narrow_arith:
  fixes h :: "'a::len word"
  assumes "LENGTH('a) \<le> 16"
  shows "uint (ucast h :: u32) = uint h" "unat (ucast h :: u32) = unat h"
    "uint (2 * ucast h :: u32) = 2 * uint h" "unat (ucast h + 1 :: u32) = unat h + 1"
proof -
  have u: "uint h < 2 ^ LENGTH('a)" by (rule uint_lt2p)
  also have "\<dots> \<le> (2::int) ^ 16" using assms by (rule power_increasing) simp
  finally have lt: "uint h < 2 ^ 16" .
  show a: "uint (ucast h :: u32) = uint h" using assms by (simp add: uint_up_ucast is_up)
  show b: "unat (ucast h :: u32) = unat h" by (simp only: unat_eq_nat_uint a)
  show "uint (2 * ucast h :: u32) = 2 * uint h"
    using lt by (simp add: uint_word_ariths a)
  have "unat h < 2 ^ LENGTH('a)" by (rule unsigned_less)
  also have "\<dots> \<le> (2::nat) ^ 16" using assms by (rule power_increasing) simp
  finally have "unat h < 2 ^ 16" .
  then show "unat (ucast h + 1 :: u32) = unat h + 1" by (simp add: unat_word_ariths b)
qed

subsection \<open>Big-endian byte sequences\<close>

definition be16 :: "u16 \<Rightarrow> byte list" where
  "be16 w = [ucast (drop_bit 8 w), ucast w]"

definition be32 :: "u32 \<Rightarrow> byte list" where
  "be32 w = [ucast (drop_bit 24 w), ucast (drop_bit 16 w), ucast (drop_bit 8 w), ucast w]"

definition be64 :: "u64 \<Rightarrow> byte list" where
  "be64 w =
     [ucast (drop_bit 56 w), ucast (drop_bit 48 w), ucast (drop_bit 40 w), ucast (drop_bit 32 w),
      ucast (drop_bit 24 w), ucast (drop_bit 16 w), ucast (drop_bit 8 w), ucast w]"

definition of_be16 :: "byte \<Rightarrow> byte \<Rightarrow> u16" where
  "of_be16 b0 b1 = push_bit 8 (ucast b0) OR ucast b1"

definition of_be32 :: "byte \<Rightarrow> byte \<Rightarrow> byte \<Rightarrow> byte \<Rightarrow> u32" where
  "of_be32 b0 b1 b2 b3 =
     push_bit 24 (ucast b0) OR push_bit 16 (ucast b1) OR push_bit 8 (ucast b2) OR ucast b3"

definition of_be64 ::
  "byte \<Rightarrow> byte \<Rightarrow> byte \<Rightarrow> byte \<Rightarrow> byte \<Rightarrow> byte \<Rightarrow> byte \<Rightarrow> byte \<Rightarrow> u64" where
  "of_be64 b0 b1 b2 b3 b4 b5 b6 b7 =
     push_bit 56 (ucast b0) OR push_bit 48 (ucast b1) OR push_bit 40 (ucast b2) OR
     push_bit 32 (ucast b3) OR push_bit 24 (ucast b4) OR push_bit 16 (ucast b5) OR
     push_bit 8 (ucast b6) OR ucast b7"

lemma length_be [simp]:
  shows "length (be16 a) = 2" and "length (be32 b) = 4" and "length (be64 c) = 8"
  by (simp_all add: be16_def be32_def be64_def)

lemma of_be16_be16 [word_bytes]: "of_be16 (ucast (drop_bit 8 w)) (ucast w) = w"
  unfolding of_be16_def by (rule word_bitsI) (simp add: upt_word_bits bit_simps)

lemma of_be32_be32 [word_bytes]:
  "of_be32 (ucast (drop_bit 24 w)) (ucast (drop_bit 16 w)) (ucast (drop_bit 8 w)) (ucast w) = w"
  unfolding of_be32_def by (rule word_bitsI) (simp add: upt_word_bits bit_simps)

lemma of_be64_be64 [word_bytes]:
  "of_be64 (ucast (drop_bit 56 w)) (ucast (drop_bit 48 w)) (ucast (drop_bit 40 w))
     (ucast (drop_bit 32 w)) (ucast (drop_bit 24 w)) (ucast (drop_bit 16 w))
     (ucast (drop_bit 8 w)) (ucast w) = w"
  unfolding of_be64_def by (rule word_bitsI) (simp add: upt_word_bits bit_simps)

text \<open>The bytes of a string literal.\<close>

definition str_bytes :: "string \<Rightarrow> byte list" where
  "str_bytes s = map (\<lambda>c. word_of_nat (of_char c)) s"

lemma length_str_bytes [simp]: "length (str_bytes s) = length s"
  by (simp add: str_bytes_def)

subsection \<open>Results that may abort\<close>

text \<open>
  The C macros leave the enclosing function on an error.  A step that may do so returns
  \<open>Inl\<close> of the final state when it leaves and \<open>Inr\<close> of what the next step needs otherwise.
\<close>

definition and_then :: "'e + 'a \<Rightarrow> ('a \<Rightarrow> 'e + 'b) \<Rightarrow> 'e + 'b" where
  "and_then r k = (case r of Inl e \<Rightarrow> Inl e | Inr x \<Rightarrow> k x)"

definition finish :: "'e + 'e \<Rightarrow> 'e" where
  "finish r = (case r of Inl e \<Rightarrow> e | Inr x \<Rightarrow> x)"

lemma and_then_simps [simp]:
  "and_then (Inl e) k = Inl e" "and_then (Inr x) k = k x"
  by (simp_all add: and_then_def)

lemma finish_simps [simp]: "finish (Inl e) = e" "finish (Inr x) = x"
  by (simp_all add: finish_def)

subsection \<open>Lists read by position\<close>

lemma drop_Cons_nth [seq_simps]:
  assumes "drop n xs = y # ys"
  shows "xs ! n = y" and "n < length xs" and "drop (Suc n) xs = ys"
proof -
  show lt: "n < length xs" using assms by (cases "n < length xs") auto
  show "xs ! n = y" using assms lt by (metis hd_drop_conv_nth list.sel(1))
  show "drop (Suc n) xs = ys" using assms by (metis drop_Suc list.sel(3) tl_drop)
qed

lemma drop_append_add:
  "drop n xs = ys @ zs \<Longrightarrow> drop (n + length ys) xs = zs"
  by (metis append_eq_conv_conj drop_drop add.commute)

lemma drop_append_nth:
  "drop n xs = ys @ zs \<Longrightarrow> i < length ys \<Longrightarrow> n + length ys \<le> length xs \<Longrightarrow> xs ! (n + i) = ys ! i"
  by (metis le_add1 le_trans nth_append nth_drop)

lemma drop_append_length:
  "drop n xs = ys @ zs \<Longrightarrow> ys \<noteq> [] \<Longrightarrow> n + length ys \<le> length xs"
  by (metis append_is_Nil_conv drop_all le_add_diff_inverse length_append length_drop
      linorder_le_cases nat_add_left_cancel_le le_add1)

lemma take_take_append: "take n (take n xs @ ys) = take n (xs @ ys)"
  by (cases "length xs \<le> n") simp_all

lemma list_all_tl: "list_all P xs \<Longrightarrow> list_all P (tl xs)"
  by (cases xs) simp_all

lemma list_all_take: "list_all P xs \<Longrightarrow> list_all P (take n xs)"
  by (auto simp: list_all_iff dest: in_set_takeD)

text \<open>A list cut into pieces of \<open>n\<close> elements, the last one possibly shorter.\<close>

function chunks :: "nat \<Rightarrow> 'a list \<Rightarrow> 'a list list" where
  "chunks n xs = (if n = 0 \<or> xs = [] then [] else take n xs # chunks n (drop n xs))"
  by pat_completeness auto
termination by (relation "measure (\<lambda>(n, xs). length xs)") auto

declare chunks.simps [simp del]

lemma chunks_Nil [simp]: "chunks n [] = []"
  by (simp add: chunks.simps)

lemma chunks_step: "0 < n \<Longrightarrow> xs \<noteq> [] \<Longrightarrow> chunks n xs = take n xs # chunks n (drop n xs)"
  by (simp add: chunks.simps [of n xs])

lemma concat_chunks: "0 < n \<Longrightarrow> concat (chunks n xs) = xs"
  by (induction n xs rule: chunks.induct) (simp add: chunks.simps)

lemma chunks_length: "ys \<in> set (chunks n xs) \<Longrightarrow> 0 < length ys \<and> length ys \<le> n"
proof (induction n xs rule: chunks.induct)
  case (1 n xs)
  show ?case
  proof (cases "n = 0 \<or> xs = []")
    case True
    then show ?thesis using "1.prems" by (simp add: chunks.simps [of n xs])
  next
    case False
    then show ?thesis using "1.prems" "1.IH" by (auto simp: chunks_step)
  qed
qed

end
