(* ===== verification/Event_Types.thy ===== *)
theory Event_Types
  imports Prelude
begin

text \<open>
  The compile-time configuration (\<open>engine/include/config.h\<close>) and the data that flows through
  the engine (\<open>engine/include/event_types.h\<close>).  Enumerations that are filled from the wire by a
  cast (\<open>event_type_t\<close>, \<open>error_type_t\<close>) can hold any 32-bit value and are words with named
  constants; \<open>rule_action_t\<close> is only ever set from its enumerators and is a datatype.  The union
  \<open>var_value_t\<close> is its 32-bit representation.  The union \<open>payload\<close> is a datatype whose
  constructor is the member written last; reading the other member is not a value the model
  gives, so \<open>as_update\<close> and \<open>as_error\<close> return \<open>None\<close> there.
\<close>

subsection \<open>Configuration\<close>

definition ZMQ_BUFFER_SIZE :: nat where
  "ZMQ_BUFFER_SIZE = 1024"

definition MAX_VARS_PER_EVENT :: nat where
  "MAX_VARS_PER_EVENT = 8"

definition MAX_TWINS :: nat where
  "MAX_TWINS = 10"

definition MAX_VARS_PER_TWINS :: nat where
  "MAX_VARS_PER_TWINS = 20"

definition QUEUE_SIZE :: nat where
  "QUEUE_SIZE = 1024"

lemmas config_defs =
  ZMQ_BUFFER_SIZE_def MAX_VARS_PER_EVENT_def MAX_TWINS_def MAX_VARS_PER_TWINS_def QUEUE_SIZE_def

subsection \<open>Enumerations\<close>

datatype rule_action_t =
    ACTION_IGNORE
  | ACTION_NOTIFY_UPWARDS
  | ACTION_HALT_ENGINE
  | ACTION_SET_TWIN_ALARM
  | ACTION_CALL_USER_SERVICE

type_synonym event_type_t = u32

definition EVENT_UPDATE :: event_type_t where
  "EVENT_UPDATE = 0"

definition EVENT_ERROR :: event_type_t where
  "EVENT_ERROR = 1"

definition EVENT_MAX :: event_type_t where
  "EVENT_MAX = 2"

type_synonym error_type_t = u32

definition ERROR_DEVIATION :: error_type_t where
  "ERROR_DEVIATION = 0"

definition ERROR_SENSOR_FAILURE :: error_type_t where
  "ERROR_SENSOR_FAILURE = 1"

definition ERROR_COMMUNICATION :: error_type_t where
  "ERROR_COMMUNICATION = 2"

definition ERROR_UNKNOWN :: error_type_t where
  "ERROR_UNKNOWN = 3"

lemmas event_type_defs = EVENT_UPDATE_def EVENT_ERROR_def EVENT_MAX_def
lemmas error_type_defs =
  ERROR_DEVIATION_def ERROR_SENSOR_FAILURE_def ERROR_COMMUNICATION_def ERROR_UNKNOWN_def

subsection \<open>Events\<close>

type_synonym var_value_t = u32

record property_update_t =
  upd_var_id :: u16
  upd_value :: var_value_t
  destiny_url :: "byte list"

record update_event_t =
  upd_count :: u8
  updates :: "property_update_t list"

record error_event_t =
  error_code :: error_type_t
  message :: "byte list"

record event_header_t =
  event_type :: event_type_t
  timestamp :: u64
  deviation :: f32
  twin_id :: u32

datatype payload_t = Update update_event_t | Error error_event_t

record event_t =
  header :: event_header_t
  payload :: payload_t

definition as_update :: "event_t \<Rightarrow> update_event_t option" where
  "as_update ev = (case payload ev of Update u \<Rightarrow> Some u | Error e \<Rightarrow> None)"

definition as_error :: "event_t \<Rightarrow> error_event_t option" where
  "as_error ev = (case payload ev of Update u \<Rightarrow> None | Error e \<Rightarrow> Some e)"

text \<open>
  The type invariant of the events in the engine: the active member of the union is the one the
  header announces, the array of updates has its \<open>MAX_VARS_PER_EVENT\<close> elements and \<open>count\<close> does
  not exceed it.
\<close>

fun payload_ok :: "event_type_t \<Rightarrow> payload_t \<Rightarrow> bool" where
  "payload_ok t (Update u) =
     (t = EVENT_UPDATE \<and> length (updates u) = MAX_VARS_PER_EVENT \<and>
      unat (upd_count u) \<le> MAX_VARS_PER_EVENT)"
| "payload_ok t (Error e) = (t = EVENT_ERROR)"

definition event_ok :: "event_t \<Rightarrow> bool" where
  "event_ok ev = payload_ok (event_type (header ev)) (payload ev)"

text \<open>The updates an update event carries: the first \<open>count\<close> entries of its array.\<close>

definition carried :: "update_event_t \<Rightarrow> property_update_t list" where
  "carried u = take (unat (upd_count u)) (updates u)"

lemma event_ok_update:
  assumes "event_ok ev" "event_type (header ev) = EVENT_UPDATE"
  obtains u where "payload ev = Update u" "as_update ev = Some u"
    "length (updates u) = MAX_VARS_PER_EVENT" "unat (upd_count u) \<le> MAX_VARS_PER_EVENT"
  using assms
  by (cases "payload ev") (auto simp: event_ok_def as_update_def event_type_defs)

lemma event_ok_error:
  assumes "event_ok ev" "event_type (header ev) = EVENT_ERROR"
  obtains e where "payload ev = Error e" "as_error ev = Some e"
  using assms
  by (cases "payload ev") (auto simp: event_ok_def as_error_def event_type_defs)

subsection \<open>Latency log\<close>

text \<open>
  The measurement log of the engine (\<open>history_log\<close>, \<open>log_index\<close> and their second pair):
  an array of \<open>MAX_HISTORY_RECORDS\<close> records, here a function on indices, and an atomic
  unsigned counter.
\<close>

definition MAX_HISTORY_RECORDS :: nat where
  "MAX_HISTORY_RECORDS = 5000000"

record TimeSeriesRecord =
  timestamp_ns :: u64
  ts_value :: f32
  ts_twin_id :: u32

record history_t =
  log_index :: u32
  history_log :: "nat \<Rightarrow> TimeSeriesRecord"

definition atomic_fetch_add :: "history_t \<Rightarrow> u32 \<times> history_t" where
  "atomic_fetch_add h = (log_index h, h\<lparr>log_index := log_index h + 1\<rparr>)"

end
