(* ===== verification/Event_Queue.thy ===== *)
theory Event_Queue
  imports Event_Types
begin

text \<open>
  The ring buffer between the stages of the engine (\<open>engine/src/event_queue.c\<close>) and its
  contract, a bounded first-in first-out queue.  \<open>head\<close> is the next slot to write, \<open>tail\<close> the
  next slot to read and one slot stays free, so the queue holds \<open>QUEUE_SIZE - 1\<close> events.  The
  locale \<open>bounded_fifo\<close> is the interface the parser, the dispatcher and the processor rely on;
  the ring buffer is its interpretation \<open>ring\<close>.
\<close>

subsection \<open>The interface: a bounded queue\<close>

locale bounded_fifo =
  fixes inv :: "'q \<Rightarrow> bool"
    and content :: "'q \<Rightarrow> 'e list"
    and capacity :: nat
    and push :: "'q \<Rightarrow> 'e \<Rightarrow> int \<times> 'q"
    and pop :: "'q \<Rightarrow> 'e \<Rightarrow> int \<times> 'e \<times> 'q"
  assumes content_bound: "inv q \<Longrightarrow> length (content q) \<le> capacity"
    and push_inv: "inv q \<Longrightarrow> inv (snd (push q e))"
    and push_room: "inv q \<Longrightarrow> length (content q) < capacity \<Longrightarrow>
      fst (push q e) = 0 \<and> content (snd (push q e)) = content q @ [e]"
    and push_full: "inv q \<Longrightarrow> length (content q) = capacity \<Longrightarrow> push q e = (- 1, q)"
    and pop_inv: "inv q \<Longrightarrow> inv (snd (snd (pop q e)))"
    and pop_empty: "inv q \<Longrightarrow> content q = [] \<Longrightarrow> pop q e = (- 1, e, q)"
    and pop_first: "inv q \<Longrightarrow> content q = x # xs \<Longrightarrow>
      fst (pop q e) = 0 \<and> fst (snd (pop q e)) = x \<and> content (snd (snd (pop q e))) = xs"
begin

text \<open>Pushing events one after the other, ignoring the return codes as the engine does.\<close>

fun push_all :: "'q \<Rightarrow> 'e list \<Rightarrow> 'q" where
  "push_all q [] = q"
| "push_all q (e # es) = push_all (snd (push q e)) es"

lemma push_content:
  assumes "inv q"
  shows "content (snd (push q e)) = take capacity (content q @ [e])"
proof (cases "length (content q) < capacity")
  case True
  with assms show ?thesis using push_room [of q e] by simp
next
  case False
  with assms have "length (content q) = capacity" using content_bound [of q] by simp
  with assms show ?thesis using push_full [of q e] by simp
qed

lemma push_all_inv: "inv q \<Longrightarrow> inv (push_all q es)"
  by (induction es arbitrary: q) (auto intro: push_inv)

text \<open>Events that no longer fit are dropped: the first \<open>capacity\<close> are kept, in order.\<close>

lemma push_all_content:
  "inv q \<Longrightarrow> content (push_all q es) = take capacity (content q @ es)"
proof (induction es arbitrary: q)
  case Nil
  then show ?case using content_bound [of q] by simp
next
  case (Cons e es)
  have "content (push_all q (e # es)) = take capacity (take capacity (content q @ [e]) @ es)"
    using Cons.IH [of "snd (push q e)"] push_inv [of q e] Cons.prems push_content [of q e]
    by simp
  also have "\<dots> = take capacity ((content q @ [e]) @ es)"
    by (rule take_take_append)
  finally show ?case by simp
qed

lemma push_code:
  assumes "inv q"
  shows "fst (push q e) = (if length (content q) < capacity then 0 else - 1)"
  using push_room [OF assms] push_full [OF assms, of e] content_bound [OF assms]
  by (cases "length (content q) < capacity") auto

lemma pop_code:
  assumes "inv q"
  shows "fst (pop q e) = (if content q = [] then - 1 else 0)"
  using assms pop_empty [OF assms, of e] pop_first [OF assms] by (cases "content q") auto

lemma pop_content:
  assumes "inv q"
  shows "content (snd (snd (pop q e))) = tl (content q)"
  using assms pop_empty [OF assms, of e] pop_first [OF assms] by (cases "content q") auto

end

subsection \<open>The ring buffer\<close>

record event_queue_t =
  buffer :: "event_t list"
  head :: nat
  tail :: nat

definition init_queue :: "event_queue_t \<Rightarrow> event_queue_t" where
  "init_queue q = q\<lparr>head := 0, tail := 0\<rparr>"

definition push_event :: "event_queue_t \<Rightarrow> event_t \<Rightarrow> int \<times> event_queue_t" where
  "push_event q event =
     (let next_head = (head q + 1) mod QUEUE_SIZE in
      if next_head = tail q then (- 1, q)
      else (0, q\<lparr>buffer := (buffer q)[head q := event], head := next_head\<rparr>))"

text \<open>\<open>event\<close> is what the caller's \<open>*event\<close> holds before; it is untouched on an empty queue.\<close>

definition pop_event :: "event_queue_t \<Rightarrow> event_t \<Rightarrow> int \<times> event_t \<times> event_queue_t" where
  "pop_event q event =
     (if head q = tail q then (- 1, event, q)
      else (0, buffer q ! tail q, q\<lparr>tail := (tail q + 1) mod QUEUE_SIZE\<rparr>))"

definition queue_ok :: "event_queue_t \<Rightarrow> bool" where
  "queue_ok q \<longleftrightarrow>
     length (buffer q) = QUEUE_SIZE \<and> head q < QUEUE_SIZE \<and> tail q < QUEUE_SIZE"

definition queue_length :: "event_queue_t \<Rightarrow> nat" where
  "queue_length q = (head q + QUEUE_SIZE - tail q) mod QUEUE_SIZE"

definition queue_content :: "event_queue_t \<Rightarrow> event_t list" where
  "queue_content q = map (\<lambda>i. buffer q ! ((tail q + i) mod QUEUE_SIZE)) [0..<queue_length q]"

subsection \<open>Arithmetic of the ring\<close>

text \<open>Distances on a ring of \<open>n\<close> slots, without \<open>mod\<close>.\<close>

lemma ring_dist:
  fixes h n t :: nat
  assumes "h < n" "t < n"
  shows "(h + n - t) mod n = (if t \<le> h then h - t else h + n - t)"
proof (cases "t \<le> h")
  case True
  then have "h + n - t = (h - t) + n" by simp
  then have "(h + n - t) mod n = (h - t) mod n" by (simp only: mod_add_self2)
  with True assms show ?thesis by simp
qed (use assms in simp)

lemma ring_next: "h < n \<Longrightarrow> Suc h mod n = (if Suc h = n then 0 else Suc h)" for h n :: nat
  by simp

lemma ring_index:
  fixes t n i :: nat
  assumes "t < n" "i < n"
  shows "(t + i) mod n = (if t + i < n then t + i else t + i - n)"
  using assms by (simp add: mod_if)

lemma ring_end: "h < n \<Longrightarrow> t < n \<Longrightarrow> (t + (h + n - t) mod n) mod n = h" for h n t :: nat
  by (cases "t \<le> h") (simp_all add: ring_dist)

lemma ring_full:
  fixes h n t :: nat
  assumes "h < n" "t < n"
  shows "Suc h mod n = t \<longleftrightarrow> (h + n - t) mod n = n - 1"
  unfolding ring_next [OF assms(1)] ring_dist [OF assms] using assms by auto

lemma ring_advance_head:
  fixes h n t :: nat
  assumes "h < n" "t < n" "Suc h mod n \<noteq> t"
  shows "(Suc h mod n + n - t) mod n = Suc ((h + n - t) mod n)"
proof -
  have "Suc h mod n < n" using assms(1) by simp
  from ring_dist [OF this assms(2)] ring_dist [OF assms(1,2)] assms show ?thesis
    unfolding ring_next [OF assms(1)] by (auto split: if_splits)
qed

lemma ring_advance_tail:
  fixes h n t :: nat
  assumes "h < n" "t < n" "h \<noteq> t"
  shows "(h + n - t) mod n = Suc ((h + n - Suc t mod n) mod n)"
proof -
  have "Suc t mod n < n" using assms(1) by simp
  from ring_dist [OF assms(1) this] ring_dist [OF assms(1,2)] assms show ?thesis
    unfolding ring_next [OF assms(2)] by (auto split: if_splits)
qed

lemma queue_length_bound: "queue_ok q \<Longrightarrow> queue_length q < QUEUE_SIZE"
  by (simp add: queue_length_def queue_ok_def config_defs)

lemma length_queue_content [simp]: "length (queue_content q) = queue_length q"
  by (simp add: queue_content_def)

lemma queue_full_iff:
  "queue_ok q \<Longrightarrow> Suc (head q) mod QUEUE_SIZE = tail q \<longleftrightarrow> queue_length q = QUEUE_SIZE - 1"
  using ring_full [of "head q" QUEUE_SIZE "tail q"]
  by (simp add: queue_ok_def queue_length_def)

lemma queue_empty_iff:
  assumes "queue_ok q"
  shows "head q = tail q \<longleftrightarrow> queue_length q = 0"
  using assms by (auto simp: queue_ok_def queue_length_def ring_dist split: if_splits)

lemma queue_slot_not_head:
  assumes "queue_ok q" "i < queue_length q"
  shows "(tail q + i) mod QUEUE_SIZE \<noteq> head q"
proof -
  have "i < QUEUE_SIZE" using queue_length_bound assms by fastforce
  with assms show ?thesis
    by (auto simp: queue_ok_def queue_length_def ring_dist ring_index split: if_splits)
qed

subsection \<open>The operations on the abstract queue\<close>

lemma init_queue_ok:
  "length (buffer q) = QUEUE_SIZE \<Longrightarrow> queue_ok (init_queue q) \<and> queue_content (init_queue q) = []"
  by (simp add: init_queue_def queue_ok_def queue_content_def queue_length_def config_defs)

lemma push_event_ok: "queue_ok q \<Longrightarrow> queue_ok (snd (push_event q e))"
  by (simp add: queue_ok_def push_event_def Let_def config_defs)

lemma push_event_full:
  "queue_ok q \<Longrightarrow> queue_length q = QUEUE_SIZE - 1 \<Longrightarrow> push_event q e = (- 1, q)"
  using queue_full_iff [of q] by (simp add: push_event_def)

lemma push_event_room:
  assumes ok: "queue_ok q" and room: "queue_length q < QUEUE_SIZE - 1"
  shows "fst (push_event q e) = 0 \<and> queue_content (snd (push_event q e)) = queue_content q @ [e]"
proof -
  define q' where "q' = q\<lparr>buffer := (buffer q)[head q := e], head := (head q + 1) mod QUEUE_SIZE\<rparr>"
  have push: "push_event q e = (0, q')"
    using room queue_full_iff [OF ok] by (simp add: push_event_def q'_def)
  have len: "queue_length q' = Suc (queue_length q)"
    using ok room queue_full_iff [OF ok] ring_advance_head [of "head q" QUEUE_SIZE "tail q"]
    by (simp add: queue_ok_def queue_length_def q'_def)
  have old: "buffer q' ! ((tail q' + i) mod QUEUE_SIZE) = buffer q ! ((tail q + i) mod QUEUE_SIZE)"
    if "i < queue_length q" for i
    using queue_slot_not_head [OF ok that] by (simp add: q'_def)
  have new: "buffer q' ! ((tail q' + queue_length q) mod QUEUE_SIZE) = e"
    using ok by (simp add: q'_def queue_length_def ring_end queue_ok_def)
  show ?thesis
    by (simp add: push queue_content_def len old new)
qed

lemma pop_event_ok: "queue_ok q \<Longrightarrow> queue_ok (snd (snd (pop_event q e)))"
  by (simp add: queue_ok_def pop_event_def config_defs)

lemma pop_event_empty:
  "queue_ok q \<Longrightarrow> queue_content q = [] \<Longrightarrow> pop_event q e = (- 1, e, q)"
  using queue_empty_iff [of q] length_queue_content [of q] by (simp add: pop_event_def)

lemma pop_event_first:
  assumes ok: "queue_ok q" and content: "queue_content q = x # xs"
  shows "fst (pop_event q e) = 0 \<and> fst (snd (pop_event q e)) = x \<and>
    queue_content (snd (snd (pop_event q e))) = xs"
proof -
  have pos: "0 < queue_length q" using content length_queue_content [of q] by simp
  define q' where "q' = q\<lparr>tail := (tail q + 1) mod QUEUE_SIZE\<rparr>"
  have pop: "pop_event q e = (0, buffer q ! tail q, q')"
    using pos queue_empty_iff [OF ok] by (simp add: pop_event_def q'_def)
  have len: "queue_length q = Suc (queue_length q')"
    using ok pos queue_empty_iff [OF ok] ring_advance_tail [of "head q" QUEUE_SIZE "tail q"]
    by (simp add: queue_ok_def queue_length_def q'_def)
  have slot: "(tail q' + i) mod QUEUE_SIZE = (tail q + Suc i) mod QUEUE_SIZE" for i
    by (simp add: q'_def mod_simps)
  have same: "buffer q' = buffer q" by (simp add: q'_def)
  have "queue_content q = buffer q ! (tail q mod QUEUE_SIZE) # queue_content q'"
    unfolding queue_content_def len map_upt_Suc by (simp only: slot same add_0_right)
  moreover have "tail q mod QUEUE_SIZE = tail q" using ok by (simp add: queue_ok_def)
  ultimately show ?thesis using content by (simp add: pop)
qed

interpretation ring: bounded_fifo queue_ok queue_content "QUEUE_SIZE - 1" push_event pop_event
  using queue_length_bound
  by unfold_locales
    (auto intro: push_event_ok push_event_full pop_event_ok pop_event_empty
      simp: push_event_room pop_event_first less_Suc_eq_le [symmetric] config_defs)

subsection \<open>Sequences of calls\<close>

text \<open>
  Any sequence of calls to the ring buffer, and the same calls on a list that takes an event as
  long as it holds fewer than \<open>QUEUE_SIZE - 1\<close>.  A call gives its return code and, for a
  successful pop, the event.
\<close>

datatype queue_op = Push event_t | Pop

type_synonym queue_result = "int \<times> event_t option"

fun ring_op :: "event_t \<Rightarrow> queue_op \<Rightarrow> event_queue_t \<Rightarrow> queue_result \<times> event_queue_t" where
  "ring_op e0 (Push e) q = (case push_event q e of (rc, q) \<Rightarrow> ((rc, None), q))"
| "ring_op e0 Pop q =
     (case pop_event q e0 of (rc, e, q) \<Rightarrow> ((rc, if rc = 0 then Some e else None), q))"

fun fifo_op :: "queue_op \<Rightarrow> event_t list \<Rightarrow> queue_result \<times> event_t list" where
  "fifo_op (Push e) es =
     (if length es < QUEUE_SIZE - 1 then ((0, None), es @ [e]) else ((- 1, None), es))"
| "fifo_op Pop [] = ((- 1, None), [])"
| "fifo_op Pop (e # es) = ((0, Some e), es)"

fun ring_run :: "event_t \<Rightarrow> queue_op list \<Rightarrow> event_queue_t \<Rightarrow> queue_result list \<times> event_queue_t"
  where
  "ring_run e0 [] q = ([], q)"
| "ring_run e0 (op # ops) q =
     (case ring_op e0 op q of (r, q) \<Rightarrow> (case ring_run e0 ops q of (rs, q) \<Rightarrow> (r # rs, q)))"

fun fifo_run :: "queue_op list \<Rightarrow> event_t list \<Rightarrow> queue_result list \<times> event_t list" where
  "fifo_run [] es = ([], es)"
| "fifo_run (op # ops) es =
     (case fifo_op op es of (r, es) \<Rightarrow> (case fifo_run ops es of (rs, es) \<Rightarrow> (r # rs, es)))"

lemma ring_op_simulates:
  assumes "queue_ok q"
  shows "queue_ok (snd (ring_op e0 op q)) \<and> fst (ring_op e0 op q) = fst (fifo_op op (queue_content q)) \<and>
    queue_content (snd (ring_op e0 op q)) = snd (fifo_op op (queue_content q))"
proof (cases op)
  case (Push e)
  then show ?thesis
    using push_event_ok [OF assms, of e] push_event_room [OF assms, of e]
      push_event_full [OF assms, of e] ring.content_bound [OF assms]
    by (cases "queue_length q < QUEUE_SIZE - 1") (auto simp: split_beta)
next
  case Pop
  show ?thesis
  proof (cases "queue_content q")
    case Nil
    then show ?thesis using Pop pop_event_empty [OF assms Nil] assms by simp
  next
    case (Cons x xs)
    then show ?thesis
      using Pop pop_event_first [OF assms Cons, of e0] pop_event_ok [OF assms, of e0]
      by (auto split: prod.split)
  qed
qed

lemma ring_run_simulates:
  "queue_ok q \<Longrightarrow> queue_ok (snd (ring_run e0 ops q)) \<and>
   fst (ring_run e0 ops q) = fst (fifo_run ops (queue_content q)) \<and>
   queue_content (snd (ring_run e0 ops q)) = snd (fifo_run ops (queue_content q))"
proof (induction ops arbitrary: q)
  case (Cons op ops)
  then show ?case
    using ring_op_simulates [OF Cons.prems, of e0 op]
    by (auto simp: split_beta)
qed simp

text \<open>
  C2. Whatever sequence of \<open>push_event\<close> and \<open>pop_event\<close> is called, the ring buffer returns the
  codes and the events a bounded first-in first-out queue returns, and holds what it holds:
  nothing is lost, duplicated, overwritten or reordered while the indices wrap around.
\<close>

theorem event_queue_refines_fifo:
  assumes "queue_ok q"
  shows "fst (ring_run e0 ops q) = fst (fifo_run ops (queue_content q)) \<and>
    queue_content (snd (ring_run e0 ops q)) = snd (fifo_run ops (queue_content q))"
  using ring_run_simulates [OF assms] by blast

text \<open>A queue in zeroed static storage.\<close>

definition zero_event :: event_t where
  "zero_event =
     \<lparr>header = \<lparr>event_type = 0, timestamp = 0, deviation = 0, twin_id = 0\<rparr>,
      payload = Update \<lparr>upd_count = 0, updates = replicate MAX_VARS_PER_EVENT
        \<lparr>upd_var_id = 0, upd_value = 0, destiny_url = replicate 16 0\<rparr>\<rparr>\<rparr>"

definition zero_queue :: event_queue_t where
  "zero_queue = \<lparr>buffer = replicate QUEUE_SIZE zero_event, head = 0, tail = 0\<rparr>"

lemma zero_queue_ok [simp]: "queue_ok zero_queue" "queue_content zero_queue = []"
  by (simp_all add: zero_queue_def queue_ok_def queue_content_def queue_length_def config_defs)

theorem event_queue_refines_fifo_witness:
  "queue_ok zero_queue \<and>
   fst (ring_run zero_event [Pop, Push zero_event, Pop, Pop] zero_queue) =
     [(- 1, None), (0, None), (0, Some zero_event), (- 1, None)]"
  using event_queue_refines_fifo [of zero_queue zero_event "[Pop, Push zero_event, Pop, Pop]"]
  by (simp add: config_defs)

end
