(* ===== verification/Byte_Order.thy ===== *)
theory Byte_Order
  imports Prelude
begin

text \<open>
  The load and store macros of \<open>engine/include/external/cwpack_internals.h\<close>.  The header has
  three versions of each, chosen by \<open>cwpack_config.h\<close>: for a big-endian processor (a plain
  memory access), for a little-endian one (the value is byte-swapped with shifts and masks
  around a plain access), and for an unknown byte order (one byte at a time).  A store is
  modelled by the bytes it leaves at \<open>p[0], p[1], ...\<close> and a load by its value from those
  bytes; a plain access is \<open>native_*\<close> in the byte order of the processor.  The lemmas show that
  the three versions agree and that they are the big-endian sequences of the wire format.
\<close>

unbundle bit_operations_syntax

subsection \<open>Plain memory accesses of the two kinds of processor\<close>

definition native_store16_le :: "u16 \<Rightarrow> byte list" where
  "native_store16_le x = [ucast x, ucast (drop_bit 8 x)]"

definition native_store32_le :: "u32 \<Rightarrow> byte list" where
  "native_store32_le x =
     [ucast x, ucast (drop_bit 8 x), ucast (drop_bit 16 x), ucast (drop_bit 24 x)]"

definition native_store64_le :: "u64 \<Rightarrow> byte list" where
  "native_store64_le x =
     [ucast x, ucast (drop_bit 8 x), ucast (drop_bit 16 x), ucast (drop_bit 24 x),
      ucast (drop_bit 32 x), ucast (drop_bit 40 x), ucast (drop_bit 48 x), ucast (drop_bit 56 x)]"

definition native_load16_le :: "byte \<Rightarrow> byte \<Rightarrow> u16" where
  "native_load16_le b0 b1 = of_be16 b1 b0"

definition native_load32_le :: "byte \<Rightarrow> byte \<Rightarrow> byte \<Rightarrow> byte \<Rightarrow> u32" where
  "native_load32_le b0 b1 b2 b3 = of_be32 b3 b2 b1 b0"

definition native_load64_le ::
  "byte \<Rightarrow> byte \<Rightarrow> byte \<Rightarrow> byte \<Rightarrow> byte \<Rightarrow> byte \<Rightarrow> byte \<Rightarrow> byte \<Rightarrow> u64" where
  "native_load64_le b0 b1 b2 b3 b4 b5 b6 b7 = of_be64 b7 b6 b5 b4 b3 b2 b1 b0"

subsection \<open>Stores\<close>

text \<open>\<open>COMPILE_FOR_BIG_ENDIAN\<close>: the value itself.\<close>

definition cw_store16_be :: "u64 \<Rightarrow> byte list" where
  "cw_store16_be x = be16 (ucast x)"

definition cw_store32_be :: "u64 \<Rightarrow> byte list" where
  "cw_store32_be x = be32 (ucast x)"

definition cw_store64_be :: "u64 \<Rightarrow> byte list" where
  "cw_store64_be x = be64 x"

text \<open>\<open>COMPILE_FOR_LITTLE_ENDIAN\<close>: swapped by shifts and masks, then stored.\<close>

definition cw_store16_le :: "u64 \<Rightarrow> byte list" where
  "cw_store16_le d =
     native_store16_le (ucast ((drop_bit 8 d AND 0x0ff) OR push_bit 8 d))"

definition cw_store32_le :: "u64 \<Rightarrow> byte list" where
  "cw_store32_le d =
     (let x = (ucast d :: u32) in
      native_store32_le
        (drop_bit 24 x OR drop_bit 8 (x AND 0x00ff0000) OR push_bit 8 (x AND 0x0000ff00) OR
         push_bit 24 x))"

definition cw_store64_le :: "u64 \<Rightarrow> byte list" where
  "cw_store64_le x =
     native_store64_le
       (((drop_bit 40 x OR push_bit 24 x) AND 0x0000ff000000ff00) OR
        ((drop_bit 24 x OR push_bit 40 x) AND 0x00ff000000ff0000) OR
        drop_bit 8 (x AND 0x000000ff00000000) OR
        push_bit 8 (x AND 0x00000000ff000000) OR
        drop_bit 56 x OR
        push_bit 56 x)"

text \<open>Byte order undetermined: one byte after the other.\<close>

definition cw_store16_any :: "u64 \<Rightarrow> byte list" where
  "cw_store16_any d = [ucast (drop_bit 8 d), ucast d]"

definition cw_store32_any :: "u64 \<Rightarrow> byte list" where
  "cw_store32_any d =
     [ucast (drop_bit 24 d), ucast (drop_bit 16 d), ucast (drop_bit 8 d), ucast d]"

definition cw_store64_any :: "u64 \<Rightarrow> byte list" where
  "cw_store64_any z =
     [ucast (drop_bit 56 z), ucast (drop_bit 48 z), ucast (drop_bit 40 z), ucast (drop_bit 32 z),
      ucast (drop_bit 24 z), ucast (drop_bit 16 z), ucast (drop_bit 8 z), ucast z]"

lemma cw_store16_le_be [word_bytes]: "cw_store16_le d = be16 (ucast d)"
proof -
  have swap: "ucast ((drop_bit 8 d AND 0x0ff) OR push_bit 8 d)
      = of_be16 (ucast d) (ucast (drop_bit 8 d))"
    unfolding of_be16_def by (rule word_bitsI) (simp add: upt_word_bits bit_simps)
  have low: "ucast (of_be16 a b) = b" and high: "ucast (drop_bit 8 (of_be16 a b)) = a" for a b
    unfolding of_be16_def
    by (rule word_bitsI, simp add: upt_word_bits bit_simps word_bit_beyond)+
  have "(ucast (drop_bit 8 d) :: byte) = ucast (drop_bit 8 (ucast d :: u16))"
    by (rule word_bitsI) (simp add: upt_word_bits bit_simps)
  moreover have "(ucast d :: byte) = ucast (ucast d :: u16)"
    by (rule word_bitsI) (simp add: upt_word_bits bit_simps)
  ultimately show ?thesis
    by (simp only: cw_store16_le_def native_store16_le_def be16_def swap low high)
qed

lemma cw_store32_le_be [word_bytes]: "cw_store32_le d = be32 (ucast d)"
proof -
  have swap: "drop_bit 24 x OR drop_bit 8 (x AND 0x00ff0000) OR push_bit 8 (x AND 0x0000ff00) OR
      push_bit 24 x
      = of_be32 (ucast x) (ucast (drop_bit 8 x)) (ucast (drop_bit 16 x)) (ucast (drop_bit 24 x))"
    for x :: u32
    unfolding of_be32_def
    by (rule word_bitsI) (simp add: upt_word_bits bit_simps word_bit_beyond)
  have bytes:
    "ucast (of_be32 a b c e) = e" "ucast (drop_bit 8 (of_be32 a b c e)) = c"
    "ucast (drop_bit 16 (of_be32 a b c e)) = b" "ucast (drop_bit 24 (of_be32 a b c e)) = a"
    for a b c e
    unfolding of_be32_def
    by (rule word_bitsI, simp add: upt_word_bits bit_simps word_bit_beyond)+
  show ?thesis
    by (simp only: cw_store32_le_def Let_def native_store32_le_def be32_def swap bytes)
qed

lemma of_be64_split:
  "ucast (of_be64 a b c d e f g h) = h"
  "ucast (drop_bit 8 (of_be64 a b c d e f g h)) = g"
  "ucast (drop_bit 16 (of_be64 a b c d e f g h)) = f"
  "ucast (drop_bit 24 (of_be64 a b c d e f g h)) = e"
  "ucast (drop_bit 32 (of_be64 a b c d e f g h)) = d"
  "ucast (drop_bit 40 (of_be64 a b c d e f g h)) = c"
  "ucast (drop_bit 48 (of_be64 a b c d e f g h)) = b"
  "ucast (drop_bit 56 (of_be64 a b c d e f g h)) = a"
  unfolding of_be64_def
  by (rule word_bitsI, simp add: upt_word_bits bit_simps word_bit_beyond)+

lemma swap64:
  "((drop_bit 40 x OR push_bit 24 x) AND 0x0000ff000000ff00) OR
   ((drop_bit 24 x OR push_bit 40 x) AND 0x00ff000000ff0000) OR
   drop_bit 8 (x AND 0x000000ff00000000) OR push_bit 8 (x AND 0x00000000ff000000) OR
   drop_bit 56 x OR push_bit 56 (x :: u64)
   = of_be64 (ucast x) (ucast (drop_bit 8 x)) (ucast (drop_bit 16 x)) (ucast (drop_bit 24 x))
       (ucast (drop_bit 32 x)) (ucast (drop_bit 40 x)) (ucast (drop_bit 48 x))
       (ucast (drop_bit 56 x))"
  unfolding of_be64_def
  by (rule word_bitsI) (simp add: upt_word_bits bit_simps word_bit_beyond)

lemma cw_store64_le_be [word_bytes]: "cw_store64_le x = be64 x"
  by (simp only: cw_store64_le_def native_store64_le_def be64_def swap64 of_be64_split)

lemma cw_store_any_be [word_bytes]:
  "cw_store16_any d = be16 (ucast d)" "cw_store32_any d = be32 (ucast d)"
  "cw_store64_any d = be64 d"
proof -
  have "(ucast d :: byte) = ucast (ucast d :: u16)"
    and "(ucast (drop_bit 8 d) :: byte) = ucast (drop_bit 8 (ucast d :: u16))"
    by (rule word_bitsI, simp add: upt_word_bits bit_simps)+
  then show "cw_store16_any d = be16 (ucast d)"
    by (simp only: cw_store16_any_def be16_def)
  have "(ucast d :: byte) = ucast (ucast d :: u32)"
    and "(ucast (drop_bit 8 d) :: byte) = ucast (drop_bit 8 (ucast d :: u32))"
    and "(ucast (drop_bit 16 d) :: byte) = ucast (drop_bit 16 (ucast d :: u32))"
    and "(ucast (drop_bit 24 d) :: byte) = ucast (drop_bit 24 (ucast d :: u32))"
    by (rule word_bitsI, simp add: upt_word_bits bit_simps)+
  then show "cw_store32_any d = be32 (ucast d)"
    by (simp only: cw_store32_any_def be32_def)
  show "cw_store64_any d = be64 d"
    by (simp only: cw_store64_any_def be64_def)
qed

subsection \<open>Loads\<close>

definition cw_load16_be :: "byte \<Rightarrow> byte \<Rightarrow> u16" where
  "cw_load16_be b0 b1 = of_be16 b0 b1"

definition cw_load32_be :: "byte \<Rightarrow> byte \<Rightarrow> byte \<Rightarrow> byte \<Rightarrow> u32" where
  "cw_load32_be b0 b1 b2 b3 = of_be32 b0 b1 b2 b3"

definition cw_load64_be ::
  "byte \<Rightarrow> byte \<Rightarrow> byte \<Rightarrow> byte \<Rightarrow> byte \<Rightarrow> byte \<Rightarrow> byte \<Rightarrow> byte \<Rightarrow> u64" where
  "cw_load64_be b0 b1 b2 b3 b4 b5 b6 b7 = of_be64 b0 b1 b2 b3 b4 b5 b6 b7"

definition cw_load16_le :: "byte \<Rightarrow> byte \<Rightarrow> u16" where
  "cw_load16_le b0 b1 =
     (let tmpu16 = native_load16_le b0 b1 in push_bit 8 tmpu16 OR drop_bit 8 tmpu16)"

definition cw_load32_le :: "byte \<Rightarrow> byte \<Rightarrow> byte \<Rightarrow> byte \<Rightarrow> u32" where
  "cw_load32_le b0 b1 b2 b3 =
     (let tmpu32 = native_load32_le b0 b1 b2 b3 in
      push_bit 24 tmpu32 OR push_bit 8 (tmpu32 AND 0xff00) OR
      drop_bit 8 (tmpu32 AND 0xff0000) OR drop_bit 24 tmpu32)"

definition cw_load64_le ::
  "byte \<Rightarrow> byte \<Rightarrow> byte \<Rightarrow> byte \<Rightarrow> byte \<Rightarrow> byte \<Rightarrow> byte \<Rightarrow> byte \<Rightarrow> u64" where
  "cw_load64_le b0 b1 b2 b3 b4 b5 b6 b7 =
     (let tmpu64 = native_load64_le b0 b1 b2 b3 b4 b5 b6 b7 in
      ((drop_bit 40 tmpu64 OR push_bit 24 tmpu64) AND 0x0000ff000000ff00) OR
      ((drop_bit 24 tmpu64 OR push_bit 40 tmpu64) AND 0x00ff000000ff0000) OR
      drop_bit 8 (tmpu64 AND 0x000000ff00000000) OR
      push_bit 8 (tmpu64 AND 0x00000000ff000000) OR
      drop_bit 56 tmpu64 OR
      push_bit 56 tmpu64)"

definition cw_load16_any :: "byte \<Rightarrow> byte \<Rightarrow> u16" where
  "cw_load16_any b0 b1 = (let tmpu16 = push_bit 8 (ucast b0) in tmpu16 OR ucast b1)"

definition cw_load32_any :: "byte \<Rightarrow> byte \<Rightarrow> byte \<Rightarrow> byte \<Rightarrow> u32" where
  "cw_load32_any b0 b1 b2 b3 =
     (let tmpu32 = push_bit 24 (ucast b0);
          tmpu32 = tmpu32 OR push_bit 16 (ucast b1);
          tmpu32 = tmpu32 OR push_bit 8 (ucast b2)
      in tmpu32 OR ucast b3)"

definition cw_load64_any ::
  "byte \<Rightarrow> byte \<Rightarrow> byte \<Rightarrow> byte \<Rightarrow> byte \<Rightarrow> byte \<Rightarrow> byte \<Rightarrow> byte \<Rightarrow> u64" where
  "cw_load64_any b0 b1 b2 b3 b4 b5 b6 b7 =
     (let tmpu64 = push_bit 56 (ucast b0);
          tmpu64 = tmpu64 OR push_bit 48 (ucast b1);
          tmpu64 = tmpu64 OR push_bit 40 (ucast b2);
          tmpu64 = tmpu64 OR push_bit 32 (ucast b3);
          tmpu64 = tmpu64 OR push_bit 24 (ucast b4);
          tmpu64 = tmpu64 OR push_bit 16 (ucast b5);
          tmpu64 = tmpu64 OR push_bit 8 (ucast b6)
      in tmpu64 OR ucast b7)"

lemma cw_load16_le_be [word_bytes]: "cw_load16_le b0 b1 = of_be16 b0 b1"
  unfolding cw_load16_le_def native_load16_le_def of_be16_def Let_def
  by (rule word_bitsI) (simp add: upt_word_bits bit_simps word_bit_beyond)

lemma cw_load32_le_be [word_bytes]: "cw_load32_le b0 b1 b2 b3 = of_be32 b0 b1 b2 b3"
  unfolding cw_load32_le_def native_load32_le_def of_be32_def Let_def
  by (rule word_bitsI) (simp add: upt_word_bits bit_simps word_bit_beyond)

lemma cw_load64_le_be [word_bytes]:
  "cw_load64_le b0 b1 b2 b3 b4 b5 b6 b7 = of_be64 b0 b1 b2 b3 b4 b5 b6 b7"
  by (simp only: cw_load64_le_def Let_def native_load64_le_def swap64 of_be64_split)

lemma cw_load_any_be [word_bytes]:
  "cw_load16_any b0 b1 = of_be16 b0 b1" "cw_load32_any b0 b1 b2 b3 = of_be32 b0 b1 b2 b3"
  "cw_load64_any b0 b1 b2 b3 b4 b5 b6 b7 = of_be64 b0 b1 b2 b3 b4 b5 b6 b7"
  by (simp_all add: cw_load16_any_def cw_load32_any_def cw_load64_any_def of_be16_def of_be32_def
      of_be64_def Let_def or.assoc)

lemmas byte_order_defs =
  cw_store16_be_def cw_store32_be_def cw_store64_be_def
  cw_load16_be_def cw_load32_be_def cw_load64_be_def

subsection \<open>The three versions agree\<close>

text \<open>
  The store macros of cwpack compiled for a big-endian processor, for a little-endian one and
  for an unknown byte order write the same bytes, for every value and every width.
\<close>

theorem store_versions_agree:
  "cw_store16_le d = cw_store16_be d \<and> cw_store16_any d = cw_store16_be d \<and>
   cw_store32_le d = cw_store32_be d \<and> cw_store32_any d = cw_store32_be d \<and>
   cw_store64_le d = cw_store64_be d \<and> cw_store64_any d = cw_store64_be d"
  by (simp add: word_bytes byte_order_defs)

end
