(* ===== verification/Cwpack_Pack.thy ===== *)
theory Cwpack_Pack
  imports Byte_Order
begin

text \<open>
  The packing half of cwpack (\<open>engine/include/external/cwpack.c\<close>, with the macros of
  \<open>cwpack_internals.h\<close>), the MessagePack encoder every sender of the engine uses.  A pack
  context holds the bytes from \<open>start\<close> to \<open>current\<close> (\<open>p_out\<close>) and the distance from \<open>start\<close> to
  \<open>end\<close> (\<open>p_end\<close>).  The overflow and flush handlers are function pointers: \<open>None\<close> is NULL, which
  is what every caller in the engine passes, and a handler maps the bytes written so far, the
  capacity and the number of bytes wanted to its return code, the bytes kept and the new
  capacity.  The macros that leave the enclosing function return \<open>Inl\<close>.  The little-endian
  versions of the store macros are used, as \<open>cwpack_config.h\<close> selects on the engine's targets.

  The second part relates every operation to the MessagePack encoding of an item
  (\<open>mp_encode\<close>, written from big-endian byte sequences only).
\<close>

unbundle bit_operations_syntax

subsection \<open>Return codes\<close>

definition CWP_RC_OK :: int where "CWP_RC_OK = 0"
definition CWP_RC_END_OF_INPUT :: int where "CWP_RC_END_OF_INPUT = - 1"
definition CWP_RC_BUFFER_OVERFLOW :: int where "CWP_RC_BUFFER_OVERFLOW = - 2"
definition CWP_RC_BUFFER_UNDERFLOW :: int where "CWP_RC_BUFFER_UNDERFLOW = - 3"
definition CWP_RC_MALFORMED_INPUT :: int where "CWP_RC_MALFORMED_INPUT = - 4"
definition CWP_RC_WRONG_BYTE_ORDER :: int where "CWP_RC_WRONG_BYTE_ORDER = - 5"
definition CWP_RC_ILLEGAL_CALL :: int where "CWP_RC_ILLEGAL_CALL = - 7"
definition CWP_RC_VALUE_ERROR :: int where "CWP_RC_VALUE_ERROR = - 11"
definition CWP_RC_WRONG_TIMESTAMP_LENGTH :: int where "CWP_RC_WRONG_TIMESTAMP_LENGTH = - 12"

lemmas rc_defs =
  CWP_RC_OK_def CWP_RC_END_OF_INPUT_def CWP_RC_BUFFER_OVERFLOW_def CWP_RC_BUFFER_UNDERFLOW_def
  CWP_RC_MALFORMED_INPUT_def CWP_RC_WRONG_BYTE_ORDER_def CWP_RC_ILLEGAL_CALL_def
  CWP_RC_VALUE_ERROR_def CWP_RC_WRONG_TIMESTAMP_LENGTH_def

subsection \<open>The context\<close>

type_synonym pack_overflow_handler = "byte list \<Rightarrow> nat \<Rightarrow> nat \<Rightarrow> int \<times> byte list \<times> nat"
type_synonym pack_flush_handler = "byte list \<Rightarrow> nat \<Rightarrow> int \<times> byte list \<times> nat"

record cw_pack_context =
  p_out :: "byte list"
  p_end :: nat
  be_compatible :: bool
  p_return_code :: int
  p_err_no :: int
  handle_pack_overflow :: "pack_overflow_handler option"
  handle_flush :: "pack_flush_handler option"

text \<open>
  \<open>test_byte_order\<close> compares the bytes of the string "1234" read as a 32-bit integer with the
  value a little-endian processor gives.
\<close>

definition test_byte_order :: int where
  "test_byte_order =
     (if native_load32_le 0x31 0x32 0x33 0x34 \<noteq> 0x34333231 then CWP_RC_WRONG_BYTE_ORDER
      else CWP_RC_OK)"

definition cw_pack_context_init :: "nat \<Rightarrow> pack_overflow_handler option \<Rightarrow> cw_pack_context" where
  "cw_pack_context_init len hpo =
     \<lparr>p_out = [], p_end = len, be_compatible = False, p_return_code = test_byte_order,
      p_err_no = 0, handle_pack_overflow = hpo, handle_flush = None\<rparr>"

definition cw_pack_set_compatibility :: "cw_pack_context \<Rightarrow> bool \<Rightarrow> cw_pack_context" where
  "cw_pack_set_compatibility pc b = pc\<lparr>be_compatible := b\<rparr>"

definition cw_pack_set_flush_handler ::
  "cw_pack_context \<Rightarrow> pack_flush_handler option \<Rightarrow> cw_pack_context" where
  "cw_pack_set_flush_handler pc h = pc\<lparr>handle_flush := h\<rparr>"

subsection \<open>The macros\<close>

definition PACK_ERROR :: "int \<Rightarrow> cw_pack_context \<Rightarrow> cw_pack_context" where
  "PACK_ERROR error_code pc = pc\<lparr>p_return_code := error_code\<rparr>"

definition cw_pack_new_buffer ::
  "nat \<Rightarrow> cw_pack_context \<Rightarrow> cw_pack_context + cw_pack_context" where
  "cw_pack_new_buffer wanted pc =
     (case handle_pack_overflow pc of
        None \<Rightarrow> Inl (PACK_ERROR CWP_RC_BUFFER_OVERFLOW pc)
      | Some h \<Rightarrow>
          (case h (p_out pc) (p_end pc) wanted of
             (rc, out, cap) \<Rightarrow>
               let pc = pc\<lparr>p_out := out, p_end := cap\<rparr> in
               if rc \<noteq> 0 then Inl (PACK_ERROR rc pc) else Inr pc))"

text \<open>
  The macro argument is either a constant or \<open>l + k\<close> with a 32-bit \<open>l\<close>.  It is pasted into
  \<open>p + l + k\<close>, which is pointer arithmetic, and into \<open>(unsigned long)(l + k)\<close>, a 32-bit sum;
  the first is what is reserved, the second what an overflow handler is told.
\<close>

definition cw_pack_reserve_space ::
  "u32 \<Rightarrow> nat \<Rightarrow> cw_pack_context \<Rightarrow> cw_pack_context + cw_pack_context" where
  "cw_pack_reserve_space l k pc =
     (if p_end pc < length (p_out pc) + unat l + k
      then cw_pack_new_buffer (unat (l + of_nat k)) pc
      else Inr pc)"

text \<open>The bytes stored from the reserved position on; \<open>current\<close> is then behind them.\<close>

definition cw_put :: "byte list \<Rightarrow> cw_pack_context \<Rightarrow> cw_pack_context" where
  "cw_put bs pc = pc\<lparr>p_out := p_out pc @ bs\<rparr>"

definition reserve_put :: "u32 \<Rightarrow> nat \<Rightarrow> byte list \<Rightarrow> cw_pack_context \<Rightarrow> cw_pack_context" where
  "reserve_put l k bs pc =
     finish (and_then (cw_pack_reserve_space l k pc) (\<lambda>pc. Inr (cw_put bs pc)))"

definition tryMove0 :: "byte \<Rightarrow> cw_pack_context \<Rightarrow> cw_pack_context" where
  "tryMove0 t pc =
     finish (and_then (if length (p_out pc) = p_end pc then cw_pack_new_buffer 1 pc else Inr pc)
       (\<lambda>pc. Inr (cw_put [t] pc)))"

definition tryMove1 :: "byte \<Rightarrow> u64 \<Rightarrow> cw_pack_context \<Rightarrow> cw_pack_context" where
  "tryMove1 t d pc = reserve_put 0 2 [t, ucast d] pc"

definition tryMove2 :: "byte \<Rightarrow> u64 \<Rightarrow> cw_pack_context \<Rightarrow> cw_pack_context" where
  "tryMove2 t d pc = reserve_put 0 3 (t # cw_store16_le d) pc"

definition tryMove4 :: "byte \<Rightarrow> u64 \<Rightarrow> cw_pack_context \<Rightarrow> cw_pack_context" where
  "tryMove4 t d pc = reserve_put 0 5 (t # cw_store32_le d) pc"

definition tryMove8 :: "byte \<Rightarrow> u64 \<Rightarrow> cw_pack_context \<Rightarrow> cw_pack_context" where
  "tryMove8 t d pc = reserve_put 0 9 (t # cw_store64_le d) pc"

subsection \<open>Packing routines\<close>

definition cw_pack_unsigned :: "cw_pack_context \<Rightarrow> u64 \<Rightarrow> cw_pack_context" where
  "cw_pack_unsigned pc i =
     (if p_return_code pc \<noteq> 0 then pc
      else if i < 128 then tryMove0 (ucast i) pc
      else if i < 256 then tryMove1 0xcc i pc
      else if i < 0x10000 then tryMove2 0xcd i pc
      else if i < 0x100000000 then tryMove4 0xce i pc
      else tryMove8 0xcf i pc)"

text \<open>The \<open>int64_t\<close> argument is the word whose \<open>sint\<close> it is.\<close>

definition cw_pack_signed :: "cw_pack_context \<Rightarrow> u64 \<Rightarrow> cw_pack_context" where
  "cw_pack_signed pc i =
     (if p_return_code pc \<noteq> 0 then pc
      else if 127 < sint i then
        (if sint i < 256 then tryMove1 0xcc i pc
         else if sint i < 0x10000 then tryMove2 0xcd i pc
         else if sint i < 0x100000000 then tryMove4 0xce i pc
         else tryMove8 0xcf i pc)
      else if - 32 \<le> sint i then tryMove0 (ucast i) pc
      else if - 128 \<le> sint i then tryMove1 0xd0 i pc
      else if - 32768 \<le> sint i then tryMove2 0xd1 i pc
      else if sint (0xffffffff80000000 :: u64) \<le> sint i then tryMove4 0xd2 i pc
      else tryMove8 0xd3 i pc)"

definition cw_pack_float :: "cw_pack_context \<Rightarrow> f32 \<Rightarrow> cw_pack_context" where
  "cw_pack_float pc f =
     (if p_return_code pc \<noteq> 0 then pc else tryMove4 0xca (ucast f) pc)"

definition cw_pack_double :: "cw_pack_context \<Rightarrow> u64 \<Rightarrow> cw_pack_context" where
  "cw_pack_double pc d = (if p_return_code pc \<noteq> 0 then pc else tryMove8 0xcb d pc)"

definition cw_pack_nil :: "cw_pack_context \<Rightarrow> cw_pack_context" where
  "cw_pack_nil pc = (if p_return_code pc \<noteq> 0 then pc else tryMove0 0xc0 pc)"

definition cw_pack_true :: "cw_pack_context \<Rightarrow> cw_pack_context" where
  "cw_pack_true pc = (if p_return_code pc \<noteq> 0 then pc else tryMove0 0xc3 pc)"

definition cw_pack_false :: "cw_pack_context \<Rightarrow> cw_pack_context" where
  "cw_pack_false pc = (if p_return_code pc \<noteq> 0 then pc else tryMove0 0xc2 pc)"

definition cw_pack_boolean :: "cw_pack_context \<Rightarrow> bool \<Rightarrow> cw_pack_context" where
  "cw_pack_boolean pc b =
     (if p_return_code pc \<noteq> 0 then pc else tryMove0 (if b then 0xc3 else 0xc2) pc)"

definition cw_pack_array_size :: "cw_pack_context \<Rightarrow> u32 \<Rightarrow> cw_pack_context" where
  "cw_pack_array_size pc n =
     (if p_return_code pc \<noteq> 0 then pc
      else if n < 16 then tryMove0 (0x90 OR ucast n) pc
      else if n < 65536 then tryMove2 0xdc (ucast n) pc
      else tryMove4 0xdd (ucast n) pc)"

definition cw_pack_map_size :: "cw_pack_context \<Rightarrow> u32 \<Rightarrow> cw_pack_context" where
  "cw_pack_map_size pc n =
     (if p_return_code pc \<noteq> 0 then pc
      else if n < 16 then tryMove0 (0x80 OR ucast n) pc
      else if n < 65536 then tryMove2 0xde (ucast n) pc
      else tryMove4 0xdf (ucast n) pc)"

text \<open>\<open>v\<close> is the memory behind the pointer argument, of which \<open>l\<close> bytes are copied.\<close>

definition cw_pack_str :: "cw_pack_context \<Rightarrow> byte list \<Rightarrow> u32 \<Rightarrow> cw_pack_context" where
  "cw_pack_str pc v l =
     (if p_return_code pc \<noteq> 0 then pc
      else if l < 32 then reserve_put l 1 ((0xa0 + ucast l) # take (unat l) v) pc
      else if l < 256 \<and> \<not> be_compatible pc then
        reserve_put l 2 (0xd9 # ucast l # take (unat l) v) pc
      else if l < 65536 then
        reserve_put l 3 (0xda # cw_store16_le (ucast l) @ take (unat l) v) pc
      else reserve_put l 5 (0xdb # cw_store32_le (ucast l) @ take (unat l) v) pc)"

definition cw_pack_bin :: "cw_pack_context \<Rightarrow> byte list \<Rightarrow> u32 \<Rightarrow> cw_pack_context" where
  "cw_pack_bin pc v l =
     (if p_return_code pc \<noteq> 0 then pc
      else if be_compatible pc then cw_pack_str pc v l
      else if l < 256 then reserve_put l 2 (0xc4 # ucast l # take (unat l) v) pc
      else if l < 65536 then
        reserve_put l 3 (0xc5 # cw_store16_le (ucast l) @ take (unat l) v) pc
      else reserve_put l 5 (0xc6 # cw_store32_le (ucast l) @ take (unat l) v) pc)"

definition cw_pack_ext :: "cw_pack_context \<Rightarrow> byte \<Rightarrow> byte list \<Rightarrow> u32 \<Rightarrow> cw_pack_context" where
  "cw_pack_ext pc typ v l =
     (if p_return_code pc \<noteq> 0 then pc
      else if be_compatible pc then PACK_ERROR CWP_RC_ILLEGAL_CALL pc
      else if l = 1 then reserve_put 0 3 (0xd4 # typ # take 1 v) pc
      else if l = 2 then reserve_put 0 4 (0xd5 # typ # take (unat l) v) pc
      else if l = 4 then reserve_put 0 6 (0xd6 # typ # take (unat l) v) pc
      else if l = 8 then reserve_put 0 10 (0xd7 # typ # take (unat l) v) pc
      else if l = 16 then reserve_put 0 18 (0xd8 # typ # take (unat l) v) pc
      else if l < 256 then reserve_put l 3 (0xc7 # ucast l # typ # take (unat l) v) pc
      else if l < 65536 then
        reserve_put l 4 (0xc8 # cw_store16_le (ucast l) @ typ # take (unat l) v) pc
      else reserve_put l 6 (0xc9 # cw_store32_le (ucast l) @ typ # take (unat l) v) pc)"

definition cw_pack_time :: "cw_pack_context \<Rightarrow> u64 \<Rightarrow> u32 \<Rightarrow> cw_pack_context" where
  "cw_pack_time pc sec nsec =
     (if p_return_code pc \<noteq> 0 then pc
      else if be_compatible pc then PACK_ERROR CWP_RC_ILLEGAL_CALL pc
      else if 1000000000 \<le> nsec then PACK_ERROR CWP_RC_VALUE_ERROR pc
      else if sec AND 0xfffffffc00000000 \<noteq> 0 then
        reserve_put 0 15
          (0xc7 # 12 # 0xff # cw_store32_le (ucast nsec) @ cw_store64_le sec) pc
      else
        (let data64 = push_bit 34 (ucast nsec) OR sec in
         if data64 AND 0xffffffff00000000 \<noteq> 0 then
           reserve_put 0 10 (0xd7 # 0xff # cw_store64_le data64) pc
         else
           (let data32 = (ucast data64 :: u32) in
            reserve_put 0 6 (0xd6 # 0xff # cw_store32_le (ucast data32)) pc)))"

definition cw_pack_insert :: "cw_pack_context \<Rightarrow> byte list \<Rightarrow> u32 \<Rightarrow> cw_pack_context" where
  "cw_pack_insert pc v l = reserve_put l 0 (take (unat l) v) pc"

definition cw_pack_flush :: "cw_pack_context \<Rightarrow> cw_pack_context" where
  "cw_pack_flush pc =
     (if p_return_code pc = CWP_RC_OK then
        (case handle_flush pc of
           Some h \<Rightarrow>
             (case h (p_out pc) (p_end pc) of
                (rc, out, cap) \<Rightarrow> pc\<lparr>p_out := out, p_end := cap, p_return_code := rc\<rparr>)
         | None \<Rightarrow> pc\<lparr>p_return_code := CWP_RC_ILLEGAL_CALL\<rparr>)
      else pc)"

subsection \<open>MessagePack encodings\<close>

text \<open>
  The items a context can be asked to pack, and the encoding of each, in the shortest form the
  MessagePack format offers.  Containers are announced by their size; their elements follow as
  items of their own.
\<close>

datatype mp_item =
    MNil
  | MBool bool
  | MUint u64
  | MInt u64
  | MFloat f32
  | MDouble u64
  | MStr "byte list"
  | MBin "byte list"
  | MArray u32
  | MMap u32

definition mp_uint :: "u64 \<Rightarrow> byte list" where
  "mp_uint i =
     (if i < 128 then [ucast i]
      else if i < 256 then [0xcc, ucast i]
      else if i < 0x10000 then 0xcd # be16 (ucast i)
      else if i < 0x100000000 then 0xce # be32 (ucast i)
      else 0xcf # be64 i)"

definition mp_sint :: "u64 \<Rightarrow> byte list" where
  "mp_sint i =
     (if 0 \<le> sint i then mp_uint i
      else if - 32 \<le> sint i then [ucast i]
      else if - 128 \<le> sint i then [0xd0, ucast i]
      else if - 32768 \<le> sint i then 0xd1 # be16 (ucast i)
      else if - 2147483648 \<le> sint i then 0xd2 # be32 (ucast i)
      else 0xd3 # be64 i)"

definition mp_sized :: "nat \<Rightarrow> byte list \<Rightarrow> byte \<Rightarrow> byte \<Rightarrow> byte \<Rightarrow> byte list" where
  "mp_sized n short t8 t16 t32 =
     (if short \<noteq> [] then short
      else if n < 256 then [t8, of_nat n]
      else if n < 65536 then t16 # be16 (of_nat n)
      else t32 # be32 (of_nat n))"

fun mp_encode :: "mp_item \<Rightarrow> byte list" where
  "mp_encode MNil = [0xc0]"
| "mp_encode (MBool b) = [if b then 0xc3 else 0xc2]"
| "mp_encode (MUint i) = mp_uint i"
| "mp_encode (MInt i) = mp_sint i"
| "mp_encode (MFloat f) = 0xca # be32 f"
| "mp_encode (MDouble d) = 0xcb # be64 d"
| "mp_encode (MStr v) =
     mp_sized (length v) (if length v < 32 then [0xa0 + of_nat (length v)] else []) 0xd9 0xda 0xdb
     @ v"
| "mp_encode (MBin v) = mp_sized (length v) [] 0xc4 0xc5 0xc6 @ v"
| "mp_encode (MArray n) =
     (if n < 16 then [0x90 OR ucast n]
      else if n < 65536 then 0xdc # be16 (ucast n) else 0xdd # be32 n)"
| "mp_encode (MMap n) =
     (if n < 16 then [0x80 OR ucast n]
      else if n < 65536 then 0xde # be16 (ucast n) else 0xdf # be32 n)"

definition mp_encode_all :: "mp_item list \<Rightarrow> byte list" where
  "mp_encode_all items = concat (map mp_encode items)"

lemma mp_encode_all_simps [simp]:
  "mp_encode_all [] = []"
  "mp_encode_all (it # its) = mp_encode it @ mp_encode_all its"
  "mp_encode_all (xs @ ys) = mp_encode_all xs @ mp_encode_all ys"
  by (simp_all add: mp_encode_all_def)

subsection \<open>The packing routines write the encodings\<close>

text \<open>
  \<open>pack_ready\<close>: no overflow handler, no compatibility mode, and \<open>current\<close> not behind \<open>end\<close>;
  \<open>cw_pack_context_init\<close> with a null handler establishes it.  In such a context every routine is
  \<open>pack_bytes\<close> of an encoding: the bytes are appended if they fit and the context is left in the
  sticky overflow state otherwise.
\<close>

definition pack_ready :: "cw_pack_context \<Rightarrow> bool" where
  "pack_ready pc \<longleftrightarrow>
     handle_pack_overflow pc = None \<and> \<not> be_compatible pc \<and> length (p_out pc) \<le> p_end pc"

definition pack_bytes :: "byte list \<Rightarrow> cw_pack_context \<Rightarrow> cw_pack_context" where
  "pack_bytes bs pc =
     (if p_return_code pc \<noteq> 0 then pc
      else if p_end pc < length (p_out pc) + length bs
      then PACK_ERROR CWP_RC_BUFFER_OVERFLOW pc
      else cw_put bs pc)"

definition pack_item :: "mp_item \<Rightarrow> cw_pack_context \<Rightarrow> cw_pack_context" where
  "pack_item it pc = pack_bytes (mp_encode it) pc"

lemma pack_ready_bytes [simp]: "pack_ready pc \<Longrightarrow> pack_ready (pack_bytes bs pc)"
  by (simp add: pack_ready_def pack_bytes_def PACK_ERROR_def cw_put_def)

lemma pack_ready_item [simp]: "pack_ready pc \<Longrightarrow> pack_ready (pack_item it pc)"
  by (simp add: pack_item_def)

lemma pack_bytes_sticky: "p_return_code pc \<noteq> 0 \<Longrightarrow> pack_bytes bs pc = pc"
  by (simp add: pack_bytes_def)

lemma test_byte_order_ok [simp]: "test_byte_order = 0"
  by (simp add: test_byte_order_def native_load32_le_def of_be32_def rc_defs)

lemma pack_ready_init:
  "pack_ready (cw_pack_context_init len None)"
  "p_return_code (cw_pack_context_init len None) = 0"
  "p_out (cw_pack_context_init len None) = []"
  "p_end (cw_pack_context_init len None) = len"
  by (simp_all add: pack_ready_def cw_pack_context_init_def)

lemma reserve_put_bytes:
  assumes "pack_ready pc" "p_return_code pc = 0" "length bs = unat l + k"
  shows "reserve_put l k bs pc = pack_bytes bs pc"
  using assms
  by (simp add: reserve_put_def pack_bytes_def cw_pack_reserve_space_def cw_pack_new_buffer_def
      pack_ready_def add.assoc)

lemma tryMove0_bytes:
  "pack_ready pc \<Longrightarrow> p_return_code pc = 0 \<Longrightarrow> tryMove0 t pc = pack_bytes [t] pc"
  by (auto simp: tryMove0_def pack_bytes_def cw_pack_new_buffer_def pack_ready_def)

lemma tryMove_bytes:
  assumes "pack_ready pc" "p_return_code pc = 0"
  shows "tryMove1 t d pc = pack_bytes [t, ucast d] pc"
    and "tryMove2 t d pc = pack_bytes (t # be16 (ucast d)) pc"
    and "tryMove4 t d pc = pack_bytes (t # be32 (ucast d)) pc"
    and "tryMove8 t d pc = pack_bytes (t # be64 d) pc"
  using assms
  by (simp_all add: tryMove1_def tryMove2_def tryMove4_def tryMove8_def reserve_put_bytes
      word_bytes)

lemmas pack_moves = tryMove0_bytes tryMove_bytes

lemma cw_pack_unsigned_bytes:
  "pack_ready pc \<Longrightarrow> cw_pack_unsigned pc i = pack_item (MUint i) pc"
  by (simp add: cw_pack_unsigned_def pack_moves mp_uint_def pack_bytes_sticky pack_item_def word_bytes)

lemma cw_pack_float_bytes: "pack_ready pc \<Longrightarrow> cw_pack_float pc f = pack_item (MFloat f) pc"
  by (simp add: cw_pack_float_def pack_moves pack_bytes_sticky pack_item_def word_bytes)

lemma cw_pack_double_bytes: "pack_ready pc \<Longrightarrow> cw_pack_double pc d = pack_item (MDouble d) pc"
  by (simp add: cw_pack_double_def pack_moves pack_bytes_sticky pack_item_def word_bytes)

lemma cw_pack_nil_bytes: "pack_ready pc \<Longrightarrow> cw_pack_nil pc = pack_item MNil pc"
  by (simp add: cw_pack_nil_def pack_moves pack_bytes_sticky pack_item_def word_bytes)

lemma cw_pack_boolean_bytes:
  "pack_ready pc \<Longrightarrow> cw_pack_boolean pc b = pack_item (MBool b) pc"
  "pack_ready pc \<Longrightarrow> cw_pack_true pc = pack_item (MBool True) pc"
  "pack_ready pc \<Longrightarrow> cw_pack_false pc = pack_item (MBool False) pc"
  by (simp_all add: cw_pack_boolean_def cw_pack_true_def cw_pack_false_def pack_moves
      pack_bytes_sticky pack_item_def word_bytes)

lemma cw_pack_array_size_bytes:
  "pack_ready pc \<Longrightarrow> cw_pack_array_size pc n = pack_item (MArray n) pc"
  by (simp add: cw_pack_array_size_def pack_moves pack_bytes_sticky pack_item_def
      word_bytes)

lemma cw_pack_map_size_bytes: "pack_ready pc \<Longrightarrow> cw_pack_map_size pc n = pack_item (MMap n) pc"
  by (simp add: cw_pack_map_size_def pack_moves pack_bytes_sticky pack_item_def word_bytes)

lemma cw_pack_str_bytes:
  assumes "pack_ready pc" "length v = unat l"
  shows "cw_pack_str pc v l = pack_item (MStr v) pc"
proof -
  have l: "of_nat (length v) = l" using assms(2) by simp
  have lt: "l < 32 \<longleftrightarrow> length v < 32" "l < 256 \<longleftrightarrow> length v < 256"
    "l < 65536 \<longleftrightarrow> length v < 65536"
    using assms(2) by (simp_all add: word_less_nat_alt)
  have c8: "of_nat (length v) = (ucast l :: byte)" and c16: "of_nat (length v) = (ucast l :: u16)"
    using assms(2) by simp_all
  show ?thesis
    using assms
    by (simp add: cw_pack_str_def pack_item_def mp_sized_def lt l c8 c16 reserve_put_bytes
        word_bytes pack_bytes_sticky pack_ready_def)
qed

lemma cw_pack_bin_bytes:
  assumes "pack_ready pc" "length v = unat l"
  shows "cw_pack_bin pc v l = pack_item (MBin v) pc"
proof -
  have l: "of_nat (length v) = l" using assms(2) by simp
  have lt: "l < 256 \<longleftrightarrow> length v < 256" "l < 65536 \<longleftrightarrow> length v < 65536"
    using assms(2) by (simp_all add: word_less_nat_alt)
  have c8: "of_nat (length v) = (ucast l :: byte)" and c16: "of_nat (length v) = (ucast l :: u16)"
    using assms(2) by simp_all
  show ?thesis
    using assms
    by (simp add: cw_pack_bin_def pack_item_def mp_sized_def lt l c8 c16 reserve_put_bytes
        word_bytes pack_bytes_sticky pack_ready_def)
qed

lemma cw_pack_signed_bytes:
  assumes "pack_ready pc"
  shows "cw_pack_signed pc i = pack_item (MInt i) pc"
proof (cases "p_return_code pc = 0")
  case False
  then show ?thesis by (simp add: cw_pack_signed_def pack_item_def pack_bytes_sticky)
next
  case rc: True
  note ready = assms rc
  have lim: "sint (0xffffffff80000000 :: u64) = - 2147483648" by simp
  show ?thesis
  proof (cases "0 \<le> sint i")
    case True
    then have s: "sint i = uint i" by (rule sint_uint_nonneg)
    have "- 32 \<le> uint i" using uint_ge_0 [of i] by linarith
    then show ?thesis
      using True ready
      by (simp add: cw_pack_signed_def pack_moves pack_item_def mp_sint_def mp_uint_def s
          word_less_def)
  next
    case False
    then show ?thesis
      using ready unfolding cw_pack_signed_def lim
      by (simp add: pack_moves pack_item_def mp_sint_def)
  qed
qed

lemmas pack_routines =
  cw_pack_unsigned_bytes cw_pack_signed_bytes cw_pack_float_bytes cw_pack_double_bytes
  cw_pack_nil_bytes cw_pack_boolean_bytes cw_pack_array_size_bytes cw_pack_map_size_bytes
  cw_pack_str_bytes cw_pack_bin_bytes

subsection \<open>Sequences of items\<close>

definition pack_items :: "mp_item list \<Rightarrow> cw_pack_context \<Rightarrow> cw_pack_context" where
  "pack_items items pc = fold pack_item items pc"

lemma pack_items_simps [simp]:
  "pack_items [] pc = pc"
  "pack_items (it # its) pc = pack_items its (pack_item it pc)"
  by (simp_all add: pack_items_def)

lemma pack_items_append: "pack_items (xs @ ys) pc = pack_items ys (pack_items xs pc)"
  by (simp add: pack_items_def)

lemma pack_ready_items [simp]: "pack_ready pc \<Longrightarrow> pack_ready (pack_items items pc)"
  by (induction items arbitrary: pc) simp_all

lemma pack_items_sticky: "p_return_code pc \<noteq> 0 \<Longrightarrow> pack_items items pc = pc"
  by (induction items) (simp_all add: pack_item_def pack_bytes_sticky)

text \<open>A sequence that fits is written completely, with the return code left at 0.\<close>

lemma pack_items_fit:
  assumes "p_return_code pc = 0" "length (p_out pc) + length (mp_encode_all items) \<le> p_end pc"
  shows "pack_items items pc = cw_put (mp_encode_all items) pc"
  using assms
proof (induction items arbitrary: pc)
  case Nil
  then show ?case by (simp add: cw_put_def)
next
  case (Cons it items)
  then have "pack_item it pc = cw_put (mp_encode it) pc"
    by (simp add: pack_item_def pack_bytes_def)
  then show ?case using Cons.prems by (simp add: Cons.IH cw_put_def)
qed

text \<open>One that does not is cut between two items and reported.\<close>

lemma pack_items_overflow:
  assumes "p_return_code pc = 0" "length (p_out pc) \<le> p_end pc"
    "p_end pc < length (p_out pc) + length (mp_encode_all items)"
  shows "\<exists>k < length items. pack_items items pc =
    PACK_ERROR CWP_RC_BUFFER_OVERFLOW (cw_put (mp_encode_all (take k items)) pc)"
  using assms
proof (induction items arbitrary: pc)
  case Nil
  then show ?case by simp
next
  case (Cons it items)
  show ?case
  proof (cases "p_end pc < length (p_out pc) + length (mp_encode it)")
    case True
    with Cons.prems have "pack_items (it # items) pc = PACK_ERROR CWP_RC_BUFFER_OVERFLOW pc"
      by (simp add: pack_item_def pack_bytes_def pack_items_sticky PACK_ERROR_def rc_defs)
    then show ?thesis by (intro exI [of _ 0]) (simp add: cw_put_def)
  next
    case False
    with Cons.prems have step: "pack_item it pc = cw_put (mp_encode it) pc"
      by (simp add: pack_item_def pack_bytes_def)
    obtain k where "k < length items" "pack_items items (cw_put (mp_encode it) pc) =
      PACK_ERROR CWP_RC_BUFFER_OVERFLOW
        (cw_put (mp_encode_all (take k items)) (cw_put (mp_encode it) pc))"
      using Cons.IH [of "cw_put (mp_encode it) pc"] Cons.prems False
      by (auto simp: cw_put_def)
    then show ?thesis
      by (intro exI [of _ "Suc k"]) (simp add: step cw_put_def)
  qed
qed

subsection \<open>Lengths of encodings\<close>

lemma length_mp_uint: "length (mp_uint i) \<le> 9"
  by (simp add: mp_uint_def)

lemma length_mp_uint32: "length (mp_uint (ucast (i :: u32))) \<le> 5"
proof -
  have "unat i < 2 ^ LENGTH(32)" by (rule unsigned_less)
  then have "(ucast i :: u64) < 0x100000000"
    by (simp add: word_less_nat_alt unsigned_ucast_eq take_bit_nat_eq_self)
  then show ?thesis by (simp add: mp_uint_def)
qed

lemma length_mp_uint16: "length (mp_uint (ucast (i :: u16))) \<le> 3"
proof -
  have "unat i < 2 ^ LENGTH(16)" by (rule unsigned_less)
  then have "(ucast i :: u64) < 0x10000"
    by (simp add: word_less_nat_alt unsigned_ucast_eq take_bit_nat_eq_self)
  then show ?thesis by (simp add: mp_uint_def)
qed

end
