(* ===== verification/Cwpack_Unpack.thy ===== *)
theory Cwpack_Unpack
  imports Cwpack_Pack
begin

text \<open>
  The unpacking half of cwpack (\<open>engine/include/external/cwpack.c\<close>, with the macros of
  \<open>cwpack_internals.h\<close> and the types of \<open>cwpack.h\<close>): \<open>cw_unpack_context_init\<close>,
  \<open>cw_unpack_next\<close>, \<open>cw_skip_items\<close> and \<open>cw_look_ahead\<close>.

  A context holds the bytes from \<open>start\<close> to \<open>end\<close> (\<open>ubuf\<close>), the address of \<open>start\<close> and the offset
  of \<open>current\<close>.  The union \<open>item.as\<close> matters, because the engine reads members that were not
  the last ones written: it is kept as its first eight bytes (\<open>as_lo\<close>: \<open>u64\<close>, \<open>i64\<close>,
  \<open>long_real\<close>, the blob pointers, \<open>tv_sec\<close>, and in its low half \<open>array.size\<close>, \<open>map.size\<close>,
  \<open>real\<close>, in its lowest byte \<open>boolean\<close>) and the four bytes behind them (\<open>as_hi\<close>: the blob lengths
  and \<open>tv_nsec\<close>), in the little-endian layout.  A write to a short member leaves the other bytes
  of the union as they are.

  The loads (\<open>load8\<close> and its kin) are total look-ups in the list of bytes: a load behind the buffer
  would not show as an undefined value.  What is modelled, and proved about the bounds, is the check
  of the space that comes before every load and the position that it moves to.
\<close>

unbundle bit_operations_syntax

subsection \<open>Item types\<close>

text \<open>
  The enumerators -128 to 127 (extension types, of which -1 is the timestamp) are
  \<open>CWP_ITEM_USER_EXT\<close> of the byte on the wire.
\<close>

datatype cwpack_item_types =
    CWP_ITEM_USER_EXT byte
  | CWP_ITEM_NIL
  | CWP_ITEM_BOOLEAN
  | CWP_ITEM_POSITIVE_INTEGER
  | CWP_ITEM_NEGATIVE_INTEGER
  | CWP_ITEM_FLOAT
  | CWP_ITEM_DOUBLE
  | CWP_ITEM_STR
  | CWP_ITEM_BIN
  | CWP_ITEM_ARRAY
  | CWP_ITEM_MAP
  | CWP_ITEM_EXT
  | CWP_NOT_AN_ITEM

definition CWP_ITEM_TIMESTAMP :: cwpack_item_types where
  "CWP_ITEM_TIMESTAMP = CWP_ITEM_USER_EXT 0xff"

subsection \<open>The context\<close>

text \<open>
  An underflow handler maps the address of \<open>start\<close>, the bytes of the buffer, the offset of
  \<open>current\<close> and the number of bytes wanted to its return code and the new values of the first
  three.  Every context of the engine is initialised with a null handler.
\<close>

type_synonym unpack_underflow_handler =
  "u64 \<Rightarrow> byte list \<Rightarrow> nat \<Rightarrow> nat \<Rightarrow> int \<times> u64 \<times> byte list \<times> nat"

record cw_unpack_context =
  item_type :: cwpack_item_types
  as_lo :: u64
  as_hi :: u32
  u_start :: u64
  ubuf :: "byte list"
  current :: nat
  u_return_code :: int
  u_err_no :: int
  handle_unpack_underflow :: "unpack_underflow_handler option"

text \<open>Initialisation leaves \<open>item\<close> as it was: on the stack, indeterminate.\<close>

definition cw_unpack_context_init ::
  "cw_unpack_context \<Rightarrow> u64 \<Rightarrow> byte list \<Rightarrow> unpack_underflow_handler option
   \<Rightarrow> cw_unpack_context" where
  "cw_unpack_context_init c addr data huu =
     c\<lparr>u_start := addr, ubuf := data, current := 0, u_return_code := test_byte_order,
       u_err_no := 0, handle_unpack_underflow := huu\<rparr>"

text \<open>Members of the union \<open>item.as\<close>.\<close>

definition as_u64 :: "cw_unpack_context \<Rightarrow> u64" where
  "as_u64 c = as_lo c"

definition as_size :: "cw_unpack_context \<Rightarrow> u32" where
  "as_size c = ucast (as_lo c)"

definition as_real :: "cw_unpack_context \<Rightarrow> f32" where
  "as_real c = ucast (as_lo c)"

definition as_length :: "cw_unpack_context \<Rightarrow> u32" where
  "as_length c = as_hi c"

definition set_u64 :: "u64 \<Rightarrow> cw_unpack_context \<Rightarrow> cw_unpack_context" where
  "set_u64 v c = c\<lparr>as_lo := v\<rparr>"

definition put_low32 :: "u64 \<Rightarrow> u32 \<Rightarrow> u64" where
  "put_low32 w v = push_bit 32 (drop_bit 32 w) OR ucast v"

definition put_low8 :: "u64 \<Rightarrow> byte \<Rightarrow> u64" where
  "put_low8 w v = push_bit 8 (drop_bit 8 w) OR ucast v"

definition set_low32 :: "u32 \<Rightarrow> cw_unpack_context \<Rightarrow> cw_unpack_context" where
  "set_low32 v c = c\<lparr>as_lo := put_low32 (as_lo c) v\<rparr>"

definition set_boolean :: "bool \<Rightarrow> cw_unpack_context \<Rightarrow> cw_unpack_context" where
  "set_boolean b c = c\<lparr>as_lo := put_low8 (as_lo c) (if b then 1 else 0)\<rparr>"

definition set_length :: "u32 \<Rightarrow> cw_unpack_context \<Rightarrow> cw_unpack_context" where
  "set_length v c = c\<lparr>as_hi := v\<rparr>"

lemma put_low32_low [word_bytes]: "ucast (put_low32 w v) = v"
  unfolding put_low32_def
  by (rule word_bitsI) (simp add: upt_word_bits bit_simps word_bit_beyond)

lemma put_low8_low [word_bytes]: "ucast (put_low8 w v) = v"
  unfolding put_low8_def
  by (rule word_bitsI) (simp add: upt_word_bits bit_simps word_bit_beyond)

subsection \<open>The macros\<close>

definition UNPACK_ERROR :: "int \<Rightarrow> cw_unpack_context \<Rightarrow> cw_unpack_context" where
  "UNPACK_ERROR error_code c = c\<lparr>item_type := CWP_NOT_AN_ITEM, u_return_code := error_code\<rparr>"

text \<open>
  \<open>cw_unpack_assert_space\<close>, with \<open>buffer_end_return_code\<close> as its first argument: the offset \<open>p\<close>
  of the bytes asked for and the context with \<open>current\<close> behind them, or the failed context.
\<close>

definition cw_unpack_assert_space ::
  "int \<Rightarrow> nat \<Rightarrow> cw_unpack_context \<Rightarrow> cw_unpack_context + nat \<times> cw_unpack_context" where
  "cw_unpack_assert_space buffer_end_return_code wanted c =
     (if length (ubuf c) < current c + wanted then
        (case handle_unpack_underflow c of
           None \<Rightarrow> Inl (UNPACK_ERROR buffer_end_return_code c)
         | Some h \<Rightarrow>
             (case h (u_start c) (ubuf c) (current c) wanted of
                (rc, st, bs, cur) \<Rightarrow>
                  let c = c\<lparr>u_start := st, ubuf := bs, current := cur\<rparr> in
                  if rc \<noteq> CWP_RC_OK then
                    (if rc \<noteq> CWP_RC_END_OF_INPUT then Inl (UNPACK_ERROR rc c)
                     else Inl (UNPACK_ERROR buffer_end_return_code c))
                  else Inr (current c, c\<lparr>current := current c + wanted\<rparr>)))
      else Inr (current c, c\<lparr>current := current c + wanted\<rparr>))"

definition load8 :: "cw_unpack_context \<Rightarrow> nat \<Rightarrow> byte" where
  "load8 c p = ubuf c ! p"

definition load16 :: "cw_unpack_context \<Rightarrow> nat \<Rightarrow> u16" where
  "load16 c p = cw_load16_le (load8 c p) (load8 c (p + 1))"

definition load32 :: "cw_unpack_context \<Rightarrow> nat \<Rightarrow> u32" where
  "load32 c p =
     cw_load32_le (load8 c p) (load8 c (p + 1)) (load8 c (p + 2)) (load8 c (p + 3))"

definition load64 :: "cw_unpack_context \<Rightarrow> nat \<Rightarrow> u64" where
  "load64 c p =
     cw_load64_le (load8 c p) (load8 c (p + 1)) (load8 c (p + 2)) (load8 c (p + 3))
       (load8 c (p + 4)) (load8 c (p + 5)) (load8 c (p + 6)) (load8 c (p + 7))"

type_synonym unpack_step = "cw_unpack_context \<Rightarrow> cw_unpack_context + cw_unpack_context"

text \<open>The blob behind a length: \<open>str\<close>, \<open>bin\<close> and \<open>ext\<close> share their two members.\<close>

definition cw_unpack_assert_blob :: unpack_step where
  "cw_unpack_assert_blob c =
     and_then (cw_unpack_assert_space CWP_RC_BUFFER_UNDERFLOW (unat (as_length c)) c)
       (\<lambda>(p, c). Inr (set_u64 (u_start c + of_nat p) c))"

definition getDDItem ::
  "cwpack_item_types \<Rightarrow> (cw_unpack_context \<Rightarrow> cw_unpack_context) \<Rightarrow> unpack_step" where
  "getDDItem typ set_val c = Inr (set_val (c\<lparr>item_type := typ\<rparr>))"

definition getDDItem1 ::
  "cwpack_item_types \<Rightarrow> (byte \<Rightarrow> cw_unpack_context \<Rightarrow> cw_unpack_context) \<Rightarrow> unpack_step" where
  "getDDItem1 typ set_var c =
     and_then (cw_unpack_assert_space CWP_RC_BUFFER_UNDERFLOW 1 (c\<lparr>item_type := typ\<rparr>))
       (\<lambda>(p, c). Inr (set_var (load8 c p) c))"

definition getDDItem2 ::
  "cwpack_item_types \<Rightarrow> (u16 \<Rightarrow> cw_unpack_context \<Rightarrow> cw_unpack_context) \<Rightarrow> unpack_step" where
  "getDDItem2 typ set_var c =
     and_then (cw_unpack_assert_space CWP_RC_BUFFER_UNDERFLOW 2 (c\<lparr>item_type := typ\<rparr>))
       (\<lambda>(p, c). Inr (set_var (load16 c p) c))"

definition getDDItem4 ::
  "cwpack_item_types \<Rightarrow> (u32 \<Rightarrow> cw_unpack_context \<Rightarrow> cw_unpack_context) \<Rightarrow> unpack_step" where
  "getDDItem4 typ set_var c =
     and_then (cw_unpack_assert_space CWP_RC_BUFFER_UNDERFLOW 4 (c\<lparr>item_type := typ\<rparr>))
       (\<lambda>(p, c). Inr (set_var (load32 c p) c))"

definition getDDItem8 :: "cwpack_item_types \<Rightarrow> unpack_step" where
  "getDDItem8 typ c =
     and_then (cw_unpack_assert_space CWP_RC_BUFFER_UNDERFLOW 8 (c\<lparr>item_type := typ\<rparr>))
       (\<lambda>(p, c). Inr (set_u64 (load64 c p) c))"

definition getDDItemFix :: "nat \<Rightarrow> unpack_step" where
  "getDDItemFix len c =
     and_then (cw_unpack_assert_space CWP_RC_BUFFER_UNDERFLOW (len + 1) c)
       (\<lambda>(p, c).
          let c = c\<lparr>item_type := CWP_ITEM_USER_EXT (load8 c p)\<rparr>; p = p + 1 in
          if item_type c = CWP_ITEM_TIMESTAMP then
            (if len = 4 then Inr (c\<lparr>as_lo := ucast (load32 c p), as_hi := 0\<rparr>)
             else if len = 8 then
               Inr (c\<lparr>as_lo := load64 c p AND 0x00000003ffffffff,
                      as_hi := ucast (drop_bit 34 (load64 c p))\<rparr>)
             else Inl (UNPACK_ERROR CWP_RC_WRONG_TIMESTAMP_LENGTH c))
          else Inr (set_u64 (u_start c + of_nat p) (set_length (of_nat len) c)))"

text \<open>The last step of the signed cases: a value that is not negative is a positive integer.\<close>

definition fix_sign :: unpack_step where
  "fix_sign c =
     Inr (if 0 \<le> sint (as_lo c) then c\<lparr>item_type := CWP_ITEM_POSITIVE_INTEGER\<rparr> else c)"

subsection \<open>Unpacking the next item\<close>

text \<open>A timestamp of 12 bytes, after its type byte: nanoseconds, then seconds.\<close>

definition unpack_time96 :: unpack_step where
  "unpack_time96 c =
     and_then (cw_unpack_assert_space CWP_RC_BUFFER_UNDERFLOW 4 c)
       (\<lambda>(p, c).
          and_then (cw_unpack_assert_space CWP_RC_BUFFER_UNDERFLOW 8 (c\<lparr>as_hi := load32 c p\<rparr>))
            (\<lambda>(p, c). Inr (set_u64 (load64 c p) c)))"

text \<open>Extensions of 8, 16 and 32-bit length.\<close>

definition unpack_ext8_tail :: "nat \<times> cw_unpack_context \<Rightarrow> cw_unpack_context + cw_unpack_context"
  where
  "unpack_ext8_tail = (\<lambda>(p, c).
     let c = c\<lparr>item_type := CWP_ITEM_USER_EXT (load8 c p)\<rparr> in
     if item_type c = CWP_ITEM_TIMESTAMP then
       (if as_length c = 12 then unpack_time96 c
        else Inl (UNPACK_ERROR CWP_RC_WRONG_TIMESTAMP_LENGTH c))
     else cw_unpack_assert_blob c)"

definition unpack_ext8 :: unpack_step where
  "unpack_ext8 c =
     and_then (getDDItem1 CWP_ITEM_EXT (\<lambda>v. set_length (ucast v)) c)
       (\<lambda>c. and_then (cw_unpack_assert_space CWP_RC_BUFFER_UNDERFLOW 1 c) unpack_ext8_tail)"

definition unpack_ext_long :: "unpack_step \<Rightarrow> unpack_step" where
  "unpack_ext_long get_length c =
     and_then (get_length c)
       (\<lambda>c. and_then (cw_unpack_assert_space CWP_RC_BUFFER_UNDERFLOW 1 c)
         (\<lambda>(p, c). cw_unpack_assert_blob (c\<lparr>item_type := CWP_ITEM_USER_EXT (load8 c p)\<rparr>)))"

text \<open>The switch on the first byte.\<close>

definition unpack_switch :: "byte \<Rightarrow> unpack_step" where
  "unpack_switch b c =
     (if b \<le> 0x7f then getDDItem CWP_ITEM_POSITIVE_INTEGER (set_u64 (ucast b)) c
      else if b \<le> 0x8f then getDDItem CWP_ITEM_MAP (set_low32 (ucast (b AND 0x0f))) c
      else if b \<le> 0x9f then getDDItem CWP_ITEM_ARRAY (set_low32 (ucast (b AND 0x0f))) c
      else if b \<le> 0xbf then
        and_then (getDDItem CWP_ITEM_STR (set_length (ucast (b AND 0x1f))) c) cw_unpack_assert_blob
      else if b = 0xc0 then Inr (c\<lparr>item_type := CWP_ITEM_NIL\<rparr>)
      else if b = 0xc2 then getDDItem CWP_ITEM_BOOLEAN (set_boolean False) c
      else if b = 0xc3 then getDDItem CWP_ITEM_BOOLEAN (set_boolean True) c
      else if b = 0xc4 then
        and_then (getDDItem1 CWP_ITEM_BIN (\<lambda>v. set_length (ucast v)) c) cw_unpack_assert_blob
      else if b = 0xc5 then
        and_then (getDDItem2 CWP_ITEM_BIN (\<lambda>v. set_length (ucast v)) c) cw_unpack_assert_blob
      else if b = 0xc6 then
        and_then (getDDItem4 CWP_ITEM_BIN set_length c) cw_unpack_assert_blob
      else if b = 0xc7 then unpack_ext8 c
      else if b = 0xc8 then
        unpack_ext_long (getDDItem2 CWP_ITEM_EXT (\<lambda>v. set_length (ucast v))) c
      else if b = 0xc9 then unpack_ext_long (getDDItem4 CWP_ITEM_EXT set_length) c
      else if b = 0xca then
        and_then
          (cw_unpack_assert_space CWP_RC_BUFFER_UNDERFLOW 4 (c\<lparr>item_type := CWP_ITEM_FLOAT\<rparr>))
          (\<lambda>(p, c). Inr (set_low32 (load32 c p) c))
      else if b = 0xcb then getDDItem8 CWP_ITEM_DOUBLE c
      else if b = 0xcc then getDDItem1 CWP_ITEM_POSITIVE_INTEGER (\<lambda>v. set_u64 (ucast v)) c
      else if b = 0xcd then getDDItem2 CWP_ITEM_POSITIVE_INTEGER (\<lambda>v. set_u64 (ucast v)) c
      else if b = 0xce then getDDItem4 CWP_ITEM_POSITIVE_INTEGER (\<lambda>v. set_u64 (ucast v)) c
      else if b = 0xcf then getDDItem8 CWP_ITEM_POSITIVE_INTEGER c
      else if b = 0xd0 then
        and_then (getDDItem1 CWP_ITEM_NEGATIVE_INTEGER (\<lambda>v. set_u64 (scast v)) c) fix_sign
      else if b = 0xd1 then
        and_then (getDDItem2 CWP_ITEM_NEGATIVE_INTEGER (\<lambda>v. set_u64 (scast v)) c) fix_sign
      else if b = 0xd2 then
        and_then (getDDItem4 CWP_ITEM_NEGATIVE_INTEGER (\<lambda>v. set_u64 (scast v)) c) fix_sign
      else if b = 0xd3 then and_then (getDDItem8 CWP_ITEM_NEGATIVE_INTEGER c) fix_sign
      else if b = 0xd4 then getDDItemFix 1 c
      else if b = 0xd5 then getDDItemFix 2 c
      else if b = 0xd6 then getDDItemFix 4 c
      else if b = 0xd7 then getDDItemFix 8 c
      else if b = 0xd8 then getDDItemFix 16 c
      else if b = 0xd9 then
        and_then (getDDItem1 CWP_ITEM_STR (\<lambda>v. set_length (ucast v)) c) cw_unpack_assert_blob
      else if b = 0xda then
        and_then (getDDItem2 CWP_ITEM_STR (\<lambda>v. set_length (ucast v)) c) cw_unpack_assert_blob
      else if b = 0xdb then
        and_then (getDDItem4 CWP_ITEM_STR set_length c) cw_unpack_assert_blob
      else if b = 0xdc then getDDItem2 CWP_ITEM_ARRAY (\<lambda>v. set_low32 (ucast v)) c
      else if b = 0xdd then getDDItem4 CWP_ITEM_ARRAY set_low32 c
      else if b = 0xde then getDDItem2 CWP_ITEM_MAP (\<lambda>v. set_low32 (ucast v)) c
      else if b = 0xdf then getDDItem4 CWP_ITEM_MAP set_low32 c
      else if 0xe0 \<le> b then getDDItem CWP_ITEM_NEGATIVE_INTEGER (set_u64 (scast b)) c
      else Inl (UNPACK_ERROR CWP_RC_MALFORMED_INPUT c))"

definition cw_unpack_next :: "cw_unpack_context \<Rightarrow> cw_unpack_context" where
  "cw_unpack_next c =
     (if u_return_code c \<noteq> 0 then c
      else finish (and_then (cw_unpack_assert_space CWP_RC_END_OF_INPUT 1 c)
        (\<lambda>(p, c). unpack_switch (load8 c p) c)))"

subsection \<open>Bounds: an item is read inside the buffer\<close>

text \<open>
  \<open>unpack_ready\<close> is what \<open>cw_unpack_context_init\<close> establishes with a null handler.  A step from
  such a context either fails (\<open>failed\<close>: a return code other than 0 and no item) or goes on
  (\<open>advanced\<close>: the return code is unchanged); in both cases it leaves the buffer alone and moves
  \<open>current\<close> forward to a position inside the buffer.
\<close>

definition unpack_ready :: "cw_unpack_context \<Rightarrow> bool" where
  "unpack_ready c \<longleftrightarrow> handle_unpack_underflow c = None \<and> current c \<le> length (ubuf c)"

definition keeps_buffer :: "cw_unpack_context \<Rightarrow> cw_unpack_context \<Rightarrow> bool" where
  "keeps_buffer c c' \<longleftrightarrow>
     ubuf c' = ubuf c \<and> u_start c' = u_start c \<and> handle_unpack_underflow c' = None \<and>
     current c \<le> current c' \<and> current c' \<le> length (ubuf c)"

definition failed :: "cw_unpack_context \<Rightarrow> cw_unpack_context \<Rightarrow> bool" where
  "failed c c' \<longleftrightarrow> keeps_buffer c c' \<and> u_return_code c' \<noteq> 0 \<and> item_type c' = CWP_NOT_AN_ITEM"

definition advanced :: "cw_unpack_context \<Rightarrow> cw_unpack_context \<Rightarrow> bool" where
  "advanced c c' \<longleftrightarrow> keeps_buffer c c' \<and> u_return_code c' = u_return_code c"

definition step_ok ::
  "('a \<Rightarrow> cw_unpack_context) \<Rightarrow> cw_unpack_context \<Rightarrow> cw_unpack_context + 'a \<Rightarrow> bool" where
  "step_ok ctx c r \<longleftrightarrow> (case r of Inl c' \<Rightarrow> failed c c' | Inr x \<Rightarrow> advanced c (ctx x))"

named_theorems unpack_safe

lemma step_ok_Inr [simp]: "step_ok ctx c (Inr x) \<longleftrightarrow> advanced c (ctx x)"
  by (simp add: step_ok_def)

lemma step_ok_Inl [simp]: "step_ok ctx c (Inl c') \<longleftrightarrow> failed c c'"
  by (simp add: step_ok_def)

lemma advanced_refl [simp]: "unpack_ready c \<Longrightarrow> advanced c c"
  by (simp add: advanced_def keeps_buffer_def unpack_ready_def)

lemma advanced_ready: "advanced c c' \<Longrightarrow> unpack_ready c'"
  by (simp add: advanced_def keeps_buffer_def unpack_ready_def)

lemma advanced_same: "advanced c c' \<Longrightarrow> advanced c' c'"
  by (simp add: advanced_def keeps_buffer_def)

lemma advanced_keeps: "advanced c c' \<Longrightarrow> keeps_buffer c' c'"
  by (simp add: advanced_def keeps_buffer_def)

lemma advanced_trans: "advanced c c' \<Longrightarrow> advanced c' c'' \<Longrightarrow> advanced c c''"
  by (auto simp: advanced_def keeps_buffer_def)

lemma advanced_failed: "advanced c c' \<Longrightarrow> failed c' c'' \<Longrightarrow> failed c c''"
  by (auto simp: advanced_def failed_def keeps_buffer_def)

lemma ready_keeps: "unpack_ready c \<Longrightarrow> keeps_buffer c c"
  by (simp add: unpack_ready_def keeps_buffer_def)

lemma keeps_buffer_type: "keeps_buffer c c' \<Longrightarrow> keeps_buffer c (c'\<lparr>item_type := t\<rparr>)"
  by (simp add: keeps_buffer_def)

text \<open>Writing the item does not touch what \<open>advanced\<close> speaks of.\<close>

lemma item_updates [simp]:
  "advanced c (c'\<lparr>item_type := t\<rparr>) = advanced c c'"
  "advanced c (c'\<lparr>as_lo := w\<rparr>) = advanced c c'"
  "advanced c (c'\<lparr>as_hi := v\<rparr>) = advanced c c'"
  "unpack_ready (c\<lparr>item_type := t\<rparr>) = unpack_ready c"
  "advanced (c\<lparr>item_type := t\<rparr>) c' = advanced c c'"
  "failed (c\<lparr>item_type := t\<rparr>) c' = failed c c'"
  "unpack_ready (c\<lparr>as_hi := v\<rparr>) = unpack_ready c"
  "advanced (c\<lparr>as_hi := v\<rparr>) c' = advanced c c'"
  "failed (c\<lparr>as_hi := v\<rparr>) c' = failed c c'"
  by (simp_all add: advanced_def failed_def keeps_buffer_def unpack_ready_def)

lemma set_updates [simp]:
  "advanced c (set_u64 w c') = advanced c c'"
  "advanced c (set_low32 v c') = advanced c c'"
  "advanced c (set_boolean b c') = advanced c c'"
  "advanced c (set_length v c') = advanced c c'"
  by (simp_all add: set_u64_def set_low32_def set_boolean_def set_length_def)

lemma unpack_error_failed [simp]:
  "e \<noteq> 0 \<Longrightarrow> failed c (UNPACK_ERROR e c') = keeps_buffer c c'"
  by (simp add: failed_def UNPACK_ERROR_def keeps_buffer_def)

lemma step_ok_then:
  assumes "step_ok ctx c r" "\<And>x. advanced c (ctx x) \<Longrightarrow> step_ok ctx' (ctx x) (k x)"
  shows "step_ok ctx' c (and_then r k)"
proof (cases r)
  case (Inl c')
  then show ?thesis using assms(1) by simp
next
  case (Inr x)
  with assms(1) have adv: "advanced c (ctx x)" by simp
  show ?thesis
    using assms(2) [OF adv] Inr
    by (cases "k x") (auto intro: advanced_trans [OF adv] advanced_failed [OF adv])
qed

lemma step_ok_type [simp]:
  "step_ok ctx (c\<lparr>item_type := t\<rparr>) r = step_ok ctx c r"
  "step_ok ctx (c\<lparr>as_hi := v\<rparr>) r = step_ok ctx c r"
  by (simp_all add: step_ok_def split: sum.split)

lemma assert_space_ok [unpack_safe]:
  "unpack_ready c \<Longrightarrow> e \<noteq> 0 \<Longrightarrow> step_ok snd c (cw_unpack_assert_space e n c)"
  by (simp add: unpack_ready_def cw_unpack_assert_space_def advanced_def keeps_buffer_def)

lemma underflow_nonzero [simp]:
  "CWP_RC_BUFFER_UNDERFLOW \<noteq> 0" "CWP_RC_END_OF_INPUT \<noteq> 0"
  "CWP_RC_WRONG_TIMESTAMP_LENGTH \<noteq> 0" "CWP_RC_MALFORMED_INPUT \<noteq> 0"
  by (simp_all add: rc_defs)

lemma assert_blob_ok [unpack_safe]:
  "unpack_ready c \<Longrightarrow> step_ok id c (cw_unpack_assert_blob c)"
  unfolding cw_unpack_assert_blob_def
  by (rule step_ok_then [OF assert_space_ok]) (auto intro: advanced_same)

text \<open>A setter of the item: anything that changes nothing but the union.\<close>

definition item_setter :: "('v \<Rightarrow> cw_unpack_context \<Rightarrow> cw_unpack_context) \<Rightarrow> bool" where
  "item_setter f \<longleftrightarrow> (\<forall>v c c'. advanced c (f v c') = advanced c c')"

lemma item_setters [simp]:
  "item_setter (\<lambda>v. set_u64 (g v))" "item_setter (\<lambda>v. set_low32 (h v))"
  "item_setter (\<lambda>v. set_length (h v))" "item_setter set_low32" "item_setter set_length"
  by (simp_all add: item_setter_def)

lemma getDDItems_ok [unpack_safe]:
  assumes "unpack_ready c"
  shows "item_setter (\<lambda>(_::unit). f0) \<Longrightarrow> step_ok id c (getDDItem t f0 c)"
    and "item_setter f1 \<Longrightarrow> step_ok id c (getDDItem1 t f1 c)"
    and "item_setter f2 \<Longrightarrow> step_ok id c (getDDItem2 t f2 c)"
    and "item_setter f4 \<Longrightarrow> step_ok id c (getDDItem4 t f4 c)"
    and "step_ok id c (getDDItem8 t c)"
proof -
  show "item_setter (\<lambda>(_::unit). f0) \<Longrightarrow> step_ok id c (getDDItem t f0 c)"
    using assms by (simp add: getDDItem_def item_setter_def)
  have space: "step_ok snd c (cw_unpack_assert_space CWP_RC_BUFFER_UNDERFLOW n (c\<lparr>item_type := t\<rparr>))"
    for n
    using assert_space_ok [of "c\<lparr>item_type := t\<rparr>" CWP_RC_BUFFER_UNDERFLOW n] assms by simp
  show "item_setter f1 \<Longrightarrow> step_ok id c (getDDItem1 t f1 c)"
    and "item_setter f2 \<Longrightarrow> step_ok id c (getDDItem2 t f2 c)"
    and "item_setter f4 \<Longrightarrow> step_ok id c (getDDItem4 t f4 c)"
    and "step_ok id c (getDDItem8 t c)"
    unfolding getDDItem1_def getDDItem2_def getDDItem4_def getDDItem8_def
    by (rule step_ok_then [OF space], auto simp: item_setter_def intro: advanced_same)+
qed

lemma getDDItemFix_ok [unpack_safe]: "unpack_ready c \<Longrightarrow> step_ok id c (getDDItemFix len c)"
  unfolding getDDItemFix_def
  by (rule step_ok_then [OF assert_space_ok])
    (auto simp: Let_def advanced_same
      intro: advanced_keeps [THEN keeps_buffer_type])

lemma unpack_time96_ok [unpack_safe]: "unpack_ready c \<Longrightarrow> step_ok id c (unpack_time96 c)"
  unfolding unpack_time96_def
proof (rule step_ok_then [OF assert_space_ok])
  fix x :: "nat \<times> cw_unpack_context"
  assume adv: "advanced c (snd x)"
  obtain p c1 where x: "x = (p, c1)" by (cases x)
  have "step_ok snd c1
    (cw_unpack_assert_space CWP_RC_BUFFER_UNDERFLOW 8 (c1\<lparr>as_hi := load32 c1 p\<rparr>))"
    using assert_space_ok [of "c1\<lparr>as_hi := load32 c1 p\<rparr>" CWP_RC_BUFFER_UNDERFLOW 8]
      advanced_ready [OF adv] by (simp add: x)
  then show "step_ok id (snd x) ((\<lambda>(p, c).
      and_then (cw_unpack_assert_space CWP_RC_BUFFER_UNDERFLOW 8 (c\<lparr>as_hi := load32 c p\<rparr>))
        (\<lambda>(p, c). Inr (set_u64 (load64 c p) c))) x)"
    unfolding x by (simp, rule step_ok_then) (auto intro: advanced_same)
qed simp_all

lemma blob_after_type: "unpack_ready c \<Longrightarrow> step_ok id c (cw_unpack_assert_blob (c\<lparr>item_type := t\<rparr>))"
  using assert_blob_ok [of "c\<lparr>item_type := t\<rparr>"] by simp

lemma unpack_ext8_tail_ok:
  assumes "unpack_ready (snd x)"
  shows "step_ok id (snd x) (unpack_ext8_tail x)"
proof -
  have "step_ok id (snd x) (unpack_time96 ((snd x)\<lparr>item_type := t\<rparr>))" for t
    using unpack_time96_ok [of "(snd x)\<lparr>item_type := t\<rparr>"] assms by simp
  with assms show ?thesis
    by (cases x) (auto simp: unpack_ext8_tail_def Let_def keeps_buffer_type blob_after_type
        ready_keeps)
qed

text \<open>A space check between two steps.\<close>

lemma space_between_ok:
  assumes "unpack_ready c" "\<And>x. unpack_ready (snd x) \<Longrightarrow> step_ok id (snd x) (k x)"
  shows "step_ok id c (and_then (cw_unpack_assert_space CWP_RC_BUFFER_UNDERFLOW n c) k)"
  by (rule step_ok_then [OF assert_space_ok [OF assms(1)]])
    (auto intro: assms(2) advanced_ready)

lemma unpack_ext8_ok [unpack_safe]:
  assumes "unpack_ready c"
  shows "step_ok id c (unpack_ext8 c)"
  unfolding unpack_ext8_def
  by (rule step_ok_then [where ctx = id])
    (simp_all add: getDDItems_ok assms space_between_ok [OF advanced_ready] unpack_ext8_tail_ok)

lemma unpack_ext_long_ok [unpack_safe]:
  assumes "unpack_ready c" "step_ok id c (get_length c)"
  shows "step_ok id c (unpack_ext_long get_length c)"
  unfolding unpack_ext_long_def
  by (rule step_ok_then [OF assms(2)])
    (simp add: space_between_ok [OF advanced_ready] blob_after_type split_beta)

lemma fix_sign_ok: "advanced c c' \<Longrightarrow> step_ok id c' (fix_sign c')"
  by (simp add: fix_sign_def advanced_same)

lemma then_blob_ok:
  "step_ok id c r \<Longrightarrow> step_ok id c (and_then r cw_unpack_assert_blob)"
  by (erule step_ok_then) (simp add: assert_blob_ok [OF advanced_ready])

lemma then_sign_ok: "step_ok id c r \<Longrightarrow> step_ok id c (and_then r fix_sign)"
  by (erule step_ok_then) (simp add: fix_sign_ok)

lemma float_item_ok:
  "unpack_ready c \<Longrightarrow> step_ok id c
     (and_then (cw_unpack_assert_space CWP_RC_BUFFER_UNDERFLOW n (c\<lparr>item_type := t\<rparr>))
       (\<lambda>(p, c). Inr (set_low32 (load32 c p) c)))"
  using assert_space_ok [of "c\<lparr>item_type := t\<rparr>" CWP_RC_BUFFER_UNDERFLOW n]
  by (auto intro!: step_ok_then intro: advanced_same)

lemma unpack_switch_ok:
  assumes ready: "unpack_ready c"
  shows "step_ok id c (unpack_switch b c)"
  unfolding unpack_switch_def
  using ready
  by (simp add: then_blob_ok then_sign_ok unpack_safe float_item_ok ready_keeps
      advanced_refl item_setter_def)

lemma cw_unpack_next_ok:
  assumes ready: "unpack_ready c" and rc: "u_return_code c = 0"
  shows "failed c (cw_unpack_next c) \<or>
    (advanced c (cw_unpack_next c) \<and> current c < current (cw_unpack_next c))"
proof (cases "cw_unpack_assert_space CWP_RC_END_OF_INPUT 1 c")
  case (Inl c')
  then show ?thesis using assert_space_ok [OF ready, of CWP_RC_END_OF_INPUT 1] rc
    by (simp add: cw_unpack_next_def)
next
  case (Inr x)
  obtain p c1 where x: "x = (p, c1)" by (cases x)
  have adv: "advanced c c1"
    using assert_space_ok [OF ready, of CWP_RC_END_OF_INPUT 1] Inr x by simp
  have cur: "current c1 = Suc (current c)"
    using Inr x ready by (auto simp: cw_unpack_assert_space_def unpack_ready_def split: if_splits)
  have step: "step_ok id c1 (unpack_switch (load8 c1 p) c1)"
    by (rule unpack_switch_ok [OF advanced_ready [OF adv]])
  show ?thesis
  proof (cases "unpack_switch (load8 c1 p) c1")
    case (Inl c')
    then show ?thesis using step Inr x rc advanced_failed [OF adv] by (simp add: cw_unpack_next_def)
  next
    case (Inr c')
    then have "advanced c1 c'" using step by simp
    then show ?thesis
      using \<open>cw_unpack_assert_space CWP_RC_END_OF_INPUT 1 c = Inr x\<close> x Inr rc cur
        advanced_trans [OF adv, of c']
      by (auto simp: cw_unpack_next_def advanced_def keeps_buffer_def)
  qed
qed

lemma cw_unpack_next_sticky: "u_return_code c \<noteq> 0 \<Longrightarrow> cw_unpack_next c = c"
  by (simp add: cw_unpack_next_def)

lemma cw_unpack_next_ready:
  assumes "unpack_ready c"
  shows "unpack_ready (cw_unpack_next c)"
  using assms cw_unpack_next_ok [OF assms] cw_unpack_next_sticky [of c]
  by (cases "u_return_code c = 0")
    (auto simp: failed_def advanced_def keeps_buffer_def unpack_ready_def)

subsection \<open>Reading back an encoded item\<close>

text \<open>
  \<open>bytes_at buf p bs\<close>: the bytes \<open>bs\<close> stand in \<open>buf\<close> at offset \<open>p\<close>.  \<open>read_item it c\<close> is the context
  that reading the encoding of \<open>it\<close> leads to, with the union written exactly as far as the
  code writes it.
\<close>

fun bytes_at :: "byte list \<Rightarrow> nat \<Rightarrow> byte list \<Rightarrow> bool" where
  "bytes_at buf p [] = (p \<le> length buf)"
| "bytes_at buf p (b # bs) = (p < length buf \<and> buf ! p = b \<and> bytes_at buf (Suc p) bs)"

lemma bytes_at_length: "bytes_at buf p bs \<Longrightarrow> p + length bs \<le> length buf"
proof (induction bs arbitrary: p)
  case (Cons b bs)
  then have "bytes_at buf (Suc p) bs" by simp
  from Cons.IH [OF this] show ?case by simp
qed simp

lemma bytes_at_append [simp]:
  "bytes_at buf p (xs @ ys) \<longleftrightarrow> bytes_at buf p xs \<and> bytes_at buf (p + length xs) ys"
proof (induction xs arbitrary: p)
  case Nil
  then show ?case using bytes_at_length [of buf p ys] by auto
next
  case (Cons x xs)
  then show ?case by simp
qed

lemma bytes_at_self: "bytes_at (xs @ bs @ ys) (length xs) bs"
proof (induction bs arbitrary: xs)
  case (Cons b bs)
  have "bytes_at ((xs @ [b]) @ bs @ ys) (length (xs @ [b])) bs" by (rule Cons.IH)
  then show ?case by simp
qed simp

fun item_effect :: "mp_item \<Rightarrow> cw_unpack_context \<Rightarrow> cw_unpack_context" where
  "item_effect MNil c = c\<lparr>item_type := CWP_ITEM_NIL\<rparr>"
| "item_effect (MBool b) c = set_boolean b (c\<lparr>item_type := CWP_ITEM_BOOLEAN\<rparr>)"
| "item_effect (MUint i) c = set_u64 i (c\<lparr>item_type := CWP_ITEM_POSITIVE_INTEGER\<rparr>)"
| "item_effect (MInt i) c =
     set_u64 i (c\<lparr>item_type := if 0 \<le> sint i then CWP_ITEM_POSITIVE_INTEGER
                               else CWP_ITEM_NEGATIVE_INTEGER\<rparr>)"
| "item_effect (MFloat f) c = set_low32 f (c\<lparr>item_type := CWP_ITEM_FLOAT\<rparr>)"
| "item_effect (MDouble d) c = set_u64 d (c\<lparr>item_type := CWP_ITEM_DOUBLE\<rparr>)"
| "item_effect (MStr v) c =
     set_u64 (u_start c + of_nat (current c + (length (mp_encode (MStr v)) - length v)))
       (set_length (of_nat (length v)) (c\<lparr>item_type := CWP_ITEM_STR\<rparr>))"
| "item_effect (MBin v) c =
     set_u64 (u_start c + of_nat (current c + (length (mp_encode (MBin v)) - length v)))
       (set_length (of_nat (length v)) (c\<lparr>item_type := CWP_ITEM_BIN\<rparr>))"
| "item_effect (MArray n) c = set_low32 n (c\<lparr>item_type := CWP_ITEM_ARRAY\<rparr>)"
| "item_effect (MMap n) c = set_low32 n (c\<lparr>item_type := CWP_ITEM_MAP\<rparr>)"

definition read_item :: "mp_item \<Rightarrow> cw_unpack_context \<Rightarrow> cw_unpack_context" where
  "read_item it c = (item_effect it c)\<lparr>current := current c + length (mp_encode it)\<rparr>"

fun item_fits :: "mp_item \<Rightarrow> bool" where
  "item_fits (MStr v) = (length v < 2 ^ 32)"
| "item_fits (MBin v) = (length v < 2 ^ 32)"
| "item_fits _ = True"

text \<open>The one-byte forms.\<close>

lemma fix_uint:
  assumes "i < 128"
  shows "(ucast i :: byte) \<le> 0x7f" and "ucast (ucast i :: byte) = (i :: u64)"
proof -
  show "(ucast i :: byte) \<le> 0x7f"
    using assms
    by (simp add: word_le_nat_alt word_less_nat_alt unsigned_ucast_eq unsigned_take_bit_eq
        take_bit_nat_eq_self)
  show "ucast (ucast i :: byte) = i"
    by (rule ucast_narrow) (use assms in \<open>simp_all add: word_less_nat_alt\<close>)
qed

lemma below_list: "list_all P [0..<n] \<Longrightarrow> k < n \<Longrightarrow> P k"
  by (simp add: list_all_iff)

lemma fix_str:
  "k < 32 \<Longrightarrow> let b = 0xa0 + of_nat k :: byte in
     0x9f < b \<and> b \<le> 0xbf \<and> ucast (b AND 0x1f) = (of_nat k :: u32)"
  by (rule below_list [of _ 32]) code_simp

lemma fix_container:
  "k < 16 \<Longrightarrow>
     (let b = 0x90 OR of_nat k :: byte in
        0x8f < b \<and> b \<le> 0x9f \<and> ucast (b AND 0x0f) = (of_nat k :: u32)) \<and>
     (let b = 0x80 OR of_nat k :: byte in
        0x7f < b \<and> b \<le> 0x8f \<and> ucast (b AND 0x0f) = (of_nat k :: u32))"
  by (rule below_list [of _ 16]) code_simp

lemma fix_sint:
  assumes "- 32 \<le> sint (i :: u64)" "sint i < 0"
  shows "0xdf < (ucast i :: byte)" and "scast (ucast i :: byte) = i"
proof -
  show scast: "scast (ucast i :: byte) = i"
    by (rule scast_narrow) (use assms in simp_all)
  define k where "k = nat (sint i + 32)"
  have "(ucast i :: byte) = scast i"
    by (rule word_bitsI) (simp add: upt_word_bits bit_simps)
  also have "\<dots> = of_int (sint i)" by (rule scast_eq)
  also have "sint i = int k - 32" using assms by (simp add: k_def)
  finally have "(ucast i :: byte) = of_int (int k - 32)" .
  moreover have "k < 32" using assms by (simp add: k_def)
  then have "0xdf < (of_int (int k - 32) :: byte)"
    by (rule below_list [of _ 32, rotated]) code_simp
  ultimately show "0xdf < (ucast i :: byte)" by simp
qed

subsection \<open>Each encoding is read as its item\<close>

lemma next_byte:
  "u_return_code c = 0 \<Longrightarrow> current c < length (ubuf c) \<Longrightarrow> ubuf c ! current c = b \<Longrightarrow>
   cw_unpack_next c = finish (unpack_switch b (c\<lparr>current := Suc (current c)\<rparr>))"
  by (simp add: cw_unpack_next_def cw_unpack_assert_space_def load8_def)

text \<open>The branches of the switch.\<close>

lemma switch_constants:
  "unpack_switch 0xc0 c = Inr (c\<lparr>item_type := CWP_ITEM_NIL\<rparr>)"
  "unpack_switch 0xc2 c = getDDItem CWP_ITEM_BOOLEAN (set_boolean False) c"
  "unpack_switch 0xc3 c = getDDItem CWP_ITEM_BOOLEAN (set_boolean True) c"
  "unpack_switch 0xca c =
     and_then
       (cw_unpack_assert_space CWP_RC_BUFFER_UNDERFLOW 4 (c\<lparr>item_type := CWP_ITEM_FLOAT\<rparr>))
       (\<lambda>(p, c). Inr (set_low32 (load32 c p) c))"
  "unpack_switch 0xcb c = getDDItem8 CWP_ITEM_DOUBLE c"
  by (simp_all add: unpack_switch_def)

lemma switch_ints:
  "unpack_switch 0xcc c = getDDItem1 CWP_ITEM_POSITIVE_INTEGER (\<lambda>v. set_u64 (ucast v)) c"
  "unpack_switch 0xcd c = getDDItem2 CWP_ITEM_POSITIVE_INTEGER (\<lambda>v. set_u64 (ucast v)) c"
  "unpack_switch 0xce c = getDDItem4 CWP_ITEM_POSITIVE_INTEGER (\<lambda>v. set_u64 (ucast v)) c"
  "unpack_switch 0xcf c = getDDItem8 CWP_ITEM_POSITIVE_INTEGER c"
  "unpack_switch 0xd0 c =
     and_then (getDDItem1 CWP_ITEM_NEGATIVE_INTEGER (\<lambda>v. set_u64 (scast v)) c) fix_sign"
  "unpack_switch 0xd1 c =
     and_then (getDDItem2 CWP_ITEM_NEGATIVE_INTEGER (\<lambda>v. set_u64 (scast v)) c) fix_sign"
  "unpack_switch 0xd2 c =
     and_then (getDDItem4 CWP_ITEM_NEGATIVE_INTEGER (\<lambda>v. set_u64 (scast v)) c) fix_sign"
  "unpack_switch 0xd3 c = and_then (getDDItem8 CWP_ITEM_NEGATIVE_INTEGER c) fix_sign"
  by (simp_all add: unpack_switch_def)

lemma switch_blobs:
  "unpack_switch 0xc4 c =
     and_then (getDDItem1 CWP_ITEM_BIN (\<lambda>v. set_length (ucast v)) c) cw_unpack_assert_blob"
  "unpack_switch 0xc5 c =
     and_then (getDDItem2 CWP_ITEM_BIN (\<lambda>v. set_length (ucast v)) c) cw_unpack_assert_blob"
  "unpack_switch 0xc6 c = and_then (getDDItem4 CWP_ITEM_BIN set_length c) cw_unpack_assert_blob"
  "unpack_switch 0xd9 c =
     and_then (getDDItem1 CWP_ITEM_STR (\<lambda>v. set_length (ucast v)) c) cw_unpack_assert_blob"
  "unpack_switch 0xda c =
     and_then (getDDItem2 CWP_ITEM_STR (\<lambda>v. set_length (ucast v)) c) cw_unpack_assert_blob"
  "unpack_switch 0xdb c = and_then (getDDItem4 CWP_ITEM_STR set_length c) cw_unpack_assert_blob"
  "unpack_switch 0xdc c = getDDItem2 CWP_ITEM_ARRAY (\<lambda>v. set_low32 (ucast v)) c"
  "unpack_switch 0xdd c = getDDItem4 CWP_ITEM_ARRAY set_low32 c"
  "unpack_switch 0xde c = getDDItem2 CWP_ITEM_MAP (\<lambda>v. set_low32 (ucast v)) c"
  "unpack_switch 0xdf c = getDDItem4 CWP_ITEM_MAP set_low32 c"
  by (simp_all add: unpack_switch_def)

lemma switch_fix:
  "b \<le> 0x7f \<Longrightarrow>
     unpack_switch b c = getDDItem CWP_ITEM_POSITIVE_INTEGER (set_u64 (ucast b)) c"
  "0x7f < b \<Longrightarrow> b \<le> 0x8f \<Longrightarrow>
     unpack_switch b c = getDDItem CWP_ITEM_MAP (set_low32 (ucast (b AND 0x0f))) c"
  "0x8f < b \<Longrightarrow> b \<le> 0x9f \<Longrightarrow>
     unpack_switch b c = getDDItem CWP_ITEM_ARRAY (set_low32 (ucast (b AND 0x0f))) c"
  "0x9f < b \<Longrightarrow> b \<le> 0xbf \<Longrightarrow>
     unpack_switch b c =
       and_then (getDDItem CWP_ITEM_STR (set_length (ucast (b AND 0x1f))) c) cw_unpack_assert_blob"
  "0xdf < b \<Longrightarrow>
     unpack_switch b c = getDDItem CWP_ITEM_NEGATIVE_INTEGER (set_u64 (scast b)) c"
  by (auto simp add: unpack_switch_def word_less_nat_alt word_le_nat_alt)

text \<open>Loads and space checks where the bytes asked for are present.\<close>

lemma offset_Suc:
  fixes p :: nat
  shows "p + 1 = Suc p" and "p + 2 = Suc (Suc p)" and "p + 3 = Suc (Suc (Suc p))"
    and "p + 4 = Suc (Suc (Suc (Suc p)))" and "p + 5 = Suc (Suc (Suc (Suc (Suc p))))"
    and "p + 6 = Suc (Suc (Suc (Suc (Suc (Suc p)))))"
    and "p + 7 = Suc (Suc (Suc (Suc (Suc (Suc (Suc p))))))"
  by simp_all

lemma load_at:
  "bytes_at (ubuf c) p [b] \<Longrightarrow> load8 c p = b"
  "bytes_at (ubuf c) p (be16 w16) \<Longrightarrow> load16 c p = w16"
  "bytes_at (ubuf c) p (be32 w32) \<Longrightarrow> load32 c p = w32"
  "bytes_at (ubuf c) p (be64 w64) \<Longrightarrow> load64 c p = w64"
  unfolding load8_def load16_def load32_def load64_def be16_def be32_def be64_def
  unfolding offset_Suc by (simp_all add: word_bytes)

lemma assert_space_at:
  "current c + n \<le> length (ubuf c) \<Longrightarrow>
   cw_unpack_assert_space e n c = Inr (current c, c\<lparr>current := current c + n\<rparr>)"
  by (simp add: cw_unpack_assert_space_def)

lemma getDDItem_at:
  "bytes_at (ubuf c) (current c) [b] \<Longrightarrow>
     getDDItem1 t f1 c = Inr (f1 b (c\<lparr>item_type := t, current := current c + 1\<rparr>))"
  "bytes_at (ubuf c) (current c) (be16 w16) \<Longrightarrow>
     getDDItem2 t f2 c = Inr (f2 w16 (c\<lparr>item_type := t, current := current c + 2\<rparr>))"
  "bytes_at (ubuf c) (current c) (be32 w32) \<Longrightarrow>
     getDDItem4 t f4 c = Inr (f4 w32 (c\<lparr>item_type := t, current := current c + 4\<rparr>))"
  "bytes_at (ubuf c) (current c) (be64 w64) \<Longrightarrow>
     getDDItem8 t c = Inr (set_u64 w64 (c\<lparr>item_type := t, current := current c + 8\<rparr>))"
  unfolding getDDItem1_def getDDItem2_def getDDItem4_def getDDItem8_def
  by (frule bytes_at_length, simp add: assert_space_at load_at del: bytes_at.simps)+

lemma assert_blob_at:
  "current c + unat (as_hi c) \<le> length (ubuf c) \<Longrightarrow>
   cw_unpack_assert_blob c =
     Inr (set_u64 (u_start c + of_nat (current c)) (c\<lparr>current := current c + unat (as_hi c)\<rparr>))"
  by (simp add: cw_unpack_assert_blob_def assert_space_at as_length_def)

lemmas item_writes =
  set_u64_def set_low32_def set_boolean_def set_length_def getDDItem_def fix_sign_def read_item_def

lemma next_simple:
  assumes "u_return_code c = 0"
  shows "bytes_at (ubuf c) (current c) (mp_encode MNil) \<Longrightarrow>
     cw_unpack_next c = read_item MNil c"
  and "bytes_at (ubuf c) (current c) (mp_encode (MBool b)) \<Longrightarrow>
     cw_unpack_next c = read_item (MBool b) c"
  and "bytes_at (ubuf c) (current c) (mp_encode (MDouble d)) \<Longrightarrow>
     cw_unpack_next c = read_item (MDouble d) c"
proof -
  show "bytes_at (ubuf c) (current c) (mp_encode MNil) \<Longrightarrow> cw_unpack_next c = read_item MNil c"
    and "bytes_at (ubuf c) (current c) (mp_encode (MBool b)) \<Longrightarrow>
     cw_unpack_next c = read_item (MBool b) c"
    using assms by (cases b; simp add: next_byte switch_constants item_writes)+
  show "bytes_at (ubuf c) (current c) (mp_encode (MDouble d)) \<Longrightarrow>
     cw_unpack_next c = read_item (MDouble d) c"
    using assms getDDItem_at(4) [of "c\<lparr>current := Suc (current c)\<rparr>" d CWP_ITEM_DOUBLE]
    by (cases c) (simp add: next_byte switch_constants item_writes)
qed

lemma next_float:
  assumes "u_return_code c = 0" "bytes_at (ubuf c) (current c) (mp_encode (MFloat f))"
  shows "cw_unpack_next c = read_item (MFloat f) c"
proof -
  have at: "bytes_at (ubuf c) (Suc (current c)) (be32 f)" using assms(2) by simp
  have "load32 (c\<lparr>current := n, item_type := t\<rparr>) (Suc (current c)) = f" for n t
    by (rule load_at) (use at in simp)
  then show ?thesis
    using assms bytes_at_length [OF at]
    by (cases c) (simp add: next_byte switch_constants assert_space_at item_writes)
qed

lemma next_container:
  assumes "u_return_code c = 0"
  shows "bytes_at (ubuf c) (current c) (mp_encode (MArray n)) \<Longrightarrow>
     cw_unpack_next c = read_item (MArray n) c"
  and "bytes_at (ubuf c) (current c) (mp_encode (MMap n)) \<Longrightarrow>
     cw_unpack_next c = read_item (MMap n) c"
proof -
  let ?c = "c\<lparr>current := Suc (current c)\<rparr>"
  have short: "0x8f < (0x90 OR ucast n :: byte) \<and> (0x90 OR ucast n :: byte) \<le> 0x9f \<and>
      ucast ((0x90 OR ucast n :: byte) AND 0x0f) = n"
    and short': "0x7f < (0x80 OR ucast n :: byte) \<and> (0x80 OR ucast n :: byte) \<le> 0x8f \<and>
      ucast ((0x80 OR ucast n :: byte) AND 0x0f) = n" if "n < 16"
    using fix_container [of "unat n"] that by (simp_all add: word_less_nat_alt Let_def)
  have wide: "ucast (ucast n :: u16) = n" if "n < 65536"
    by (rule ucast_narrow) (use that in \<open>simp_all add: word_less_nat_alt\<close>)
  consider "n < 16" | "\<not> n < 16" "n < 65536" | "\<not> n < 16" "\<not> n < 65536" by blast
  note cases = this
  show "bytes_at (ubuf c) (current c) (mp_encode (MArray n)) \<Longrightarrow>
     cw_unpack_next c = read_item (MArray n) c"
    using assms getDDItem_at(2) [of ?c "ucast n" CWP_ITEM_ARRAY "\<lambda>v. set_low32 (ucast v)"]
      getDDItem_at(3) [of ?c n CWP_ITEM_ARRAY set_low32]
    by (cases c; cases rule: cases)
      (simp_all add: next_byte switch_fix switch_blobs item_writes short wide)
  show "bytes_at (ubuf c) (current c) (mp_encode (MMap n)) \<Longrightarrow>
     cw_unpack_next c = read_item (MMap n) c"
    using assms getDDItem_at(2) [of ?c "ucast n" CWP_ITEM_MAP "\<lambda>v. set_low32 (ucast v)"]
      getDDItem_at(3) [of ?c n CWP_ITEM_MAP set_low32]
    by (cases c; cases rule: cases)
      (simp_all add: next_byte switch_fix switch_blobs item_writes short' wide)
qed

lemma next_uint:
  assumes "u_return_code c = 0" "bytes_at (ubuf c) (current c) (mp_uint i)"
  shows "cw_unpack_next c = read_item (MUint i) c"
proof -
  let ?c = "c\<lparr>current := Suc (current c)\<rparr>" and ?t = CWP_ITEM_POSITIVE_INTEGER
  have wide: "i < 256 \<Longrightarrow> ucast (ucast i :: byte) = i" "i < 0x10000 \<Longrightarrow> ucast (ucast i :: u16) = i"
    "i < 0x100000000 \<Longrightarrow> ucast (ucast i :: u32) = i"
    by (rule ucast_narrow, simp_all add: word_less_nat_alt)+
  consider "i < 128" | "\<not> i < 128" "i < 256" | "\<not> i < 128" "\<not> i < 256" "i < 0x10000"
    | "\<not> i < 128" "\<not> i < 256" "\<not> i < 0x10000" "i < 0x100000000"
    | "\<not> i < 128" "\<not> i < 256" "\<not> i < 0x10000" "\<not> i < 0x100000000" by blast
  note cases = this
  show ?thesis
    using assms getDDItem_at(1) [of ?c "ucast i" ?t "\<lambda>v. set_u64 (ucast v)"]
      getDDItem_at(2) [of ?c "ucast i" ?t "\<lambda>v. set_u64 (ucast v)"]
      getDDItem_at(3) [of ?c "ucast i" ?t "\<lambda>v. set_u64 (ucast v)"]
      getDDItem_at(4) [of ?c i ?t]
    by (cases c; cases rule: cases)
      (simp_all add: next_byte switch_fix switch_ints item_writes fix_uint wide mp_uint_def)
qed

lemma next_sint:
  assumes "u_return_code c = 0" "bytes_at (ubuf c) (current c) (mp_sint i)"
  shows "cw_unpack_next c = read_item (MInt i) c"
proof (cases "0 \<le> sint i")
  case True
  then show ?thesis using assms next_uint [of c i] by (simp add: mp_sint_def read_item_def)
next
  case neg: False
  let ?c = "c\<lparr>current := Suc (current c)\<rparr>" and ?t = CWP_ITEM_NEGATIVE_INTEGER
  have wide: "- 128 \<le> sint i \<Longrightarrow> scast (ucast i :: byte) = i"
    "- 32768 \<le> sint i \<Longrightarrow> scast (ucast i :: u16) = i"
    "- 2147483648 \<le> sint i \<Longrightarrow> scast (ucast i :: u32) = i"
    using neg by (rule_tac scast_narrow, simp_all)+
  have small: "- 32 \<le> sint i \<Longrightarrow> 0xdf < (ucast i :: byte) \<and> scast (ucast i :: byte) = i"
    using fix_sint [of i] neg by simp
  consider "- 32 \<le> sint i" | "\<not> - 32 \<le> sint i" "- 128 \<le> sint i"
    | "\<not> - 32 \<le> sint i" "\<not> - 128 \<le> sint i" "- 32768 \<le> sint i"
    | "\<not> - 32 \<le> sint i" "\<not> - 128 \<le> sint i" "\<not> - 32768 \<le> sint i" "- 2147483648 \<le> sint i"
    | "\<not> - 32 \<le> sint i" "\<not> - 128 \<le> sint i" "\<not> - 32768 \<le> sint i" "\<not> - 2147483648 \<le> sint i"
    by blast
  note cases = this
  show ?thesis
    using assms neg getDDItem_at(1) [of ?c "ucast i" ?t "\<lambda>v. set_u64 (scast v)"]
      getDDItem_at(2) [of ?c "ucast i" ?t "\<lambda>v. set_u64 (scast v)"]
      getDDItem_at(3) [of ?c "ucast i" ?t "\<lambda>v. set_u64 (scast v)"]
      getDDItem_at(4) [of ?c i ?t]
    by (cases c; cases rule: cases)
      (simp_all add: next_byte switch_fix switch_ints item_writes small wide mp_sint_def)
qed

text \<open>Strings and byte arrays: a header, then the bytes.\<close>

lemma next_str:
  assumes rc: "u_return_code c = 0" and len: "length v < 2 ^ 32"
    and at: "bytes_at (ubuf c) (current c) (mp_encode (MStr v))"
  shows "cw_unpack_next c = read_item (MStr v) c"
proof -
  let ?c = "c\<lparr>current := Suc (current c)\<rparr>" and ?n = "length v"
  have small: "let b = 0xa0 + of_nat ?n :: byte in
      0x9f < b \<and> b \<le> 0xbf \<and> ucast (b AND 0x1f) = (of_nat ?n :: u32)" if "?n < 32"
    using fix_str that by blast
  have wide: "?n < 256 \<Longrightarrow> ucast (of_nat ?n :: byte) = (of_nat ?n :: u32)"
    "?n < 65536 \<Longrightarrow> ucast (of_nat ?n :: u16) = (of_nat ?n :: u32)"
    by (simp_all add: word_unat_eq_iff unsigned_ucast_eq unsigned_of_nat take_bit_nat_eq_self)
  have n: "unat (of_nat ?n :: u32) = ?n" using len by (simp add: unsigned_of_nat take_bit_nat_eq_self)
  consider "?n < 32" | "\<not> ?n < 32" "?n < 256" | "\<not> ?n < 32" "\<not> ?n < 256" "?n < 65536"
    | "\<not> ?n < 32" "\<not> ?n < 256" "\<not> ?n < 65536" by blast
  note cases = this
  show ?thesis
    using rc at bytes_at_length [OF at] n small
      getDDItem_at(1) [of ?c "of_nat ?n" CWP_ITEM_STR "\<lambda>v. set_length (ucast v)"]
      getDDItem_at(2) [of ?c "of_nat ?n" CWP_ITEM_STR "\<lambda>v. set_length (ucast v)"]
      getDDItem_at(3) [of ?c "of_nat ?n" CWP_ITEM_STR set_length]
    by (cases c; cases rule: cases)
      (simp_all add: next_byte switch_fix switch_blobs item_writes wide mp_sized_def Let_def
        assert_blob_at)
qed

lemma next_bin:
  assumes rc: "u_return_code c = 0" and len: "length v < 2 ^ 32"
    and at: "bytes_at (ubuf c) (current c) (mp_encode (MBin v))"
  shows "cw_unpack_next c = read_item (MBin v) c"
proof -
  let ?c = "c\<lparr>current := Suc (current c)\<rparr>" and ?n = "length v"
  have wide: "?n < 256 \<Longrightarrow> ucast (of_nat ?n :: byte) = (of_nat ?n :: u32)"
    "?n < 65536 \<Longrightarrow> ucast (of_nat ?n :: u16) = (of_nat ?n :: u32)"
    by (simp_all add: word_unat_eq_iff unsigned_ucast_eq unsigned_of_nat take_bit_nat_eq_self)
  have n: "unat (of_nat ?n :: u32) = ?n" using len by (simp add: unsigned_of_nat take_bit_nat_eq_self)
  consider "?n < 256" | "\<not> ?n < 256" "?n < 65536" | "\<not> ?n < 256" "\<not> ?n < 65536" by blast
  note cases = this
  show ?thesis
    using rc at bytes_at_length [OF at] n
      getDDItem_at(1) [of ?c "of_nat ?n" CWP_ITEM_BIN "\<lambda>v. set_length (ucast v)"]
      getDDItem_at(2) [of ?c "of_nat ?n" CWP_ITEM_BIN "\<lambda>v. set_length (ucast v)"]
      getDDItem_at(3) [of ?c "of_nat ?n" CWP_ITEM_BIN set_length]
    by (cases c; cases rule: cases)
      (simp_all add: next_byte switch_blobs item_writes wide mp_sized_def Let_def assert_blob_at)
qed

text \<open>Every encoded item is read back as itself.\<close>

lemma next_item:
  assumes "u_return_code c = 0" "bytes_at (ubuf c) (current c) (mp_encode it)" "item_fits it"
  shows "cw_unpack_next c = read_item it c"
  using assms
  by (cases it) (simp_all only: next_simple next_float next_container next_uint next_sint next_str
      next_bin mp_encode.simps item_fits.simps)


subsection \<open>The interface between the codec and its callers\<close>

text \<open>
  What the callers of cwpack rely on: if the encoding of an item is the next unread input, reading
  has the item's effect and the input behind the encoding is unread.  \<open>unread c bs\<close> says that
  \<open>bs\<close> is a prefix of the unread input of a reader without an error.
\<close>

locale item_reader =
  fixes enc :: "'i \<Rightarrow> 'b list"
    and fits :: "'i \<Rightarrow> bool"
    and unread :: "'c \<Rightarrow> 'b list \<Rightarrow> bool"
    and nxt :: "'c \<Rightarrow> 'c"
    and effect :: "'i \<Rightarrow> 'c \<Rightarrow> 'c"
  assumes read_one: "fits it \<Longrightarrow> unread c (enc it @ bs) \<Longrightarrow>
    nxt c = effect it c \<and> unread (effect it c) bs"
begin

text \<open>A sequence of items is read one after the other.\<close>

lemma read_all:
  "list_all fits its \<Longrightarrow> unread c (concat (map enc its) @ bs) \<Longrightarrow>
   (nxt ^^ length its) c = fold effect its c \<and> unread (fold effect its c) bs"
proof (induction its arbitrary: c)
  case (Cons it its)
  then have "nxt c = effect it c" "unread (effect it c) (concat (map enc its) @ bs)"
    using read_one [of it c "concat (map enc its) @ bs"] by simp_all
  with Cons show ?case by (simp add: funpow_swap1)
qed simp

end

definition unread_at :: "cw_unpack_context \<Rightarrow> byte list \<Rightarrow> bool" where
  "unread_at c bs \<longleftrightarrow> u_return_code c = 0 \<and> bytes_at (ubuf c) (current c) bs"

lemma read_item_fields [simp]:
  "ubuf (read_item it c) = ubuf c" "u_start (read_item it c) = u_start c"
  "u_return_code (read_item it c) = u_return_code c"
  "current (read_item it c) = current c + length (mp_encode it)"
  by (cases it; simp add: item_writes)+

lemma read_item_handler [simp]:
  "handle_unpack_underflow (read_item it c) = handle_unpack_underflow c"
  by (cases it; simp add: item_writes)+

lemma fold_read_current:
  "current (fold read_item its c) = current c + length (mp_encode_all its)"
  by (induction its arbitrary: c) simp_all

lemma fold_read_fields [simp]:
  "ubuf (fold read_item its c) = ubuf c"
  "u_return_code (fold read_item its c) = u_return_code c"
  by (induction its arbitrary: c) simp_all

text \<open>At the end of the input reading fails and leaves the union as it was.\<close>

lemma next_at_end:
  "u_return_code c = 0 \<Longrightarrow> handle_unpack_underflow c = None \<Longrightarrow> length (ubuf c) \<le> current c \<Longrightarrow>
   cw_unpack_next c = UNPACK_ERROR CWP_RC_END_OF_INPUT c"
  by (simp add: cw_unpack_next_def cw_unpack_assert_space_def)

interpretation codec: item_reader mp_encode item_fits unread_at cw_unpack_next read_item
  by unfold_locales (auto simp: unread_at_def next_item)

lemma unread_at_init:
  "unread_at (cw_unpack_context_init c addr bs h) bs"
  using bytes_at_self [of "[]" bs "[]"]
  by (simp add: unread_at_def cw_unpack_context_init_def)

lemma unpack_ready_init: "unpack_ready (cw_unpack_context_init c addr bs None)"
  by (simp add: unpack_ready_def cw_unpack_context_init_def)

text \<open>Packing an item by the routine for its kind.\<close>

fun pack_call :: "mp_item \<Rightarrow> cw_pack_context \<Rightarrow> cw_pack_context" where
  "pack_call MNil pc = cw_pack_nil pc"
| "pack_call (MBool b) pc = cw_pack_boolean pc b"
| "pack_call (MUint i) pc = cw_pack_unsigned pc i"
| "pack_call (MInt i) pc = cw_pack_signed pc i"
| "pack_call (MFloat f) pc = cw_pack_float pc f"
| "pack_call (MDouble d) pc = cw_pack_double pc d"
| "pack_call (MStr v) pc = cw_pack_str pc v (of_nat (length v))"
| "pack_call (MBin v) pc = cw_pack_bin pc v (of_nat (length v))"
| "pack_call (MArray n) pc = cw_pack_array_size pc n"
| "pack_call (MMap n) pc = cw_pack_map_size pc n"

lemma pack_call_item:
  "pack_ready pc \<Longrightarrow> item_fits it \<Longrightarrow> pack_call it pc = pack_item it pc"
  by (cases it) (simp_all add: pack_routines unsigned_of_nat take_bit_nat_eq_self)

lemma pack_calls_items:
  "pack_ready pc \<Longrightarrow> list_all item_fits its \<Longrightarrow> fold pack_call its pc = pack_items its pc"
  by (induction its arbitrary: pc) (simp_all add: pack_call_item)

subsection \<open>The contracts of the codec\<close>

text \<open>
  C10. Whatever the bytes are, unpacking reads inside the buffer: with a null handler
  \<open>cw_unpack_next\<close> keeps the buffer and leaves \<open>current\<close> inside it, and either consumes at least
  one byte or reports an error and no item.  After an error it does nothing.
\<close>

theorem cw_unpack_next_bounds:
  assumes "unpack_ready c"
  shows "keeps_buffer c (cw_unpack_next c) \<and>
    (if u_return_code c \<noteq> 0 then cw_unpack_next c = c
     else if u_return_code (cw_unpack_next c) = 0 then current c < current (cw_unpack_next c)
     else item_type (cw_unpack_next c) = CWP_NOT_AN_ITEM)"
  using cw_unpack_next_ok [OF assms] cw_unpack_next_sticky [of c] ready_keeps [OF assms]
  by (auto simp: failed_def advanced_def)

text \<open>
  C9. Round trip: items packed one after the other into a buffer they fit in are packed without
  an error, and unpacking as many items from the bytes written reads exactly these items, in
  order, up to the end of the bytes.
\<close>

theorem pack_unpack_roundtrip:
  assumes "list_all item_fits items" "length (mp_encode_all items) \<le> cap"
  shows "p_return_code (fold pack_call items (cw_pack_context_init cap None)) = 0 \<and>
    (let data = p_out (fold pack_call items (cw_pack_context_init cap None));
         c = cw_unpack_context_init c0 addr data None
     in (cw_unpack_next ^^ length items) c = fold read_item items c \<and>
        current (fold read_item items c) = length data)"
proof -
  let ?pc = "fold pack_call items (cw_pack_context_init cap None)"
  have pc: "?pc = cw_put (mp_encode_all items) (cw_pack_context_init cap None)"
    using assms pack_items_fit [of "cw_pack_context_init cap None" items]
    by (simp add: pack_calls_items pack_ready_init)
  have out: "p_out ?pc = concat (map mp_encode items)"
    by (simp add: pc cw_put_def pack_ready_init mp_encode_all_def)
  let ?c = "cw_unpack_context_init c0 addr (p_out ?pc) None"
  have all: "(cw_unpack_next ^^ length items) ?c = fold read_item items ?c"
    using codec.read_all [OF assms(1), of ?c "[]"] unread_at_init [of c0 addr "p_out ?pc" None]
    by (simp add: out)
  have "current ?c = 0" by (simp add: cw_unpack_context_init_def)
  then show ?thesis
    using all by (simp add: Let_def fold_read_current out pc cw_put_def pack_ready_init
        mp_encode_all_def)
qed

text \<open>
  A sequence of items that does not fit its buffer is cut between two items: the bytes written
  are the encodings of the first \<open>k\<close> items and the overflow is reported, whatever is packed after.
\<close>

theorem pack_overflow_reported:
  assumes "list_all item_fits items" "cap < length (mp_encode_all items)"
  shows "\<exists>k < length items.
    p_out (fold pack_call items (cw_pack_context_init cap None)) = mp_encode_all (take k items) \<and>
    p_return_code (fold pack_call items (cw_pack_context_init cap None)) = CWP_RC_BUFFER_OVERFLOW"
  using pack_items_overflow [of "cw_pack_context_init cap None" items] assms
  by (auto simp: pack_calls_items pack_ready_init PACK_ERROR_def cw_put_def)

text \<open>The contracts at concrete inputs.\<close>

definition start_context :: "byte list \<Rightarrow> cw_unpack_context" where
  "start_context bs =
     cw_unpack_context_init
       \<lparr>item_type = CWP_NOT_AN_ITEM, as_lo = 0, as_hi = 0, u_start = 0, ubuf = [], current = 0,
        u_return_code = 0, u_err_no = 0, handle_unpack_underflow = None\<rparr> 0 bs None"

lemma start_context_ready [simp]:
  "unpack_ready (start_context bs)" "u_return_code (start_context bs) = 0"
  "ubuf (start_context bs) = bs" "current (start_context bs) = 0"
  by (simp_all add: start_context_def unpack_ready_init) (simp_all add: cw_unpack_context_init_def)

theorem cw_unpack_next_bounds_witness:
  "unpack_ready (start_context [0xcd, 0x01]) \<and>
   keeps_buffer (start_context [0xcd, 0x01]) (cw_unpack_next (start_context [0xcd, 0x01]))"
  using cw_unpack_next_bounds [of "start_context [0xcd, 0x01]"] by simp

theorem pack_unpack_roundtrip_witness:
  "list_all item_fits [MArray 2, MUint 300, MFloat 0x3f800000] \<and>
   p_return_code (fold pack_call [MArray 2, MUint 300, MFloat 0x3f800000]
     (cw_pack_context_init 9 None)) = 0"
  using pack_unpack_roundtrip [of "[MArray 2, MUint 300, MFloat 0x3f800000]" 9]
  by (simp add: mp_uint_def)

theorem pack_overflow_reported_witness:
  "8 < length (mp_encode_all [MArray 2, MUint 300, MFloat 0x3f800000]) \<and>
   p_return_code (fold pack_call [MArray 2, MUint 300, MFloat 0x3f800000]
     (cw_pack_context_init 8 None)) = CWP_RC_BUFFER_OVERFLOW"
  using pack_overflow_reported [of "[MArray 2, MUint 300, MFloat 0x3f800000]" 8]
  by (auto simp add: mp_uint_def)

end
