(* ===== verification/C_Float.thy ===== *)
theory C_Float
  imports Prelude
begin

text \<open>
  The two conversions between \<open>uint64_t\<close> and \<open>float\<close> that the engine performs on the deviation
  field: \<open>(float) u64\<close> in \<open>engine/src/event_parser.c\<close> and \<open>(uint64_t) f32\<close> in
  \<open>engine/src/event_sender.c\<close>.  A float is its IEEE 754 single-precision representation; the
  conversion to float rounds to nearest, ties to even (the default rounding mode), the
  conversion to integer truncates towards zero and is undefined in C (\<open>None\<close>) when the
  truncated value does not fit, which covers negative values below or at -1, values of
  \<open>2^64\<close> and more, infinities and NaNs.
\<close>

fun floor_log2 :: "nat \<Rightarrow> nat" where
  "floor_log2 n = (if n < 2 then 0 else Suc (floor_log2 (n div 2)))"

declare floor_log2.simps [simp del]

definition round_even :: "nat \<Rightarrow> nat \<Rightarrow> nat" where
  "round_even n s =
     (let q = n div 2 ^ s; r = n mod 2 ^ s; half = 2 ^ (s - 1) in
      if half < r \<or> (r = half \<and> odd q) then q + 1 else q)"

definition u64_to_f32 :: "u64 \<Rightarrow> f32" where
  "u64_to_f32 x =
     (let n = unat x; e = floor_log2 n in
      if n = 0 then 0
      else if e \<le> 23 then of_nat ((e + 127) * 2 ^ 23 + (n * 2 ^ (23 - e) - 2 ^ 23))
      else of_nat ((e + 127) * 2 ^ 23 + (round_even n (e - 23) - 2 ^ 23)))"

definition f32_to_u64 :: "f32 \<Rightarrow> u64 option" where
  "f32_to_u64 b =
     (let n = unat b; sign = n div 2 ^ 31; e = (n div 2 ^ 23) mod 2 ^ 8; m = n mod 2 ^ 23 in
      if e < 127 then Some 0
      else if sign = 1 \<or> 191 \<le> e then None
      else if e \<le> 150 then Some (of_nat ((2 ^ 23 + m) div 2 ^ (150 - e)))
      else Some (of_nat ((2 ^ 23 + m) * 2 ^ (e - 150))))"

lemma floor_log2_bounds: "0 < n \<Longrightarrow> 2 ^ floor_log2 n \<le> n \<and> n < 2 ^ Suc (floor_log2 n)"
proof (induction n rule: floor_log2.induct)
  case (1 n)
  show ?case
  proof (cases "n < 2")
    case True
    with "1.prems" show ?thesis by (simp add: floor_log2.simps [of n])
  next
    case False
    with "1.IH" have "2 ^ floor_log2 (n div 2) \<le> n div 2 \<and> n div 2 < 2 ^ Suc (floor_log2 (n div 2))"
      by simp
    with False show ?thesis by (simp add: floor_log2.simps [of n]) linarith
  qed
qed

lemma floor_log2_less:
  assumes "0 < n" "n < 2 ^ k" shows "floor_log2 n < k"
proof -
  have "(2::nat) ^ floor_log2 n < 2 ^ k"
    using floor_log2_bounds [OF assms(1)] assms(2) by linarith
  then show ?thesis by simp
qed

text \<open>The conversion to an integer in terms of the exponent and the mantissa.\<close>

lemma f32_to_u64_fields:
  assumes "unat b = E * 2 ^ 23 + M" "E < 256" "M < 2 ^ 23"
  shows "f32_to_u64 b =
     (if E < 127 then Some 0
      else if 191 \<le> E then None
      else if E \<le> 150 then Some (of_nat ((2 ^ 23 + M) div 2 ^ (150 - E)))
      else Some (of_nat ((2 ^ 23 + M) * 2 ^ (E - 150))))"
proof -
  have "(E * 2 ^ 23 + M) div 2 ^ 23 = E" and "(E * 2 ^ 23 + M) mod 2 ^ 23 = M"
    using assms(3) by (simp_all only: div_mult_self3 mod_mult_self3 mod_less div_less)
  moreover have "E mod 2 ^ 8 = E" using assms(2) by simp
  moreover have "(E * 2 ^ 23 + M) div 2 ^ 31 = 0" using assms by simp
  ultimately show ?thesis unfolding f32_to_u64_def Let_def assms(1) by simp
qed

text \<open>Integers below \<open>2^24\<close> have an exact float, which converts back to them.\<close>

lemma f32_u64_roundtrip_aux:
  assumes "unat x < 2 ^ 24" shows "f32_to_u64 (u64_to_f32 x) = Some x"
proof (cases "x = 0")
  case True
  then show ?thesis by (simp add: u64_to_f32_def f32_to_u64_def)
next
  case False
  define n e where "n = unat x" and "e = floor_log2 n"
  have n: "0 < n" using False by (simp add: n_def unat_gt_0)
  have b: "2 ^ e \<le> n" "n < 2 * 2 ^ e" using floor_log2_bounds [OF n] by (simp_all add: e_def)
  have e: "e \<le> 23" using floor_log2_less [of n 24] n assms by (simp add: e_def n_def)
  define m where "m = n * 2 ^ (23 - e) - 2 ^ 23"
  have p: "(2::nat) ^ e * 2 ^ (23 - e) = 2 ^ 23" using e by (simp flip: power_add)
  have lo: "2 ^ 23 \<le> n * 2 ^ (23 - e)" using b(1) p by (metis mult_le_mono1)
  have "n * 2 ^ (23 - e) < 2 * 2 ^ e * 2 ^ (23 - e)" using b(2) by simp
  then have hi: "m < 2 ^ 23" using p lo unfolding m_def by linarith
  have bits: "u64_to_f32 x = of_nat ((e + 127) * 2 ^ 23 + m)"
    using e n by (simp add: u64_to_f32_def m_def e_def n_def Let_def)
  have w: "unat (of_nat ((e + 127) * 2 ^ 23 + m) :: f32) = (e + 127) * 2 ^ 23 + m"
    by (rule of_nat_inverse [OF refl]) (use e hi in simp)
  have "2 ^ 23 + m = n * 2 ^ (23 - e)" using lo by (simp add: m_def)
  moreover have "150 - (e + 127) = 23 - e" by simp
  ultimately have "f32_to_u64 (of_nat ((e + 127) * 2 ^ 23 + m)) = Some (of_nat n)"
    using e f32_to_u64_fields [OF w _ hi] by simp
  then show ?thesis by (simp add: bits n_def)
qed

end
