(* ===== verification/Event_Parser.thy ===== *)
theory Event_Parser
  imports Event_Queue Cwpack_Unpack C_Float
begin

text \<open>
  \<open>deserialize_event\<close> of \<open>engine/src/event_parser.c\<close>: a received message becomes events on the
  queue.  An update message lists any number of variables; its events carry at most
  \<open>MAX_VARS_PER_EVENT\<close> of them each.  What the C code leaves uninitialised on its stack is an
  argument: the union of the unpack context (\<open>ctx\<close>), the array of updates (\<open>ups\<close>, which the
  batches of one message overwrite one after the other) and the message text (\<open>txt\<close>).  \<open>data\<close>
  are the \<open>size\<close> bytes from \<open>buffer\<close> on, \<open>addr\<close> its address, \<open>now\<close> the result of
  \<open>get_time_ns\<close>.  Lines printed are part of the result.
\<close>

subsection \<open>The code\<close>

datatype parse_line = QueueFull | ErrorEvent | UnknownType u32

type_synonym parse_result = "int \<times> event_queue_t \<times> history_t \<times> parse_line list"

definition log_value :: "u32 \<Rightarrow> u64 \<Rightarrow> u32 \<Rightarrow> f32 \<Rightarrow> history_t \<Rightarrow> history_t" where
  "log_value idx now twin v h =
     (if unat idx < MAX_HISTORY_RECORDS
      then h\<lparr>history_log := (history_log h)(unat idx :=
          \<lparr>timestamp_ns = now, ts_value = v, ts_twin_id = twin\<rparr>)\<rparr>
      else h)"

text \<open>The body of the inner loop: one variable and its value.\<close>

definition parse_entry ::
  "u32 \<Rightarrow> u64 \<Rightarrow> u32 \<Rightarrow> cw_unpack_context \<Rightarrow> property_update_t \<Rightarrow> history_t
   \<Rightarrow> cw_unpack_context \<times> property_update_t \<times> history_t" where
  "parse_entry idx now twin ctx u h =
     (let ctx = cw_unpack_next ctx;
          u = u\<lparr>upd_var_id := ucast (as_u64 ctx)\<rparr>;
          ctx = cw_unpack_next ctx
      in if item_type ctx = CWP_ITEM_FLOAT \<or> item_type ctx = CWP_ITEM_DOUBLE
         then (ctx, u\<lparr>upd_value := as_real ctx\<rparr>, log_value idx now twin (as_real ctx) h)
         else (ctx, u\<lparr>upd_value := ucast (as_u64 ctx)\<rparr>, h))"

type_synonym batch_state =
  "cw_unpack_context \<times> property_update_t list \<times> u8 \<times> u32 \<times> history_t"

function parse_batch :: "u32 \<Rightarrow> u64 \<Rightarrow> u32 \<Rightarrow> u32 \<Rightarrow> batch_state \<Rightarrow> batch_state" where
  "parse_batch idx now twin var_count (ctx, ups, batch_count, vars_processed, h) =
     (if unat batch_count < MAX_VARS_PER_EVENT \<and> vars_processed < var_count then
        (case parse_entry idx now twin ctx (ups ! unat batch_count) h of
           (ctx, u, h) \<Rightarrow>
             parse_batch idx now twin var_count
               (ctx, ups[unat batch_count := u], batch_count + 1, vars_processed + 1, h))
      else (ctx, ups, batch_count, vars_processed, h))"
  by pat_completeness auto

termination
  by (relation "measure (\<lambda>(idx, now, twin, n, c, ups, b, vp, h). MAX_VARS_PER_EVENT - unat b)")
    (auto simp: config_defs unat_word_ariths)

declare parse_batch.simps [simp del]

lemma parse_batch_progress:
  "parse_batch idx now twin n (c, ups, b, vp, h) = (c', ups', b', vp', h') \<Longrightarrow>
   unat vp \<le> unat n \<Longrightarrow>
   unat vp \<le> unat vp' \<and> unat vp' \<le> unat n \<and> length ups' = length ups \<and>
   (unat b < MAX_VARS_PER_EVENT \<longrightarrow> vp < n \<longrightarrow> unat vp < unat vp') \<and>
   (unat b \<le> MAX_VARS_PER_EVENT \<longrightarrow> unat b' \<le> MAX_VARS_PER_EVENT)"
proof (induction idx now twin n "(c, ups, b, vp, h)" arbitrary: c ups b vp h
    rule: parse_batch.induct)
  case (1 idx now twin n c ups b vp h)
  show ?case
  proof (cases "unat b < MAX_VARS_PER_EVENT \<and> vp < n")
    case False
    then show ?thesis using "1.prems" by (auto simp: parse_batch.simps)
  next
    case True
    obtain c1 u h1 where e: "parse_entry idx now twin c (ups ! unat b) h = (c1, u, h1)"
      by (metis prod_cases3)
    have vp: "unat (vp + 1) = unat vp + 1" using True by (blast intro: unat_plus_one_less)
    have b: "unat (b + 1) = unat b + 1" using True by (simp add: unat_word_ariths config_defs)
    have "parse_batch idx now twin n (c1, ups[unat b := u], b + 1, vp + 1, h1)
        = (c', ups', b', vp', h')"
      using "1.prems" True by (simp add: parse_batch.simps [of idx now twin n c] e)
    from "1.hyps" [OF True e [symmetric] refl this] vp b True show ?thesis
      by (simp add: word_less_nat_alt)
  qed
qed

lemma parse_batch_decreases:
  assumes "vp < n" "(c1, ups1, b1, vp1, h1) = parse_batch idx now twin n (c, ups, 0, vp, h)"
  shows "unat n - unat vp1 < unat n - unat vp"
  using parse_batch_progress [OF assms(2) [symmetric]] assms(1)
  by (auto simp: word_less_nat_alt config_defs)

type_synonym batches_state =
  "event_queue_t \<times> cw_unpack_context \<times> property_update_t list \<times> u32 \<times> history_t \<times> parse_line list"

function parse_batches ::
  "u32 \<Rightarrow> u64 \<Rightarrow> event_header_t \<Rightarrow> u32 \<Rightarrow> batches_state \<Rightarrow> parse_result" where
  "parse_batches idx now hdr var_count (q, ctx, ups, vars_processed, h, out) =
     (if vars_processed < var_count then
        (case parse_batch idx now (twin_id hdr) var_count (ctx, ups, 0, vars_processed, h) of
           (ctx, ups, batch_count, vars_processed, h) \<Rightarrow>
             (let event = \<lparr>header = hdr,
                           payload = Update \<lparr>upd_count = batch_count, updates = ups\<rparr>\<rparr>;
                  (rc, q) = push_event q event;
                  out = (if rc \<noteq> 0 then out @ [QueueFull] else out)
              in parse_batches idx now hdr var_count (q, ctx, ups, vars_processed, h, out)))
      else (0, q, h, out))"
  by pat_completeness auto

termination
  by (relation "measure (\<lambda>(idx, now, hdr, n, q, c, ups, vp, h, out). unat n - unat vp)")
    (auto dest: parse_batch_decreases)

declare parse_batches.simps [simp del]

text \<open>
  The message text of an error event: at most 63 bytes of the string and a terminating 0; the
  rest of the array keeps what the stack held.
\<close>

definition MESSAGE_SIZE :: nat where
  "MESSAGE_SIZE = 64"

definition blob_bytes :: "cw_unpack_context \<Rightarrow> nat \<Rightarrow> byte list" where
  "blob_bytes c len = take len (drop (unat (as_lo c - u_start c)) (ubuf c))"

definition copy_message :: "cw_unpack_context \<Rightarrow> byte list \<Rightarrow> byte list" where
  "copy_message ctx txt =
     (if item_type ctx = CWP_ITEM_STR then
        (let len = unat (as_length ctx);
             len = (if MESSAGE_SIZE \<le> len then MESSAGE_SIZE - 1 else len)
         in blob_bytes ctx len @ 0 # drop (len + 1) txt)
      else 0 # drop 1 txt)"

text \<open>What the caller's stack, the clock and the address of the buffer contribute.\<close>

record parser_env =
  stack_ctx :: cw_unpack_context
  stack_updates :: "property_update_t list"
  stack_message :: "byte list"
  buffer_addr :: u64
  now_ns :: u64

definition parse_header :: "cw_unpack_context \<Rightarrow> event_header_t \<times> cw_unpack_context" where
  "parse_header ctx =
     (let ctx = cw_unpack_next ctx; t = ucast (as_u64 ctx);
          ctx = cw_unpack_next ctx; ts = as_u64 ctx;
          ctx = cw_unpack_next ctx; dev = u64_to_f32 (as_u64 ctx);
          ctx = cw_unpack_next ctx; twin = ucast (as_u64 ctx)
      in (\<lparr>event_type = t, timestamp = ts, deviation = dev, twin_id = twin\<rparr>, ctx))"

definition deserialize_event ::
  "parser_env \<Rightarrow> event_queue_t \<Rightarrow> history_t \<Rightarrow> byte list \<Rightarrow> parse_result" where
  "deserialize_event env q h data =
     (let (idx, h) = atomic_fetch_add h;
          ctx = cw_unpack_context_init (stack_ctx env) (buffer_addr env) data None;
          ctx = cw_unpack_next ctx
      in if u_return_code ctx \<noteq> 0 then (- 1, q, h, [])
      else
        (let array_size = as_size ctx in
         if array_size < 4 then (- 1, q, h, [])
         else
           (let (hdr, ctx) = parse_header ctx in
            if event_type hdr = EVENT_UPDATE then
              (let ctx = cw_unpack_next ctx; var_count = ucast (as_u64 ctx) in
               if array_size \<noteq> 5 + var_count * 2 then (- 1, q, h, [])
               else parse_batches idx (now_ns env) hdr var_count
                 (q, ctx, stack_updates env, 0, h, []))
            else if event_type hdr = EVENT_ERROR then
              (let ctx = cw_unpack_next ctx; code = ucast (as_u64 ctx);
                   ctx = cw_unpack_next ctx;
                   event = \<lparr>header = hdr,
                            payload = Error \<lparr>error_code = code,
                                             message = copy_message ctx (stack_message env)\<rparr>\<rparr>;
                   (_, q) = push_event q event
               in (0, q, h, [ErrorEvent]))
            else (- 1, q, h, [UnknownType (event_type hdr)]))))"

subsection \<open>A rejected message leaves the queue alone\<close>

lemma parse_batches_code: "fst (parse_batches idx now hdr n s) = 0"
  by (induction idx now hdr n s rule: parse_batches.induct)
    (simp add: parse_batches.simps Let_def split: prod.split)

lemma rejected_untouched_aux:
  "fst (deserialize_event env q h data) \<noteq> 0 \<Longrightarrow>
   fst (snd (deserialize_event env q h data)) = q"
  by (auto simp: deserialize_event_def parse_batches_code Let_def split_beta split: if_splits)

subsection \<open>The type invariant of the events\<close>

definition queue_events_ok :: "event_queue_t \<Rightarrow> bool" where
  "queue_events_ok q \<longleftrightarrow> queue_ok q \<and> list_all event_ok (queue_content q)"

lemma push_events_ok:
  "queue_events_ok q \<Longrightarrow> event_ok e \<Longrightarrow> queue_events_ok (snd (push_event q e))"
  by (simp add: queue_events_ok_def push_event_ok ring.push_content list_all_take)

lemma pop_events_ok:
  "queue_events_ok q \<Longrightarrow> queue_events_ok (snd (snd (pop_event q e)))"
  by (simp add: queue_events_ok_def pop_event_ok ring.pop_content list_all_tl)

definition update_event :: "event_header_t \<Rightarrow> u8 \<Rightarrow> property_update_t list \<Rightarrow> event_t" where
  "update_event hdr b ups =
     \<lparr>header = hdr, payload = Update \<lparr>upd_count = b, updates = ups\<rparr>\<rparr>"

lemma parse_batches_step:
  assumes "vp < n"
    and "parse_batch idx now (twin_id hdr) n (c, ups, 0, vp, h) = (c1, ups1, b, vp1, h1)"
  shows "parse_batches idx now hdr n (q, c, ups, vp, h, out) =
    parse_batches idx now hdr n
      (snd (push_event q (update_event hdr b ups1)), c1, ups1, vp1, h1,
       out @ (if fst (push_event q (update_event hdr b ups1)) \<noteq> 0 then [QueueFull] else []))"
  using assms
  by (simp add: parse_batches.simps [of _ _ _ _ q c] update_event_def Let_def split_beta)

lemma parse_batches_end:
  "\<not> vp < n \<Longrightarrow> parse_batches idx now hdr n (q, c, ups, vp, h, out) = (0, q, h, out)"
  by (simp add: parse_batches.simps)

text \<open>The shape of a batch in terms of the numbers the loops compare.\<close>

lemma parse_batch_from_0:
  assumes "vp < n"
    and "parse_batch idx now twin n (c, ups, 0, vp, h) = (c1, ups1, b, vp1, h1)"
  shows "unat vp < unat vp1" "unat vp1 \<le> unat n" "length ups1 = length ups"
    "unat b \<le> MAX_VARS_PER_EVENT" "unat n - unat vp1 < unat n - unat vp"
  using parse_batch_progress [OF assms(2)] assms(1)
  by (auto simp: word_less_nat_alt config_defs)

lemma parse_batches_ok:
  assumes "event_type hdr = EVENT_UPDATE"
  shows "queue_events_ok q \<Longrightarrow> length ups = MAX_VARS_PER_EVENT \<Longrightarrow>
    queue_events_ok (fst (snd (parse_batches idx now hdr n (q, c, ups, vp, h, out))))"
proof (induction "unat n - unat vp" arbitrary: q c ups vp h out rule: less_induct)
  case less
  show ?case
  proof (cases "vp < n")
    case False
    then show ?thesis using less.prems by (simp add: parse_batches.simps)
  next
    case True
    obtain c1 ups1 b vp1 h1
      where b: "parse_batch idx now (twin_id hdr) n (c, ups, 0, vp, h) = (c1, ups1, b, vp1, h1)"
      by (metis prod_cases5)
    have ok: "event_ok (update_event hdr b ups1)"
      using parse_batch_from_0 [OF True b] less.prems assms
      by (simp add: event_ok_def update_event_def)
    show ?thesis
      unfolding parse_batches_step [OF True b]
      by (rule less.hyps) (use parse_batch_from_0 [OF True b] less.prems ok push_events_ok in simp_all)
  qed
qed

lemma deserialize_events_ok_aux:
  assumes "queue_events_ok q" "length (stack_updates env) = MAX_VARS_PER_EVENT"
  shows "queue_events_ok (fst (snd (deserialize_event env q h data)))"
proof -
  have err: "event_ok \<lparr>header = hdr, payload = Error e\<rparr>" if "event_type hdr = EVENT_ERROR" for hdr e
    using that by (simp add: event_ok_def)
  show ?thesis
    using assms
    by (simp add: deserialize_event_def Let_def split_beta parse_batches_ok push_events_ok err)
qed

subsection \<open>Update messages\<close>

text \<open>
  The message the documentation describes: an array of the event type, timestamp, deviation, twin
  and number of variables, then the variables with their values.
\<close>

fun entry_items :: "u16 \<times> f32 \<Rightarrow> mp_item list" where
  "entry_items (v, f) = [MUint (ucast v), MFloat f]"

definition entries_items :: "(u16 \<times> f32) list \<Rightarrow> mp_item list" where
  "entries_items vs = concat (map entry_items vs)"

definition update_items :: "u64 \<Rightarrow> u64 \<Rightarrow> u32 \<Rightarrow> (u16 \<times> f32) list \<Rightarrow> mp_item list" where
  "update_items ts dev twin vs =
     [MArray (of_nat (5 + 2 * length vs)), MUint 0, MUint ts, MUint dev, MUint (ucast twin),
      MUint (of_nat (length vs))] @ entries_items vs"

text \<open>What an event on the queue says.\<close>

definition pair_of :: "property_update_t \<Rightarrow> u16 \<times> f32" where
  "pair_of p = (upd_var_id p, upd_value p)"

definition event_view :: "event_t \<Rightarrow> event_header_t \<times> (u16 \<times> f32) list" where
  "event_view ev =
     (header ev, case payload ev of Update u \<Rightarrow> map pair_of (carried u) | Error e \<Rightarrow> [])"

lemma entries_items_simps [simp]:
  "entries_items [] = []"
  "entries_items (p # vs) = entry_items p @ entries_items vs"
  by (simp_all add: entries_items_def)

lemma read_item_values [simp]:
  "as_u64 (read_item (MUint i) c) = i"
  "item_type (read_item (MUint i) c) = CWP_ITEM_POSITIVE_INTEGER"
  "as_size (read_item (MArray n) c) = n"
  "as_real (read_item (MFloat f) c) = f"
  "item_type (read_item (MFloat f) c) = CWP_ITEM_FLOAT"
  by (simp_all add: item_writes as_u64_def as_size_def as_real_def put_low32_low)

lemma next_unread:
  "unread_at c (mp_encode it @ bs) \<Longrightarrow> item_fits it \<Longrightarrow> cw_unpack_next c = read_item it c"
  "unread_at c (mp_encode it @ bs) \<Longrightarrow> item_fits it \<Longrightarrow> unread_at (read_item it c) bs"
  using codec.read_one [of it c bs] by simp_all

lemma next_uint_unread:
  "unread_at c (mp_uint i @ bs) \<Longrightarrow> cw_unpack_next c = read_item (MUint i) c"
  "unread_at c (mp_uint i @ bs) \<Longrightarrow> unread_at (read_item (MUint i) c) bs"
  using next_unread [of c "MUint i" bs] by simp_all

lemma parse_entry_read:
  assumes "unread_at c (mp_encode_all (entry_items (v, f)) @ bs)"
  shows "\<exists>c'. parse_entry idx now twin c u h =
      (c', u\<lparr>upd_var_id := v, upd_value := f\<rparr>, log_value idx now twin f h) \<and> unread_at c' bs"
proof -
  let ?c1 = "read_item (MUint (ucast v)) c" and ?c2 = "read_item (MFloat f)"
  have u: "unread_at c (mp_encode (MUint (ucast v)) @ mp_encode (MFloat f) @ bs)"
    using assms by simp
  have one: "cw_unpack_next c = ?c1" by (rule next_unread [OF u]) simp
  have u1: "unread_at ?c1 (mp_encode (MFloat f) @ bs)" by (rule next_unread [OF u]) simp
  have two: "cw_unpack_next ?c1 = ?c2 ?c1" by (rule next_unread [OF u1]) simp
  have u2: "unread_at (?c2 ?c1) bs" by (rule next_unread [OF u1]) simp
  have "ucast (ucast v :: u64) = v" by (simp add: word_bytes)
  then show ?thesis using u2 by (simp add: parse_entry_def one two)
qed

text \<open>One batch reads the variables up to its own limit or the end of the message.\<close>

lemma parse_batch_read:
  "unread_at c (mp_encode_all (entries_items vs) @ bs) \<Longrightarrow>
   length ups = MAX_VARS_PER_EVENT \<Longrightarrow> unat b + length vs \<le> MAX_VARS_PER_EVENT \<Longrightarrow>
   unat vp + length vs \<le> unat n \<Longrightarrow>
   unat b + length vs = MAX_VARS_PER_EVENT \<or> unat vp + length vs = unat n \<Longrightarrow>
   \<exists>c' ups' b' vp' h'. parse_batch idx now twin n (c, ups, b, vp, h) = (c', ups', b', vp', h') \<and>
     unread_at c' bs \<and> length ups' = MAX_VARS_PER_EVENT \<and> unat b' = unat b + length vs \<and>
     unat vp' = unat vp + length vs \<and>
     map pair_of (take (unat b') ups') = map pair_of (take (unat b) ups) @ vs"
proof (induction vs arbitrary: c ups b vp h)
  case Nil
  then have "\<not> (unat b < MAX_VARS_PER_EVENT \<and> vp < n)" by (auto simp: word_less_nat_alt)
  then show ?case using Nil.prems by (auto simp: parse_batch.simps)
next
  case (Cons p vs)
  obtain v f where p: "p = (v, f)" by (cases p)
  have lt: "unat b < MAX_VARS_PER_EVENT" "vp < n"
    using Cons.prems by (simp_all add: word_less_nat_alt)
  let ?u = "(ups ! unat b)\<lparr>upd_var_id := v, upd_value := f\<rparr>"
  obtain c1 where e: "parse_entry idx now twin c (ups ! unat b) h = (c1, ?u, log_value idx now twin f h)"
    and c1: "unread_at c1 (mp_encode_all (entries_items vs) @ bs)"
    using parse_entry_read [of c v f "mp_encode_all (entries_items vs) @ bs"] Cons.prems(1)
    by (force simp: p)
  have vp: "unat (vp + 1) = unat vp + 1" using lt by (blast intro: unat_plus_one_less)
  have b: "unat (b + 1) = unat b + 1" using lt by (simp add: unat_word_ariths config_defs)
  have step: "parse_batch idx now twin n (c, ups, b, vp, h) =
      parse_batch idx now twin n (c1, ups[unat b := ?u], b + 1, vp + 1, log_value idx now twin f h)"
    using lt by (simp add: parse_batch.simps [of idx now twin n c] e)
  have "take (Suc (unat b)) (ups[unat b := ?u]) = take (unat b) ups @ [?u]"
    using lt Cons.prems(2) by (simp add: take_Suc_conv_app_nth)
  then have grow: "map pair_of (take (unat (b + 1)) (ups[unat b := ?u])) =
      map pair_of (take (unat b) ups) @ [p]"
    by (simp add: b pair_of_def p)
  from Cons.IH [OF c1, of "ups[unat b := ?u]" "b + 1" "vp + 1" "log_value idx now twin f h"]
  show ?case using Cons.prems grow unfolding step by (simp add: b vp)
qed

lemma view_update_event:
  "unat b \<le> length ups \<Longrightarrow>
   event_view (update_event hdr b ups) = (hdr, map pair_of (take (unat b) ups))"
  by (simp add: event_view_def update_event_def carried_def)

lemma parse_batches_read:
  "unread_at c (mp_encode_all (entries_items vs) @ bs) \<Longrightarrow> queue_ok q \<Longrightarrow>
   length ups = MAX_VARS_PER_EVENT \<Longrightarrow> unat vp + length vs = unat n \<Longrightarrow>
   map event_view (queue_content (fst (snd (parse_batches idx now hdr n (q, c, ups, vp, h, out))))) =
     take (QUEUE_SIZE - 1) (map event_view (queue_content q) @ map (Pair hdr) (chunks MAX_VARS_PER_EVENT vs))"
proof (induction "length vs" arbitrary: vs c q ups vp h out rule: less_induct)
  case less
  have bound: "length (queue_content q) \<le> QUEUE_SIZE - 1"
    using ring.content_bound [OF less.prems(2)] .
  show ?case
  proof (cases "vs = []")
    case True
    then show ?thesis using less.prems bound by (simp add: parse_batches.simps word_less_nat_alt)
  next
    case False
    then have lt: "vp < n" using less.prems(4) by (cases vs) (simp_all add: word_less_nat_alt)
    let ?ch = "take MAX_VARS_PER_EVENT vs" and ?rest = "drop MAX_VARS_PER_EVENT vs"
    have lens: "unat (0 :: u8) + length ?ch \<le> MAX_VARS_PER_EVENT" "unat vp + length ?ch \<le> unat n"
      "unat (0 :: u8) + length ?ch = MAX_VARS_PER_EVENT \<or> unat vp + length ?ch = unat n"
      using less.prems(4) by (auto simp: min_def)
    have "unread_at c (mp_encode_all (entries_items ?ch) @ mp_encode_all (entries_items ?rest) @ bs)"
      using less.prems(1) by (simp add: entries_items_def flip: mp_encode_all_simps(3) concat_append map_append append_assoc)
    from parse_batch_read [OF this less.prems(3) lens, of idx now "twin_id hdr" h]
    obtain c1 ups1 b vp1 h1
      where b: "parse_batch idx now (twin_id hdr) n (c, ups, 0, vp, h) = (c1, ups1, b, vp1, h1)"
        and c1: "unread_at c1 (mp_encode_all (entries_items ?rest) @ bs)"
        and ups1: "length ups1 = MAX_VARS_PER_EVENT" and vp1: "unat vp1 = unat vp + length ?ch"
        and len: "unat b = length ?ch"
        and pairs: "map pair_of (take (unat b) ups1) = ?ch"
      by auto
    let ?e = "update_event hdr b ups1" and ?q = "snd (push_event q (update_event hdr b ups1))"
    have view: "event_view ?e = (hdr, ?ch)"
      using pairs len ups1 by (subst view_update_event) (simp_all add: config_defs)
    have q: "queue_ok ?q" "queue_content ?q = take (QUEUE_SIZE - 1) (queue_content q @ [?e])"
      using less.prems(2) by (rule push_event_ok, rule ring.push_content)
    have "length ?rest < length vs" using False by (simp add: config_defs)
    from less.hyps [OF this c1 q(1) ups1, of vp1 h1
        "out @ (if fst (push_event q ?e) \<noteq> 0 then [QueueFull] else [])"] vp1 less.prems(4)
    have "map event_view (queue_content (fst (snd (parse_batches idx now hdr n (q, c, ups, vp, h, out))))) =
      take (QUEUE_SIZE - 1) (map event_view (queue_content ?q) @ map (Pair hdr) (chunks MAX_VARS_PER_EVENT ?rest))"
      unfolding parse_batches_step [OF lt b] by auto
    also have "\<dots> = take (QUEUE_SIZE - 1)
      ((map event_view (queue_content q) @ [(hdr, ?ch)]) @ map (Pair hdr) (chunks MAX_VARS_PER_EVENT ?rest))"
      by (simp only: q(2) take_map [symmetric] map_append view list.map take_take_append)
    finally show ?thesis using False by (simp add: chunks_step config_defs)
  qed
qed

text \<open>The four header fields behind the array size.\<close>

definition header_items :: "u64 \<Rightarrow> u64 \<Rightarrow> u64 \<Rightarrow> u64 \<Rightarrow> mp_item list" where
  "header_items t ts dev twin = [MUint t, MUint ts, MUint dev, MUint twin]"

definition wire_header :: "u64 \<Rightarrow> u64 \<Rightarrow> u64 \<Rightarrow> u64 \<Rightarrow> event_header_t" where
  "wire_header t ts dev twin =
     \<lparr>event_type = ucast t, timestamp = ts, deviation = u64_to_f32 dev, twin_id = ucast twin\<rparr>"

lemma parse_header_read:
  assumes "unread_at c (mp_encode_all (header_items t ts dev twin) @ bs)"
  shows "parse_header c = (wire_header t ts dev twin, fold read_item (header_items t ts dev twin) c)"
    and "unread_at (fold read_item (header_items t ts dev twin) c) bs"
proof -
  let ?c1 = "read_item (MUint t) c" let ?c2 = "read_item (MUint ts) ?c1"
  let ?c3 = "read_item (MUint dev) ?c2"
  have u: "unread_at c (mp_uint t @ mp_uint ts @ mp_uint dev @ mp_uint twin @ bs)"
    using assms by (simp add: header_items_def)
  note n1 = next_uint_unread [OF u] note n2 = next_uint_unread [OF n1(2)]
  note n3 = next_uint_unread [OF n2(2)] note n4 = next_uint_unread [OF n3(2)]
  show "parse_header c = (wire_header t ts dev twin, fold read_item (header_items t ts dev twin) c)"
    by (simp add: parse_header_def wire_header_def header_items_def Let_def n1 n2 n3 n4)
  show "unread_at (fold read_item (header_items t ts dev twin) c) bs"
    using n4(2) by (simp add: header_items_def)
qed

text \<open>A message is an array of \<open>n\<close> elements, at least the header and whatever follows it.\<close>

definition first_context :: "parser_env \<Rightarrow> byte list \<Rightarrow> cw_unpack_context" where
  "first_context env data = cw_unpack_context_init (stack_ctx env) (buffer_addr env) data None"

lemma deserialize_start:
  assumes "data = mp_encode_all (MArray n # header_items t ts dev twin) @ bs" "4 \<le> n"
  obtains ctx where
    "ctx = fold read_item (MArray n # header_items t ts dev twin) (first_context env data)"
    "unread_at ctx bs"
    "deserialize_event env q h data =
      (let idx = log_index h; h = h\<lparr>log_index := log_index h + 1\<rparr>;
           hdr = wire_header t ts dev twin
       in if event_type hdr = EVENT_UPDATE then
            (let ctx = cw_unpack_next ctx; var_count = ucast (as_u64 ctx) in
             if n \<noteq> 5 + var_count * 2 then (- 1, q, h, [])
             else parse_batches idx (now_ns env) hdr var_count
               (q, ctx, stack_updates env, 0, h, []))
          else if event_type hdr = EVENT_ERROR then
            (let ctx = cw_unpack_next ctx; code = ucast (as_u64 ctx);
                 ctx = cw_unpack_next ctx;
                 event = \<lparr>header = hdr,
                          payload = Error \<lparr>error_code = code,
                                           message = copy_message ctx (stack_message env)\<rparr>\<rparr>;
                 (_, q) = push_event q event
             in (0, q, h, [ErrorEvent]))
          else (- 1, q, h, [UnknownType (event_type hdr)]))"
proof -
  let ?c = "first_context env data"
  have "unread_at ?c (mp_encode (MArray n) @ mp_encode_all (header_items t ts dev twin) @ bs)"
    using unread_at_init assms(1) by (simp add: first_context_def)
  from next_unread [OF this]
  have arr: "cw_unpack_next ?c = read_item (MArray n) ?c"
    "unread_at (read_item (MArray n) ?c) (mp_encode_all (header_items t ts dev twin) @ bs)"
    by simp_all
  have rc: "u_return_code (read_item (MArray n) ?c) = 0"
    using arr(2) by (simp add: unread_at_def)
  have size: "\<not> n < 4" using assms(2) by simp
  show ?thesis
  proof (rule that)
    show "unread_at (fold read_item (MArray n # header_items t ts dev twin) ?c) bs"
      using parse_header_read(2) [OF arr(2)] by simp
    show "deserialize_event env q h data =
      (let idx = log_index h; h = h\<lparr>log_index := log_index h + 1\<rparr>;
           hdr = wire_header t ts dev twin
       in if event_type hdr = EVENT_UPDATE then
            (let ctx = cw_unpack_next (fold read_item (MArray n # header_items t ts dev twin) ?c);
                 var_count = ucast (as_u64 ctx) in
             if n \<noteq> 5 + var_count * 2 then (- 1, q, h, [])
             else parse_batches idx (now_ns env) hdr var_count
               (q, ctx, stack_updates env, 0, h, []))
          else if event_type hdr = EVENT_ERROR then
            (let ctx = cw_unpack_next (fold read_item (MArray n # header_items t ts dev twin) ?c);
                 code = ucast (as_u64 ctx);
                 ctx = cw_unpack_next ctx;
                 event = \<lparr>header = hdr,
                          payload = Error \<lparr>error_code = code,
                                           message = copy_message ctx (stack_message env)\<rparr>\<rparr>;
                 (_, q) = push_event q event
             in (0, q, h, [ErrorEvent]))
          else (- 1, q, h, [UnknownType (event_type hdr)]))"
      using arr(1) rc size parse_header_read(1) [OF arr(2)]
      by (simp add: deserialize_event_def atomic_fetch_add_def first_context_def Let_def)
  qed simp
qed

lemma deserialize_update_aux:
  assumes "queue_ok q" "length (stack_updates env) = MAX_VARS_PER_EVENT"
    and fits: "5 + 2 * length vs < 2 ^ 32"
    and data: "data = mp_encode_all (update_items ts dev twin vs) @ bs"
  shows "fst (deserialize_event env q h data) = 0 \<and>
    map event_view (queue_content (fst (snd (deserialize_event env q h data)))) =
      take (QUEUE_SIZE - 1) (map event_view (queue_content q) @
        map (Pair (wire_header 0 ts dev (ucast twin))) (chunks MAX_VARS_PER_EVENT vs))"
proof -
  let ?n = "of_nat (5 + 2 * length vs) :: u32" and ?k = "of_nat (length vs) :: u64"
  let ?rest = "mp_encode (MUint ?k) @ mp_encode_all (entries_items vs) @ bs"
  have d: "data = mp_encode_all (MArray ?n # header_items 0 ts dev (ucast twin)) @ ?rest"
    by (simp add: data update_items_def header_items_def)
  have n: "unat ?n = 5 + 2 * length vs" by (rule unat_of_nat_small) (use fits in simp)
  then have n4: "4 \<le> ?n" by (simp add: word_le_nat_alt)
  obtain ctx where ctx: "unread_at ctx ?rest" and run: "deserialize_event env q h data =
      (let idx = log_index h; h = h\<lparr>log_index := log_index h + 1\<rparr>;
           hdr = wire_header 0 ts dev (ucast twin); ctx = cw_unpack_next ctx;
           var_count = ucast (as_u64 ctx)
       in if ?n \<noteq> 5 + var_count * 2 then (- 1, q, h, [])
          else parse_batches idx (now_ns env) hdr var_count (q, ctx, stack_updates env, 0, h, []))"
    by (rule deserialize_start [OF d n4, of env q h])
      (simp add: wire_header_def event_type_defs Let_def)
  let ?v = "of_nat (length vs) :: u32"
  have next1: "cw_unpack_next ctx = read_item (MUint ?k) ctx"
      "unread_at (read_item (MUint ?k) ctx) (mp_encode_all (entries_items vs) @ bs)"
    using next_unread [OF ctx] by simp_all
  have "ucast ?k = ?v" 
    by (simp add: word_unat_eq_iff unsigned_ucast_eq unsigned_take_bit_eq unsigned_of_nat)
  then have run': "deserialize_event env q h data =
      parse_batches (log_index h) (now_ns env) (wire_header 0 ts dev (ucast twin)) ?v
        (q, read_item (MUint ?k) ctx, stack_updates env, 0, h\<lparr>log_index := log_index h + 1\<rparr>, [])"
    by (simp add: run next1(1) Let_def)
  have "unat (0 :: u32) + length vs = unat ?v"
    using unat_of_nat_small [of "length vs", where 'a = 32] fits by simp
  from parse_batches_read [OF next1(2) assms(1,2) this] show ?thesis
    by (simp add: run' parse_batches_code)
qed

subsection \<open>Error messages\<close>

lemma bytes_at_take: "bytes_at buf p bs \<Longrightarrow> take (length bs) (drop p buf) = bs"
proof (induction bs arbitrary: p)
  case (Cons b bs)
  then have "p < length buf" "buf ! p = b" "take (length bs) (drop (Suc p) buf) = bs" by simp_all
  then show ?case by (simp add: Cons_nth_drop_Suc [symmetric])
qed simp

text \<open>The bytes a string or blob item points to are the ones that were packed.\<close>

lemma str_bytes_read:
  assumes at: "bytes_at (ubuf c) (current c) (mp_encode (MStr msg))"
    and "length (ubuf c) < 2 ^ 64" "len \<le> length msg"
  shows "blob_bytes (read_item (MStr msg) c) len = take len msg"
proof -
  let ?pos = "current c + (length (mp_encode (MStr msg)) - length msg)"
  obtain hd where split: "mp_encode (MStr msg) = hd @ msg" by simp
  have "length (mp_encode (MStr msg)) = length hd + length msg"
    unfolding split by (rule length_append)
  then have pos: "?pos = current c + length hd" by linarith
  have at': "bytes_at (ubuf c) ?pos msg" using at unfolding split pos by simp
  have "?pos < 2 ^ 64" using bytes_at_length [OF at'] assms(2) by linarith
  then have "unat (of_nat ?pos :: u64) = ?pos" by (intro unat_of_nat_small) simp
  then have "blob_bytes (read_item (MStr msg) c) len = take len (drop ?pos (ubuf c))"
    by (simp add: blob_bytes_def item_writes)
  also have "\<dots> = take len (take (length msg) (drop ?pos (ubuf c)))" using assms(3) by simp
  finally show ?thesis unfolding bytes_at_take [OF at'] .
qed

definition error_items ::
  "u32 \<Rightarrow> u64 \<Rightarrow> u64 \<Rightarrow> u64 \<Rightarrow> u64 \<Rightarrow> byte list \<Rightarrow> mp_item list" where
  "error_items n ts dev twin code msg =
     MArray n # header_items 1 ts dev twin @ [MUint code, MStr msg]"

text \<open>The text that arrives: 63 bytes at most, and a terminating 0.\<close>

definition message_text :: "byte list \<Rightarrow> byte list \<Rightarrow> byte list" where
  "message_text msg txt =
     (let m = take (MESSAGE_SIZE - 1) msg in m @ 0 # drop (length m + 1) txt)"

lemma copy_message_read:
  assumes at: "bytes_at (ubuf c) (current c) (mp_encode (MStr msg))"
    and "length (ubuf c) < 2 ^ 64" "length msg < 2 ^ 32"
  shows "copy_message (read_item (MStr msg) c) txt = message_text msg txt"
proof -
  have len: "unat (as_length (read_item (MStr msg) c)) = length msg"
    using assms(3) unat_of_nat_small [of "length msg", where 'a = 32]
    by (simp add: item_writes as_length_def)
  have str: "item_type (read_item (MStr msg) c) = CWP_ITEM_STR" by (simp add: item_writes)
  define k where "k = (if MESSAGE_SIZE \<le> length msg then MESSAGE_SIZE - 1 else length msg)"
  have k: "k \<le> length msg" "take k msg = take (MESSAGE_SIZE - 1) msg"
    "min (length msg) (MESSAGE_SIZE - Suc 0) = k"
    by (auto simp: k_def MESSAGE_SIZE_def)
  have "blob_bytes (read_item (MStr msg) c) k = take k msg"
    by (rule str_bytes_read [OF at assms(2) k(1)])
  then show ?thesis
    by (simp add: copy_message_def str len message_text_def k(2,3) Let_def flip: k_def)
qed

lemma deserialize_error_aux:
  assumes "queue_ok q" "4 \<le> n" "length msg < 2 ^ 32" "length data < 2 ^ 64"
    and data: "data = mp_encode_all (error_items n ts dev twin code msg) @ bs"
  shows "fst (deserialize_event env q h data) = 0 \<and>
    queue_content (fst (snd (deserialize_event env q h data))) =
      take (QUEUE_SIZE - 1) (queue_content q @
        [\<lparr>header = wire_header 1 ts dev twin,
          payload = Error \<lparr>error_code = ucast code,
                           message = message_text msg (stack_message env)\<rparr>\<rparr>])"
proof -
  let ?rest = "mp_uint code @ mp_encode (MStr msg) @ bs"
  have d: "data = mp_encode_all (MArray n # header_items 1 ts dev twin) @ ?rest"
    by (simp add: data error_items_def)
  obtain ctx where c: "ctx = fold read_item (MArray n # header_items 1 ts dev twin)
      (first_context env data)"
    and ctx: "unread_at ctx ?rest" and run: "deserialize_event env q h data =
      (let ctx = cw_unpack_next ctx; code = ucast (as_u64 ctx); ctx = cw_unpack_next ctx;
           event = \<lparr>header = wire_header 1 ts dev twin,
                    payload = Error \<lparr>error_code = code,
                                     message = copy_message ctx (stack_message env)\<rparr>\<rparr>;
           (_, q) = push_event q event
       in (0, q, h\<lparr>log_index := log_index h + 1\<rparr>, [ErrorEvent]))"
    by (rule deserialize_start [OF d assms(2), of env q h])
      (simp add: wire_header_def event_type_defs Let_def)
  have buf: "ubuf ctx = data"
    by (simp add: c header_items_def first_context_def cw_unpack_context_init_def)
  let ?c1 = "read_item (MUint code) ctx"
  note n1 = next_uint_unread [OF ctx]
  have fits: "item_fits (MStr msg)" using assms(3) by simp
  have n2: "cw_unpack_next ?c1 = read_item (MStr msg) ?c1"
    by (rule next_unread(1) [OF n1(2) fits])
  have "copy_message (read_item (MStr msg) ?c1) (stack_message env) =
      message_text msg (stack_message env)"
    by (rule copy_message_read) (use n1(2) assms(3,4) in \<open>simp_all add: unread_at_def buf\<close>)
  then show ?thesis
    using ring.push_content [OF assms(1)] by (simp add: run n1(1) n2 Let_def split_beta)
qed

subsection \<open>What the checks let through\<close>

text \<open>
  Only the first item is checked for an unpacking error.  A message that ends behind its header is
  taken for one with as many variables as the twin's number, and the entries repeat that number.
\<close>

lemma truncated_aux:
  assumes "queue_ok q" "length (stack_updates env) = MAX_VARS_PER_EVENT"
    and data: "data = mp_encode_all (MArray 7 # header_items 0 ts dev 1)"
  shows "fst (deserialize_event env q h data) = 0 \<and>
    map event_view (queue_content (fst (snd (deserialize_event env q h data)))) =
      take (QUEUE_SIZE - 1)
        (map event_view (queue_content q) @ [(wire_header 0 ts dev 1, [(1, 1)])])"
proof -
  have d: "data = mp_encode_all (MArray 7 # header_items 0 ts dev 1) @ []" by (simp add: data)
  obtain ctx where c: "ctx = fold read_item (MArray 7 # header_items 0 ts dev 1)
      (first_context env data)"
    and run: "deserialize_event env q h data =
      (let idx = log_index h; h = h\<lparr>log_index := log_index h + 1\<rparr>;
           hdr = wire_header 0 ts dev 1; ctx = cw_unpack_next ctx;
           var_count = ucast (as_u64 ctx)
       in if 7 \<noteq> 5 + var_count * 2 then (- 1, q, h, [])
          else parse_batches idx (now_ns env) hdr var_count (q, ctx, stack_updates env, 0, h, []))"
    by (rule deserialize_start [OF d, of env q h])
      (simp_all add: wire_header_def event_type_defs Let_def)
  have start: "current (first_context env data) = 0" "ubuf (first_context env data) = data"
    "u_return_code (first_context env data) = 0"
    "handle_unpack_underflow (first_context env data) = None"
    by (simp_all add: first_context_def cw_unpack_context_init_def)
  have fin: "u_return_code ctx = 0" "handle_unpack_underflow ctx = None"
      "length (ubuf ctx) \<le> current ctx"
    by (simp_all add: c fold_read_current start del: fold.simps)
      (simp add: header_items_def start, simp add: data)
  let ?e = "UNPACK_ERROR CWP_RC_END_OF_INPUT ctx"
  have next1: "cw_unpack_next ctx = ?e" by (rule next_at_end [OF fin])
  have e: "cw_unpack_next ?e = ?e" "as_u64 ?e = 1" "item_type ?e = CWP_NOT_AN_ITEM"
    by (simp_all add: cw_unpack_next_def UNPACK_ERROR_def rc_defs)
      (simp add: c header_items_def as_u64_def item_writes)
  let ?u = "(stack_updates env ! 0)\<lparr>upd_var_id := 1, upd_value := 1\<rparr>"
  let ?hdr = "wire_header 0 ts dev 1" and ?h = "h\<lparr>log_index := log_index h + 1\<rparr>"
  have entry: "parse_entry i t w ?e (stack_updates env ! 0) k = (?e, ?u, k)" for i t w k
    by (simp add: parse_entry_def e)
  have batch: "parse_batch (log_index h) (now_ns env) (twin_id ?hdr) 1
      (?e, stack_updates env, 0, 0, ?h) = (?e, (stack_updates env)[0 := ?u], 1, 1, ?h)"
    by (simp add: parse_batch.simps entry config_defs)
  let ?ev = "update_event ?hdr 1 ((stack_updates env)[0 := ?u])"
  have "event_view ?ev = (?hdr, [(1, 1)])"
    using assms(2) by (subst view_update_event)
      (simp_all add: config_defs take_Suc_conv_app_nth pair_of_def)
  moreover have "parse_batches (log_index h) (now_ns env) ?hdr 1 (q, ?e, stack_updates env, 0, ?h, [])
      = (0, snd (push_event q ?ev), ?h,
         [] @ (if fst (push_event q ?ev) \<noteq> 0 then [QueueFull] else []))"
    by (subst parse_batches_step [OF _ batch], simp, rule parse_batches_end) simp
  then have "fst (snd (deserialize_event env q h data)) = snd (push_event q ?ev)"
    by (simp add: run next1 e Let_def)
  moreover have "fst (deserialize_event env q h data) = 0"
    by (simp add: run next1 e Let_def parse_batches_code)
  ultimately show ?thesis
    using ring.push_content [OF assms(1), of ?ev] by (simp add: take_map [symmetric])
qed

text \<open>
  The size check is an equation of 32-bit words: a count of \<open>2^31\<close> or more passes it with an array
  that has that many entries less.  How many events a message makes depends on the count alone.
\<close>

lemma parse_batch_exact:
  "parse_batch idx now twin n (c, ups, b, vp, h) = (c', ups', b', vp', h') \<Longrightarrow>
   unat b \<le> MAX_VARS_PER_EVENT \<Longrightarrow> unat vp \<le> unat n \<Longrightarrow>
   unat b' = min MAX_VARS_PER_EVENT (unat b + (unat n - unat vp)) \<and>
   unat vp' + unat b = unat vp + unat b'"
proof (induction "MAX_VARS_PER_EVENT - unat b" arbitrary: c ups b vp h rule: less_induct)
  case less
  show ?case
  proof (cases "unat b < MAX_VARS_PER_EVENT \<and> vp < n")
    case False
    then show ?thesis using less.prems by (auto simp: parse_batch.simps word_less_nat_alt)
  next
    case True
    obtain c1 u h1 where e: "parse_entry idx now twin c (ups ! unat b) h = (c1, u, h1)"
      by (metis prod_cases3)
    have vp: "unat (vp + 1) = unat vp + 1" using True by (blast intro: unat_plus_one_less)
    have b: "unat (b + 1) = unat b + 1" using True by (simp add: unat_word_ariths config_defs)
    have rec: "parse_batch idx now twin n (c1, ups[unat b := u], b + 1, vp + 1, h1)
        = (c', ups', b', vp', h')"
      using less.prems True by (simp add: parse_batch.simps [of idx now twin n c] e)
    have "MAX_VARS_PER_EVENT - unat (b + 1) < MAX_VARS_PER_EVENT - unat b" using True b by auto
    from less.hyps [OF this rec] True vp b show ?thesis
      by (auto simp: word_less_nat_alt)
  qed
qed

lemma parse_batches_count:
  "queue_ok q \<Longrightarrow> unat vp \<le> unat n \<Longrightarrow>
   queue_ok (fst (snd (parse_batches idx now hdr n (q, c, ups, vp, h, out)))) \<and>
   queue_length (fst (snd (parse_batches idx now hdr n (q, c, ups, vp, h, out)))) =
     min (QUEUE_SIZE - 1) (queue_length q + (unat n - unat vp + 7) div 8)"
proof (induction "unat n - unat vp" arbitrary: q c ups vp h out rule: less_induct)
  case less
  have bound: "queue_length q \<le> QUEUE_SIZE - 1"
    using queue_length_bound [OF less.prems(1)] by simp
  show ?case
  proof (cases "vp < n")
    case False
    then show ?thesis
      using less.prems bound by (auto simp: parse_batches.simps word_less_nat_alt)
  next
    case True
    obtain c1 ups1 b vp1 h1
      where b: "parse_batch idx now (twin_id hdr) n (c, ups, 0, vp, h) = (c1, ups1, b, vp1, h1)"
      by (metis prod_cases5)
    note shape = parse_batch_from_0 [OF True b]
    have exact: "unat vp1 = unat vp + min MAX_VARS_PER_EVENT (unat n - unat vp)"
      using parse_batch_exact [OF b] less.prems(2) by simp
    let ?q = "snd (push_event q (update_event hdr b ups1))"
    have q: "queue_ok ?q" using less.prems(1) by (rule push_event_ok)
    have "length (queue_content ?q) = min (QUEUE_SIZE - 1) (queue_length q + 1)"
      using ring.push_content [OF less.prems(1)] by simp
    then have len: "queue_length ?q = min (QUEUE_SIZE - 1) (queue_length q + 1)" by simp
    have k: "unat n - unat vp1 = (unat n - unat vp) - 8" "0 < unat n - unat vp"
      using exact True by (simp_all add: word_less_nat_alt config_defs)
    have div: "Suc (((m - 8) + 7) div 8) = (m + 7) div 8" if "0 < m" for m :: nat
    proof (cases "8 \<le> m")
      case True
      then have "m + 7 = (m - 8 + 7) + 8" by simp
      then show ?thesis by (metis Suc_eq_plus1 div_add_self2 zero_neq_numeral)
    next
      case False
      with that have "m \<in> {1, 2, 3, 4, 5, 6, 7}" by auto
      then show ?thesis by auto
    qed
    show ?thesis
      unfolding parse_batches_step [OF True b]
      using less.hyps [OF shape(5) q shape(2), of c1 ups1 h1
          "out @ (if fst (push_event q (update_event hdr b ups1)) \<noteq> 0 then [QueueFull] else [])"]
        k div [OF k(2)]
      by (auto simp: len min_def)
  qed
qed

lemma flood_aux:
  assumes "queue_ok q"
    and data: "data = mp_encode_all (MArray 5 # header_items 0 ts dev twin @ [MUint 0x80000000])"
  shows "fst (deserialize_event env q h data) = 0 \<and>
    queue_length (fst (snd (deserialize_event env q h data))) = QUEUE_SIZE - 1"
proof -
  have d: "data = mp_encode_all (MArray 5 # header_items 0 ts dev twin) @ mp_uint 0x80000000 @ []"
    by (simp add: data)
  obtain ctx where ctx: "unread_at ctx (mp_uint 0x80000000 @ [])"
    and run: "deserialize_event env q h data =
      (let idx = log_index h; h = h\<lparr>log_index := log_index h + 1\<rparr>;
           hdr = wire_header 0 ts dev twin; ctx = cw_unpack_next ctx;
           var_count = ucast (as_u64 ctx)
       in if 5 \<noteq> 5 + var_count * 2 then (- 1, q, h, [])
          else parse_batches idx (now_ns env) hdr var_count (q, ctx, stack_updates env, 0, h, []))"
    by (rule deserialize_start [OF d, of env q h])
      (simp_all add: wire_header_def event_type_defs Let_def)
  have count: "ucast (as_u64 (cw_unpack_next ctx)) = (0x80000000 :: u32)"
    using next_uint_unread(1) [OF ctx] by simp
  show ?thesis
    using parse_batches_count [OF assms(1), of 0 "0x80000000" "log_index h" "now_ns env"
        "wire_header 0 ts dev twin" "cw_unpack_next ctx" "stack_updates env"]
    by (simp add: run count Let_def parse_batches_code config_defs)
qed

subsection \<open>The contract of the parser\<close>

text \<open>
  C1. An update message with any number of variables is accepted, and its variables and values
  arrive on the queue complete and in order, each event with the header of the message and at
  most \<open>MAX_VARS_PER_EVENT\<close> of them, as far as the queue has room.
\<close>

theorem update_message_queued:
  assumes "queue_ok q" "length (stack_updates env) = MAX_VARS_PER_EVENT" "5 + 2 * length vs < 2 ^ 32"
  shows "let r = deserialize_event env q h (mp_encode_all (update_items ts dev twin vs) @ bs);
      hdr = \<lparr>event_type = EVENT_UPDATE, timestamp = ts, deviation = u64_to_f32 dev, twin_id = twin\<rparr>
    in fst r = 0 \<and>
      map event_view (queue_content (fst (snd r))) =
        take (QUEUE_SIZE - 1) (map event_view (queue_content q) @
          map (Pair hdr) (chunks MAX_VARS_PER_EVENT vs))"
  using deserialize_update_aux [OF assms refl, of h ts dev twin bs]
  by (simp add: Let_def wire_header_def event_type_defs word_bytes)

text \<open>
  An error message becomes one event with its code and the first 63 bytes of its text,
  terminated by a 0.
\<close>

theorem error_message_queued:
  assumes "queue_ok q" "4 \<le> n" "length msg < 2 ^ 32"
    "length (mp_encode_all (error_items n ts dev twin code msg) @ bs) < 2 ^ 64"
  shows "let r = deserialize_event env q h (mp_encode_all (error_items n ts dev twin code msg) @ bs)
    in fst r = 0 \<and>
      queue_content (fst (snd r)) =
        take (QUEUE_SIZE - 1) (queue_content q @
          [\<lparr>header = \<lparr>event_type = EVENT_ERROR, timestamp = ts, deviation = u64_to_f32 dev,
                      twin_id = ucast twin\<rparr>,
            payload = Error \<lparr>error_code = ucast code,
                             message = message_text msg (stack_message env)\<rparr>\<rparr>])"
  using deserialize_error_aux [OF assms refl, of env h]
  by (simp add: Let_def wire_header_def event_type_defs)

text \<open>
  C8. Whatever bytes arrive, the parser returns and the queue stays well formed: the payload of
  every event on it is the member of the union its header announces, with at most
  \<open>MAX_VARS_PER_EVENT\<close> updates.
\<close>

theorem parser_keeps_events_typed:
  assumes "queue_events_ok q" "length (stack_updates env) = MAX_VARS_PER_EVENT"
  shows "queue_events_ok (fst (snd (deserialize_event env q h data)))"
  using assms by (rule deserialize_events_ok_aux)

text \<open>
  A message the parser reports as an error has put nothing on the queue.
\<close>

theorem rejected_message_keeps_queue:
  assumes "fst (deserialize_event env q h data) \<noteq> 0"
  shows "fst (snd (deserialize_event env q h data)) = q"
  using assms by (rule rejected_untouched_aux)

text \<open>
  C13. Only the first item of a message is checked for an unpacking error: a message that ends behind
  the twin in its header is accepted, and the number of variables, the variable and the value are
  all read from what the union still holds, the number of the twin.
\<close>

theorem truncated_message_accepted:
  assumes "queue_ok q" "length (stack_updates env) = MAX_VARS_PER_EVENT"
  shows "let r = deserialize_event env q h
        (mp_encode_all [MArray 7, MUint 0, MUint ts, MUint dev, MUint 1]);
      hdr = \<lparr>event_type = EVENT_UPDATE, timestamp = ts, deviation = u64_to_f32 dev, twin_id = 1\<rparr>
    in fst r = 0 \<and>
      map event_view (queue_content (fst (snd r))) =
        take (QUEUE_SIZE - 1) (map event_view (queue_content q) @ [(hdr, [(1, 1)])])"
  using truncated_aux [OF assms, of _ ts dev h]
  by (simp add: Let_def wire_header_def event_type_defs header_items_def)

text \<open>
  The size check is made in 32 bits: an array of five elements whose count of variables is
  \<open>2^31\<close> passes it, and this one message fills the queue.
\<close>

theorem oversized_count_fills_queue:
  assumes "queue_ok q"
  shows "let r = deserialize_event env q h
        (mp_encode_all [MArray 5, MUint 0, MUint ts, MUint dev, MUint twin, MUint 0x80000000])
    in fst r = 0 \<and> queue_length (fst (snd r)) = QUEUE_SIZE - 1"
  using flood_aux [OF assms, of _ ts dev twin env h] by (simp add: Let_def header_items_def)

text \<open>The contract at concrete inputs.\<close>

definition zero_env :: parser_env where
  "zero_env =
     \<lparr>stack_ctx = start_context [], stack_updates = replicate MAX_VARS_PER_EVENT
        \<lparr>upd_var_id = 0, upd_value = 0, destiny_url = replicate 16 0\<rparr>,
      stack_message = replicate MESSAGE_SIZE 0, buffer_addr = 0, now_ns = 0\<rparr>"

definition zero_history :: history_t where
  "zero_history =
     \<lparr>log_index = 0, history_log = \<lambda>_. \<lparr>timestamp_ns = 0, ts_value = 0, ts_twin_id = 0\<rparr>\<rparr>"

lemma zero_env_updates [simp]: "length (stack_updates zero_env) = MAX_VARS_PER_EVENT"
  by (simp add: zero_env_def)

lemma zero_queue_events [simp]: "queue_events_ok zero_queue"
  by (simp add: queue_events_ok_def)

theorem update_message_queued_witness:
  "map event_view (queue_content (fst (snd (deserialize_event zero_env zero_queue zero_history
     (mp_encode_all (update_items 7 0 1 [(3, 0x3f800000)])))))) =
   [(\<lparr>event_type = EVENT_UPDATE, timestamp = 7, deviation = u64_to_f32 0, twin_id = 1\<rparr>,
     [(3, 0x3f800000)])]"
  using update_message_queued [of zero_queue zero_env "[(3, 0x3f800000)]" zero_history 7 0 1 "[]"]
  by (simp add: Let_def chunks_step config_defs)

theorem error_message_queued_witness:
  "length (queue_content (fst (snd (deserialize_event zero_env zero_queue zero_history
     (mp_encode_all (error_items 7 1 0 2 1 [0x68, 0x69])))))) = 1"
  using error_message_queued [of zero_queue 7 "[0x68, 0x69]" 1 0 2 1 "[]" zero_env zero_history]
  by (simp add: Let_def config_defs error_items_def header_items_def mp_uint_def mp_sized_def
      del: length_queue_content)

theorem parser_keeps_events_typed_witness:
  "queue_events_ok zero_queue \<and>
   queue_events_ok (fst (snd (deserialize_event zero_env zero_queue zero_history [0x97, 0xff])))"
  using parser_keeps_events_typed [of zero_queue zero_env] by simp

theorem rejected_message_keeps_queue_witness:
  "fst (deserialize_event zero_env zero_queue zero_history []) = - 1 \<and>
   fst (snd (deserialize_event zero_env zero_queue zero_history [])) = zero_queue"
proof -
  have "fst (deserialize_event zero_env zero_queue zero_history []) = - 1"
    by (simp add: deserialize_event_def atomic_fetch_add_def cw_unpack_context_init_def
        cw_unpack_next_def cw_unpack_assert_space_def UNPACK_ERROR_def rc_defs)
  with rejected_message_keeps_queue [of zero_env zero_queue zero_history "[]"] show ?thesis by simp
qed

theorem truncated_message_accepted_witness:
  "map event_view (queue_content (fst (snd (deserialize_event zero_env zero_queue zero_history
     [0x97, 0, 9, 0, 1])))) =
   [(\<lparr>event_type = EVENT_UPDATE, timestamp = 9, deviation = u64_to_f32 0, twin_id = 1\<rparr>, [(1, 1)])]"
  using truncated_message_accepted [of zero_queue zero_env zero_history 9 0]
  by (simp add: Let_def config_defs mp_uint_def)

lemma oversized_count_bytes: "mp_uint 0x80000000 = [0xce, 0x80, 0, 0, 0]"
  by code_simp

theorem oversized_count_fills_queue_witness:
  "queue_length (fst (snd (deserialize_event zero_env zero_queue zero_history
     [0x95, 0, 9, 0, 1, 0xce, 0x80, 0, 0, 0]))) = QUEUE_SIZE - 1"
  using oversized_count_fills_queue [of zero_queue zero_env zero_history 9 0 1]
    oversized_count_bytes
  by (simp add: Let_def) (simp add: mp_uint_def)

end
