(* ===== verification/Bounded_Table.thy ===== *)
theory Bounded_Table
  imports Event_Types
begin

text \<open>
  The contract the two stores of the engine share: a table with a fixed set of keys, where
  reading a key that is out of range gives a default and writing it does nothing.  The variables
  and the status of the twins (\<open>engine/src/twins_memory.c\<close>) and the rules for errors and updates
  (\<open>engine/src/rule_engine.c\<close>) are its interpretations, in the theories of these components.
\<close>

locale bounded_table =
  fixes inv :: "'s \<Rightarrow> bool"
    and valid :: "'k \<Rightarrow> bool"
    and dflt :: "'v"
    and get :: "'s \<Rightarrow> 'k \<Rightarrow> 'v"
    and put :: "'s \<Rightarrow> 'k \<Rightarrow> 'v \<Rightarrow> 's"
  assumes put_inv: "inv s \<Longrightarrow> inv (put s k v)"
    and get_same: "inv s \<Longrightarrow> valid k \<Longrightarrow> get (put s k v) k = v"
    and get_other: "inv s \<Longrightarrow> k \<noteq> k' \<Longrightarrow> get (put s k v) k' = get s k'"
    and get_invalid: "\<not> valid k \<Longrightarrow> get s k = dflt"
    and put_invalid: "\<not> valid k \<Longrightarrow> put s k v = s"
begin

text \<open>A sequence of writes, in order.\<close>

fun put_all :: "'s \<Rightarrow> ('k \<times> 'v) list \<Rightarrow> 's" where
  "put_all s [] = s"
| "put_all s ((k, v) # kvs) = put_all (put s k v) kvs"

lemma put_all_inv: "inv s \<Longrightarrow> inv (put_all s kvs)"
  by (induction s kvs rule: put_all.induct) (simp_all add: put_inv)

lemma put_all_append: "put_all s (xs @ ys) = put_all (put_all s xs) ys"
  by (induction s xs rule: put_all.induct) simp_all

lemma get_put:
  "inv s \<Longrightarrow> get (put s k v) k' = (if k' = k \<and> valid k then v else get s k')"
  using get_same [of s k v] get_other [of s k k' v] put_invalid [of k s v] by auto

text \<open>A valid key holds the value written to it last, an invalid one its default.\<close>

lemma get_put_all:
  "inv s \<Longrightarrow> get (put_all s kvs) k =
   (if valid k then (case map_of (rev kvs) k of None \<Rightarrow> get s k | Some v \<Rightarrow> v) else dflt)"
proof (induction s kvs rule: put_all.induct)
  case (1 s)
  then show ?case by (simp add: get_invalid)
next
  case (2 s a v kvs)
  then have "get (put_all (put s a v) kvs) k =
      (if valid k then case map_of (rev kvs) k of None \<Rightarrow> get (put s a v) k | Some v \<Rightarrow> v
       else dflt)"
    by (simp add: put_inv)
  then show ?case
    using 2(2) by (auto simp: get_put map_of_append split: option.splits if_splits)
qed

lemma untouched_put_all:
  assumes "inv s" "k \<notin> fst ` set kvs"
  shows "get (put_all s kvs) k = get s k"
proof -
  have "map_of (rev kvs) k = None" using assms(2) by (simp add: map_of_eq_None_iff)
  then show ?thesis using get_put_all [OF assms(1), of kvs k] get_invalid [of k s] by simp
qed

end

end
