(* ===== verification/Twins_Memory.thy ===== *)
theory Twins_Memory
  imports Bounded_Table
begin

text \<open>
  The digital twins' memory (\<open>engine/src/twins_memory.c\<close>, \<open>engine/include/twins_memory.h\<close>): the
  array \<open>twins_memory\<close> with the last value of every variable, the status and the time of the last
  update of each twin.  Each field is an atomic of its own in the code; the operations here are
  the sequences of their stores.  The result of \<open>time(NULL)\<close> is an argument.  \<open>int\<close> results are
  words of 32 bits.
\<close>

record twin_state_t =
  vars :: "f32 list"
  var_num :: u32
  status :: u32
  last_update_ms :: u64

type_synonym twins_memory_t = "twin_state_t list"

definition twin_init :: "twin_state_t \<Rightarrow> twin_state_t" where
  "twin_init t =
     t\<lparr>vars := map (\<lambda>_. 0) (vars t), status := 2, last_update_ms := 0\<rparr>"

definition twins_memory_init :: "twins_memory_t \<Rightarrow> twins_memory_t" where
  "twins_memory_init m = map twin_init m"

definition twins_memory_update_var ::
  "u64 \<Rightarrow> twins_memory_t \<Rightarrow> u32 \<Rightarrow> u8 \<Rightarrow> f32 \<Rightarrow> twins_memory_t" where
  "twins_memory_update_var now m twin var_id v =
     (if MAX_TWINS \<le> unat twin \<or> MAX_VARS_PER_TWINS \<le> unat var_id then m
      else
        (let t = m ! unat twin;
             t = t\<lparr>vars := (vars t)[unat var_id := v]\<rparr>;
             t = t\<lparr>status := 0\<rparr>;
             t = t\<lparr>last_update_ms := now * 1000\<rparr>
         in m[unat twin := t]))"

definition minus_one_f32 :: f32 where
  "minus_one_f32 = 0xbf800000"

definition twins_memory_get_var :: "twins_memory_t \<Rightarrow> u32 \<Rightarrow> u8 \<Rightarrow> f32" where
  "twins_memory_get_var m twin var_id =
     (if MAX_TWINS \<le> unat twin \<or> MAX_VARS_PER_TWINS \<le> unat var_id then minus_one_f32
      else vars (m ! unat twin) ! unat var_id)"

definition twins_memory_set_status ::
  "twins_memory_t \<Rightarrow> u32 \<Rightarrow> u32 \<Rightarrow> u32 \<times> twins_memory_t" where
  "twins_memory_set_status m target_id st =
     (if MAX_TWINS \<le> unat target_id then (- 1, m)
      else (0, m[unat target_id := (m ! unat target_id)\<lparr>status := st\<rparr>]))"

definition twins_memory_get_status :: "twins_memory_t \<Rightarrow> u32 \<Rightarrow> u32" where
  "twins_memory_get_status m target_id =
     (if MAX_TWINS \<le> unat target_id then - 1 else status (m ! unat target_id))"

subsection \<open>The memory is a bounded table, twice\<close>

definition memory_ok :: "twins_memory_t \<Rightarrow> bool" where
  "memory_ok m \<longleftrightarrow>
     length m = MAX_TWINS \<and> list_all (\<lambda>t. length (vars t) = MAX_VARS_PER_TWINS) m"

definition valid_twin :: "u32 \<Rightarrow> bool" where
  "valid_twin t \<longleftrightarrow> unat t < MAX_TWINS"

fun valid_var :: "u32 \<times> u8 \<Rightarrow> bool" where
  "valid_var (t, v) = (valid_twin t \<and> unat v < MAX_VARS_PER_TWINS)"

fun get_value :: "twins_memory_t \<Rightarrow> u32 \<times> u8 \<Rightarrow> f32" where
  "get_value m (t, v) = twins_memory_get_var m t v"

fun put_value :: "u64 \<Rightarrow> twins_memory_t \<Rightarrow> u32 \<times> u8 \<Rightarrow> f32 \<Rightarrow> twins_memory_t" where
  "put_value now m (t, v) x = twins_memory_update_var now m t v x"

definition put_status :: "twins_memory_t \<Rightarrow> u32 \<Rightarrow> u32 \<Rightarrow> twins_memory_t" where
  "put_status m t s = snd (twins_memory_set_status m t s)"

lemma unat_neq: "a \<noteq> b \<Longrightarrow> unat a \<noteq> unat b" for a b :: "'a::len word"
  by (simp add: word_unat_eq_iff)

lemma memory_ok_vars: "memory_ok m \<Longrightarrow> t < MAX_TWINS \<Longrightarrow> length (vars (m ! t)) = MAX_VARS_PER_TWINS"
  by (simp add: memory_ok_def list_all_length)

lemma memory_ok_update:
  "memory_ok m \<Longrightarrow> length (vars t) = MAX_VARS_PER_TWINS \<Longrightarrow> memory_ok (m[i := t])"
  by (auto simp: memory_ok_def list_all_length) (metis nth_list_update nth_list_update_neq)

lemma memory_ok_init: "memory_ok m \<Longrightarrow> memory_ok (twins_memory_init m)"
  by (simp add: memory_ok_def twins_memory_init_def twin_init_def list_all_length)

lemma update_var_ok: "memory_ok m \<Longrightarrow> memory_ok (twins_memory_update_var now m t v x)"
  by (auto simp: twins_memory_update_var_def Let_def intro!: memory_ok_update memory_ok_vars)

lemma set_status_ok: "memory_ok m \<Longrightarrow> memory_ok (snd (twins_memory_set_status m t s))"
  by (auto simp: twins_memory_set_status_def intro!: memory_ok_update memory_ok_vars)

interpretation twin_values: bounded_table
  memory_ok valid_var minus_one_f32 get_value "put_value now" for now
proof unfold_locales
  fix s k v assume ok: "memory_ok s"
  show "memory_ok (put_value now s k v)" using ok by (cases k) (simp add: update_var_ok)
  show "valid_var k \<Longrightarrow> get_value (put_value now s k v) k = v"
    using ok memory_ok_vars [OF ok]
    by (cases k) (simp add: twins_memory_get_var_def twins_memory_update_var_def valid_twin_def
        memory_ok_def Let_def)
  fix k' assume "k \<noteq> k'"
  then show "get_value (put_value now s k v) k' = get_value s k'"
    using ok
    by (cases k; cases k')
      (auto simp: twins_memory_get_var_def twins_memory_update_var_def memory_ok_def Let_def
        nth_list_update unat_neq)
qed (auto simp: twins_memory_get_var_def twins_memory_update_var_def valid_twin_def)

interpretation statuses: bounded_table
  memory_ok valid_twin "- 1" twins_memory_get_status put_status
proof unfold_locales
  fix s k v assume ok: "memory_ok s"
  show "memory_ok (put_status s k v)" using ok by (simp add: put_status_def set_status_ok)
  show "valid_twin k \<Longrightarrow> twins_memory_get_status (put_status s k v) k = v"
    using ok by (simp add: twins_memory_get_status_def put_status_def twins_memory_set_status_def
        valid_twin_def memory_ok_def)
  fix k' :: u32 assume "k \<noteq> k'"
  then show "twins_memory_get_status (put_status s k v) k' = twins_memory_get_status s k'"
    using unat_neq [of k k']
    by (simp add: twins_memory_get_status_def put_status_def twins_memory_set_status_def)
qed (auto simp: twins_memory_get_status_def put_status_def twins_memory_set_status_def
    valid_twin_def)

subsection \<open>How the two tables and the timestamps interact\<close>

lemma update_var_status:
  assumes "memory_ok m"
  shows "twins_memory_get_status (twins_memory_update_var now m t v x) t' =
    (if t' = t \<and> valid_var (t, v) then 0 else twins_memory_get_status m t')"
  using assms unat_neq [of t t']
  by (auto simp: twins_memory_get_status_def twins_memory_update_var_def valid_twin_def Let_def
      memory_ok_def nth_list_update)

lemma set_status_value:
  "memory_ok m \<Longrightarrow>
   twins_memory_get_var (snd (twins_memory_set_status m t s)) t' v = twins_memory_get_var m t' v"
  by (auto simp: twins_memory_get_var_def twins_memory_set_status_def memory_ok_def nth_list_update)

lemma init_value:
  "memory_ok m \<Longrightarrow> valid_var (t, v) \<Longrightarrow> twins_memory_get_var (twins_memory_init m) t v = 0"
  by (simp add: twins_memory_get_var_def twins_memory_init_def twin_init_def memory_ok_def
      valid_twin_def list_all_length)

lemma init_status:
  "memory_ok m \<Longrightarrow> valid_twin t \<Longrightarrow> twins_memory_get_status (twins_memory_init m) t = 2"
  by (simp add: twins_memory_get_status_def twins_memory_init_def twin_init_def memory_ok_def
      valid_twin_def)

text \<open>Zeroed storage, the memory before any call.\<close>

definition zero_twin :: twin_state_t where
  "zero_twin = \<lparr>vars = replicate MAX_VARS_PER_TWINS 0, var_num = 0, status = 0, last_update_ms = 0\<rparr>"

definition zero_memory :: twins_memory_t where
  "zero_memory = replicate MAX_TWINS zero_twin"

lemma zero_memory_ok [simp]: "memory_ok zero_memory"
  by (simp add: memory_ok_def zero_memory_def zero_twin_def list_all_length)

end
