(* ===== verification/Rule_Engine.thy ===== *)
theory Rule_Engine
  imports Bounded_Table
begin

text \<open>
  The rule tables of \<open>engine/src/rule_engine.c\<close>: which action an error code, or an update of a
  variable of a twin, calls for.  Out-of-range keys are ignored on writing and call for
  \<open>ACTION_IGNORE\<close> on reading.  \<open>set_update_rule\<close> also prints; its lines are part of the result.
\<close>

definition ERROR_MAX :: nat where
  "ERROR_MAX = unat ERROR_UNKNOWN + 1"

record rule_engine_t =
  error_rules :: "rule_action_t list"
  update_rules :: "rule_action_t list list"

text \<open>The tables before any call: the initialisers of \<open>rule_engine.h\<close>, and zeroed storage.\<close>

definition initial_rules :: rule_engine_t where
  "initial_rules =
     \<lparr>error_rules =
        [ACTION_SET_TWIN_ALARM, ACTION_HALT_ENGINE, ACTION_NOTIFY_UPWARDS, ACTION_IGNORE],
      update_rules = replicate MAX_TWINS (replicate MAX_VARS_PER_TWINS ACTION_IGNORE)\<rparr>"

definition rule_engine_init :: "rule_engine_t \<Rightarrow> rule_engine_t" where
  "rule_engine_init r =
     (let e = error_rules r;
          e = e[unat ERROR_DEVIATION := ACTION_SET_TWIN_ALARM];
          e = e[unat ERROR_SENSOR_FAILURE := ACTION_HALT_ENGINE];
          e = e[unat ERROR_COMMUNICATION := ACTION_NOTIFY_UPWARDS];
          e = e[unat ERROR_UNKNOWN := ACTION_IGNORE]
      in r\<lparr>error_rules := e,
           update_rules := map (map (\<lambda>_. ACTION_IGNORE)) (update_rules r)\<rparr>)"

definition set_error_rule :: "rule_engine_t \<Rightarrow> error_type_t \<Rightarrow> rule_action_t \<Rightarrow> rule_engine_t"
  where
  "set_error_rule r code action =
     (if unat code < ERROR_MAX then r\<lparr>error_rules := (error_rules r)[unat code := action]\<rparr> else r)"

datatype rule_line = RuleUpdated u32 u16 rule_action_t

definition set_update_rule ::
  "rule_engine_t \<Rightarrow> u32 \<Rightarrow> u16 \<Rightarrow> rule_action_t \<Rightarrow> rule_engine_t \<times> rule_line list" where
  "set_update_rule r twin var_id action =
     (if unat twin < MAX_TWINS \<and> unat var_id < MAX_VARS_PER_TWINS then
        (r\<lparr>update_rules :=
            (update_rules r)[unat twin := (update_rules r ! unat twin)[unat var_id := action]]\<rparr>,
         [RuleUpdated twin var_id action])
      else (r, []))"

definition rule_engine_get_action_for_error :: "rule_engine_t \<Rightarrow> error_type_t \<Rightarrow> rule_action_t"
  where
  "rule_engine_get_action_for_error r code =
     (if unat code < ERROR_MAX then error_rules r ! unat code else ACTION_IGNORE)"

definition get_update_rule :: "rule_engine_t \<Rightarrow> u32 \<Rightarrow> u16 \<Rightarrow> rule_action_t" where
  "get_update_rule r twin var_id =
     (if unat twin < MAX_TWINS \<and> unat var_id < MAX_VARS_PER_TWINS
      then update_rules r ! unat twin ! unat var_id
      else ACTION_IGNORE)"

subsection \<open>Both are bounded tables\<close>

definition rules_ok :: "rule_engine_t \<Rightarrow> bool" where
  "rules_ok r \<longleftrightarrow>
     length (error_rules r) = ERROR_MAX \<and> length (update_rules r) = MAX_TWINS \<and>
     list_all (\<lambda>row. length row = MAX_VARS_PER_TWINS) (update_rules r)"

definition valid_code :: "error_type_t \<Rightarrow> bool" where
  "valid_code code \<longleftrightarrow> unat code < ERROR_MAX"

fun valid_rule :: "u32 \<times> u16 \<Rightarrow> bool" where
  "valid_rule (t, v) = (unat t < MAX_TWINS \<and> unat v < MAX_VARS_PER_TWINS)"

fun get_rule :: "rule_engine_t \<Rightarrow> u32 \<times> u16 \<Rightarrow> rule_action_t" where
  "get_rule r (t, v) = get_update_rule r t v"

fun put_rule :: "rule_engine_t \<Rightarrow> u32 \<times> u16 \<Rightarrow> rule_action_t \<Rightarrow> rule_engine_t" where
  "put_rule r (t, v) a = fst (set_update_rule r t v a)"

lemma rules_ok_row:
  "rules_ok r \<Longrightarrow> i < MAX_TWINS \<Longrightarrow> length (update_rules r ! i) = MAX_VARS_PER_TWINS"
  by (simp add: rules_ok_def list_all_length)

lemma rules_ok_initial: "rules_ok initial_rules"
  by (simp add: rules_ok_def initial_rules_def ERROR_MAX_def error_type_defs list_all_length)

lemma rules_ok_init: "rules_ok r \<Longrightarrow> rules_ok (rule_engine_init r)"
  by (simp add: rules_ok_def rule_engine_init_def Let_def list_all_length)

lemma rules_ok_set_error: "rules_ok r \<Longrightarrow> rules_ok (set_error_rule r c a)"
  by (simp add: rules_ok_def set_error_rule_def)

lemma rules_ok_set_update: "rules_ok r \<Longrightarrow> rules_ok (fst (set_update_rule r t v a))"
  by (auto simp: rules_ok_def set_update_rule_def list_all_length nth_list_update)

interpretation errors: bounded_table
  rules_ok valid_code ACTION_IGNORE rule_engine_get_action_for_error set_error_rule
proof unfold_locales
  fix s k v assume ok: "rules_ok s"
  then show "rules_ok (set_error_rule s k v)" by (rule rules_ok_set_error)
  show "valid_code k \<Longrightarrow> rule_engine_get_action_for_error (set_error_rule s k v) k = v"
    using ok by (simp add: rule_engine_get_action_for_error_def set_error_rule_def valid_code_def
        rules_ok_def)
  fix k' :: error_type_t assume "k \<noteq> k'"
  then show "rule_engine_get_action_for_error (set_error_rule s k v) k' =
      rule_engine_get_action_for_error s k'"
    by (simp add: rule_engine_get_action_for_error_def set_error_rule_def word_unat_eq_iff)
qed (simp_all add: rule_engine_get_action_for_error_def set_error_rule_def valid_code_def)

interpretation updates: bounded_table rules_ok valid_rule ACTION_IGNORE get_rule put_rule
proof unfold_locales
  fix s k v assume ok: "rules_ok s"
  show "rules_ok (put_rule s k v)" using ok by (cases k) (simp add: rules_ok_set_update)
  show "valid_rule k \<Longrightarrow> get_rule (put_rule s k v) k = v"
    using ok rules_ok_row [OF ok]
    by (cases k) (simp add: get_update_rule_def set_update_rule_def rules_ok_def)
  fix k' assume "k \<noteq> k'"
  then show "get_rule (put_rule s k v) k' = get_rule s k'"
    using ok
    by (cases k; cases k')
      (auto simp: get_update_rule_def set_update_rule_def rules_ok_def nth_list_update
        word_unat_eq_iff)
qed (auto simp: get_update_rule_def set_update_rule_def)

lemma init_rules:
  assumes "rules_ok r"
  shows "rule_engine_get_action_for_error (rule_engine_init r) ERROR_SENSOR_FAILURE = ACTION_HALT_ENGINE"
    and "rule_engine_get_action_for_error (rule_engine_init r) ERROR_DEVIATION = ACTION_SET_TWIN_ALARM"
    and "rule_engine_get_action_for_error (rule_engine_init r) ERROR_COMMUNICATION = ACTION_NOTIFY_UPWARDS"
    and "get_update_rule (rule_engine_init r) t v = ACTION_IGNORE"
  using assms rules_ok_row [OF assms]
  by (simp_all add: rule_engine_get_action_for_error_def rule_engine_init_def get_update_rule_def
      ERROR_MAX_def error_type_defs rules_ok_def Let_def)

end
