(* ===== verification/Event_Dispatcher.thy ===== *)
theory Event_Dispatcher
  imports Event_Parser Twins_Memory Rule_Engine
begin

text \<open>
  The dispatcher (\<open>engine/src/event_dispatcher.c\<close>): an update event is written to the twins'
  memory and its variables are routed by their rules, an error event is looked up in the rules.
  The queues are reached through pointers, so the state keeps them in a store by address;
  \<open>notify_queue\<close> and \<open>user_actions_queue\<close> are the addresses \<open>event_dispatcher_init\<close> was given.
  \<open>clk i\<close> is the result of the \<open>time(NULL)\<close> of the \<open>i\<close>-th variable.  Reading the member of the
  payload that was not written last, or behind the end of an array, is \<open>None\<close>.
\<close>

subsection \<open>State\<close>

datatype dispatch_line =
    IgnoredUpdate u16
  | HaltOnUpdate
  | AlarmOnUpdate u32
  | ServiceCalled u16
  | IgnoredError u32
  | NotifiedError u32
  | HaltOnError u32
  | AlarmOnError u32 u32
  | UnknownActionError u32
  | UnknownEvent u32

record engine_t =
  queues :: "nat \<Rightarrow> event_queue_t"
  notify_queue :: nat
  user_actions_queue :: nat
  rules :: rule_engine_t
  memory :: twins_memory_t
  console :: "dispatch_line list"

definition event_dispatcher_init :: "nat \<Rightarrow> nat \<Rightarrow> engine_t \<Rightarrow> engine_t" where
  "event_dispatcher_init queue_out_notify queue_out_user_actions s =
     s\<lparr>notify_queue := queue_out_notify, user_actions_queue := queue_out_user_actions\<rparr>"

definition push_to :: "nat \<Rightarrow> event_t \<Rightarrow> engine_t \<Rightarrow> engine_t" where
  "push_to a ev s = s\<lparr>queues := (queues s)(a := snd (push_event (queues s a) ev))\<rparr>"

definition print_lines :: "dispatch_line list \<Rightarrow> engine_t \<Rightarrow> engine_t" where
  "print_lines ls s = s\<lparr>console := console s @ ls\<rparr>"

subsection \<open>Update events\<close>

text \<open>The first loop: \<open>var_id\<close> is an 8-bit variable here.\<close>

fun write_updates ::
  "(nat \<Rightarrow> u64) \<Rightarrow> u32 \<Rightarrow> property_update_t list \<Rightarrow> nat \<Rightarrow> nat \<Rightarrow> twins_memory_t
   \<Rightarrow> twins_memory_t option" where
  "write_updates clk twin ups i 0 m = Some m"
| "write_updates clk twin ups i (Suc k) m =
     (if i < length ups then
        (let var_id = ucast (upd_var_id (ups ! i)) :: u8;
             v = upd_value (ups ! i)
         in write_updates clk twin ups (Suc i) k (twins_memory_update_var (clk i) m twin var_id v))
      else None)"

definition add_to_batch :: "property_update_t \<Rightarrow> update_event_t \<Rightarrow> update_event_t option" where
  "add_to_batch p b =
     (if unat (upd_count b) < length (updates b)
      then Some (b\<lparr>updates := (updates b)[unat (upd_count b) := p], upd_count := upd_count b + 1\<rparr>)
      else None)"

text \<open>The second loop: the two batches and the lines printed.  \<open>var_id\<close> has 16 bits here.\<close>

type_synonym route_state = "update_event_t \<times> update_event_t \<times> dispatch_line list"

fun route_updates ::
  "rule_engine_t \<Rightarrow> u32 \<Rightarrow> property_update_t list \<Rightarrow> nat \<Rightarrow> nat \<Rightarrow> route_state
   \<Rightarrow> route_state option" where
  "route_updates r twin ups i 0 st = Some st"
| "route_updates r twin ups i (Suc k) (notify, user, out) =
     (if i < length ups then
        (let p = ups ! i; var_id = upd_var_id p in
         case get_update_rule r twin var_id of
           ACTION_IGNORE \<Rightarrow>
             route_updates r twin ups (Suc i) k (notify, user, out @ [IgnoredUpdate var_id])
         | ACTION_NOTIFY_UPWARDS \<Rightarrow>
             (case add_to_batch p notify of
                None \<Rightarrow> None
              | Some notify \<Rightarrow> route_updates r twin ups (Suc i) k (notify, user, out))
         | ACTION_HALT_ENGINE \<Rightarrow>
             route_updates r twin ups (Suc i) k (notify, user, out @ [HaltOnUpdate])
         | ACTION_SET_TWIN_ALARM \<Rightarrow>
             route_updates r twin ups (Suc i) k (notify, user, out @ [AlarmOnUpdate twin])
         | ACTION_CALL_USER_SERVICE \<Rightarrow>
             (case add_to_batch p user of
                None \<Rightarrow> None
              | Some user \<Rightarrow>
                  route_updates r twin ups (Suc i) k (notify, user, out @ [ServiceCalled var_id])))
      else None)"

definition handle_event_update :: "(nat \<Rightarrow> u64) \<Rightarrow> event_t \<Rightarrow> engine_t \<Rightarrow> engine_t option" where
  "handle_event_update clk ev s =
     (case as_update ev of
        None \<Rightarrow> None
      | Some u \<Rightarrow>
          (let twin = twin_id (header ev); count = unat (upd_count u) in
           case write_updates clk twin (updates u) 0 count (memory s) of
             None \<Rightarrow> None
           | Some m \<Rightarrow>
               (let batch = u\<lparr>upd_count := 0\<rparr> in
                case route_updates (rules s) twin (updates u) 0 count (batch, batch, []) of
                  None \<Rightarrow> None
                | Some (notify, user, out) \<Rightarrow>
                    (let s = print_lines out (s\<lparr>memory := m\<rparr>);
                         s = (if upd_count notify \<noteq> 0
                              then push_to (notify_queue s) (ev\<lparr>payload := Update notify\<rparr>) s else s);
                         s = (if upd_count user \<noteq> 0
                              then push_to (user_actions_queue s) (ev\<lparr>payload := Update user\<rparr>) s
                              else s)
                     in Some s))))"

subsection \<open>Error events and the dispatch\<close>

definition handle_event_error :: "event_t \<Rightarrow> engine_t \<Rightarrow> engine_t option" where
  "handle_event_error ev s =
     (case as_error ev of
        None \<Rightarrow> None
      | Some e \<Rightarrow>
          (let code = error_code e in
           Some (print_lines
             [case rule_engine_get_action_for_error (rules s) code of
                ACTION_IGNORE \<Rightarrow> IgnoredError code
              | ACTION_NOTIFY_UPWARDS \<Rightarrow> NotifiedError code
              | ACTION_HALT_ENGINE \<Rightarrow> HaltOnError code
              | ACTION_SET_TWIN_ALARM \<Rightarrow> AlarmOnError (twin_id (header ev)) code
              | ACTION_CALL_USER_SERVICE \<Rightarrow> UnknownActionError code] s)))"

definition handle_event_unknown :: "event_t \<Rightarrow> engine_t \<Rightarrow> engine_t option" where
  "handle_event_unknown ev s = Some (print_lines [UnknownEvent (twin_id (header ev))] s)"

text \<open>The table of handlers has an entry for both event types.\<close>

definition dispatch_event :: "(nat \<Rightarrow> u64) \<Rightarrow> event_t \<Rightarrow> engine_t \<Rightarrow> engine_t option" where
  "dispatch_event clk ev s =
     (if EVENT_MAX \<le> event_type (header ev) then handle_event_unknown ev s
      else if event_type (header ev) = EVENT_UPDATE then handle_event_update clk ev s
      else handle_event_error ev s)"

subsection \<open>What the loops compute\<close>

text \<open>The variable an update is written to, and the updates a rule selects.\<close>

definition target_of :: "u32 \<Rightarrow> property_update_t \<Rightarrow> (u32 \<times> u8) \<times> f32" where
  "target_of twin p = ((twin, ucast (upd_var_id p)), upd_value p)"

definition selected :: "rule_engine_t \<Rightarrow> u32 \<Rightarrow> rule_action_t \<Rightarrow> property_update_t list
    \<Rightarrow> property_update_t list" where
  "selected r twin a ps = filter (\<lambda>p. get_update_rule r twin (upd_var_id p) = a) ps"

lemma take_drop_Suc:
  "i < length xs \<Longrightarrow> take (Suc k) (drop i xs) = xs ! i # take k (drop (Suc i) xs)"
  by (simp add: Cons_nth_drop_Suc [symmetric])

lemma write_updates_total:
  "i + k \<le> length ups \<Longrightarrow> memory_ok m \<Longrightarrow>
   \<exists>m'. write_updates clk twin ups i k m = Some m' \<and> memory_ok m'"
  by (induction k arbitrary: i m) (simp_all add: Let_def update_var_ok)

lemma write_updates_value:
  "i + k \<le> length ups \<Longrightarrow> memory_ok m \<Longrightarrow> write_updates clk twin ups i k m = Some m' \<Longrightarrow>
   get_value m' key = (if valid_var key then
     (case map_of (rev (map (target_of twin) (take k (drop i ups)))) key of
        None \<Rightarrow> get_value m key | Some v \<Rightarrow> v) else minus_one_f32)"
proof (induction k arbitrary: i m)
  case 0
  then show ?case using twin_values.get_invalid by auto
next
  case (Suc k)
  let ?p = "ups ! i"
  let ?m = "put_value (clk i) m (twin, ucast (upd_var_id ?p)) (upd_value ?p)"
  have rest: "write_updates clk twin ups (Suc i) k ?m = Some m'" and ok: "memory_ok ?m"
    using Suc.prems by (simp_all add: Let_def update_var_ok)
  have IH: "get_value m' key = (if valid_var key then
     (case map_of (rev (map (target_of twin) (take k (drop (Suc i) ups)))) key of
        None \<Rightarrow> get_value ?m key | Some v \<Rightarrow> v) else minus_one_f32)"
    by (rule Suc.IH [OF _ ok rest]) (use Suc.prems in simp)
  have get: "get_value ?m key = (if key = (twin, ucast (upd_var_id ?p)) \<and>
      valid_var (twin, ucast (upd_var_id ?p)) then upd_value ?p else get_value m key)"
    by (rule twin_values.get_put [OF Suc.prems(2)])
  have head: "target_of twin ?p = ((twin, ucast (upd_var_id ?p)), upd_value ?p)"
    by (simp add: target_of_def)
  show ?case
    unfolding IH get using Suc.prems(1)
    by (auto simp: take_drop_Suc head map_of_append simp del: valid_var.simps split: option.split)
qed

lemma write_updates_status:
  "i + k \<le> length ups \<Longrightarrow> memory_ok m \<Longrightarrow> write_updates clk twin ups i k m = Some m' \<Longrightarrow>
   twins_memory_get_status m' t =
     (if t = twin \<and> (\<exists>p \<in> set (take k (drop i ups)). valid_var (fst (target_of twin p)))
      then 0 else twins_memory_get_status m t)"
proof (induction k arbitrary: i m)
  case (Suc k)
  let ?p = "ups ! i"
  let ?m = "twins_memory_update_var (clk i) m twin (ucast (upd_var_id ?p)) (upd_value ?p)"
  have rest: "write_updates clk twin ups (Suc i) k ?m = Some m'" and ok: "memory_ok ?m"
    using Suc.prems by (simp_all add: Let_def update_var_ok)
  have IH: "twins_memory_get_status m' t =
     (if t = twin \<and> (\<exists>p \<in> set (take k (drop (Suc i) ups)). valid_var (fst (target_of twin p)))
      then 0 else twins_memory_get_status ?m t)"
    by (rule Suc.IH [OF _ ok rest]) (use Suc.prems in simp)
  show ?case
    unfolding IH update_var_status [OF Suc.prems(2)] using Suc.prems(1)
    by (auto simp: take_drop_Suc target_of_def)
qed simp

text \<open>The second loop collects the selected updates, in order.\<close>

lemma add_to_batch_carried:
  assumes "length (updates b) = MAX_VARS_PER_EVENT" "unat (upd_count b) < MAX_VARS_PER_EVENT"
  shows "\<exists>b'. add_to_batch p b = Some b' \<and> length (updates b') = MAX_VARS_PER_EVENT \<and>
    unat (upd_count b') = unat (upd_count b) + 1 \<and> carried b' = carried b @ [p]"
proof -
  have c: "unat (upd_count b + 1) = unat (upd_count b) + 1"
    using assms(2) by (simp add: unat_word_ariths config_defs)
  show ?thesis
    using assms by (simp add: add_to_batch_def carried_def c take_Suc_conv_app_nth)
qed

definition batch_ok :: "nat \<Rightarrow> update_event_t \<Rightarrow> bool" where
  "batch_ok i b \<longleftrightarrow> length (updates b) = MAX_VARS_PER_EVENT \<and> unat (upd_count b) \<le> i"

lemma batch_ok_mono: "batch_ok i b \<Longrightarrow> i \<le> j \<Longrightarrow> batch_ok j b"
  by (simp add: batch_ok_def)

lemma route_updates_read:
  "i + k \<le> MAX_VARS_PER_EVENT \<Longrightarrow> length ups = MAX_VARS_PER_EVENT \<Longrightarrow>
   batch_ok i n \<Longrightarrow> batch_ok i u \<Longrightarrow>
   \<exists>n' u' out'. route_updates r twin ups i k (n, u, out) = Some (n', u', out') \<and>
     batch_ok (i + k) n' \<and> batch_ok (i + k) u' \<and>
     carried n' = carried n @ selected r twin ACTION_NOTIFY_UPWARDS (take k (drop i ups)) \<and>
     carried u' = carried u @ selected r twin ACTION_CALL_USER_SERVICE (take k (drop i ups))"
proof (induction k arbitrary: i n u out)
  case 0
  then show ?case by (simp add: selected_def)
next
  case (Suc k)
  let ?p = "ups ! i"
  have i: "i < length ups" and k: "Suc i + k \<le> MAX_VARS_PER_EVENT" using Suc.prems by simp_all
  have room: "length (updates b) = MAX_VARS_PER_EVENT" "unat (upd_count b) < MAX_VARS_PER_EVENT"
    if "batch_ok i b" for b
    using that i Suc.prems(2) by (auto simp: batch_ok_def)
  have grow: "batch_ok (Suc i) n" "batch_ok (Suc i) u"
    using Suc.prems by (auto simp: batch_ok_def)
  obtain n1 where n1: "add_to_batch ?p n = Some n1" "batch_ok (Suc i) n1" "carried n1 = carried n @ [?p]"
    using add_to_batch_carried [OF room [OF Suc.prems(3)], of ?p] Suc.prems(3)
    by (auto simp: batch_ok_def)
  obtain u1 where u1: "add_to_batch ?p u = Some u1" "batch_ok (Suc i) u1" "carried u1 = carried u @ [?p]"
    using add_to_batch_carried [OF room [OF Suc.prems(4)], of ?p] Suc.prems(4)
    by (auto simp: batch_ok_def)
  note IH = Suc.IH [OF k Suc.prems(2)]
  show ?case
    using i IH [OF grow] IH [OF n1(2) grow(2)] IH [OF grow(1) u1(2)]
    by (cases "get_update_rule r twin (upd_var_id ?p)")
      (auto simp: take_drop_Suc selected_def n1 u1 Let_def)
qed

subsection \<open>The effect of dispatching an event\<close>

text \<open>
  The invariant of the engine: memory and rules have their sizes, and every queue is well formed
  and holds well-formed events.
\<close>

definition engine_ok :: "engine_t \<Rightarrow> bool" where
  "engine_ok s \<longleftrightarrow>
     memory_ok (memory s) \<and> rules_ok (rules s) \<and> (\<forall>a. queue_events_ok (queues s a))"

text \<open>What is pushed for a selection of updates: one event, unless the selection is empty.\<close>

definition batch_view ::
  "event_header_t \<Rightarrow> property_update_t list \<Rightarrow> (event_header_t \<times> (u16 \<times> f32) list) list" where
  "batch_view hdr ps = (if ps = [] then [] else [(hdr, map pair_of ps)])"

definition queue_views :: "event_queue_t \<Rightarrow> (event_header_t \<times> (u16 \<times> f32) list) list" where
  "queue_views q = map event_view (queue_content q)"

lemma push_to_fields [simp]:
  "notify_queue (push_to a ev s) = notify_queue s"
  "user_actions_queue (push_to a ev s) = user_actions_queue s"
  "rules (push_to a ev s) = rules s" "memory (push_to a ev s) = memory s"
  "console (push_to a ev s) = console s"
  "queues (push_to a ev s) b = (if b = a then snd (push_event (queues s a) ev) else queues s b)"
  by (simp_all add: push_to_def)

lemma print_lines_fields [simp]:
  "queues (print_lines ls s) = queues s" "notify_queue (print_lines ls s) = notify_queue s"
  "user_actions_queue (print_lines ls s) = user_actions_queue s"
  "rules (print_lines ls s) = rules s" "memory (print_lines ls s) = memory s"
  by (simp_all add: print_lines_def)

lemma engine_ok_print [simp]: "engine_ok (print_lines ls s) = engine_ok s"
  by (simp add: engine_ok_def)

lemma engine_ok_push: "engine_ok s \<Longrightarrow> event_ok ev \<Longrightarrow> engine_ok (push_to a ev s)"
  by (auto simp: engine_ok_def push_events_ok)

lemma length_carried: "batch_ok i b \<Longrightarrow> i \<le> MAX_VARS_PER_EVENT \<Longrightarrow> length (carried b) = unat (upd_count b)"
  by (auto simp: carried_def batch_ok_def)

lemma batch_empty_iff:
  "batch_ok i b \<Longrightarrow> i \<le> MAX_VARS_PER_EVENT \<Longrightarrow> upd_count b \<noteq> 0 \<longleftrightarrow> carried b \<noteq> []"
  using length_carried [of i b] by (metis length_0_conv unat_eq_0 unat_0)

lemma push_batch_views:
  assumes "queue_ok q" "event_type (header ev) = EVENT_UPDATE"
  shows "queue_views (snd (push_event q (ev\<lparr>payload := Update b\<rparr>))) =
    take (QUEUE_SIZE - 1) (queue_views q @ [(header ev, map pair_of (carried b))])"
  by (simp only: queue_views_def ring.push_content [OF assms(1)] take_map [symmetric] map_append)
    (simp add: event_view_def)

text \<open>An update event that is well formed, split into what the handler computes from it.\<close>

lemma handle_update_split:
  assumes ok: "engine_ok s" and ev: "payload ev = Update u" "event_ok ev"
  obtains m n v out where
    "write_updates clk (twin_id (header ev)) (updates u) 0 (unat (upd_count u)) (memory s) = Some m"
    "memory_ok m" "batch_ok MAX_VARS_PER_EVENT n" "batch_ok MAX_VARS_PER_EVENT v"
    "carried n = selected (rules s) (twin_id (header ev)) ACTION_NOTIFY_UPWARDS (carried u)"
    "carried v = selected (rules s) (twin_id (header ev)) ACTION_CALL_USER_SERVICE (carried u)"
    "dispatch_event clk ev s =
      (let s = print_lines out (s\<lparr>memory := m\<rparr>);
           s = (if carried n \<noteq> [] then push_to (notify_queue s) (ev\<lparr>payload := Update n\<rparr>) s else s)
       in Some (if carried v \<noteq> [] then push_to (user_actions_queue s) (ev\<lparr>payload := Update v\<rparr>) s
                else s))"
proof -
  let ?t = "twin_id (header ev)" and ?k = "unat (upd_count u)"
  have len: "length (updates u) = MAX_VARS_PER_EVENT" "?k \<le> MAX_VARS_PER_EVENT"
    and update: "event_type (header ev) = EVENT_UPDATE"
    using ev by (simp_all add: event_ok_def)
  obtain m where m: "write_updates clk ?t (updates u) 0 ?k (memory s) = Some m" "memory_ok m"
    using write_updates_total [of 0 ?k "updates u" "memory s" clk ?t] len ok by (auto simp: engine_ok_def)
  let ?b = "u\<lparr>upd_count := 0\<rparr>"
  have b: "batch_ok 0 ?b" "carried ?b = []" using len by (simp_all add: batch_ok_def carried_def)
  obtain n v out where
    route: "route_updates (rules s) ?t (updates u) 0 ?k (?b, ?b, []) = Some (n, v, out)"
    and nv: "batch_ok ?k n" "batch_ok ?k v"
      "carried n = selected (rules s) ?t ACTION_NOTIFY_UPWARDS (carried u)"
      "carried v = selected (rules s) ?t ACTION_CALL_USER_SERVICE (carried u)"
    using route_updates_read [of 0 ?k "updates u" ?b ?b "rules s" ?t "[]"] len b
    by (auto simp: carried_def [of u])
  have nv': "batch_ok MAX_VARS_PER_EVENT n" "batch_ok MAX_VARS_PER_EVENT v"
    using nv(1,2) len(2) by (auto intro: batch_ok_mono)
  show ?thesis
  proof (rule that [OF m nv' nv(3,4)])
    show "dispatch_event clk ev s =
      (let s = print_lines out (s\<lparr>memory := m\<rparr>);
           s = (if carried n \<noteq> [] then push_to (notify_queue s) (ev\<lparr>payload := Update n\<rparr>) s else s)
       in Some (if carried v \<noteq> [] then push_to (user_actions_queue s) (ev\<lparr>payload := Update v\<rparr>) s
                else s))"
      using ev(1) update m(1) route batch_empty_iff [OF nv'(1)] batch_empty_iff [OF nv'(2)]
      by (simp add: dispatch_event_def event_type_defs handle_event_update_def as_update_def Let_def)
  qed
qed

lemma event_ok_batch:
  "event_ok ev \<Longrightarrow> payload ev = Update u \<Longrightarrow> batch_ok MAX_VARS_PER_EVENT b \<Longrightarrow>
   event_ok (ev\<lparr>payload := Update b\<rparr>)"
  by (simp add: event_ok_def batch_ok_def)

lemma dispatch_error:
  assumes "payload ev = Error e" "event_ok ev"
  obtains line where "dispatch_event clk ev s = Some (print_lines [line] s)"
    and "rule_engine_get_action_for_error (rules s) (error_code e) = ACTION_HALT_ENGINE \<Longrightarrow>
      line = HaltOnError (error_code e)"
proof -
  have "event_type (header ev) = EVENT_ERROR" using assms by (simp add: event_ok_def)
  then have "dispatch_event clk ev s = handle_event_error ev s"
    by (simp add: dispatch_event_def event_type_defs word_le_nat_alt)
  then show ?thesis
    using that assms(1) by (simp add: handle_event_error_def as_error_def Let_def)
qed

lemma dispatch_ok_aux:
  assumes ok: "engine_ok s" and ev: "event_ok ev"
  shows "\<exists>s'. dispatch_event clk ev s = Some s' \<and> engine_ok s' \<and> rules s' = rules s \<and>
    notify_queue s' = notify_queue s \<and> user_actions_queue s' = user_actions_queue s"
proof (cases "payload ev")
  case (Error e)
  then show ?thesis using dispatch_error [OF Error ev, of clk s] ok by (metis engine_ok_print print_lines_fields)
next
  case (Update u)
  obtain m n v out where parts: "memory_ok m" "batch_ok MAX_VARS_PER_EVENT n" "batch_ok MAX_VARS_PER_EVENT v"
    "dispatch_event clk ev s =
      (let s = print_lines out (s\<lparr>memory := m\<rparr>);
           s = (if carried n \<noteq> [] then push_to (notify_queue s) (ev\<lparr>payload := Update n\<rparr>) s else s)
       in Some (if carried v \<noteq> [] then push_to (user_actions_queue s) (ev\<lparr>payload := Update v\<rparr>) s
                else s))"
    by (rule handle_update_split [OF ok Update ev])
  have base: "engine_ok (print_lines out (s\<lparr>memory := m\<rparr>))" using ok parts(1) by (simp add: engine_ok_def)
  have "event_ok (ev\<lparr>payload := Update n\<rparr>)" "event_ok (ev\<lparr>payload := Update v\<rparr>)"
    using event_ok_batch [OF ev Update] parts(2,3) by blast+
  then show ?thesis using base by (auto simp: parts(4) Let_def engine_ok_push)
qed

lemma dispatch_memory_aux:
  assumes ok: "engine_ok s" and ev: "payload ev = Update u" "event_ok ev"
    and run: "dispatch_event clk ev s = Some s'"
  shows "get_value (memory s') key =
      (if valid_var key
       then (case map_of (rev (map (target_of (twin_id (header ev))) (carried u))) key of
               None \<Rightarrow> get_value (memory s) key | Some v \<Rightarrow> v)
       else minus_one_f32) \<and>
    twins_memory_get_status (memory s') t =
      (if t = twin_id (header ev) \<and>
          (\<exists>p \<in> set (carried u). valid_var (fst (target_of (twin_id (header ev)) p)))
       then 0 else twins_memory_get_status (memory s) t)"
proof -
  let ?t = "twin_id (header ev)" and ?k = "unat (upd_count u)"
  obtain m n v out where
    m: "write_updates clk ?t (updates u) 0 ?k (memory s) = Some m"
    and eq: "dispatch_event clk ev s =
      (let s = print_lines out (s\<lparr>memory := m\<rparr>);
           s = (if carried n \<noteq> [] then push_to (notify_queue s) (ev\<lparr>payload := Update n\<rparr>) s else s)
       in Some (if carried v \<noteq> [] then push_to (user_actions_queue s) (ev\<lparr>payload := Update v\<rparr>) s
                else s))"
    by (rule handle_update_split [OF ok ev])
  have "memory s' = m" using run unfolding eq by (auto simp: Let_def)
  moreover have "0 + ?k \<le> length (updates u)" "memory_ok (memory s)"
    using ev ok by (simp_all add: event_ok_def engine_ok_def)
  ultimately show ?thesis
    using write_updates_value [OF _ _ m, of key] write_updates_status [OF _ _ m, of t]
    by (simp add: carried_def)
qed

lemma dispatch_routes_aux:
  assumes ok: "engine_ok s" and ev: "payload ev = Update u" "event_ok ev"
    and distinct: "notify_queue s \<noteq> user_actions_queue s"
    and run: "dispatch_event clk ev s = Some s'"
  shows "queue_views (queues s' (notify_queue s)) =
      take (QUEUE_SIZE - 1) (queue_views (queues s (notify_queue s)) @
        batch_view (header ev)
          (selected (rules s) (twin_id (header ev)) ACTION_NOTIFY_UPWARDS (carried u)))"
    and "queue_views (queues s' (user_actions_queue s)) =
      take (QUEUE_SIZE - 1) (queue_views (queues s (user_actions_queue s)) @
        batch_view (header ev)
          (selected (rules s) (twin_id (header ev)) ACTION_CALL_USER_SERVICE (carried u)))"
    and "a \<noteq> notify_queue s \<Longrightarrow> a \<noteq> user_actions_queue s \<Longrightarrow> queues s' a = queues s a"
proof -
  obtain m n v out where
    n: "carried n = selected (rules s) (twin_id (header ev)) ACTION_NOTIFY_UPWARDS (carried u)"
    and v: "carried v = selected (rules s) (twin_id (header ev)) ACTION_CALL_USER_SERVICE (carried u)"
    and eq: "dispatch_event clk ev s =
      (let s = print_lines out (s\<lparr>memory := m\<rparr>);
           s = (if carried n \<noteq> [] then push_to (notify_queue s) (ev\<lparr>payload := Update n\<rparr>) s else s)
       in Some (if carried v \<noteq> [] then push_to (user_actions_queue s) (ev\<lparr>payload := Update v\<rparr>) s
                else s))"
    by (rule handle_update_split [OF ok ev])
  have nq: "queues s' (notify_queue s) =
      (if carried n \<noteq> []
       then snd (push_event (queues s (notify_queue s)) (ev\<lparr>payload := Update n\<rparr>))
       else queues s (notify_queue s))"
    and uq: "queues s' (user_actions_queue s) =
      (if carried v \<noteq> []
       then snd (push_event (queues s (user_actions_queue s)) (ev\<lparr>payload := Update v\<rparr>))
       else queues s (user_actions_queue s))"
    and other: "a \<noteq> notify_queue s \<Longrightarrow> a \<noteq> user_actions_queue s \<Longrightarrow> queues s' a = queues s a"
    using run distinct unfolding eq by (auto simp: Let_def split: if_splits)
  have q: "queue_ok (queues s a)" for a using ok by (simp add: engine_ok_def queue_events_ok_def)
  have upd: "event_type (header ev) = EVENT_UPDATE" using ev by (simp add: event_ok_def)
  have bound: "length (queue_views (queues s a)) \<le> QUEUE_SIZE - 1" for a
    using ring.content_bound [OF q, of a] by (simp add: queue_views_def)
  show "queue_views (queues s' (notify_queue s)) =
      take (QUEUE_SIZE - 1) (queue_views (queues s (notify_queue s)) @ batch_view (header ev)
          (selected (rules s) (twin_id (header ev)) ACTION_NOTIFY_UPWARDS (carried u)))"
    using bound [of "notify_queue s"] push_batch_views [OF q upd, of "notify_queue s" n]
    unfolding nq n [symmetric] batch_view_def by (cases "carried n = []") simp_all
  show "queue_views (queues s' (user_actions_queue s)) =
      take (QUEUE_SIZE - 1) (queue_views (queues s (user_actions_queue s)) @ batch_view (header ev)
          (selected (rules s) (twin_id (header ev)) ACTION_CALL_USER_SERVICE (carried u)))"
    using bound [of "user_actions_queue s"] push_batch_views [OF q upd, of "user_actions_queue s" v]
    unfolding uq v [symmetric] batch_view_def by (cases "carried v = []") simp_all
  show "a \<noteq> notify_queue s \<Longrightarrow> a \<noteq> user_actions_queue s \<Longrightarrow> queues s' a = queues s a"
    by (rule other)
qed

subsection \<open>The contract of the dispatcher\<close>

text \<open>
  C16. A well-formed event is always dispatched: no member of the union is read that was not written
  and no array index is out of bounds.  The invariant of the engine is kept, with every queue
  holding well-formed events, and the rules and the two pointers do not change.
\<close>

theorem dispatch_never_stuck:
  assumes "engine_ok s" "event_ok ev"
  shows "\<exists>s'. dispatch_event clk ev s = Some s' \<and> engine_ok s' \<and> rules s' = rules s \<and>
    notify_queue s' = notify_queue s \<and> user_actions_queue s' = user_actions_queue s"
  using assms by (rule dispatch_ok_aux)

text \<open>
  C7. After an update event every variable of the memory holds the last value the event carries for
  it, or its old value; a twin that received one is connected, and no other status changes.  The
  variable is the low byte of the number in the event.
\<close>

theorem dispatch_writes_memory:
  assumes "engine_ok s" "payload ev = Update u" "event_ok ev" "dispatch_event clk ev s = Some s'"
  shows "get_value (memory s') key =
      (if valid_var key
       then (case map_of (rev (map (target_of (twin_id (header ev))) (carried u))) key of
               None \<Rightarrow> get_value (memory s) key | Some v \<Rightarrow> v)
       else minus_one_f32) \<and>
    twins_memory_get_status (memory s') t =
      (if t = twin_id (header ev) \<and>
          (\<exists>p \<in> set (carried u). valid_var (fst (target_of (twin_id (header ev)) p)))
       then 0 else twins_memory_get_status (memory s) t)"
  using assms by (rule dispatch_memory_aux)

text \<open>
  C6. The updates whose rule says to notify upwards arrive on the notify queue, those whose rule
  says to call a user service on the other one, in order and in one event with the header of the
  original; a selection that is empty sends nothing, and no other queue changes.
\<close>

theorem dispatch_routes_by_rule:
  assumes "engine_ok s" "payload ev = Update u" "event_ok ev"
    "notify_queue s \<noteq> user_actions_queue s" "dispatch_event clk ev s = Some s'"
  shows "queue_views (queues s' (notify_queue s)) =
      take (QUEUE_SIZE - 1) (queue_views (queues s (notify_queue s)) @
        batch_view (header ev)
          (selected (rules s) (twin_id (header ev)) ACTION_NOTIFY_UPWARDS (carried u))) \<and>
    queue_views (queues s' (user_actions_queue s)) =
      take (QUEUE_SIZE - 1) (queue_views (queues s (user_actions_queue s)) @
        batch_view (header ev)
          (selected (rules s) (twin_id (header ev)) ACTION_CALL_USER_SERVICE (carried u))) \<and>
    (a \<noteq> notify_queue s \<longrightarrow> a \<noteq> user_actions_queue s \<longrightarrow> queues s' a = queues s a)"
  using dispatch_routes_aux [OF assms] by blast

text \<open>
  An update of variable \<open>256 + k\<close>, which no twin has, overwrites variable \<open>k\<close>: the memory is
  addressed with the low byte of the number, while its rule is looked up with all of it and says
  to ignore the update.
\<close>

theorem wide_variable_overwrites_low:
  assumes "engine_ok s" "payload ev = Update u" "event_ok ev" "carried u = [p]"
    "unat (upd_var_id p) = 256 + k" "k < MAX_VARS_PER_TWINS" "valid_twin (twin_id (header ev))"
    "dispatch_event clk ev s = Some s'"
  shows "get_rule (rules s) (twin_id (header ev), upd_var_id p) = ACTION_IGNORE \<and>
    get_value (memory s') (twin_id (header ev), of_nat k) = upd_value p"
proof -
  let ?t = "twin_id (header ev)"
  have low: "ucast (upd_var_id p) = (of_nat k :: u8)"
    using assms(5,6)
    by (simp add: word_unat_eq_iff unsigned_ucast_eq take_bit_eq_mod unat_of_nat config_defs)
  have k: "unat (of_nat k :: u8) = k" using assms(6) by (simp add: unat_of_nat_small config_defs)
  have "get_rule (rules s) (?t, upd_var_id p) = ACTION_IGNORE"
    using assms(5) by (intro updates.get_invalid) (simp add: config_defs)
  moreover have "valid_var (?t, of_nat k)" using assms(6,7) k by simp
  ultimately show ?thesis
    using dispatch_memory_aux [OF assms(1-3,8), of "(?t, of_nat k)" 0] assms(4)
    by (simp add: target_of_def low)
qed

text \<open>
  An error event prints one line and does nothing else; also a sensor failure, whose rule says
  to halt the engine, leaves memory, rules and queues as they are.
\<close>

theorem error_event_only_reported:
  assumes "payload ev = Error e" "event_ok ev"
  shows "\<exists>line. dispatch_event clk ev s = Some (print_lines [line] s) \<and>
    (rule_engine_get_action_for_error (rules s) (error_code e) = ACTION_HALT_ENGINE \<longrightarrow>
     line = HaltOnError (error_code e))"
  by (rule dispatch_error [OF assms, of clk s]) blast

text \<open>The contract at a concrete state: zeroed storage, and queues at the addresses 0, 1 and 2.\<close>

definition zero_engine :: engine_t where
  "zero_engine =
     \<lparr>queues = \<lambda>_. zero_queue, notify_queue = 1, user_actions_queue = 2, rules = initial_rules,
      memory = zero_memory, console = []\<rparr>"

lemma zero_engine_ok [simp]: "engine_ok zero_engine"
  by (simp add: engine_ok_def zero_engine_def rules_ok_initial)

definition one_update :: "u32 \<Rightarrow> u16 \<Rightarrow> f32 \<Rightarrow> event_t" where
  "one_update twin v x =
     \<lparr>header = \<lparr>event_type = EVENT_UPDATE, timestamp = 0, deviation = 0, twin_id = twin\<rparr>,
      payload = Update \<lparr>upd_count = 1, updates = replicate MAX_VARS_PER_EVENT
        \<lparr>upd_var_id = v, upd_value = x, destiny_url = []\<rparr>\<rparr>\<rparr>"

lemma one_update_ok [simp]: "event_ok (one_update twin v x)"
  by (simp add: event_ok_def one_update_def config_defs)

lemma one_update_payload:
  "payload (one_update twin v x) = Update \<lparr>upd_count = 1, updates = replicate MAX_VARS_PER_EVENT
     \<lparr>upd_var_id = v, upd_value = x, destiny_url = []\<rparr>\<rparr>"
  by (simp add: one_update_def)

lemma one_update_carried:
  "carried \<lparr>upd_count = 1, updates = replicate MAX_VARS_PER_EVENT
     \<lparr>upd_var_id = v, upd_value = x, destiny_url = []\<rparr>\<rparr>
   = [\<lparr>upd_var_id = v, upd_value = x, destiny_url = []\<rparr>]"
  by (simp add: carried_def config_defs)

lemma one_update_dispatch:
  obtains s' where "dispatch_event (\<lambda>_. 0) (one_update twin v x) zero_engine = Some s'"
  using dispatch_ok_aux [OF zero_engine_ok one_update_ok] by blast

theorem dispatch_never_stuck_witness:
  "event_ok (one_update 3 4 5) \<and> dispatch_event (\<lambda>_. 0) (one_update 3 4 5) zero_engine \<noteq> None"
  using dispatch_never_stuck [OF zero_engine_ok one_update_ok, of "\<lambda>_. 0" 3 4 5] by auto

theorem dispatch_writes_memory_witness:
  "\<exists>s'. dispatch_event (\<lambda>_. 0) (one_update 3 4 5) zero_engine = Some s' \<and>
     get_value (memory s') (3, 4) = 5"
proof -
  obtain s' where s': "dispatch_event (\<lambda>_. 0) (one_update 3 4 5) zero_engine = Some s'"
    by (rule one_update_dispatch)
  have "valid_var (3, 4)" "twin_id (header (one_update 3 4 5)) = 3"
    by (simp_all add: valid_twin_def config_defs one_update_def)
  then have "get_value (memory s') (3, 4) = 5"
    using dispatch_writes_memory [OF zero_engine_ok one_update_payload one_update_ok s', of "(3, 4)"]
    unfolding one_update_carried by (simp add: target_of_def del: valid_var.simps)
  with s' show ?thesis by blast
qed

theorem dispatch_routes_by_rule_witness:
  "\<exists>s'. dispatch_event (\<lambda>_. 0) (one_update 3 4 5) zero_engine = Some s' \<and>
     queues s' 0 = zero_queue \<and> queue_views (queues s' 1) = []"
proof -
  obtain s' where s': "dispatch_event (\<lambda>_. 0) (one_update 3 4 5) zero_engine = Some s'"
    by (rule one_update_dispatch)
  have "notify_queue zero_engine \<noteq> user_actions_queue zero_engine" by (simp add: zero_engine_def)
  from dispatch_routes_by_rule [OF zero_engine_ok one_update_payload one_update_ok this s', of 0]
  have "queues s' 0 = zero_queue \<and> queue_views (queues s' 1) = []"
    unfolding one_update_carried
    by (simp add: zero_engine_def selected_def get_update_rule_def
        initial_rules_def batch_view_def queue_views_def one_update_def config_defs)
  with s' show ?thesis by blast
qed

theorem wide_variable_overwrites_low_witness:
  "\<exists>s'. dispatch_event (\<lambda>_. 0) (one_update 3 260 5) zero_engine = Some s' \<and>
     get_value (memory s') (3, 4) = 5"
proof -
  obtain s' where s': "dispatch_event (\<lambda>_. 0) (one_update 3 260 5) zero_engine = Some s'"
    by (rule one_update_dispatch)
  have "get_value (memory s') (3, 4) = 5"
    using wide_variable_overwrites_low [OF zero_engine_ok one_update_payload one_update_ok
        one_update_carried _ _ _ s', of 4]
    by (simp add: config_defs valid_twin_def one_update_def)
  with s' show ?thesis by blast
qed

definition sensor_failure :: event_t where
  "sensor_failure =
     \<lparr>header = \<lparr>event_type = EVENT_ERROR, timestamp = 0, deviation = 0, twin_id = 1\<rparr>,
      payload = Error \<lparr>error_code = ERROR_SENSOR_FAILURE, message = []\<rparr>\<rparr>"

theorem error_event_only_reported_witness:
  "dispatch_event (\<lambda>_. 0) sensor_failure zero_engine =
     Some (print_lines [HaltOnError ERROR_SENSOR_FAILURE] zero_engine)"
proof -
  have "payload sensor_failure = Error \<lparr>error_code = ERROR_SENSOR_FAILURE, message = []\<rparr>"
    "event_ok sensor_failure"
    by (simp_all add: sensor_failure_def event_ok_def)
  from error_event_only_reported [OF this, of "\<lambda>_. 0" zero_engine] show ?thesis
    by (auto simp: rule_engine_get_action_for_error_def zero_engine_def initial_rules_def
        ERROR_MAX_def error_type_defs)
qed

end
