(* ===== verification/Event_Processor.thy ===== *)
theory Event_Processor
  imports Event_Dispatcher
begin

text \<open>
  The event processor (\<open>engine/src/event_processor.c\<close>): a thread that pops events off its queue and
  has each one dispatched.  The state is the dispatcher's; the processor holds the address of its
  queue.  The loop is given one element per time \<open>keep_running\<close> reads as true: the events the
  receiver has pushed onto the queue since the last round, and the clock of the round.  \<open>stack\<close> is
  the uninitialised local event.
\<close>

subsection \<open>The code\<close>

record event_processor_t =
  in_queue :: nat

definition event_processor_init :: "event_processor_t \<Rightarrow> nat \<Rightarrow> event_processor_t" where
  "event_processor_init processor q = processor\<lparr>in_queue := q\<rparr>"

definition set_queue :: "nat \<Rightarrow> event_queue_t \<Rightarrow> engine_t \<Rightarrow> engine_t" where
  "set_queue a q s = s\<lparr>queues := (queues s)(a := q)\<rparr>"

definition event_processor_process_next ::
  "(nat \<Rightarrow> u64) \<Rightarrow> event_t \<Rightarrow> event_processor_t \<Rightarrow> engine_t \<Rightarrow> (int \<times> engine_t) option" where
  "event_processor_process_next clk stack processor s =
     (case pop_event (queues s (in_queue processor)) stack of
        (rc, event, q) \<Rightarrow>
          let s = set_queue (in_queue processor) q s in
          if rc \<noteq> - 1 then
            (case dispatch_event clk event s of None \<Rightarrow> None | Some s \<Rightarrow> Some (0, s))
          else Some (0, s))"

type_synonym round_input = "(nat \<Rightarrow> u64) \<times> event_t list"

fun event_processor_loop ::
  "event_t \<Rightarrow> event_processor_t \<Rightarrow> round_input list \<Rightarrow> engine_t \<Rightarrow> engine_t option" where
  "event_processor_loop stack processor [] s = Some s"
| "event_processor_loop stack processor ((clk, evs) # rounds) s =
     (case event_processor_process_next clk stack processor (fold (push_to (in_queue processor)) evs s) of
        None \<Rightarrow> None
      | Some (rc, s) \<Rightarrow> event_processor_loop stack processor rounds s)"

subsection \<open>Dispatching does not look at the queue of the processor\<close>

definition apart :: "nat \<Rightarrow> engine_t \<Rightarrow> bool" where
  "apart a s \<longleftrightarrow> a \<noteq> notify_queue s \<and> a \<noteq> user_actions_queue s"

lemma set_queue_fields [simp]:
  "queues (set_queue a q s) b = (if b = a then q else queues s b)"
  "notify_queue (set_queue a q s) = notify_queue s"
  "user_actions_queue (set_queue a q s) = user_actions_queue s"
  "rules (set_queue a q s) = rules s" "memory (set_queue a q s) = memory s"
  "apart b (set_queue a q s) = apart b s"
  by (simp_all add: set_queue_def apart_def)

lemma apart_push_to [simp]: "apart a (push_to b ev s) = apart a s"
  by (simp add: apart_def)

lemma set_queue_set [simp]: "set_queue a q (set_queue a q' s) = set_queue a q s"
  by (simp add: set_queue_def)

lemma set_queue_same [simp]: "set_queue a (queues s a) s = s"
  by (simp add: set_queue_def)

lemma push_set_queue: "push_to a ev s = set_queue a (snd (push_event (queues s a) ev)) s"
  by (simp add: push_to_def set_queue_def)

lemma pushes_set_queue:
  "fold (push_to a) evs s = set_queue a (ring.push_all (queues s a) evs) s"
  by (induction evs arbitrary: s) (simp_all add: push_set_queue)

lemma set_queue_commute:
  "a \<noteq> b \<Longrightarrow> push_to b ev (set_queue a q s) = set_queue a q (push_to b ev s)"
  "print_lines ls (set_queue a q s) = set_queue a q (print_lines ls s)"
  by (simp_all add: push_to_def set_queue_def print_lines_def fun_upd_twist)

lemma set_queue_memory: "set_queue a q s\<lparr>memory := m\<rparr> = set_queue a q (s\<lparr>memory := m\<rparr>)"
  by (simp add: set_queue_def)

lemma dispatch_set_queue:
  assumes "apart a s"
  shows "dispatch_event clk ev (set_queue a q s) = map_option (set_queue a q) (dispatch_event clk ev s)"
proof -
  have upd: "handle_event_update clk ev (set_queue a q s)
      = map_option (set_queue a q) (handle_event_update clk ev s)"
    using assms
    by (simp add: handle_event_update_def apart_def set_queue_commute set_queue_memory Let_def
        split: option.split)
  have err: "handle_event_error ev (set_queue a q s)
      = map_option (set_queue a q) (handle_event_error ev s)"
    by (simp add: handle_event_error_def set_queue_commute Let_def split: option.split)
  show ?thesis
    by (simp add: dispatch_event_def upd err handle_event_unknown_def set_queue_commute)
qed

subsection \<open>The rounds of the processor\<close>

text \<open>What the processor promises: the events it has taken were dispatched in order.\<close>

fun dispatch_all :: "((nat \<Rightarrow> u64) \<times> event_t) list \<Rightarrow> engine_t \<Rightarrow> engine_t option" where
  "dispatch_all [] s = Some s"
| "dispatch_all ((clk, ev) # evs) s =
     (case dispatch_event clk ev s of None \<Rightarrow> None | Some s \<Rightarrow> dispatch_all evs s)"

lemma dispatch_all_set_queue:
  assumes "engine_ok s" "apart a s" "list_all event_ok (map snd evs)"
  shows "dispatch_all evs (set_queue a q s) = map_option (set_queue a q) (dispatch_all evs s)"
  using assms
proof (induction evs arbitrary: s)
  case (Cons e evs)
  obtain clk ev where e: "e = (clk, ev)" by force
  have ev: "event_ok ev" using Cons.prems e by simp
  obtain s' where s': "dispatch_event clk ev s = Some s'" "engine_ok s'" "apart a s'"
    using dispatch_ok_aux [OF Cons.prems(1) ev, of clk] Cons.prems(2) by (auto simp: apart_def)
  show ?case
    using Cons.IH [OF s'(2,3)] Cons.prems(3)
    by (simp add: e s'(1) dispatch_set_queue [OF Cons.prems(2)])
qed simp

lemma engine_ok_set_queue: "engine_ok s \<Longrightarrow> queue_events_ok q \<Longrightarrow> engine_ok (set_queue a q s)"
  by (simp add: engine_ok_def)

lemma push_all_events_ok:
  "queue_events_ok q \<Longrightarrow> list_all event_ok evs \<Longrightarrow> queue_events_ok (ring.push_all q evs)"
  by (induction evs arbitrary: q) (simp_all add: push_events_ok)

lemma pop_first_ok:
  assumes "queue_events_ok q" "queue_content q = ev # evs"
  obtains q' where "pop_event q stack = (0, ev, q')" "queue_content q' = evs" "queue_events_ok q'"
    "event_ok ev"
proof -
  obtain rc e q' where p: "pop_event q stack = (rc, e, q')" by (metis prod_cases3)
  have "queue_ok q" "event_ok ev" using assms by (simp_all add: queue_events_ok_def)
  with that ring.pop_first [OF \<open>queue_ok q\<close> assms(2), of stack] pop_events_ok [OF assms(1), of stack]
  show ?thesis by (simp add: p)
qed

text \<open>
  One round: nothing when the queue is empty, otherwise its first event is dispatched.  The queue
  is shown apart from the rest of the state.
\<close>

lemma process_next_empty:
  assumes "queue_ok q" "queue_content q = []"
  shows "event_processor_process_next clk stack p (set_queue (in_queue p) q s)
    = Some (0, set_queue (in_queue p) q s)"
  using ring.pop_empty [OF assms, of stack] by (simp add: event_processor_process_next_def)

lemma process_next_event:
  assumes "engine_ok s" "apart (in_queue p) s" "queue_events_ok q" "queue_content q = ev # evs"
  obtains t q' where
    "event_processor_process_next clk stack p (set_queue (in_queue p) q s)
      = Some (0, set_queue (in_queue p) q' t)"
    "dispatch_event clk ev s = Some t" "engine_ok t" "apart (in_queue p) t"
    "queue_content q' = evs" "queue_events_ok q'"
proof -
  obtain q' where q': "pop_event q stack = (0, ev, q')" "queue_content q' = evs"
    "queue_events_ok q'" "event_ok ev"
    by (rule pop_first_ok [OF assms(3,4)])
  obtain t where t: "dispatch_event clk ev s = Some t" "engine_ok t" "apart (in_queue p) t"
    using dispatch_ok_aux [OF assms(1) q'(4), of clk] assms(2) by (auto simp: apart_def)
  show ?thesis
    by (rule that [OF _ t q'(2,3)])
      (simp add: event_processor_process_next_def q'(1) t(1) dispatch_set_queue [OF assms(2)])
qed

lemma processor_rounds:
  "engine_ok s \<Longrightarrow> apart (in_queue p) s \<Longrightarrow> queue_events_ok q0 \<Longrightarrow>
   list_all event_ok (concat (map snd rounds)) \<Longrightarrow>
   length (queue_content q0) + length (concat (map snd rounds)) < QUEUE_SIZE \<Longrightarrow>
   \<exists>q t handled.
     event_processor_loop stack p rounds (set_queue (in_queue p) q0 s)
       = Some (set_queue (in_queue p) q t) \<and>
     dispatch_all handled s = Some t \<and> engine_ok t \<and> queue_events_ok q \<and>
     queue_content q0 @ concat (map snd rounds) = map snd handled @ queue_content q \<and>
     min (length rounds) (length (queue_content q0)) \<le> length handled"
proof (induction rounds arbitrary: s q0)
  case Nil
  then show ?case
    by (intro exI [of _ q0] exI [of _ s] exI [of _ "[]"]) simp
next
  case (Cons r rounds)
  obtain clk evs where r: "r = (clk, evs)" by force
  let ?a = "in_queue p" and ?q = "ring.push_all q0 evs"
  have C: "queue_content ?q = queue_content q0 @ evs" and q: "queue_events_ok ?q"
    and rest: "list_all event_ok (concat (map snd rounds))"
    using Cons.prems(3-5)
    by (simp_all add: r ring.push_all_content queue_events_ok_def push_all_events_ok
        del: length_queue_content) (use Cons.prems(3,4) push_all_events_ok [of q0 evs] in
          \<open>simp add: r queue_events_ok_def ring.push_all_content\<close>)
  have loop: "event_processor_loop stack p (r # rounds) (set_queue ?a q0 s) =
      (case event_processor_process_next clk stack p (set_queue ?a ?q s) of
         None \<Rightarrow> None | Some (rc, s) \<Rightarrow> event_processor_loop stack p rounds s)"
    by (simp add: r pushes_set_queue)
  show ?case
  proof (cases "queue_content q0 @ evs")
    case Nil
    then have next1: "event_processor_process_next clk stack p (set_queue ?a ?q s)
        = Some (0, set_queue ?a ?q s)"
      using C q by (intro process_next_empty) (simp_all add: queue_events_ok_def)
    show ?thesis
      using Cons.IH [OF Cons.prems(1,2) q rest] Nil C Cons.prems(5) unfolding loop next1
      by (auto simp: r simp del: length_queue_content)
  next
    case (Cons ev more)
    obtain t q1 where one: "event_processor_process_next clk stack p (set_queue ?a ?q s)
        = Some (0, set_queue ?a q1 t)" "dispatch_event clk ev s = Some t" "engine_ok t" "apart ?a t"
      "queue_content q1 = more" "queue_events_ok q1"
      using process_next_event [OF Cons.prems(1,2) q] C Cons by metis
    have "length (queue_content q1) + length (concat (map snd rounds)) < QUEUE_SIZE"
      using arg_cong [OF Cons, of length] Cons.prems(5) one(5) r
      by (simp del: length_queue_content)
    from Cons.IH [OF one(3,4,6) rest this] obtain q2 u handled where
      "event_processor_loop stack p rounds (set_queue ?a q1 t) = Some (set_queue ?a q2 u)"
      "dispatch_all handled t = Some u" "engine_ok u" "queue_events_ok q2"
      "more @ concat (map snd rounds) = map snd handled @ queue_content q2"
      "min (length rounds) (length more) \<le> length handled"
      unfolding one(5) by blast
    moreover have "length (queue_content q0) \<le> Suc (length more)"
      using arg_cong [OF Cons, of length] by (simp del: length_queue_content)
    moreover have "queue_content q0 @ concat (map snd (r # rounds))
        = ev # more @ concat (map snd rounds)"
      using Cons by (simp add: r)
    ultimately show ?thesis
      unfolding loop one(1)
      by (intro exI [of _ q2] exI [of _ u] exI [of _ "(clk, ev) # handled"])
        (simp add: one(2) del: length_queue_content)
  qed
qed

subsection \<open>The contract of the processor\<close>

text \<open>
  C12. The processor loses and reorders nothing: as long as the events that arrive fit its queue,
  what it has dispatched, followed by what is still on the queue, is what was on the queue
  followed by what arrived.  Each round dispatches an event as long as there is one, and the
  state is the one dispatching these events one after the other gives.
\<close>

theorem processor_dispatches_in_order:
  assumes "engine_ok s" "apart (in_queue p) s" "list_all event_ok (concat (map snd rounds))"
    "length (queue_content (queues s (in_queue p))) + length (concat (map snd rounds)) < QUEUE_SIZE"
  shows "\<exists>q t handled.
     event_processor_loop stack p rounds s = Some (set_queue (in_queue p) q t) \<and>
     dispatch_all handled s = Some t \<and> engine_ok (set_queue (in_queue p) q t) \<and>
     queue_content (queues s (in_queue p)) @ concat (map snd rounds)
       = map snd handled @ queue_content q \<and>
     min (length rounds) (length (queue_content (queues s (in_queue p)))) \<le> length handled"
proof -
  have "queue_events_ok (queues s (in_queue p))" using assms(1) by (simp add: engine_ok_def)
  from processor_rounds [OF assms(1,2) this assms(3,4), of stack] show ?thesis
    by (metis engine_ok_set_queue set_queue_same)
qed

text \<open>The contract at a concrete input: an update arrives in the first of two rounds.\<close>

definition main_processor :: event_processor_t where
  "main_processor = \<lparr>in_queue = 0\<rparr>"

theorem processor_dispatches_in_order_witness:
  "event_processor_loop zero_event main_processor
     [(\<lambda>_. 0, [one_update 3 4 5]), (\<lambda>_. 0, [])] zero_engine \<noteq> None"
proof -
  let ?rounds = "[(\<lambda>_. 0, [one_update 3 4 5]), (\<lambda>_. 0, [])] :: round_input list"
  have "apart (in_queue main_processor) zero_engine"
    by (simp add: apart_def main_processor_def zero_engine_def)
  moreover have "length (queue_content (queues zero_engine (in_queue main_processor)))
      + length (concat (map snd ?rounds)) < QUEUE_SIZE"
    by (simp add: zero_engine_def config_defs del: length_queue_content)
  ultimately show ?thesis
    using processor_dispatches_in_order [OF zero_engine_ok, of main_processor ?rounds zero_event]
    by auto
qed

end
