(* ===== verification/Event_Sender.thy ===== *)
theory Event_Sender
  imports Event_Parser
begin

text \<open>
  The sender thread (\<open>engine/src/event_sender.c\<close>): it connects one socket per device, pops events
  off the notify queue, packs each as an update message and sends it to the socket of its twin.
  ZeroMQ is a parameter: \<open>sock i\<close> is the result of the \<open>i\<close>-th \<open>zmq_socket\<close>, \<open>conn s url\<close> the return
  code of \<open>zmq_connect\<close>; \<open>wire\<close> collects what is handed to \<open>zmq_send\<close>.  Reading the member of the
  payload that was not written last, behind the end of an array or an array element that was
  never written, and an undefined conversion of the deviation, are \<open>None\<close>.
\<close>

subsection \<open>Packing an event\<close>

fun pack_updates ::
  "property_update_t list \<Rightarrow> nat \<Rightarrow> nat \<Rightarrow> cw_pack_context \<Rightarrow> cw_pack_context option" where
  "pack_updates ups i 0 pc = Some pc"
| "pack_updates ups i (Suc k) pc =
     (if i < length ups then
        (let pc = cw_pack_unsigned pc (ucast (upd_var_id (ups ! i)));
             pc = cw_pack_float pc (upd_value (ups ! i))
         in pack_updates ups (Suc i) k pc)
      else None)"

definition serialize_event :: "event_t \<Rightarrow> byte list option" where
  "serialize_event event =
     (case as_update event of
        None \<Rightarrow> None
      | Some u \<Rightarrow>
          (case f32_to_u64 (deviation (header event)) of
             None \<Rightarrow> None
           | Some dev \<Rightarrow>
               (let pc = cw_pack_context_init ZMQ_BUFFER_SIZE None;
                    pc = cw_pack_array_size pc (5 + ucast (upd_count u) * 2);
                    pc = cw_pack_unsigned pc 0;
                    pc = cw_pack_unsigned pc (timestamp (header event));
                    pc = cw_pack_unsigned pc dev;
                    pc = cw_pack_unsigned pc (ucast (twin_id (header event)));
                    pc = cw_pack_unsigned pc (ucast (upd_count u))
                in map_option p_out (pack_updates (updates u) 0 (unat (upd_count u)) pc))))"

subsection \<open>Sending it\<close>

record sender_t =
  history2 :: history_t
  wire :: "(nat \<times> byte list) list"

definition send_event :: "u64 \<Rightarrow> nat \<Rightarrow> event_t \<Rightarrow> sender_t \<Rightarrow> sender_t option" where
  "send_event now publisher event st =
     (case serialize_event event of
        None \<Rightarrow> None
      | Some bytes \<Rightarrow>
          (let (idx, h) = atomic_fetch_add (history2 st) in
           case as_update event of
             None \<Rightarrow> None
           | Some u \<Rightarrow>
               (if updates u = [] then None
                else
                  (let h = log_value idx now (twin_id (header event)) (upd_value (updates u ! 0)) h
                   in Some (st\<lparr>history2 := h, wire := wire st @ [(publisher, bytes)]\<rparr>)))))"

subsection \<open>The thread\<close>

definition connector_urls :: "string list" where
  "connector_urls =
     [''tcp://192.168.5.193:5556'', ''tcp://192.168.5.194:5556'', ''tcp://192.168.5.195:5556'',
      ''tcp://192.168.5.196:5556'', ''tcp://192.168.5.197:5556'']"

text \<open>The thread ends when a socket cannot be created or connected (\<open>None\<close>).\<close>

fun open_connectors ::
  "(nat \<Rightarrow> nat option) \<Rightarrow> (nat \<Rightarrow> string \<Rightarrow> int) \<Rightarrow> nat \<Rightarrow> string list \<Rightarrow> nat list option" where
  "open_connectors sock conn i [] = Some []"
| "open_connectors sock conn i (url # urls) =
     (case sock i of
        None \<Rightarrow> None
      | Some s \<Rightarrow>
          (if conn s url \<noteq> 0 then None
           else map_option (Cons s) (open_connectors sock conn (Suc i) urls)))"

text \<open>
  One round of the loop.  Of the array of \<open>MAX_TWINS\<close> connectors only the opened ones were written.
\<close>

definition sender_round ::
  "nat list \<Rightarrow> event_t \<Rightarrow> u64 \<Rightarrow> event_queue_t \<times> sender_t \<Rightarrow> (event_queue_t \<times> sender_t) option" where
  "sender_round connectors stack now qs =
     (case pop_event (fst qs) stack of
        (rc, event, q) \<Rightarrow>
          (if rc \<noteq> - 1 then
             (if unat (twin_id (header event)) < length connectors
              then map_option (Pair q)
                (send_event now (connectors ! unat (twin_id (header event))) event (snd qs))
              else None)
           else Some (q, snd qs)))"

fun sender_rounds ::
  "nat list \<Rightarrow> event_t \<Rightarrow> u64 list \<Rightarrow> event_queue_t \<times> sender_t
   \<Rightarrow> (event_queue_t \<times> sender_t) option" where
  "sender_rounds connectors stack [] qs = Some qs"
| "sender_rounds connectors stack (now # ts) qs =
     (case sender_round connectors stack now qs of
        None \<Rightarrow> None | Some qs \<Rightarrow> sender_rounds connectors stack ts qs)"

text \<open>The thread as a whole: \<open>None\<close> if it ends before the loop, what the loop does otherwise.\<close>

definition zmq_sender_thread ::
  "(nat \<Rightarrow> nat option) \<Rightarrow> (nat \<Rightarrow> string \<Rightarrow> int) \<Rightarrow> event_t \<Rightarrow> u64 list \<Rightarrow> event_queue_t \<times> sender_t
   \<Rightarrow> (event_queue_t \<times> sender_t) option option" where
  "zmq_sender_thread sock conn stack ts qs =
     (case open_connectors sock conn 0 connector_urls of
        None \<Rightarrow> None
      | Some connectors \<Rightarrow> Some (sender_rounds connectors stack ts qs))"

subsection \<open>The bytes of an event\<close>

lemma pack_updates_items:
  "pack_ready pc \<Longrightarrow> i + k \<le> length ups \<Longrightarrow>
   pack_updates ups i k pc =
     Some (pack_items (entries_items (map pair_of (take k (drop i ups)))) pc)"
proof (induction k arbitrary: i pc)
  case (Suc k)
  have "take (Suc k) (drop i ups) = ups ! i # take k (drop (Suc i) ups)"
    using Suc.prems(2) by (simp add: Cons_nth_drop_Suc [symmetric])
  with Suc show ?case by (simp add: pair_of_def pack_routines pack_items_append)
qed simp

lemma length_entries: "length (mp_encode_all (entries_items vs)) \<le> 8 * length vs"
proof (induction vs)
  case (Cons p vs)
  obtain v f where "p = (v, f)" by force
  with Cons length_mp_uint16 [of v] show ?case by simp
qed simp

lemma length_update_items: "length (mp_encode_all (update_items ts dev twin vs)) \<le> 38 + 8 * length vs"
  using length_entries [of vs] length_mp_uint [of ts] length_mp_uint [of dev] length_mp_uint32 [of twin]
    length_mp_uint [of "of_nat (length vs)"]
  by (simp add: update_items_def mp_uint_def [of 0])

lemma serialize_aux:
  assumes "payload ev = Update u" "event_ok ev" "f32_to_u64 (deviation (header ev)) = Some dev"
  shows "serialize_event ev = Some (mp_encode_all
      (update_items (timestamp (header ev)) dev (twin_id (header ev)) (map pair_of (carried u))))"
    and "length (mp_encode_all (update_items (timestamp (header ev)) dev (twin_id (header ev))
      (map pair_of (carried u)))) \<le> ZMQ_BUFFER_SIZE"
proof -
  let ?its = "update_items (timestamp (header ev)) dev (twin_id (header ev)) (map pair_of (carried u))"
  let ?pc = "cw_pack_context_init ZMQ_BUFFER_SIZE None"
  have len: "length (updates u) = MAX_VARS_PER_EVENT" "unat (upd_count u) \<le> MAX_VARS_PER_EVENT"
    using assms(1,2) by (simp_all add: event_ok_def)
  then have n: "length (carried u) = unat (upd_count u)" by (simp add: carried_def)
  have sizes: "of_nat (5 + 2 * unat (upd_count u)) = (5 + ucast (upd_count u) * 2 :: u32)"
    "of_nat (unat (upd_count u)) = (ucast (upd_count u) :: u64)" by simp_all
  show bound: "length (mp_encode_all ?its) \<le> ZMQ_BUFFER_SIZE"
    using length_update_items [of "timestamp (header ev)" dev "twin_id (header ev)"
        "map pair_of (carried u)"] len n by (simp add: config_defs)
  have all: "pack_updates (updates u) 0 (unat (upd_count u)) pc =
      Some (pack_items (entries_items (map pair_of (carried u))) pc)" if "pack_ready pc" for pc
    using that len by (simp add: pack_updates_items carried_def)
  have "serialize_event ev = Some (p_out (pack_items ?its ?pc))"
    using assms(1,3) n sizes
    by (simp add: serialize_event_def as_update_def update_items_def all pack_routines
        pack_ready_init Let_def mult.commute)
  then show "serialize_event ev = Some (mp_encode_all ?its)"
    using bound pack_items_fit [of ?pc ?its] by (simp add: pack_ready_init cw_put_def)
qed

text \<open>Sending one event: its bytes go to the given socket.\<close>

lemma send_event_aux:
  assumes "payload ev = Update u" "event_ok ev" "f32_to_u64 (deviation (header ev)) = Some dev"
  shows "\<exists>h. send_event now publisher ev st = Some (st\<lparr>history2 := h, wire := wire st @
    [(publisher, mp_encode_all (update_items (timestamp (header ev)) dev (twin_id (header ev))
      (map pair_of (carried u))))]\<rparr>)"
proof -
  have "updates u \<noteq> []" using assms(1,2) by (auto simp: event_ok_def config_defs)
  with assms(1) show ?thesis
    by (simp add: send_event_def serialize_aux(1) [OF assms] as_update_def split_beta Let_def)
      (rule exI, rule refl)
qed

text \<open>The sockets are opened one by one, in the order of their devices.\<close>

lemma open_connectors_all:
  assumes "\<And>k. sock k = Some (socket k)" "\<And>k url. conn (socket k) url = 0"
  shows "open_connectors sock conn i urls = Some (map socket [i..<i + length urls])"
  using assms by (induction urls arbitrary: i) (simp_all add: upt_conv_Cons del: upt_Suc)

lemma open_connectors_length:
  "open_connectors sock conn i urls = Some cs \<Longrightarrow> length cs = length urls"
  by (induction urls arbitrary: i cs) (auto split: option.splits if_splits)

lemma length_connector_urls: "length connector_urls = 5"
  by (simp add: connector_urls_def)

text \<open>The rounds of the sender, as long as its events are update events of the connected twins.\<close>

definition sendable :: "nat \<Rightarrow> event_t \<Rightarrow> bool" where
  "sendable n ev \<longleftrightarrow>
     event_ok ev \<and> event_type (header ev) = EVENT_UPDATE \<and> unat (twin_id (header ev)) < n \<and>
     f32_to_u64 (deviation (header ev)) \<noteq> None"

text \<open>The message of an event that can be sent.\<close>

definition message_of :: "event_t \<Rightarrow> mp_item list" where
  "message_of ev =
     update_items (timestamp (header ev)) (the (f32_to_u64 (deviation (header ev))))
       (twin_id (header ev)) (snd (event_view ev))"

definition sent_as :: "nat list \<Rightarrow> event_t \<Rightarrow> nat \<times> byte list" where
  "sent_as connectors ev =
     (connectors ! unat (twin_id (header ev)), mp_encode_all (message_of ev))"

lemma send_event_sendable:
  assumes "sendable n ev"
  shows "\<exists>h. send_event now publisher ev st = Some (st\<lparr>history2 := h, wire := wire st @
    [(publisher, mp_encode_all (message_of ev))]\<rparr>)"
proof -
  have ev: "event_ok ev" "event_type (header ev) = EVENT_UPDATE" using assms by (simp_all add: sendable_def)
  obtain u where "payload ev = Update u" by (rule event_ok_update [OF ev])
  moreover obtain dev where "f32_to_u64 (deviation (header ev)) = Some dev"
    using assms by (auto simp: sendable_def)
  ultimately show ?thesis
    using send_event_aux [of ev u dev now publisher st] ev(1)
    by (simp add: message_of_def event_view_def)
qed

lemma sender_round_empty:
  assumes "queue_ok q" "queue_content q = []"
  shows "sender_round connectors stack now (q, st) = Some (q, st)"
  using ring.pop_empty [OF assms, of stack] by (simp add: sender_round_def)

lemma sender_round_event:
  assumes "queue_ok q" "queue_content q = ev # evs" "sendable (length connectors) ev"
  obtains q' h where "queue_ok q'" "queue_content q' = evs"
    "sender_round connectors stack now (q, st) = Some (q', st\<lparr>history2 := h, wire := wire st @ [sent_as connectors ev]\<rparr>)"
proof -
  obtain q' where q': "pop_event q stack = (0, ev, q')" "queue_content q' = evs" "queue_ok q'"
    using ring.pop_first [OF assms(1,2), of stack] ring.pop_inv [OF assms(1), of stack]
    by (metis prod.collapse)
  obtain h where "send_event now (connectors ! unat (twin_id (header ev))) ev st =
      Some (st\<lparr>history2 := h, wire := wire st @ [sent_as connectors ev]\<rparr>)"
    using send_event_sendable [OF assms(3)] unfolding sent_as_def by blast
  moreover have "unat (twin_id (header ev)) < length connectors" using assms(3) by (simp add: sendable_def)
  ultimately show ?thesis using q' by (intro that [OF q'(3,2)]) (simp add: sender_round_def)
qed

lemma sender_rounds_aux:
  "queue_ok q \<Longrightarrow> list_all (sendable (length connectors)) (queue_content q) \<Longrightarrow>
   \<exists>q' st'. sender_rounds connectors stack ts (q, st) = Some (q', st') \<and> queue_ok q' \<and>
     queue_content q' = drop (length ts) (queue_content q) \<and>
     wire st' = wire st @ map (sent_as connectors) (take (length ts) (queue_content q))"
proof (induction ts arbitrary: q st)
  case (Cons now ts)
  show ?case
  proof (cases "queue_content q")
    case Nil
    with Cons.prems Cons.IH [OF Cons.prems] show ?thesis
      by (simp add: sender_round_empty)
  next
    case (Cons ev evs)
    with Cons.prems have ev: "sendable (length connectors) ev" by simp
    obtain q' h where one: "queue_ok q'" "queue_content q' = evs"
      "sender_round connectors stack now (q, st) =
        Some (q', st\<lparr>history2 := h, wire := wire st @ [sent_as connectors ev]\<rparr>)"
      by (rule sender_round_event [OF Cons.prems(1) Cons ev])
    have "list_all (sendable (length connectors)) (queue_content q')"
      using Cons.prems(2) one(2) Cons by simp
    from Cons.IH [OF one(1) this, of "st\<lparr>history2 := h, wire := wire st @ [sent_as connectors ev]\<rparr>"]
    show ?thesis
      by (simp add: one(2,3) Cons)
  qed
qed simp

subsection \<open>The contract of the sender\<close>

text \<open>
  An update event whose deviation converts to an integer is packed as the update message of
  its header and updates, and the message fits the buffer.
\<close>

theorem serialize_event_encodes:
  assumes "payload ev = Update u" "event_ok ev" "f32_to_u64 (deviation (header ev)) = Some dev"
  shows "\<exists>bytes. serialize_event ev = Some bytes \<and> length bytes \<le> ZMQ_BUFFER_SIZE \<and>
    bytes = mp_encode_all (update_items (timestamp (header ev)) dev (twin_id (header ev))
      (map pair_of (carried u)))"
  using serialize_aux [OF assms] by simp

text \<open>
  C17. What an engine sends, a parent engine receives: for a deviation that is an integer below
  \<open>2^24\<close> the message of an event with at least one update is parsed as one event with the same
  header and the same updates.
\<close>

theorem sent_event_reaches_parent:
  assumes "payload ev = Update u" "event_ok ev" "carried u \<noteq> []"
    "deviation (header ev) = u64_to_f32 x" "unat x < 2 ^ 24"
    "serialize_event ev = Some bytes"
    "queue_ok q" "length (stack_updates env) = MAX_VARS_PER_EVENT"
  shows "map event_view (queue_content (fst (snd (deserialize_event env q h bytes)))) =
    take (QUEUE_SIZE - 1) (map event_view (queue_content q) @ [event_view ev])"
proof -
  let ?vs = "map pair_of (carried u)"
  have dev: "f32_to_u64 (deviation (header ev)) = Some x"
    using f32_u64_roundtrip_aux assms(4,5) by simp
  have len: "length (carried u) \<le> MAX_VARS_PER_EVENT" and hdr: "event_type (header ev) = EVENT_UPDATE"
    using assms(1,2) by (simp_all add: event_ok_def carried_def)
  have bytes: "bytes = mp_encode_all (update_items (timestamp (header ev)) x (twin_id (header ev)) ?vs)"
    using serialize_aux(1) [OF assms(1,2) dev] assms(6) by simp
  have "wire_header 0 (timestamp (header ev)) x (ucast (twin_id (header ev))) = header ev"
    using assms(4) hdr by (simp add: wire_header_def event_type_defs word_bytes)
  moreover have "chunks MAX_VARS_PER_EVENT ?vs = [?vs]"
    using assms(3) len by (simp add: chunks_step config_defs)
  moreover have "event_view ev = (header ev, ?vs)" using assms(1) by (simp add: event_view_def)
  moreover have "5 + 2 * length ?vs < 2 ^ 32" using len by (simp add: config_defs)
  ultimately show ?thesis
    using deserialize_update_aux [OF assms(7,8), of ?vs bytes "timestamp (header ev)" x
        "twin_id (header ev)" "[]" h] bytes
    by simp
qed

text \<open>
  C18. Once the five sockets are connected, the thread sends the events of its queue in order, one
  per round, each to the socket of its twin, as long as they are update events of the five twins
  that have a socket.
\<close>

theorem sender_sends_in_order:
  assumes "queue_ok q" "open_connectors sock conn 0 connector_urls = Some connectors"
    "list_all (sendable 5) (queue_content q)"
  shows "\<exists>q' st'. zmq_sender_thread sock conn stack ts (q, st) = Some (Some (q', st')) \<and>
    queue_content q' = drop (length ts) (queue_content q) \<and>
    wire st' = wire st @ map (sent_as connectors) (take (length ts) (queue_content q))"
proof -
  have "length connectors = 5"
    using open_connectors_length [OF assms(2)] by (simp add: length_connector_urls)
  with sender_rounds_aux [OF assms(1), of connectors stack ts st] assms(2,3) show ?thesis
    by (auto simp: zmq_sender_thread_def)
qed

text \<open>
  An event of one of the other twins, 5 and up, makes the thread read a socket that was never
  written, or one behind the end of the array: it has no defined behaviour.
\<close>

theorem sender_undefined_for_other_twins:
  assumes "queue_ok q" "open_connectors sock conn 0 connector_urls = Some connectors"
    "queue_content q = ev # evs" "5 \<le> unat (twin_id (header ev))"
  shows "zmq_sender_thread sock conn stack (now # ts) (q, st) = Some None"
proof -
  have "length connectors = 5"
    using open_connectors_length [OF assms(2)] by (simp add: length_connector_urls)
  with ring.pop_first [OF assms(1,3), of stack] assms(2,4) show ?thesis
    by (simp add: zmq_sender_thread_def sender_round_def split_beta)
qed

text \<open>The contract at concrete inputs.\<close>

definition sample_update :: "u32 \<Rightarrow> event_t" where
  "sample_update twin =
     \<lparr>header = \<lparr>event_type = EVENT_UPDATE, timestamp = 9, deviation = 0, twin_id = twin\<rparr>,
      payload = Update \<lparr>upd_count = 1, updates = replicate MAX_VARS_PER_EVENT
        \<lparr>upd_var_id = 3, upd_value = 4, destiny_url = []\<rparr>\<rparr>\<rparr>"

definition sample_payload :: update_event_t where
  "sample_payload = \<lparr>upd_count = 1, updates = replicate MAX_VARS_PER_EVENT
        \<lparr>upd_var_id = 3, upd_value = 4, destiny_url = []\<rparr>\<rparr>"

lemma sample_update_facts:
  "payload (sample_update twin) = Update sample_payload" "event_ok (sample_update twin)"
  "header (sample_update twin) =
     \<lparr>event_type = EVENT_UPDATE, timestamp = 9, deviation = 0, twin_id = twin\<rparr>"
  "carried sample_payload = [\<lparr>upd_var_id = 3, upd_value = 4, destiny_url = []\<rparr>]"
  by (simp_all add: sample_update_def sample_payload_def event_ok_def carried_def config_defs)

lemma zero_float: "f32_to_u64 0 = Some 0" "u64_to_f32 0 = 0"
  by (simp_all add: f32_to_u64_def u64_to_f32_def)

lemma sample_queue:
  "queue_ok (snd (push_event zero_queue ev))" "queue_content (snd (push_event zero_queue ev)) = [ev]"
  by (simp_all add: push_event_ok ring.push_content config_defs)

theorem serialize_event_encodes_witness:
  "serialize_event (sample_update 1) = Some [0x97, 0, 9, 0, 1, 1, 3, 0xca, 0, 0, 0, 4]"
  using serialize_event_encodes [OF sample_update_facts(1,2), of 1 0]
  by (auto simp: sample_update_facts zero_float update_items_def pair_of_def mp_uint_def be32_def)

theorem sent_event_reaches_parent_witness:
  "\<exists>bytes. serialize_event (sample_update 1) = Some bytes \<and>
     map event_view (queue_content (fst (snd (deserialize_event zero_env zero_queue zero_history bytes))))
       = [event_view (sample_update 1)]"
proof -
  obtain bytes where "serialize_event (sample_update 1) = Some bytes"
    using serialize_aux(1) [OF sample_update_facts(1,2)] by (auto simp: sample_update_facts zero_float)
  with sent_event_reaches_parent [OF sample_update_facts(1,2) [where twin = 1], where x = 0 and
      bytes = bytes and q = zero_queue and env = zero_env and h = zero_history]
  show ?thesis by (auto simp: sample_update_facts zero_float config_defs)
qed

lemma sample_connectors: "open_connectors (\<lambda>k. Some k) (\<lambda>s url. 0) 0 connector_urls = Some [0, 1, 2, 3, 4]"
  using open_connectors_all [of "\<lambda>k. Some k" "\<lambda>k. k" "\<lambda>s url. 0" 0 connector_urls]
  by (simp add: length_connector_urls upt_rec)

theorem sender_sends_in_order_witness:
  "\<exists>q' st'. zmq_sender_thread (\<lambda>k. Some k) (\<lambda>s url. 0) zero_event [0]
      (snd (push_event zero_queue (sample_update 2)), \<lparr>history2 = zero_history, wire = []\<rparr>)
        = Some (Some (q', st')) \<and> map fst (wire st') = [2]"
  using sender_sends_in_order [OF sample_queue(1) sample_connectors, of "sample_update 2" zero_event "[0]"
      "\<lparr>history2 = zero_history, wire = []\<rparr>"]
  by (auto simp: sample_queue sendable_def sample_update_facts zero_float sent_as_def)

theorem sender_undefined_for_other_twins_witness:
  "zmq_sender_thread (\<lambda>k. Some k) (\<lambda>s url. 0) zero_event [0]
     (snd (push_event zero_queue (sample_update 5)), \<lparr>history2 = zero_history, wire = []\<rparr>) = Some None"
  using sender_undefined_for_other_twins [OF sample_queue(1) sample_connectors sample_queue(2)]
  by (simp add: sample_update_facts)

end
