(* ===== verification/Event_Reciever.thy ===== *)
theory Event_Reciever
  imports Event_Parser
begin

text \<open>
  The receiver thread (\<open>engine/src/event_reciever.c\<close>): it binds a ZeroMQ socket and parses every
  message that arrives onto the queue.  ZeroMQ is a parameter: \<open>sock\<close> and \<open>bind_rc\<close> are the results
  of \<open>zmq_socket\<close> and \<open>zmq_bind\<close>, and a round of the loop is given what \<open>zmq_recv\<close> finds, \<open>None\<close>
  for a timeout.  As documented, \<open>zmq_recv\<close> stores at most the size of the buffer and returns the
  size of the whole message; the code passes that size on, so a longer message makes the parser
  read what is behind the buffer on the stack, the argument \<open>behind\<close>.
\<close>

subsection \<open>The code\<close>

datatype recv_line = Parser parse_line | DeserializeFailed

record receiver_t =
  r_queue :: event_queue_t
  r_history :: history_t
  r_buffer :: "byte list"
  r_console :: "recv_line list"

definition zmq_recv_into :: "byte list \<Rightarrow> byte list \<Rightarrow> byte list" where
  "zmq_recv_into buf msg = take (length buf) msg @ drop (length msg) buf"

definition receive_round ::
  "parser_env \<Rightarrow> byte list \<Rightarrow> byte list option \<Rightarrow> receiver_t \<Rightarrow> receiver_t" where
  "receive_round env behind received st =
     (case received of
        None \<Rightarrow> st
      | Some msg \<Rightarrow>
          (let buf = zmq_recv_into (r_buffer st) msg; size = length msg;
               (rc, q, h, out) =
                 deserialize_event env (r_queue st) (r_history st) (take size (buf @ behind));
               out = map Parser out @ (if rc \<noteq> 0 then [DeserializeFailed] else [])
           in st\<lparr>r_queue := q, r_history := h, r_buffer := buf, r_console := r_console st @ out\<rparr>))"

fun receive_rounds ::
  "(parser_env \<times> byte list \<times> byte list option) list \<Rightarrow> receiver_t \<Rightarrow> receiver_t" where
  "receive_rounds [] st = st"
| "receive_rounds ((env, behind, received) # rounds) st =
     receive_rounds rounds (receive_round env behind received st)"

text \<open>The thread ends at once when the socket cannot be created or bound.\<close>

definition zmq_receiver_thread ::
  "nat option \<Rightarrow> (nat \<Rightarrow> string \<Rightarrow> int) \<Rightarrow> (parser_env \<times> byte list \<times> byte list option) list
   \<Rightarrow> receiver_t \<Rightarrow> receiver_t option" where
  "zmq_receiver_thread sock bind_rc rounds st =
     (case sock of
        None \<Rightarrow> None
      | Some pull \<Rightarrow>
          if bind_rc pull (''tcp://*:'' @ ''5555'') \<noteq> 0 then None
          else Some (receive_rounds rounds st))"

subsection \<open>What the loop does to the queue\<close>

lemma receive_round_buffer [simp]:
  "length (r_buffer (receive_round env behind received st)) = length (r_buffer st)"
  by (auto simp: receive_round_def zmq_recv_into_def Let_def split_beta split: option.split)

lemma receive_round_queue:
  "r_queue (receive_round env behind received st) =
     (case received of
        None \<Rightarrow> r_queue st
      | Some msg \<Rightarrow> fst (snd (deserialize_event env (r_queue st) (r_history st)
          (take (length msg) (zmq_recv_into (r_buffer st) msg @ behind)))))"
  by (simp add: receive_round_def Let_def split_beta split: option.split)

lemma receive_short:
  assumes "length msg \<le> length (r_buffer st)"
  shows "r_queue (receive_round env behind (Some msg) st) =
    fst (snd (deserialize_event env (r_queue st) (r_history st) msg))"
proof -
  have "take (length msg) (zmq_recv_into (r_buffer st) msg @ behind) = msg"
    using assms by (simp add: zmq_recv_into_def)
  then show ?thesis unfolding receive_round_queue by (simp del: take_append)
qed

lemma recv_long:
  "length m = length buf \<Longrightarrow>
   take (length (m @ rest)) (zmq_recv_into buf (m @ rest) @ behind) = m @ take (length rest) behind"
  by (simp add: zmq_recv_into_def)

lemma rounds_ok_aux:
  "queue_events_ok (r_queue st) \<Longrightarrow>
   list_all (\<lambda>(env, _, _). length (stack_updates env) = MAX_VARS_PER_EVENT) rounds \<Longrightarrow>
   queue_events_ok (r_queue (receive_rounds rounds st))"
proof (induction rounds arbitrary: st)
  case (Cons r rounds)
  obtain env behind received where r: "r = (env, behind, received)" by (metis prod_cases3)
  have "queue_events_ok (r_queue (receive_round env behind received st))"
    using Cons.prems deserialize_events_ok_aux [of "r_queue st" env]
    by (simp add: r receive_round_queue split: option.split)
  with Cons show ?case by (simp add: r)
qed simp

text \<open>The messages of a sequence of rounds that are update messages, and their events.\<close>

type_synonym update_message = "u64 \<times> u64 \<times> u32 \<times> (u16 \<times> f32) list"

fun encode_message :: "update_message \<Rightarrow> byte list" where
  "encode_message (ts, dev, twin, vs) = mp_encode_all (update_items ts dev twin vs)"

fun message_views :: "update_message \<Rightarrow> (event_header_t \<times> (u16 \<times> f32) list) list" where
  "message_views (ts, dev, twin, vs) =
     map (Pair (wire_header 0 ts dev (ucast twin))) (chunks MAX_VARS_PER_EVENT vs)"

fun message_round ::
  "parser_env \<times> byte list \<times> update_message option \<Rightarrow> parser_env \<times> byte list \<times> byte list option" where
  "message_round (env, behind, m) = (env, behind, map_option encode_message m)"

fun messages_of :: "('a \<times> 'b \<times> 'm option) list \<Rightarrow> 'm list" where
  "messages_of [] = []"
| "messages_of ((_, _, None) # rounds) = messages_of rounds"
| "messages_of ((_, _, Some m) # rounds) = m # messages_of rounds"

definition fits_buffer :: "update_message \<Rightarrow> bool" where
  "fits_buffer m \<longleftrightarrow> length (encode_message m) \<le> ZMQ_BUFFER_SIZE"

lemma entries_longer: "2 * length vs \<le> length (mp_encode_all (entries_items vs))"
proof (induction vs)
  case (Cons p vs)
  obtain v f where "p = (v, f)" by force
  with Cons show ?case by simp
qed simp

lemma fits_buffer_count: "fits_buffer (ts, dev, twin, vs) \<Longrightarrow> 5 + 2 * length vs < 2 ^ 32"
  using entries_longer [of vs] by (simp add: fits_buffer_def update_items_def config_defs)

lemma message_round_queued:
  assumes "queue_ok (r_queue st)" "length (r_buffer st) = ZMQ_BUFFER_SIZE"
    "length (stack_updates env) = MAX_VARS_PER_EVENT" "fits_buffer m"
  shows "map event_view (queue_content (r_queue (receive_round env behind (Some (encode_message m)) st))) =
      take (QUEUE_SIZE - 1) (map event_view (queue_content (r_queue st)) @ message_views m)"
proof -
  obtain ts dev twin vs where m: "m = (ts, dev, twin, vs)" by (metis prod_cases4)
  show ?thesis
    using deserialize_update_aux [OF assms(1,3) fits_buffer_count, of ts dev twin vs
        "encode_message m" ts dev twin "[]" "r_history st"] assms(2,4)
    by (simp add: m receive_short fits_buffer_def)
qed

lemma message_rounds_aux:
  "queue_events_ok (r_queue st) \<Longrightarrow> length (r_buffer st) = ZMQ_BUFFER_SIZE \<Longrightarrow>
   list_all (\<lambda>(env, _, _). length (stack_updates env) = MAX_VARS_PER_EVENT) rounds \<Longrightarrow>
   list_all fits_buffer (messages_of rounds) \<Longrightarrow>
   map event_view (queue_content (r_queue (receive_rounds (map message_round rounds) st))) =
     take (QUEUE_SIZE - 1) (map event_view (queue_content (r_queue st)) @
       concat (map message_views (messages_of rounds)))"
proof (induction rounds arbitrary: st)
  case Nil
  then show ?case
    using ring.content_bound [of "r_queue st"] by (simp add: queue_events_ok_def)
next
  case (Cons r rounds)
  obtain env behind received where r: "r = (env, behind, received)" by (metis prod_cases3)
  let ?st = "receive_round env behind (map_option encode_message received) st"
  have env: "length (stack_updates env) = MAX_VARS_PER_EVENT" using Cons.prems(3) by (simp add: r)
  have ok: "queue_events_ok (r_queue ?st)" "length (r_buffer ?st) = ZMQ_BUFFER_SIZE"
    using Cons.prems(1,2) deserialize_events_ok_aux [of "r_queue st" env] env
    by (simp_all add: receive_round_queue split: option.split)
  have IH: "map event_view (queue_content (r_queue (receive_rounds (map message_round rounds) ?st))) =
      take (QUEUE_SIZE - 1) (map event_view (queue_content (r_queue ?st)) @
        concat (map message_views (messages_of rounds)))"
    by (rule Cons.IH [OF ok])
      (use Cons.prems in \<open>cases received; simp add: r\<close>)+
  show ?case
  proof (cases received)
    case None
    then show ?thesis using IH
      by (simp add: r receive_round_def)
  next
    case (Some m)
    have fit: "fits_buffer m" using Cons.prems(4) by (simp add: r Some)
    have q: "queue_ok (r_queue st)" using Cons.prems(1) by (simp add: queue_events_ok_def)
    show ?thesis
      using IH message_round_queued [OF q Cons.prems(2) env fit, of behind]
      by (simp add: r Some take_take_append del: take_append length_queue_content)
  qed
qed

subsection \<open>The contract of the receiver\<close>

text \<open>
  Whatever messages arrive, of any length and content, and whatever is behind the buffer, the
  queue stays well formed and holds only well-formed events.
\<close>

theorem receiver_keeps_events_typed:
  assumes "queue_events_ok (r_queue st)"
    "list_all (\<lambda>(env, _, _). length (stack_updates env) = MAX_VARS_PER_EVENT) rounds"
    "zmq_receiver_thread sock bind_rc rounds st = Some st'"
  shows "queue_events_ok (r_queue st')"
  using rounds_ok_aux [OF assms(1,2)] assms(3)
  by (auto simp: zmq_receiver_thread_def split: option.splits if_splits)

text \<open>
  C19. A sequence of update messages that each fit the buffer, with timeouts between them, arrives on
  the queue complete and in order, as far as the queue has room.
\<close>

theorem receiver_queues_in_order:
  assumes "queue_events_ok (r_queue st)" "length (r_buffer st) = ZMQ_BUFFER_SIZE"
    "list_all (\<lambda>(env, _, _). length (stack_updates env) = MAX_VARS_PER_EVENT) rounds"
    "list_all fits_buffer (messages_of rounds)"
    "zmq_receiver_thread sock bind_rc (map message_round rounds) st = Some st'"
  shows "map event_view (queue_content (r_queue st')) =
     take (QUEUE_SIZE - 1) (map event_view (queue_content (r_queue st)) @
       concat (map message_views (messages_of rounds)))"
  using message_rounds_aux [OF assms(1-4)] assms(5)
  by (auto simp: zmq_receiver_thread_def split: option.splits if_splits)

text \<open>
  Of a message longer than the buffer only the first \<open>ZMQ_BUFFER_SIZE\<close> bytes are the sender's:
  the parser is given as many bytes from behind the buffer as the message is too long.
\<close>

theorem long_message_reads_behind:
  assumes "length (r_buffer st) = ZMQ_BUFFER_SIZE" "length m = ZMQ_BUFFER_SIZE"
  shows "r_queue (receive_round env behind (Some (m @ rest)) st) =
    fst (snd (deserialize_event env (r_queue st) (r_history st) (m @ take (length rest) behind)))"
  using assms recv_long [of m "r_buffer st" rest behind] by (simp add: receive_round_queue)

text \<open>The contract at concrete inputs.\<close>

definition zero_receiver :: receiver_t where
  "zero_receiver =
     \<lparr>r_queue = zero_queue, r_history = zero_history, r_buffer = replicate ZMQ_BUFFER_SIZE 0,
      r_console = []\<rparr>"

lemma zero_receiver_facts:
  "queue_events_ok (r_queue zero_receiver)" "length (r_buffer zero_receiver) = ZMQ_BUFFER_SIZE"
  "r_queue zero_receiver = zero_queue"
  by (simp_all add: zero_receiver_def)

theorem receiver_keeps_events_typed_witness:
  "\<exists>st. zmq_receiver_thread (Some 0) (\<lambda>_ _. 0) [(zero_env, [], Some [0x97]), (zero_env, [], None)]
      zero_receiver = Some st \<and> queue_events_ok (r_queue st)"
proof -
  let ?rounds = "[(zero_env, [], Some [0x97]), (zero_env, [], None)]
    :: (parser_env \<times> byte list \<times> byte list option) list"
  obtain st where st: "zmq_receiver_thread (Some 0) (\<lambda>_ _. 0) ?rounds zero_receiver = Some st"
    by (simp add: zmq_receiver_thread_def)
  with receiver_keeps_events_typed [OF zero_receiver_facts(1) _ st] show ?thesis by simp
qed

theorem receiver_queues_in_order_witness:
  "\<exists>st. zmq_receiver_thread (Some 0) (\<lambda>_ _. 0)
      (map message_round [(zero_env, [], Some (7, 0, 1, [(3, 4)])), (zero_env, [], None)])
      zero_receiver = Some st \<and>
    map event_view (queue_content (r_queue st)) = message_views (7, 0, 1, [(3, 4)])"
proof -
  let ?rounds = "[(zero_env, [], Some (7, 0, 1, [(3, 4)])), (zero_env, [], None)]
    :: (parser_env \<times> byte list \<times> update_message option) list"
  obtain st where st: "zmq_receiver_thread (Some 0) (\<lambda>_ _. 0) (map message_round ?rounds) zero_receiver
      = Some st"
    by (simp add: zmq_receiver_thread_def)
  have "fits_buffer (7, 0, 1, [(3, 4)])"
    by (simp add: fits_buffer_def update_items_def mp_uint_def config_defs)
  then have "map event_view (queue_content (r_queue st)) = message_views (7, 0, 1, [(3, 4)])"
    using receiver_queues_in_order [OF zero_receiver_facts(1,2) _ _ st]
    by (simp add: zero_receiver_facts chunks_step config_defs)
  with st show ?thesis by blast
qed

theorem long_message_reads_behind_witness:
  "r_queue (receive_round zero_env [7, 8] (Some (replicate ZMQ_BUFFER_SIZE 0 @ [1])) zero_receiver) =
    fst (snd (deserialize_event zero_env zero_queue zero_history (replicate ZMQ_BUFFER_SIZE 0 @ [7])))"
  using long_message_reads_behind [OF zero_receiver_facts(2), of "replicate ZMQ_BUFFER_SIZE 0"
      zero_env "[7, 8]" "[1]"]
  by (simp add: zero_receiver_def)

end
