(* ===== verification/Cwpack_Skip.thy ===== *)
theory Cwpack_Skip
  imports Cwpack_Unpack
begin

text \<open>
  \<open>cw_skip_items\<close> and \<open>cw_look_ahead\<close> of \<open>engine/include/external/cwpack.c\<close>.  Skipping is a loop
  whose counter grows with every container it meets, so nothing but the input bounds it: with an
  underflow handler that never runs dry it need not end, and it is defined as a partial function
  that has no result then.  With a null handler it always ends, because every turn consumes a
  byte.  The counter is a \<open>long\<close> of 64 bits; when adding to it overflows the behaviour is undefined,
  and there is no result either.
\<close>

unbundle bit_operations_syntax

subsection \<open>Skipping\<close>

type_synonym skip_result = "cw_unpack_context + int \<times> cw_unpack_context"

definition cw_skip_bytes :: "nat \<Rightarrow> int \<Rightarrow> cw_unpack_context \<Rightarrow> skip_result" where
  "cw_skip_bytes n item_count c =
     and_then (cw_unpack_assert_space CWP_RC_BUFFER_UNDERFLOW n c)
       (\<lambda>(p, c). Inr (item_count, c))"

text \<open>A field of 1, 2 or 4 bytes, handed on as it is loaded.\<close>

definition skip_load8 ::
  "(byte \<Rightarrow> cw_unpack_context \<Rightarrow> skip_result) \<Rightarrow> cw_unpack_context \<Rightarrow> skip_result" where
  "skip_load8 k c =
     and_then (cw_unpack_assert_space CWP_RC_BUFFER_UNDERFLOW 1 c) (\<lambda>(p, c). k (load8 c p) c)"

definition skip_load16 ::
  "(u16 \<Rightarrow> cw_unpack_context \<Rightarrow> skip_result) \<Rightarrow> cw_unpack_context \<Rightarrow> skip_result" where
  "skip_load16 k c =
     and_then (cw_unpack_assert_space CWP_RC_BUFFER_UNDERFLOW 2 c) (\<lambda>(p, c). k (load16 c p) c)"

definition skip_load32 ::
  "(u32 \<Rightarrow> cw_unpack_context \<Rightarrow> skip_result) \<Rightarrow> cw_unpack_context \<Rightarrow> skip_result" where
  "skip_load32 k c =
     and_then (cw_unpack_assert_space CWP_RC_BUFFER_UNDERFLOW 4 c) (\<lambda>(p, c). k (load32 c p) c)"

definition LONG_MAX :: int where
  "LONG_MAX = 2 ^ 63 - 1"

text \<open>
  The switch.  \<open>tmpu16\<close> is promoted to \<open>int\<close> before the arithmetic on it; \<open>tmpu32\<close> is not, so
  that \<open>tmpu32 + 1\<close> and \<open>2 * tmpu32\<close> are sums of 32 bits.
\<close>

definition skip_switch :: "byte \<Rightarrow> int \<Rightarrow> cw_unpack_context \<Rightarrow> skip_result" where
  "skip_switch b n c =
     (if b \<le> 0x7f \<or> 0xe0 \<le> b \<or> b \<in> {0xc0, 0xc2, 0xc3} then Inr (n, c)
      else if b \<in> {0xcc, 0xd0} then cw_skip_bytes 1 n c
      else if b \<in> {0xcd, 0xd1, 0xd4} then cw_skip_bytes 2 n c
      else if b = 0xd5 then cw_skip_bytes 3 n c
      else if b \<in> {0xca, 0xce, 0xd2} then cw_skip_bytes 4 n c
      else if b = 0xd6 then cw_skip_bytes 5 n c
      else if b \<in> {0xcb, 0xcf, 0xd3} then cw_skip_bytes 8 n c
      else if b = 0xd7 then cw_skip_bytes 9 n c
      else if b = 0xd8 then cw_skip_bytes 17 n c
      else if 0xa0 \<le> b \<and> b \<le> 0xbf then cw_skip_bytes (unat (b AND 0x1f)) n c
      else if b \<in> {0xd9, 0xc4} then skip_load8 (\<lambda>l. cw_skip_bytes (unat l) n) c
      else if b \<in> {0xda, 0xc5} then skip_load16 (\<lambda>l. cw_skip_bytes (unat l) n) c
      else if b \<in> {0xdb, 0xc6} then skip_load32 (\<lambda>l. cw_skip_bytes (unat l) n) c
      else if 0x80 \<le> b \<and> b \<le> 0x8f then Inr (n + 2 * uint (b AND 15), c)
      else if 0x90 \<le> b \<and> b \<le> 0x9f then Inr (n + uint (b AND 15), c)
      else if b = 0xdc then skip_load16 (\<lambda>l c. Inr (n + uint l, c)) c
      else if b = 0xde then skip_load16 (\<lambda>l c. Inr (n + 2 * uint l, c)) c
      else if b = 0xdd then skip_load32 (\<lambda>l c. Inr (n + uint l, c)) c
      else if b = 0xdf then skip_load32 (\<lambda>l c. Inr (n + uint (2 * l), c)) c
      else if b = 0xc7 then skip_load8 (\<lambda>l. cw_skip_bytes (unat (ucast l + 1 :: u32)) n) c
      else if b = 0xc8 then skip_load16 (\<lambda>l. cw_skip_bytes (unat l + 1) n) c
      else if b = 0xc9 then skip_load32 (\<lambda>l. cw_skip_bytes (unat (l + 1)) n) c
      else Inl (UNPACK_ERROR CWP_RC_MALFORMED_INPUT c))"

definition skip_item :: "int \<Rightarrow> cw_unpack_context \<Rightarrow> skip_result" where
  "skip_item n c =
     and_then (cw_unpack_assert_space CWP_RC_END_OF_INPUT 1 c)
       (\<lambda>(p, c). skip_switch (load8 c p) n c)"

partial_function (option) skip_loop :: "int \<Rightarrow> cw_unpack_context \<Rightarrow> cw_unpack_context option" where
  "skip_loop item_count c =
     (if 0 < item_count then
        (case skip_item (item_count - 1) c of
           Inl c' \<Rightarrow> Some c'
         | Inr (n, c') \<Rightarrow> if LONG_MAX < n then None else skip_loop n c')
      else Some c)"

definition cw_skip_items :: "cw_unpack_context \<Rightarrow> int \<Rightarrow> cw_unpack_context option" where
  "cw_skip_items c item_count =
     (if u_return_code c \<noteq> 0 then Some c else skip_loop item_count c)"

subsection \<open>Looking ahead\<close>

text \<open>
  The type of the next item without consuming it; the context changes only when the input ends.
  Each check of \<open>k\<close> bytes moves \<open>current\<close> and is taken back.
\<close>

definition peek :: "int \<Rightarrow> nat \<Rightarrow> (nat \<Rightarrow> cw_unpack_context \<Rightarrow> cwpack_item_types)
    \<Rightarrow> cw_unpack_context \<Rightarrow> cwpack_item_types \<times> cw_unpack_context" where
  "peek e k f c =
     (case cw_unpack_assert_space e k c of
        Inl c' \<Rightarrow> (CWP_NOT_AN_ITEM, c')
      | Inr (p, c) \<Rightarrow> (let c = c\<lparr>current := current c - k\<rparr> in (f p c, c)))"

definition look_switch :: "byte \<Rightarrow> cw_unpack_context \<Rightarrow> cwpack_item_types \<times> cw_unpack_context"
  where
  "look_switch b c =
     (if b \<le> 0x7f then (CWP_ITEM_POSITIVE_INTEGER, c)
      else if b \<le> 0x8f then (CWP_ITEM_MAP, c)
      else if b \<le> 0x9f then (CWP_ITEM_ARRAY, c)
      else if b \<le> 0xbf then (CWP_ITEM_STR, c)
      else if b = 0xc0 then (CWP_ITEM_NIL, c)
      else if b \<in> {0xc2, 0xc3} then (CWP_ITEM_BOOLEAN, c)
      else if b \<in> {0xc4, 0xc5, 0xc6} then (CWP_ITEM_BIN, c)
      else if b = 0xc7 then
        peek CWP_RC_BUFFER_UNDERFLOW 3 (\<lambda>p c. CWP_ITEM_USER_EXT (load8 c (p + 2))) c
      else if b = 0xc8 then
        peek CWP_RC_BUFFER_UNDERFLOW 4 (\<lambda>p c. CWP_ITEM_USER_EXT (load8 c (p + 3))) c
      else if b = 0xc9 then
        peek CWP_RC_BUFFER_UNDERFLOW 6 (\<lambda>p c. CWP_ITEM_USER_EXT (load8 c (p + 5))) c
      else if b = 0xca then (CWP_ITEM_FLOAT, c)
      else if b = 0xcb then (CWP_ITEM_DOUBLE, c)
      else if b \<in> {0xcc, 0xcd, 0xce, 0xcf} then (CWP_ITEM_POSITIVE_INTEGER, c)
      else if b \<in> {0xd0, 0xd1, 0xd2, 0xd3} then (CWP_ITEM_NEGATIVE_INTEGER, c)
      else if b \<in> {0xd4, 0xd5, 0xd6, 0xd7, 0xd8} then
        peek CWP_RC_BUFFER_UNDERFLOW 2 (\<lambda>p c. CWP_ITEM_USER_EXT (load8 c (p + 1))) c
      else if b \<in> {0xd9, 0xda, 0xdb} then (CWP_ITEM_STR, c)
      else if b \<in> {0xdc, 0xdd} then (CWP_ITEM_ARRAY, c)
      else if b \<in> {0xde, 0xdf} then (CWP_ITEM_MAP, c)
      else if 0xe0 \<le> b then (CWP_ITEM_NEGATIVE_INTEGER, c)
      else (CWP_NOT_AN_ITEM, c))"

definition cw_look_ahead :: "cw_unpack_context \<Rightarrow> cwpack_item_types \<times> cw_unpack_context" where
  "cw_look_ahead c =
     (if u_return_code c \<noteq> 0 then (CWP_NOT_AN_ITEM, c)
      else
        (case cw_unpack_assert_space CWP_RC_END_OF_INPUT 1 c of
           Inl c' \<Rightarrow> (CWP_NOT_AN_ITEM, c')
         | Inr (p, c) \<Rightarrow>
             (let c = c\<lparr>current := current c - 1\<rparr> in look_switch (load8 c p) c)))"

subsection \<open>Bounds and termination\<close>

lemma skip_bytes_ok: "unpack_ready c \<Longrightarrow> step_ok snd c (cw_skip_bytes k n c)"
  unfolding cw_skip_bytes_def
  by (rule step_ok_then [OF assert_space_ok]) (auto intro: advanced_same)

lemma skip_load_ok:
  assumes "unpack_ready c"
  shows "(\<And>v c'. unpack_ready c' \<Longrightarrow> step_ok snd c' (k8 v c')) \<Longrightarrow> step_ok snd c (skip_load8 k8 c)"
    and "(\<And>v c'. unpack_ready c' \<Longrightarrow> step_ok snd c' (k16 v c')) \<Longrightarrow> step_ok snd c (skip_load16 k16 c)"
    and "(\<And>v c'. unpack_ready c' \<Longrightarrow> step_ok snd c' (k32 v c')) \<Longrightarrow> step_ok snd c (skip_load32 k32 c)"
  unfolding skip_load8_def skip_load16_def skip_load32_def
  by (rule step_ok_then [OF assert_space_ok [OF assms]]; auto simp: split_beta dest: advanced_ready)+

lemma skip_switch_ok: "unpack_ready c \<Longrightarrow> step_ok snd c (skip_switch b n c)"
  by (simp add: skip_switch_def skip_bytes_ok skip_load_ok ready_keeps)

lemma assert_space_advances:
  assumes "unpack_ready c" "cw_unpack_assert_space e k c = Inr (p, c')"
  shows "current c' = current c + k" "ubuf c' = ubuf c" "current c + k \<le> length (ubuf c)"
  using assms by (auto simp: cw_unpack_assert_space_def unpack_ready_def split: if_splits)

lemma skip_item_ok:
  assumes ready: "unpack_ready c"
  shows "step_ok snd c (skip_item n c)"
    and "skip_item n c = Inr (m, c') \<Longrightarrow> current c < current c'"
proof -
  show "step_ok snd c (skip_item n c)"
    unfolding skip_item_def
    by (rule step_ok_then [OF assert_space_ok [OF ready]])
      (auto simp: split_beta intro!: skip_switch_ok elim: advanced_ready)
  assume "skip_item n c = Inr (m, c')"
  then obtain p c1 where space: "cw_unpack_assert_space CWP_RC_END_OF_INPUT 1 c = Inr (p, c1)"
    and switch: "skip_switch (load8 c1 p) n c1 = Inr (m, c')"
    by (auto simp: skip_item_def and_then_def split: sum.splits)
  have "advanced c c1" using assert_space_ok [OF ready, of CWP_RC_END_OF_INPUT 1] space by simp
  then have "unpack_ready c1" by (rule advanced_ready)
  from skip_switch_ok [OF this, of "load8 c1 p" n] have "advanced c1 c'" by (simp add: switch)
  then show "current c < current c'"
    using assert_space_advances(1) [OF ready space] by (simp add: advanced_def keeps_buffer_def)
qed

text \<open>What a step adds to the counter.\<close>

definition grows :: "int \<Rightarrow> skip_result \<Rightarrow> bool" where
  "grows n r \<longleftrightarrow> (case r of Inl c \<Rightarrow> True | Inr (m, c) \<Rightarrow> m < n + 2 ^ 32)"

lemma grows_simps [simp]: "grows n (Inl c)" "grows n (Inr (m, c)) \<longleftrightarrow> m < n + 2 ^ 32"
  by (simp_all add: grows_def)

lemma grows_then: "(\<And>x. grows n (k x)) \<Longrightarrow> grows n (and_then r k)"
  by (cases r) simp_all

lemma grows_parts:
  "grows n (cw_skip_bytes k n c)"
  "(\<And>v c'. grows n (k8 v c')) \<Longrightarrow> grows n (skip_load8 k8 c)"
  "(\<And>v c'. grows n (k16 v c')) \<Longrightarrow> grows n (skip_load16 k16 c)"
  "(\<And>v c'. grows n (k32 v c')) \<Longrightarrow> grows n (skip_load32 k32 c)"
  unfolding cw_skip_bytes_def skip_load8_def skip_load16_def skip_load32_def
  by (auto intro!: grows_then)

lemma word_sizes:
  "2 * uint (v :: byte) < 2 ^ 32" "uint v < 2 ^ 32" "2 * uint (w :: u16) < 2 ^ 32" "uint w < 2 ^ 32"
  "uint (l :: u32) < 2 ^ 32"
  using uint_lt2p [of v] uint_lt2p [of w] uint_lt2p [of l] by simp_all

lemma skip_switch_grows: "grows n (skip_switch b n c)"
  using word_sizes by (simp add: skip_switch_def grows_parts)

lemma skip_item_grows: "skip_item n c = Inr (m, c') \<Longrightarrow> m < n + 2 ^ 32"
proof -
  assume "skip_item n c = Inr (m, c')"
  moreover have "grows n (skip_item n c)"
    unfolding skip_item_def by (auto intro!: grows_then skip_switch_grows simp: split_beta)
  ultimately show ?thesis by simp
qed

lemma budget:
  "l1 < l \<Longrightarrow> m < n - 1 + 2 ^ 32 \<Longrightarrow> n + 2 ^ 32 * int l \<le> k \<Longrightarrow> m + 2 ^ 32 * int l1 \<le> k \<and> m \<le> k"
  by simp

lemma skip_loop_total:
  "unpack_ready c \<Longrightarrow> n + 2 ^ 32 * int (length (ubuf c) - current c) \<le> LONG_MAX \<Longrightarrow>
   \<exists>c'. skip_loop n c = Some c' \<and> (failed c c' \<or> advanced c c')"
proof (induction "length (ubuf c) - current c" arbitrary: c n rule: less_induct)
  case less
  show ?case
  proof (cases "0 < n")
    case False
    then show ?thesis using less.prems by (simp add: skip_loop.simps [of n])
  next
    case True
    show ?thesis
    proof (cases "skip_item (n - 1) c")
      case (Inl c')
      then show ?thesis
        using True skip_item_ok(1) [OF less.prems(1), of "n - 1"]
        by (simp add: skip_loop.simps [of n])
    next
      case (Inr x)
      obtain m c1 where x: "x = (m, c1)" by (cases x)
      have adv: "advanced c c1" using skip_item_ok(1) [OF less.prems(1), of "n - 1"] Inr x by simp
      have lt: "current c < current c1" using skip_item_ok(2) [OF less.prems(1)] Inr x by simp
      have left: "length (ubuf c1) - current c1 < length (ubuf c) - current c"
        using adv lt by (simp add: advanced_def keeps_buffer_def) linarith
      have "m < n - 1 + 2 ^ 32" using skip_item_grows Inr x by blast
      from budget [OF left this less.prems(2)]
      have bound: "m + 2 ^ 32 * int (length (ubuf c1) - current c1) \<le> LONG_MAX" and "m \<le> LONG_MAX"
        by blast+
      from less.hyps [OF left advanced_ready [OF adv] bound]
      obtain c' where "skip_loop m c1 = Some c'" "failed c1 c' \<or> advanced c1 c'" by blast
      then show ?thesis
        using True Inr x advanced_failed [OF adv] advanced_trans [OF adv] \<open>m \<le> LONG_MAX\<close>
        by (auto simp: skip_loop.simps [of n])
    qed
  qed
qed

subsection \<open>One item, skipped or unpacked\<close>

text \<open>The number of items an unpacked item announces: the elements of a container.\<close>

definition children :: "cw_unpack_context \<Rightarrow> int" where
  "children c =
     (if item_type c = CWP_ITEM_ARRAY then uint (as_size c)
      else if item_type c = CWP_ITEM_MAP then uint (2 * as_size c)
      else 0)"

lemma skip_switch_fix:
  "b \<le> 0x7f \<Longrightarrow> skip_switch b n c = Inr (n, c)"
  "\<not> b \<le> 0x7f \<Longrightarrow> b \<le> 0x8f \<Longrightarrow> skip_switch b n c = Inr (n + 2 * uint (b AND 15), c)"
  "\<not> b \<le> 0x8f \<Longrightarrow> b \<le> 0x9f \<Longrightarrow> skip_switch b n c = Inr (n + uint (b AND 15), c)"
  "\<not> b \<le> 0x9f \<Longrightarrow> b \<le> 0xbf \<Longrightarrow> skip_switch b n c = cw_skip_bytes (unat (b AND 0x1f)) n c"
  "0xe0 \<le> b \<Longrightarrow> skip_switch b n c = Inr (n, c)"
  by (auto simp: skip_switch_def word_le_nat_alt)

lemma skip_switch_consts:
  "skip_switch 0xc0 n c = Inr (n, c)"
  "skip_switch 0xc2 n c = Inr (n, c)"
  "skip_switch 0xc3 n c = Inr (n, c)"
  "skip_switch 0xca n c = cw_skip_bytes 4 n c"
  "skip_switch 0xcb n c = cw_skip_bytes 8 n c"
  "skip_switch 0xcc n c = cw_skip_bytes 1 n c"
  "skip_switch 0xcd n c = cw_skip_bytes 2 n c"
  "skip_switch 0xce n c = cw_skip_bytes 4 n c"
  "skip_switch 0xcf n c = cw_skip_bytes 8 n c"
  "skip_switch 0xd0 n c = cw_skip_bytes 1 n c"
  "skip_switch 0xd1 n c = cw_skip_bytes 2 n c"
  "skip_switch 0xd2 n c = cw_skip_bytes 4 n c"
  "skip_switch 0xd3 n c = cw_skip_bytes 8 n c"
  "skip_switch 0xd4 n c = cw_skip_bytes 2 n c"
  "skip_switch 0xd5 n c = cw_skip_bytes 3 n c"
  "skip_switch 0xd6 n c = cw_skip_bytes 5 n c"
  "skip_switch 0xd7 n c = cw_skip_bytes 9 n c"
  "skip_switch 0xd8 n c = cw_skip_bytes 17 n c"
  "skip_switch 0xc4 n c = skip_load8 (\<lambda>l. cw_skip_bytes (unat l) n) c"
  "skip_switch 0xc5 n c = skip_load16 (\<lambda>l. cw_skip_bytes (unat l) n) c"
  "skip_switch 0xc6 n c = skip_load32 (\<lambda>l. cw_skip_bytes (unat l) n) c"
  "skip_switch 0xd9 n c = skip_load8 (\<lambda>l. cw_skip_bytes (unat l) n) c"
  "skip_switch 0xda n c = skip_load16 (\<lambda>l. cw_skip_bytes (unat l) n) c"
  "skip_switch 0xdb n c = skip_load32 (\<lambda>l. cw_skip_bytes (unat l) n) c"
  "skip_switch 0xdc n c = skip_load16 (\<lambda>l c. Inr (n + uint l, c)) c"
  "skip_switch 0xdd n c = skip_load32 (\<lambda>l c. Inr (n + uint l, c)) c"
  "skip_switch 0xde n c = skip_load16 (\<lambda>l c. Inr (n + 2 * uint l, c)) c"
  "skip_switch 0xdf n c = skip_load32 (\<lambda>l c. Inr (n + uint (2 * l), c)) c"
  "skip_switch 0xc7 n c = skip_load8 (\<lambda>l. cw_skip_bytes (unat (ucast l + 1 :: u32)) n) c"
  "skip_switch 0xc8 n c = skip_load16 (\<lambda>l. cw_skip_bytes (unat l + 1) n) c"
  "skip_switch 0xc9 n c = skip_load32 (\<lambda>l. cw_skip_bytes (unat (l + 1)) n) c"
  by (simp_all add: skip_switch_def)

text \<open>With a null handler a space check is a comparison.\<close>

lemma null_space:
  "handle_unpack_underflow c = None \<Longrightarrow>
   cw_unpack_assert_space e k c = Inr y \<longleftrightarrow>
   current c + k \<le> length (ubuf c) \<and> y = (current c, c\<lparr>current := current c + k\<rparr>)"
  by (auto simp: cw_unpack_assert_space_def)

lemma and_then_Inr: "and_then r k = Inr y \<longleftrightarrow> (\<exists>x. r = Inr x \<and> k x = Inr y)"
  by (cases r) auto


lemma load_current [simp]:
  "load8 (c\<lparr>item_type := t\<rparr>) p = load8 c p" "load8 (c\<lparr>current := k\<rparr>) p = load8 c p"
  "load16 (c\<lparr>item_type := t\<rparr>) p = load16 c p" "load16 (c\<lparr>current := k\<rparr>) p = load16 c p"
  "load32 (c\<lparr>item_type := t\<rparr>) p = load32 c p" "load32 (c\<lparr>current := k\<rparr>) p = load32 c p"
  "load8 (c\<lparr>as_hi := v\<rparr>) p = load8 c p" "load8 (set_length v c) p = load8 c p"
  "load64 (c\<lparr>item_type := t\<rparr>) p = load64 c p" "load64 (c\<lparr>current := k\<rparr>) p = load64 c p"
  by (simp_all add: load8_def load16_def load32_def load64_def set_length_def)

lemma skip_space:
  assumes "handle_unpack_underflow c = None"
  shows "current c + k \<le> length (ubuf c) \<Longrightarrow>
      cw_skip_bytes k n c = Inr (n, c\<lparr>current := current c + k\<rparr>)"
    and "current c + 1 \<le> length (ubuf c) \<Longrightarrow>
      skip_load8 k8 c = k8 (load8 c (current c)) (c\<lparr>current := current c + 1\<rparr>)"
    and "current c + 2 \<le> length (ubuf c) \<Longrightarrow>
      skip_load16 k16 c = k16 (load16 c (current c)) (c\<lparr>current := current c + 2\<rparr>)"
    and "current c + 4 \<le> length (ubuf c) \<Longrightarrow>
      skip_load32 k32 c = k32 (load32 c (current c)) (c\<lparr>current := current c + 4\<rparr>)"
  using assms
  by (simp_all add: cw_skip_bytes_def skip_load8_def skip_load16_def skip_load32_def
      assert_space_at)

text \<open>What a step does when it succeeds.\<close>

lemma getDDItem_Inr:
  "getDDItem t f0 c = Inr c' \<longleftrightarrow> c' = f0 (c\<lparr>item_type := t\<rparr>)"
  "handle_unpack_underflow c = None \<Longrightarrow>
   getDDItem1 t f1 c = Inr c' \<longleftrightarrow> current c + 1 \<le> length (ubuf c) \<and>
     c' = f1 (load8 c (current c)) (c\<lparr>item_type := t, current := current c + 1\<rparr>)"
  "handle_unpack_underflow c = None \<Longrightarrow>
   getDDItem2 t f2 c = Inr c' \<longleftrightarrow> current c + 2 \<le> length (ubuf c) \<and>
     c' = f2 (load16 c (current c)) (c\<lparr>item_type := t, current := current c + 2\<rparr>)"
  "handle_unpack_underflow c = None \<Longrightarrow>
   getDDItem4 t f4 c = Inr c' \<longleftrightarrow> current c + 4 \<le> length (ubuf c) \<and>
     c' = f4 (load32 c (current c)) (c\<lparr>item_type := t, current := current c + 4\<rparr>)"
  "handle_unpack_underflow c = None \<Longrightarrow>
   getDDItem8 t c = Inr c' \<longleftrightarrow> current c + 8 \<le> length (ubuf c) \<and>
     c' = set_u64 (load64 c (current c)) (c\<lparr>item_type := t, current := current c + 8\<rparr>)"
  by (auto simp: getDDItem_def getDDItem1_def getDDItem2_def getDDItem4_def getDDItem8_def
      and_then_Inr null_space)

lemma blob_Inr:
  "handle_unpack_underflow c = None \<Longrightarrow>
   cw_unpack_assert_blob c = Inr c' \<longleftrightarrow> current c + unat (as_hi c) \<le> length (ubuf c) \<and>
     c' = set_u64 (u_start c + of_nat (current c)) (c\<lparr>current := current c + unat (as_hi c)\<rparr>)"
  by (auto simp: cw_unpack_assert_blob_def and_then_Inr null_space as_length_def)

lemma fix_sign_Inr:
  "fix_sign c = Inr c' \<longleftrightarrow>
   c' = (if 0 \<le> sint (as_lo c) then c\<lparr>item_type := CWP_ITEM_POSITIVE_INTEGER\<rparr> else c)"
  by (auto simp: fix_sign_def)

lemma getDDItemFix_Inr:
  assumes "handle_unpack_underflow c = None" "getDDItemFix len c = Inr c'"
  shows "current c + (len + 1) \<le> length (ubuf c) \<and> current c' = current c + (len + 1) \<and>
    children c' = 0 \<and> item_type c' = CWP_ITEM_USER_EXT (load8 c (current c))"
  using assms
  by (auto simp: getDDItemFix_def and_then_Inr null_space Let_def set_u64_def set_length_def
      children_def split: if_splits)


lemma unpack_ext8_Inr:
  assumes "handle_unpack_underflow c = None" "unpack_ext8 c = Inr c'"
  shows "current c + 1 + (unat (load8 c (current c)) + 1) \<le> length (ubuf c) \<and>
    current c' = current c + 1 + (unat (load8 c (current c)) + 1) \<and> children c' = 0 \<and>
    item_type c' = CWP_ITEM_USER_EXT (load8 c (current c + 1))"
proof -
  obtain c1 where c1: "c1 = set_length (ucast (load8 c (current c)))
      (c\<lparr>item_type := CWP_ITEM_EXT, current := current c + 1\<rparr>)"
    and len: "current c + 1 \<le> length (ubuf c)"
    and rest: "and_then (cw_unpack_assert_space CWP_RC_BUFFER_UNDERFLOW 1 c1) unpack_ext8_tail
      = Inr c'"
    using assms by (auto simp: unpack_ext8_def and_then_Inr getDDItem_Inr)
  have none: "handle_unpack_underflow c1 = None" using assms(1) by (simp add: c1 set_length_def)
  show ?thesis
    using rest none len
    by (auto simp: and_then_Inr null_space unpack_ext8_tail_def unpack_time96_def Let_def
        blob_Inr c1 set_length_def set_u64_def as_length_def children_def narrow_arith
        CWP_ITEM_TIMESTAMP_def dest: arg_cong [of _ _ unat]
        split: if_splits)
qed

lemma unpack_ext_long_Inr:
  assumes "handle_unpack_underflow c1 = None" "get_length c = Inr c1" "unpack_ext_long get_length c = Inr c'"
  shows "current c1 + 1 + unat (as_hi c1) \<le> length (ubuf c1) \<and>
    current c' = current c1 + 1 + unat (as_hi c1) \<and> children c' = 0 \<and>
    item_type c' = CWP_ITEM_USER_EXT (load8 c1 (current c1))"
  using assms
  by (auto simp: unpack_ext_long_def and_then_Inr null_space blob_Inr set_u64_def children_def)


text \<open>Lengths of 32 bits, and the byte behind them, fit the buffer, so the sums do not wrap.\<close>

lemma unat_Suc_fits: "unat (l :: u32) + k < 2 ^ 32 \<Longrightarrow> 0 < k \<Longrightarrow> unat (l + 1) = unat l + 1"
  by (simp add: unat_word_ariths)

text \<open>The opcodes between the two ranges of small integers and short containers.\<close>

definition opcodes :: "byte list" where
  "opcodes =
     [0xc0, 0xc1, 0xc2, 0xc3, 0xc4, 0xc5, 0xc6, 0xc7, 0xc8, 0xc9, 0xca, 0xcb, 0xcc, 0xcd, 0xce, 0xcf,
      0xd0, 0xd1, 0xd2, 0xd3, 0xd4, 0xd5, 0xd6, 0xd7, 0xd8, 0xd9, 0xda, 0xdb, 0xdc, 0xdd, 0xde, 0xdf]"

lemma opcode_range:
  assumes "0xbf < b" "b \<le> 0xdf" shows "b \<in> set opcodes"
proof -
  have "0xbf < (of_nat k :: byte) \<longrightarrow> of_nat k \<le> (0xdf :: byte) \<longrightarrow> List.member opcodes (of_nat k)"
    if "k < 256" for k
    using that by (rule below_list [of _ 256, rotated]) code_simp
  from this [of "unat b"] unsigned_less [of b] assms show ?thesis by (simp)
qed

lemma switch_exts:
  "unpack_switch 0xc1 c = Inl (UNPACK_ERROR CWP_RC_MALFORMED_INPUT c)"
  "unpack_switch 0xc7 c = unpack_ext8 c"
  "unpack_switch 0xc8 c =
     unpack_ext_long (getDDItem2 CWP_ITEM_EXT (\<lambda>v. set_length (ucast v))) c"
  "unpack_switch 0xc9 c = unpack_ext_long (getDDItem4 CWP_ITEM_EXT set_length) c"
  "unpack_switch 0xd4 c = getDDItemFix 1 c"
  "unpack_switch 0xd5 c = getDDItemFix 2 c"
  "unpack_switch 0xd6 c = getDDItemFix 4 c"
  "unpack_switch 0xd7 c = getDDItemFix 8 c"
  "unpack_switch 0xd8 c = getDDItemFix 16 c"
  by (simp_all add: unpack_switch_def)

lemmas switch_opcodes = switch_constants switch_ints switch_blobs switch_exts

lemma skip_exts:
  assumes none: "handle_unpack_underflow c = None" and fits: "length (ubuf c) < 2 ^ 32"
  shows "getDDItemFix len c = Inr c' \<Longrightarrow>
      cw_skip_bytes (len + 1) n c = Inr (n + children c', c\<lparr>current := current c'\<rparr>)"
    and "unpack_ext8 c = Inr c' \<Longrightarrow>
      skip_load8 (\<lambda>l. cw_skip_bytes (unat (ucast l + 1 :: u32)) n) c =
      Inr (n + children c', c\<lparr>current := current c'\<rparr>)"
    and "unpack_ext_long (getDDItem2 CWP_ITEM_EXT (\<lambda>v. set_length (ucast v))) c = Inr c' \<Longrightarrow>
      skip_load16 (\<lambda>l. cw_skip_bytes (unat l + 1) n) c =
      Inr (n + children c', c\<lparr>current := current c'\<rparr>)"
    and "unpack_ext_long (getDDItem4 CWP_ITEM_EXT set_length) c = Inr c' \<Longrightarrow>
      skip_load32 (\<lambda>l. cw_skip_bytes (unat (l + 1)) n) c =
      Inr (n + children c', c\<lparr>current := current c'\<rparr>)"
proof -
  show "getDDItemFix len c = Inr c' \<Longrightarrow>
      cw_skip_bytes (len + 1) n c = Inr (n + children c', c\<lparr>current := current c'\<rparr>)"
    using getDDItemFix_Inr [OF none, of len c'] none by (simp add: skip_space)
  show "unpack_ext8 c = Inr c' \<Longrightarrow>
      skip_load8 (\<lambda>l. cw_skip_bytes (unat (ucast l + 1 :: u32)) n) c =
      Inr (n + children c', c\<lparr>current := current c'\<rparr>)"
    using unpack_ext8_Inr [OF none, of c'] none by (simp add: skip_space narrow_arith)
  show "skip_load16 (\<lambda>l. cw_skip_bytes (unat l + 1) n) c =
      Inr (n + children c', c\<lparr>current := current c'\<rparr>)"
    if long: "unpack_ext_long (getDDItem2 CWP_ITEM_EXT (\<lambda>v. set_length (ucast v))) c = Inr c'"
  proof -
    obtain c1 where c1: "getDDItem2 CWP_ITEM_EXT (\<lambda>v. set_length (ucast v)) c = Inr c1"
      using long by (auto simp: unpack_ext_long_def and_then_Inr)
    then have "handle_unpack_underflow c1 = None"
      using none by (auto simp: getDDItem_Inr set_length_def)
    from unpack_ext_long_Inr [OF this c1 long] c1 none show ?thesis
      by (auto simp: getDDItem_Inr set_length_def narrow_arith skip_space)
  qed
  show "skip_load32 (\<lambda>l. cw_skip_bytes (unat (l + 1)) n) c =
      Inr (n + children c', c\<lparr>current := current c'\<rparr>)"
    if long: "unpack_ext_long (getDDItem4 CWP_ITEM_EXT set_length) c = Inr c'"
  proof -
    obtain c1 where c1: "getDDItem4 CWP_ITEM_EXT set_length c = Inr c1"
      using long by (auto simp: unpack_ext_long_def and_then_Inr)
    then have "handle_unpack_underflow c1 = None"
      using none by (auto simp: getDDItem_Inr set_length_def)
    from unpack_ext_long_Inr [OF this c1 long] c1 none fits
    have c': "children c' = 0" "current c' = current c + 4 + (unat (load32 c (current c)) + 1)"
      and len: "current c + 4 + (unat (load32 c (current c)) + 1) \<le> length (ubuf c)"
      by (auto simp: getDDItem_Inr set_length_def)
    have "unat (load32 c (current c) + 1) = unat (load32 c (current c)) + 1"
      by (rule unat_Suc_fits [of _ 1]) (use len fits in linarith, simp)
    with c' len none show ?thesis by (simp add: skip_space)
  qed
qed

lemma skip_opcode:
  assumes none: "handle_unpack_underflow c = None" and fits: "length (ubuf c) < 2 ^ 32"
    and b: "b \<in> set opcodes" and switch: "unpack_switch b c = Inr c'"
  shows "skip_switch b n c = Inr (n + children c', c\<lparr>current := current c'\<rparr>)"
proof -
  note exts = skip_exts [OF none fits, where n = n and c' = c']
  have fixed:
    "getDDItemFix 1 c = Inr c' \<Longrightarrow>
      cw_skip_bytes 2 n c = Inr (n + children c', c\<lparr>current := current c'\<rparr>)"
    "getDDItemFix 2 c = Inr c' \<Longrightarrow>
      cw_skip_bytes 3 n c = Inr (n + children c', c\<lparr>current := current c'\<rparr>)"
    "getDDItemFix 4 c = Inr c' \<Longrightarrow>
      cw_skip_bytes 5 n c = Inr (n + children c', c\<lparr>current := current c'\<rparr>)"
    "getDDItemFix 8 c = Inr c' \<Longrightarrow>
      cw_skip_bytes 9 n c = Inr (n + children c', c\<lparr>current := current c'\<rparr>)"
    "getDDItemFix 16 c = Inr c' \<Longrightarrow>
      cw_skip_bytes 17 n c = Inr (n + children c', c\<lparr>current := current c'\<rparr>)"
    using exts(1) [of 1] exts(1) [of 2] exts(1) [of 4] exts(1) [of 8] exts(1) [of 16]
    by (simp_all add: eval_nat_numeral)
  show ?thesis
    using b switch none unfolding opcodes_def
    apply (simp only: list.set insert_iff empty_iff)
    apply (elim disjE FalseE)
    apply (simp_all only: switch_opcodes skip_switch_consts exts fixed)
    apply (simp_all add: getDDItem_Inr and_then_Inr blob_Inr fix_sign_Inr skip_space
      narrow_arith children_def set_u64_def set_low32_def set_boolean_def set_length_def
      as_size_def put_low32_low null_space)
    by auto
qed


lemma switch_skip:
  assumes none: "handle_unpack_underflow c = None" and fits: "length (ubuf c) < 2 ^ 32"
    and switch: "unpack_switch b c = Inr c'"
  shows "skip_switch b n c = Inr (n + children c', c\<lparr>current := current c'\<rparr>)"
proof -
  have flip: "x < b \<longleftrightarrow> \<not> b \<le> x" for x by auto
  consider "b \<le> 0x7f" | "0x7f < b" "b \<le> 0x8f" | "0x8f < b" "b \<le> 0x9f" | "0x9f < b" "b \<le> 0xbf"
    | "0xbf < b" "b \<le> 0xdf" | "0xdf < b"
    by fastforce
  then show ?thesis
  proof cases
    case 5
    then show ?thesis using skip_opcode [OF none fits opcode_range switch] by simp
  next
    case 6
    then have "0xe0 \<le> b" by (simp add: word_less_nat_alt word_le_nat_alt)
    with 6 switch show ?thesis
      by (auto simp: switch_fix skip_switch_fix getDDItem_Inr children_def set_u64_def)
  next
    case 4
    have "unat (ucast (b AND 31) :: u32) = unat (b AND 31)" by (rule narrow_arith) simp
    with 4 switch none show ?thesis
      by (auto simp: switch_fix skip_switch_fix flip getDDItem_Inr and_then_Inr blob_Inr
          children_def set_u64_def set_length_def skip_space)
  qed (use switch in \<open>auto simp: switch_fix skip_switch_fix flip getDDItem_Inr children_def
         set_u64_def set_low32_def as_size_def put_low32_low narrow_arith\<close>)
qed

subsection \<open>Skipping follows unpacking\<close>

text \<open>Skipping one item ends where unpacking it ends, and adds the items it announces.\<close>

lemma skip_item_next:
  assumes ready: "unpack_ready c" and fits: "length (ubuf c) < 2 ^ 32"
    and ok: "u_return_code (cw_unpack_next c) = 0"
  shows "skip_item n c =
    Inr (n + children (cw_unpack_next c), c\<lparr>current := current (cw_unpack_next c)\<rparr>)"
proof -
  have rc: "u_return_code c = 0" using ok by (auto simp: cw_unpack_next_def split: if_splits)
  have none: "handle_unpack_underflow c = None" using ready by (simp add: unpack_ready_def)
  obtain x where space: "cw_unpack_assert_space CWP_RC_END_OF_INPUT 1 c = Inr x"
    using ok rc none
    by (auto simp: cw_unpack_next_def cw_unpack_assert_space_def UNPACK_ERROR_def split: if_splits)
  let ?c = "c\<lparr>current := current c + 1\<rparr>"
  have x: "x = (current c, ?c)" and len: "current c + 1 \<le> length (ubuf c)"
    using space none by (simp_all add: null_space)
  have ready1: "unpack_ready ?c" using none len by (simp add: unpack_ready_def)
  obtain c' where c': "unpack_switch (load8 c (current c)) ?c = Inr c'"
    "cw_unpack_next c = c'"
    using unpack_switch_ok [OF ready1, of "load8 c (current c)"] ok rc space
    by (cases "unpack_switch (load8 c (current c)) ?c")
      (auto simp: cw_unpack_next_def x failed_def)
  have "skip_switch (load8 c (current c)) n ?c =
      Inr (n + children c', ?c\<lparr>current := current c'\<rparr>)"
    by (rule switch_skip [OF _ _ c'(1)]) (use none fits in simp_all)
  then show ?thesis using space by (simp add: skip_item_def x c'(2))
qed

text \<open>
  \<open>items_end n c p\<close>: from \<open>current\<close> on, \<open>n\<close> items can be unpacked one after the other without an
  error, each container adding the items it announces to those still to be read, and the last
  one ends at offset \<open>p\<close>.
\<close>

inductive items_end :: "int \<Rightarrow> cw_unpack_context \<Rightarrow> nat \<Rightarrow> bool" where
  items_done: "n \<le> 0 \<Longrightarrow> items_end n c (current c)"
| items_next: "0 < n \<Longrightarrow> u_return_code (cw_unpack_next c) = 0 \<Longrightarrow>
    items_end (n - 1 + children (cw_unpack_next c))
      (c\<lparr>current := current (cw_unpack_next c)\<rparr>) p \<Longrightarrow> items_end n c p"

text \<open>Each item takes a byte, so there are no more of them than bytes.\<close>

lemma next_ready:
  assumes "unpack_ready c" "u_return_code (cw_unpack_next c) = 0"
  shows "unpack_ready (c\<lparr>current := current (cw_unpack_next c)\<rparr>)"
  using cw_unpack_next_ready [OF assms(1)] assms cw_unpack_next_ok [OF assms(1)] cw_unpack_next_sticky [of c]
  by (cases "u_return_code c = 0")
    (auto simp: unpack_ready_def failed_def advanced_def keeps_buffer_def)

lemma items_end_count:
  "items_end n c p \<Longrightarrow> unpack_ready c \<Longrightarrow> length (ubuf c) < 2 ^ 32 \<Longrightarrow>
   n \<le> int p - int (current c) \<and> p \<le> length (ubuf c)"
proof (induction rule: items_end.induct)
  case (items_done n c)
  then show ?case by (simp add: unpack_ready_def)
next
  case (items_next n c p)
  have "skip_item 0 c = Inr (0 + children (cw_unpack_next c), c\<lparr>current := current (cw_unpack_next c)\<rparr>)"
    by (rule skip_item_next [OF items_next.prems items_next.hyps(2)])
  then have "current c < current (cw_unpack_next c)"
    using skip_item_ok(2) [OF items_next.prems(1)] by fastforce
  moreover have "0 \<le> children (cw_unpack_next c)" by (simp add: children_def)
  ultimately show ?case
    using items_next.IH [OF next_ready [OF items_next.prems(1) items_next.hyps(2)]] items_next.prems(2) by simp
qed

lemma skip_loop_items:
  "items_end n c p \<Longrightarrow> unpack_ready c \<Longrightarrow> length (ubuf c) < 2 ^ 32 \<Longrightarrow>
   skip_loop n c = Some (c\<lparr>current := p\<rparr>)"
proof (induction rule: items_end.induct)
  case (items_done n c)
  then show ?case by (simp add: skip_loop.simps [of n])
next
  case (items_next n c p)
  note ready = next_ready [OF items_next.prems(1) items_next.hyps(2)]
  have "n - 1 + children (cw_unpack_next c) \<le> LONG_MAX"
    using items_end_count [OF items_next.hyps(3) ready] items_next.prems(2) by (simp add: LONG_MAX_def)
  then show ?case
    using items_next.IH [OF ready] items_next.hyps(1) items_next.prems(2)
      skip_item_next [OF items_next.prems(1) items_next.prems(2) items_next.hyps(2)]
    by (simp add: skip_loop.simps [of n])
qed

subsection \<open>Looking ahead announces the type unpacking finds\<close>

text \<open>
  The signed opcodes are announced as negative integers although unpacking calls a value that is
  not negative a positive one.
\<close>

definition announces :: "cwpack_item_types \<Rightarrow> cwpack_item_types \<Rightarrow> bool" where
  "announces a t \<longleftrightarrow> a = t \<or> a = CWP_ITEM_NEGATIVE_INTEGER \<and> t = CWP_ITEM_POSITIVE_INTEGER"

lemma look_switch_opcodes:
  "look_switch 0xc0 c = (CWP_ITEM_NIL, c)"
  "look_switch 0xc2 c = (CWP_ITEM_BOOLEAN, c)"
  "look_switch 0xc3 c = (CWP_ITEM_BOOLEAN, c)"
  "look_switch 0xc4 c = (CWP_ITEM_BIN, c)"
  "look_switch 0xc5 c = (CWP_ITEM_BIN, c)"
  "look_switch 0xc6 c = (CWP_ITEM_BIN, c)"
  "look_switch 0xc7 c =
    peek CWP_RC_BUFFER_UNDERFLOW 3 (\<lambda>p c. CWP_ITEM_USER_EXT (load8 c (p + 2))) c"
  "look_switch 0xc8 c =
    peek CWP_RC_BUFFER_UNDERFLOW 4 (\<lambda>p c. CWP_ITEM_USER_EXT (load8 c (p + 3))) c"
  "look_switch 0xc9 c =
    peek CWP_RC_BUFFER_UNDERFLOW 6 (\<lambda>p c. CWP_ITEM_USER_EXT (load8 c (p + 5))) c"
  "look_switch 0xca c = (CWP_ITEM_FLOAT, c)"
  "look_switch 0xcb c = (CWP_ITEM_DOUBLE, c)"
  "look_switch 0xcc c = (CWP_ITEM_POSITIVE_INTEGER, c)"
  "look_switch 0xcd c = (CWP_ITEM_POSITIVE_INTEGER, c)"
  "look_switch 0xce c = (CWP_ITEM_POSITIVE_INTEGER, c)"
  "look_switch 0xcf c = (CWP_ITEM_POSITIVE_INTEGER, c)"
  "look_switch 0xd0 c = (CWP_ITEM_NEGATIVE_INTEGER, c)"
  "look_switch 0xd1 c = (CWP_ITEM_NEGATIVE_INTEGER, c)"
  "look_switch 0xd2 c = (CWP_ITEM_NEGATIVE_INTEGER, c)"
  "look_switch 0xd3 c = (CWP_ITEM_NEGATIVE_INTEGER, c)"
  "look_switch 0xd9 c = (CWP_ITEM_STR, c)"
  "look_switch 0xda c = (CWP_ITEM_STR, c)"
  "look_switch 0xdb c = (CWP_ITEM_STR, c)"
  "look_switch 0xdc c = (CWP_ITEM_ARRAY, c)"
  "look_switch 0xdd c = (CWP_ITEM_ARRAY, c)"
  "look_switch 0xde c = (CWP_ITEM_MAP, c)"
  "look_switch 0xdf c = (CWP_ITEM_MAP, c)"
  by (simp_all add: look_switch_def)

lemma look_switch_fixexts:
  "b \<in> {0xd4, 0xd5, 0xd6, 0xd7, 0xd8} \<Longrightarrow> look_switch b c =
    peek CWP_RC_BUFFER_UNDERFLOW 2 (\<lambda>p c. CWP_ITEM_USER_EXT (load8 c (p + 1))) c"
  by (auto simp: look_switch_def)

lemma look_switch_fix:
  "b \<le> 0x7f \<Longrightarrow> look_switch b c = (CWP_ITEM_POSITIVE_INTEGER, c)"
  "0x7f < b \<Longrightarrow> b \<le> 0x8f \<Longrightarrow> look_switch b c = (CWP_ITEM_MAP, c)"
  "0x8f < b \<Longrightarrow> b \<le> 0x9f \<Longrightarrow> look_switch b c = (CWP_ITEM_ARRAY, c)"
  "0x9f < b \<Longrightarrow> b \<le> 0xbf \<Longrightarrow> look_switch b c = (CWP_ITEM_STR, c)"
  "0xdf < b \<Longrightarrow> look_switch b c = (CWP_ITEM_NEGATIVE_INTEGER, c)"
  by (auto simp: look_switch_def word_less_nat_alt word_le_nat_alt)


lemma peek_at:
  "handle_unpack_underflow c = None \<Longrightarrow> current c + k \<le> length (ubuf c) \<Longrightarrow>
   peek e k f c = (f (current c) c, c)"
  by (simp add: peek_def assert_space_at Let_def)

lemma look_exts:
  fixes c :: cw_unpack_context
  defines "d \<equiv> c\<lparr>current := Suc (current c)\<rparr>"
  assumes none: "handle_unpack_underflow c = None"
  shows "getDDItemFix len d = Inr c' \<Longrightarrow>
      peek e 2 (\<lambda>p c. CWP_ITEM_USER_EXT (load8 c (p + 1))) c = (item_type c', c)"
    and "unpack_ext8 d = Inr c' \<Longrightarrow>
      peek e 3 (\<lambda>p c. CWP_ITEM_USER_EXT (load8 c (p + 2))) c = (item_type c', c)"
    and "unpack_ext_long (getDDItem2 CWP_ITEM_EXT (\<lambda>v. set_length (ucast v))) d = Inr c' \<Longrightarrow>
      peek e 4 (\<lambda>p c. CWP_ITEM_USER_EXT (load8 c (p + 3))) c = (item_type c', c)"
    and "unpack_ext_long (getDDItem4 CWP_ITEM_EXT set_length) d = Inr c' \<Longrightarrow>
      peek e 6 (\<lambda>p c. CWP_ITEM_USER_EXT (load8 c (p + 5))) c = (item_type c', c)"
proof -
  have noned: "handle_unpack_underflow d = None" using none by (simp add: d_def)
  show "getDDItemFix len d = Inr c' \<Longrightarrow>
      peek e 2 (\<lambda>p c. CWP_ITEM_USER_EXT (load8 c (p + 1))) c = (item_type c', c)"
    using getDDItemFix_Inr [OF noned, of len c'] none by (auto simp: peek_at d_def)
  show "unpack_ext8 d = Inr c' \<Longrightarrow>
      peek e 3 (\<lambda>p c. CWP_ITEM_USER_EXT (load8 c (p + 2))) c = (item_type c', c)"
    using unpack_ext8_Inr [OF noned, of c'] none by (auto simp: peek_at d_def offset_Suc)
  show "peek e 4 (\<lambda>p c. CWP_ITEM_USER_EXT (load8 c (p + 3))) c = (item_type c', c)"
    if long: "unpack_ext_long (getDDItem2 CWP_ITEM_EXT (\<lambda>v. set_length (ucast v))) d = Inr c'"
  proof -
    obtain c1 where c1: "getDDItem2 CWP_ITEM_EXT (\<lambda>v. set_length (ucast v)) d = Inr c1"
      using long by (auto simp: unpack_ext_long_def and_then_Inr)
    then have "handle_unpack_underflow c1 = None"
      using noned by (auto simp: getDDItem_Inr set_length_def)
    from unpack_ext_long_Inr [OF this c1 long] c1 none noned show ?thesis
      by (auto simp: getDDItem_Inr peek_at d_def set_length_def offset_Suc load8_def)
  qed
  show "peek e 6 (\<lambda>p c. CWP_ITEM_USER_EXT (load8 c (p + 5))) c = (item_type c', c)"
    if long: "unpack_ext_long (getDDItem4 CWP_ITEM_EXT set_length) d = Inr c'"
  proof -
    obtain c1 where c1: "getDDItem4 CWP_ITEM_EXT set_length d = Inr c1"
      using long by (auto simp: unpack_ext_long_def and_then_Inr)
    then have "handle_unpack_underflow c1 = None"
      using noned by (auto simp: getDDItem_Inr set_length_def)
    from unpack_ext_long_Inr [OF this c1 long] c1 none noned show ?thesis
      by (auto simp: getDDItem_Inr peek_at d_def set_length_def offset_Suc load8_def)
  qed
qed

lemma look_opcode:
  assumes none: "handle_unpack_underflow c = None" and b: "b \<in> set opcodes"
    and switch: "unpack_switch b (c\<lparr>current := Suc (current c)\<rparr>) = Inr c'"
  shows "\<exists>t. look_switch b c = (t, c) \<and> announces t (item_type c')"
proof -
  note exts = look_exts [OF none, where c' = c']
  show ?thesis
    using b switch none unfolding opcodes_def
    apply (simp only: list.set insert_iff empty_iff)
    apply (elim disjE FalseE)
    apply (simp_all only: switch_opcodes look_switch_opcodes look_switch_fixexts insert_iff
        exts simp_thms)
    apply (simp_all add: getDDItem_Inr and_then_Inr blob_Inr fix_sign_Inr announces_def
      set_u64_def set_low32_def set_boolean_def set_length_def null_space)
    by (auto split: if_splits)
qed

lemma look_ahead_next:
  assumes ready: "unpack_ready c" and ok: "u_return_code (cw_unpack_next c) = 0"
  shows "snd (cw_look_ahead c) = c \<and>
    announces (fst (cw_look_ahead c)) (item_type (cw_unpack_next c))"
proof -
  have rc: "u_return_code c = 0" using ok by (auto simp: cw_unpack_next_def split: if_splits)
  have none: "handle_unpack_underflow c = None" using ready by (simp add: unpack_ready_def)
  have len: "current c + 1 \<le> length (ubuf c)"
    using ok rc none
    by (auto simp: cw_unpack_next_def cw_unpack_assert_space_def UNPACK_ERROR_def split: if_splits)
  let ?b = "load8 c (current c)" and ?d = "c\<lparr>current := Suc (current c)\<rparr>"
  have look: "cw_look_ahead c = look_switch ?b c"
    using rc len by (simp add: cw_look_ahead_def assert_space_at Let_def)
  have ready1: "unpack_ready ?d" using none len by (simp add: unpack_ready_def)
  obtain c' where c': "unpack_switch ?b ?d = Inr c'" "cw_unpack_next c = c'"
    using unpack_switch_ok [OF ready1, of ?b] ok rc len
    by (cases "unpack_switch ?b ?d") (auto simp: cw_unpack_next_def assert_space_at failed_def)
  have "\<exists>t. look_switch ?b c = (t, c) \<and> announces t (item_type c')"
  proof (cases "0xbf < ?b \<and> ?b \<le> 0xdf")
    case True
    with look_opcode [OF none opcode_range c'(1)] show ?thesis by blast
  next
    case False
    then consider "?b \<le> 0x7f" | "0x7f < ?b" "?b \<le> 0x8f" | "0x8f < ?b" "?b \<le> 0x9f"
      | "0x9f < ?b" "?b \<le> 0xbf" | "0xdf < ?b"
      by fastforce
    then show ?thesis
      by cases (use c'(1) none in \<open>auto simp: switch_fix look_switch_fix getDDItem_Inr
        and_then_Inr blob_Inr announces_def set_u64_def set_low32_def set_length_def\<close>)
  qed
  then show ?thesis by (auto simp: look c'(2))
qed


subsection \<open>The contracts of both routines\<close>

text \<open>
  C15. With a null handler \<open>cw_skip_items\<close> returns on every input whose bytes, each counted as \<open>2^32\<close>
  items, leave the \<open>long\<close> count room (any count up to \<open>2^62\<close> and buffer up to \<open>2^29\<close> bytes, for one;
  not \<open>LONG_MIN\<close>, from which \<open>item_count--\<close> is undefined): adding to the count then never overflows.  It leaves \<open>current\<close> inside the buffer, and either fails
  with a return code or goes on with the code it was called with.
\<close>

theorem cw_skip_items_returns:
  assumes "unpack_ready c" "u_return_code c = 0" "- LONG_MAX \<le> n"
    "n + 2 ^ 32 * int (length (ubuf c) - current c) \<le> LONG_MAX"
  shows "\<exists>c'. cw_skip_items c n = Some c' \<and> keeps_buffer c c' \<and>
    (u_return_code c' = 0 \<or> item_type c' = CWP_NOT_AN_ITEM)"
  using skip_loop_total [OF assms(1,4)] assms(2)
  by (auto simp: cw_skip_items_def failed_def advanced_def)

text \<open>
  C14. Skipping \<open>n\<close> items ends exactly where unpacking them item by item ends, nested containers
  included, and touches nothing but \<open>current\<close>.
\<close>

theorem cw_skip_items_follows_unpacking:
  assumes "unpack_ready c" "u_return_code c = 0" "length (ubuf c) < 2 ^ 32" "items_end n c p"
  shows "cw_skip_items c n = Some (c\<lparr>current := p\<rparr>)"
  using skip_loop_items [OF assms(4,1,3)] assms(2) by (simp add: cw_skip_items_def)

text \<open>
  \<open>cw_look_ahead\<close> announces the type \<open>cw_unpack_next\<close> then finds, and consumes nothing.
\<close>

theorem cw_look_ahead_announces:
  assumes "unpack_ready c" "u_return_code (cw_unpack_next c) = 0"
  shows "snd (cw_look_ahead c) = c \<and>
    announces (fst (cw_look_ahead c)) (item_type (cw_unpack_next c))"
  using look_ahead_next [OF assms] by simp

text \<open>At concrete inputs: an array of two numbers in front of one more byte.\<close>

lemma next_small_array:
  "cw_unpack_next (start_context (0x92 # bs)) = read_item (MArray 2) (start_context (0x92 # bs))"
  by (rule next_container) simp_all

theorem cw_skip_items_returns_witness:
  "\<exists>c'. cw_skip_items (start_context [0xdf, 0xff]) 7 = Some c' \<and>
     keeps_buffer (start_context [0xdf, 0xff]) c'"
  using cw_skip_items_returns [of "start_context [0xdf, 0xff]" 7] by (auto simp: LONG_MAX_def)

theorem cw_look_ahead_announces_witness:
  "u_return_code (cw_unpack_next (start_context [0x92])) = 0 \<and>
   announces (fst (cw_look_ahead (start_context [0x92])))
     (item_type (cw_unpack_next (start_context [0x92])))"
  using cw_look_ahead_announces [of "start_context [0x92]"] next_small_array [of "[]"] by simp

lemma items_end_example: "items_end 1 (start_context [0x92, 0x05, 0x06, 0x07]) 3"
proof -
  let ?c = "start_context [0x92, 0x05, 0x06, 0x07]"
  have arr: "children (cw_unpack_next ?c) = 2" "current (cw_unpack_next ?c) = 1"
      "u_return_code (cw_unpack_next ?c) = 0"
    by (simp_all add: next_small_array children_def item_writes as_size_def put_low32_low)
  have int: "cw_unpack_next (?c\<lparr>current := k\<rparr>) = read_item (MUint i) (?c\<lparr>current := k\<rparr>)"
    if "bytes_at [0x92, 0x05, 0x06, 0x07] k (mp_uint i)" for k i
    by (rule next_uint) (use that in simp_all)
  have five: "cw_unpack_next (?c\<lparr>current := Suc 0\<rparr>) = read_item (MUint 5) (?c\<lparr>current := Suc 0\<rparr>)"
    and six: "cw_unpack_next (?c\<lparr>current := Suc (Suc 0)\<rparr>) = read_item (MUint 6) (?c\<lparr>current := Suc (Suc 0)\<rparr>)"
    by (rule int, simp add: mp_uint_def)+
  have int0: "children (read_item (MUint i) d) = 0" for i d
    by (simp add: children_def item_writes)
  have "items_end 0 (?c\<lparr>current := Suc (Suc (Suc 0))\<rparr>) 3"
    using items_done [of 0 "?c\<lparr>current := Suc (Suc (Suc 0))\<rparr>"] by (simp add: eval_nat_numeral)
  then have "items_end 1 (?c\<lparr>current := Suc (Suc 0)\<rparr>) 3"
    by - (rule items_next, simp_all add: six int0 mp_uint_def)
  then have "items_end 2 (?c\<lparr>current := Suc 0\<rparr>) 3"
    by - (rule items_next, simp_all add: five int0 mp_uint_def)
  then show ?thesis by - (rule items_next, simp_all add: arr)
qed

theorem cw_skip_items_follows_unpacking_witness:
  "items_end 1 (start_context [0x92, 0x05, 0x06, 0x07]) 3 \<and>
   cw_skip_items (start_context [0x92, 0x05, 0x06, 0x07]) 1 =
     Some ((start_context [0x92, 0x05, 0x06, 0x07])\<lparr>current := 3\<rparr>)"
  using cw_skip_items_follows_unpacking [OF _ _ _ items_end_example] items_end_example by simp

end
