(* ===== verification/Api_Server.thy ===== *)
theory Api_Server
  imports Cwpack_Unpack Twins_Memory
begin

text \<open>
  The query server (\<open>engine/src/api_server.c\<close>): a request is a MessagePack array of an operation
  code and, for two of the codes, the number of a twin; the reply is packed from the twins'
  memory.  \<open>sock\<close>-level calls are parameters as in the receiver: a round of the loop is given what
  \<open>zmq_recv\<close> stores (\<open>None\<close> for an error) and appends what is handed to \<open>zmq_send\<close>.  \<open>ctx\<close> is the
  uninitialised unpack context on the stack, \<open>behind\<close> what follows the request buffer there.  The
  debug lines printed are left out.
\<close>

subsection \<open>The code\<close>

definition pack_text :: "string \<Rightarrow> cw_pack_context \<Rightarrow> cw_pack_context" where
  "pack_text s pc = cw_pack_str pc (str_bytes s) (of_nat (length s))"

definition send_error :: "string \<Rightarrow> byte list" where
  "send_error text =
     (let pc = cw_pack_context_init 256 None;
          pc = cw_pack_map_size pc 2;
          pc = pack_text ''status'' pc;
          pc = pack_text ''error'' pc;
          pc = pack_text ''msg'' pc;
          pc = pack_text text pc
      in p_out pc)"

fun pack_vars :: "twins_memory_t \<Rightarrow> u32 \<Rightarrow> u8 \<Rightarrow> nat \<Rightarrow> cw_pack_context \<Rightarrow> cw_pack_context" where
  "pack_vars m twin i 0 pc = pc"
| "pack_vars m twin i (Suc k) pc =
     pack_vars m twin (i + 1) k (cw_pack_float pc (twins_memory_get_var m twin i))"

text \<open>The \<open>int\<close> status is converted to \<open>uint64_t\<close>, that is sign-extended.\<close>

definition pack_twin :: "twins_memory_t \<Rightarrow> u32 \<Rightarrow> cw_pack_context \<Rightarrow> cw_pack_context" where
  "pack_twin m t pc =
     (let pc = cw_pack_map_size pc 3;
          pc = pack_text ''id'' pc;
          pc = cw_pack_unsigned pc (ucast t);
          pc = pack_text ''status'' pc;
          pc = cw_pack_unsigned pc (scast (twins_memory_get_status m t));
          pc = pack_text ''vars'' pc;
          pc = cw_pack_array_size pc (of_nat MAX_VARS_PER_TWINS)
      in pack_vars m t 0 MAX_VARS_PER_TWINS pc)"

fun pack_twins :: "twins_memory_t \<Rightarrow> u32 \<Rightarrow> nat \<Rightarrow> cw_pack_context \<Rightarrow> cw_pack_context" where
  "pack_twins m t 0 pc = pc"
| "pack_twins m t (Suc k) pc = pack_twins m (t + 1) k (pack_twin m t pc)"

definition pack_deleted :: "u32 \<Rightarrow> cw_pack_context \<Rightarrow> cw_pack_context" where
  "pack_deleted target pc =
     (let pc = cw_pack_map_size pc 2;
          pc = pack_text ''status'' pc;
          pc = pack_text ''deleted'' pc;
          pc = pack_text ''id'' pc
      in cw_pack_unsigned pc (ucast target))"

text \<open>The switch over the operation code.\<close>

definition serve :: "u8 \<Rightarrow> u32 \<Rightarrow> twins_memory_t \<Rightarrow> byte list \<times> twins_memory_t" where
  "serve opcode target m =
     (let pc = cw_pack_context_init 4096 None in
      if opcode = 0 then
        (p_out (pack_twins m 0 MAX_TWINS (cw_pack_array_size pc (of_nat MAX_TWINS))), m)
      else if opcode = 1 then (p_out (pack_twin m target pc), m)
      else if opcode = 2 then
        (p_out (pack_deleted target pc), snd (twins_memory_set_status m target 2))
      else (send_error ''Error: OpCode desconocido'', m))"

text \<open>From the bytes of a request to the reply and the new memory.\<close>

definition handle_request ::
  "cw_unpack_context \<Rightarrow> u64 \<Rightarrow> byte list \<Rightarrow> twins_memory_t \<Rightarrow> byte list \<times> twins_memory_t" where
  "handle_request ctx addr data m =
     (let ctx = cw_unpack_context_init ctx addr data None;
          ctx = cw_unpack_next ctx
      in if u_return_code ctx \<noteq> 0 then (send_error ''Failed to unpack request'', m)
      else if item_type ctx \<noteq> CWP_ITEM_ARRAY \<or> as_size ctx = 0 then
        (send_error ''Array of arguments expected'', m)
      else
        (let array_size = as_size ctx;
             ctx = cw_unpack_next ctx;
             opcode = (ucast (as_u64 ctx) :: u8)
         in if opcode = 1 \<or> opcode = 2 then
              (if array_size < 2 then (send_error ''Not enough arguments for this opcode'', m)
               else
                 (let ctx = cw_unpack_next ctx; target = (ucast (as_u64 ctx) :: u32)
                  in serve opcode target m))
            else serve opcode 0 m))"

record server_t =
  s_memory :: twins_memory_t
  req_buf :: "byte list"
  replies :: "byte list list"

definition server_round ::
  "cw_unpack_context \<Rightarrow> u64 \<Rightarrow> byte list \<Rightarrow> byte list option \<Rightarrow> server_t \<Rightarrow> server_t" where
  "server_round ctx addr behind received st =
     (case received of
        None \<Rightarrow> st
      | Some msg \<Rightarrow>
          (let buf = take (length (req_buf st)) msg @ drop (length msg) (req_buf st);
               (reply, m) = handle_request ctx addr (take (length msg) (buf @ behind)) (s_memory st)
           in st\<lparr>s_memory := m, req_buf := buf, replies := replies st @ [reply]\<rparr>))"

fun server_rounds ::
  "(cw_unpack_context \<times> u64 \<times> byte list \<times> byte list option) list \<Rightarrow> server_t \<Rightarrow> server_t" where
  "server_rounds [] st = st"
| "server_rounds ((ctx, addr, behind, received) # rounds) st =
     server_rounds rounds (server_round ctx addr behind received st)"

text \<open>The thread ends at once when its socket cannot be bound.\<close>

definition api_server_thread ::
  "int \<Rightarrow> (cw_unpack_context \<times> u64 \<times> byte list \<times> byte list option) list \<Rightarrow> server_t
   \<Rightarrow> server_t option" where
  "api_server_thread rc rounds st = (if rc \<noteq> 0 then None else Some (server_rounds rounds st))"

subsection \<open>The replies as sequences of items\<close>

definition text_item :: "string \<Rightarrow> mp_item" where
  "text_item s = MStr (str_bytes s)"

definition error_reply :: "string \<Rightarrow> mp_item list" where
  "error_reply text =
     [MMap 2, text_item ''status'', text_item ''error'', text_item ''msg'', text_item text]"

definition twin_items :: "twins_memory_t \<Rightarrow> u32 \<Rightarrow> mp_item list" where
  "twin_items m t =
     [MMap 3, text_item ''id'', MUint (ucast t),
      text_item ''status'', MUint (scast (twins_memory_get_status m t)),
      text_item ''vars'', MArray (of_nat MAX_VARS_PER_TWINS)] @
     map (\<lambda>i. MFloat (twins_memory_get_var m t (of_nat i))) [0..<MAX_VARS_PER_TWINS]"

definition deleted_items :: "u32 \<Rightarrow> mp_item list" where
  "deleted_items t =
     [MMap 2, text_item ''status'', text_item ''deleted'', text_item ''id'', MUint (ucast t)]"

definition reply_items :: "u8 \<Rightarrow> u32 \<Rightarrow> twins_memory_t \<Rightarrow> mp_item list" where
  "reply_items opcode target m =
     (if opcode = 0 then
        MArray (of_nat MAX_TWINS) # concat (map (\<lambda>t. twin_items m (of_nat t)) [0..<MAX_TWINS])
      else if opcode = 1 then twin_items m target
      else if opcode = 2 then deleted_items target
      else error_reply ''Error: OpCode desconocido'')"

lemma pack_text_item:
  "pack_ready pc \<Longrightarrow> length s < 2 ^ 32 \<Longrightarrow> pack_text s pc = pack_item (text_item s) pc"
  by (simp add: pack_text_def text_item_def cw_pack_str_bytes unat_of_nat_small)

lemma pack_vars_items:
  "pack_ready pc \<Longrightarrow> pack_vars m t (of_nat i) k pc =
    pack_items (map (\<lambda>i. MFloat (twins_memory_get_var m t (of_nat i))) [i..<i + k]) pc"
proof (induction k arbitrary: i pc)
  case (Suc k)
  have "[i..<i + Suc k] = i # [Suc i..<Suc i + k]" by (simp add: upt_conv_Cons)
  moreover have "of_nat i + 1 = (of_nat (Suc i) :: u8)" by simp
  ultimately show ?case
    using Suc.IH [of "pack_item (MFloat (twins_memory_get_var m t (of_nat i))) pc" "Suc i"] Suc.prems
    by (simp add: pack_routines del: upt_Suc of_nat_Suc)
qed simp

lemma pack_twin_items: "pack_ready pc \<Longrightarrow> pack_twin m t pc = pack_items (twin_items m t) pc"
  using pack_vars_items [of _ m t 0 MAX_VARS_PER_TWINS]
  by (simp add: pack_twin_def twin_items_def pack_routines pack_text_item pack_items_append Let_def)

lemma pack_twins_items:
  "pack_ready pc \<Longrightarrow> pack_twins m (of_nat i) k pc =
    pack_items (concat (map (\<lambda>t. twin_items m (of_nat t)) [i..<i + k])) pc"
proof (induction k arbitrary: i pc)
  case (Suc k)
  have "[i..<i + Suc k] = i # [Suc i..<Suc i + k]" by (simp add: upt_conv_Cons)
  moreover have "of_nat i + 1 = (of_nat (Suc i) :: u32)" by simp
  ultimately show ?case
    using Suc.IH [of "pack_items (twin_items m (of_nat i)) pc" "Suc i"] Suc.prems
    by (simp add: pack_twin_items pack_items_append del: upt_Suc of_nat_Suc)
qed simp

text \<open>The replies fit their buffers.\<close>

lemma length_text: "length s < 32 \<Longrightarrow> length (mp_encode (text_item s)) = Suc (length s)"
  by (simp add: text_item_def mp_sized_def)

lemma encoded_vars:
  "length (mp_encode_all (map (\<lambda>i. MFloat (f i)) is)) = 5 * length is"
  by (induction "is") simp_all

lemma twin_items_length: "length (mp_encode_all (twin_items m t)) \<le> 133"
  using length_mp_uint32 [of t] length_mp_uint [of "scast (twins_memory_get_status m t)"]
    encoded_vars [of "\<lambda>i. twins_memory_get_var m t (of_nat i)" "[0..<MAX_VARS_PER_TWINS]"]
  by (simp add: twin_items_def length_text config_defs del: upt_Suc)

lemma all_twins_length:
  "length (mp_encode_all (concat (map (\<lambda>t. twin_items m (of_nat t)) ts))) \<le> 133 * length ts"
proof (induction ts)
  case (Cons t ts)
  then show ?case using twin_items_length [of m "of_nat t"] by simp
qed simp

lemma length_text_le: "length s < 200 \<Longrightarrow> length (mp_encode (text_item s)) \<le> length s + 2"
  by (simp add: text_item_def mp_sized_def)

lemma error_reply_length: "length s < 200 \<Longrightarrow> length (mp_encode_all (error_reply s)) \<le> 20 + length s"
  using length_text_le [of s] by (simp add: error_reply_def length_text)

lemma send_error_items: "length s < 200 \<Longrightarrow> send_error s = mp_encode_all (error_reply s)"
  using pack_items_fit [of "cw_pack_context_init 256 None" "error_reply s"] error_reply_length [of s]
  by (simp add: send_error_def pack_routines pack_text_item pack_ready_init Let_def cw_put_def)
    (simp add: error_reply_def)

lemma pack_reply:
  "length (mp_encode_all items) \<le> 4096 \<Longrightarrow>
   p_out (pack_items items (cw_pack_context_init 4096 None)) = mp_encode_all items"
  by (simp add: pack_items_fit pack_ready_init cw_put_def)

lemma serve_reply:
  "serve opcode target m = (mp_encode_all (reply_items opcode target m),
     if opcode = 2 then snd (twins_memory_set_status m target 2) else m)"
proof -
  let ?pc = "cw_pack_context_init 4096 None"
  let ?all = "MArray (of_nat MAX_TWINS) # concat (map (\<lambda>t. twin_items m (of_nat t)) [0..<MAX_TWINS])"
  have "length (mp_encode_all ?all) \<le> 4096"
    using all_twins_length [of m "[0..<MAX_TWINS]"] by (simp add: config_defs del: upt_Suc)
  from pack_reply [OF this]
  have all: "p_out (pack_twins m 0 MAX_TWINS (cw_pack_array_size ?pc (of_nat MAX_TWINS)))
      = mp_encode_all ?all"
    using pack_twins_items [of _ m 0 MAX_TWINS] by (simp add: pack_routines pack_ready_init)
  have "length (mp_encode_all (twin_items m target)) \<le> 4096" using twin_items_length [of m target] by simp
  from pack_reply [OF this] have one: "p_out (pack_twin m target ?pc) = mp_encode_all (twin_items m target)"
    by (simp add: pack_twin_items pack_ready_init)
  have "length (mp_encode_all (deleted_items target)) \<le> 4096"
    using length_mp_uint32 [of target] by (simp add: deleted_items_def length_text)
  from pack_reply [OF this] have del: "p_out (pack_deleted target ?pc) = mp_encode_all (deleted_items target)"
    by (simp add: pack_deleted_def deleted_items_def pack_routines pack_text_item pack_ready_init Let_def)
  show ?thesis
    by (simp add: serve_def reply_items_def all one del send_error_items Let_def)
qed

subsection \<open>Requests\<close>

lemma next_fits:
  "unread_at c (mp_encode it @ bs) \<Longrightarrow> item_fits it \<Longrightarrow>
   cw_unpack_next c = read_item it c \<and> unread_at (read_item it c) bs"
  using codec.read_one [of it c bs] by simp

lemma array_values:
  "item_type (read_item (MArray n) c) = CWP_ITEM_ARRAY" "as_size (read_item (MArray n) c) = n"
  "as_u64 (read_item (MUint i) c) = i"
  by (simp_all add: item_writes as_u64_def as_size_def put_low32_low)

lemma request_start:
  assumes "data = mp_encode (MArray n) @ bs" "n \<noteq> 0"
  obtains c where "c = read_item (MArray n) (cw_unpack_context_init ctx addr data None)" "unread_at c bs"
    "handle_request ctx addr data m =
       (let c = cw_unpack_next c; opcode = (ucast (as_u64 c) :: u8)
        in if opcode = 1 \<or> opcode = 2 then
             (if n < 2 then (send_error ''Not enough arguments for this opcode'', m)
              else serve opcode (ucast (as_u64 (cw_unpack_next c))) m)
           else serve opcode 0 m)"
proof -
  let ?c = "cw_unpack_context_init ctx addr data None"
  have "unread_at ?c (mp_encode (MArray n) @ bs)" using unread_at_init assms(1) by simp
  from next_fits [OF this]
  have n: "cw_unpack_next ?c = read_item (MArray n) ?c" "unread_at (read_item (MArray n) ?c) bs"
    by simp_all
  show ?thesis
    by (rule that [OF refl n(2)])
      (use n assms(2) in \<open>simp add: handle_request_def array_values unread_at_def Let_def\<close>)
qed

text \<open>The operation codes that have a target.\<close>

definition needs_target :: "u8 \<Rightarrow> bool" where
  "needs_target opcode \<longleftrightarrow> opcode = 1 \<or> opcode = 2"

lemma request_aux:
  assumes "n \<noteq> 0" "needs_target (ucast op) \<and> 2 \<le> n \<longrightarrow> (\<exists>bs. args = mp_encode (MUint target) @ bs)"
  shows "handle_request ctx addr (mp_encode_all [MArray n, MUint op] @ args) m =
    (if needs_target (ucast op) \<and> n < 2 then (send_error ''Not enough arguments for this opcode'', m)
     else serve (ucast op) (if needs_target (ucast op) then ucast target else 0) m)"
proof -
  obtain c where c: "unread_at c (mp_encode (MUint op) @ args)" and run:
    "handle_request ctx addr (mp_encode_all [MArray n, MUint op] @ args) m =
       (let c = cw_unpack_next c; opcode = (ucast (as_u64 c) :: u8)
        in if opcode = 1 \<or> opcode = 2 then
             (if n < 2 then (send_error ''Not enough arguments for this opcode'', m)
              else serve opcode (ucast (as_u64 (cw_unpack_next c))) m)
           else serve opcode 0 m)"
    by (rule request_start [of _ n "mp_encode (MUint op) @ args" ctx addr m]) (use assms(1) in simp_all)
  have one: "cw_unpack_next c = read_item (MUint op) c" "unread_at (read_item (MUint op) c) args"
    using next_fits [OF c] by simp_all
  have two: "cw_unpack_next (read_item (MUint op) c) = read_item (MUint target) (read_item (MUint op) c)"
    if "needs_target (ucast op)" "\<not> n < 2"
  proof -
    from that assms(2) have "\<exists>bs. args = mp_encode (MUint target) @ bs" by auto
    then obtain bs where "args = mp_encode (MUint target) @ bs" ..
    with next_fits [of "read_item (MUint op) c" "MUint target" bs] one(2) show ?thesis by simp
  qed
  show ?thesis
    using two unfolding run Let_def one(1) array_values needs_target_def by (auto simp: array_values)
qed

text \<open>
  A request that ends behind the size of its array: the failed reads leave the union as it is, so
  both the operation code and the twin are read from the size.
\<close>

lemma short_request_aux:
  assumes "2 \<le> n" "ucast n = (2 :: u8)"
  shows "handle_request ctx addr (mp_encode (MArray n)) m = serve 2 n m"
proof -
  have "n \<noteq> 0" using assms(1) by (auto simp: word_le_nat_alt)
  then obtain c where c: "c = read_item (MArray n) (cw_unpack_context_init ctx addr (mp_encode (MArray n)) None)"
    and run: "handle_request ctx addr (mp_encode (MArray n)) m =
       (let c = cw_unpack_next c; opcode = (ucast (as_u64 c) :: u8)
        in if opcode = 1 \<or> opcode = 2 then
             (if n < 2 then (send_error ''Not enough arguments for this opcode'', m)
              else serve opcode (ucast (as_u64 (cw_unpack_next c))) m)
           else serve opcode 0 m)"
    using request_start [of "mp_encode (MArray n)" n "[]" ctx addr m] by (metis append_Nil2)
  have fin: "u_return_code c = 0" "handle_unpack_underflow c = None" "length (ubuf c) \<le> current c"
    by (simp_all add: c cw_unpack_context_init_def del: mp_encode.simps)
  let ?e = "UNPACK_ERROR CWP_RC_END_OF_INPUT c"
  have e: "cw_unpack_next c = ?e" "cw_unpack_next ?e = ?e" "as_u64 ?e = as_u64 c"
    using next_at_end [OF fin] by (simp_all add: cw_unpack_next_def UNPACK_ERROR_def rc_defs as_u64_def)
  have low: "ucast (as_u64 c) = n" by (simp add: c item_writes as_u64_def put_low32_low)
  have "ucast (as_u64 c) = (ucast (ucast (as_u64 c) :: u32) :: u8)" by (simp add: word_bytes)
  then have "ucast (as_u64 c) = (2 :: u8)" using low assms(2) by simp
  moreover have "\<not> n < 2" using assms(1) by simp
  ultimately show ?thesis unfolding run Let_def e low by simp
qed

lemma handle_request_cases:
  obtains s where "length s < 200" "handle_request ctx addr data m = (send_error s, m)"
  | op t where "handle_request ctx addr data m = serve op t m"
proof -
  define P where "P r \<longleftrightarrow> (\<exists>s. length s < 200 \<and> r = (send_error s, m)) \<or> (\<exists>op t. r = serve op t m)" for r
  have "P (send_error s, m)" if "length s < 200" for s using that by (auto simp: P_def)
  moreover have "P (serve op t m)" for op t by (auto simp: P_def)
  moreover have "P a \<Longrightarrow> P b \<Longrightarrow> P (if c then a else b)" for a b c by simp
  ultimately have "P (handle_request ctx addr data m)" by (simp add: handle_request_def Let_def)
  then show ?thesis using that by (auto simp: P_def)
qed

lemma reply_items_length: "length (mp_encode_all (reply_items op t m)) \<le> 4096"
  using all_twins_length [of m "[0..<MAX_TWINS]"] twin_items_length [of m t] length_mp_uint32 [of t]
    error_reply_length [of "''Error: OpCode desconocido''"]
  by (simp add: reply_items_def deleted_items_def length_text config_defs del: upt_Suc)

lemma serve_ok:
  assumes "memory_ok m"
  shows "fst (serve op t m) = mp_encode_all (reply_items op t m)"
    and "memory_ok (snd (serve op t m))"
    and "twins_memory_get_var (snd (serve op t m)) t' v = twins_memory_get_var m t' v"
  using assms by (simp_all add: serve_reply set_status_ok set_status_value)

subsection \<open>The contract of the server\<close>

text \<open>
  C20. A request that is an array of an operation code and, where the code has one, a target is answered
  with the items of its code, completely and inside the reply buffer: all twins (for which \<open>[0]\<close> is
  enough), one twin with the 20 values the memory has for it, the confirmation of a deletion, or an
  error for a code that does not exist or lacks its target.  Only a deletion changes the memory: its
  twin is disconnected.
\<close>

theorem request_answered:
  assumes "n \<noteq> 0" "needs_target (ucast op) \<and> 2 \<le> n \<longrightarrow> (\<exists>bs. args = mp_encode (MUint target) @ bs)"
  shows "handle_request ctx addr (mp_encode_all [MArray n, MUint op] @ args) m =
    (if needs_target (ucast op) \<and> n < 2
     then (mp_encode_all (error_reply ''Not enough arguments for this opcode''), m)
     else (mp_encode_all (reply_items (ucast op) (ucast target) m),
       if ucast op = (2 :: u8) then snd (twins_memory_set_status m (ucast target) 2) else m))"
  unfolding request_aux [OF assms] serve_reply
  by (auto simp: reply_items_def send_error_items needs_target_def simp del: mp_encode.simps)

text \<open>
  The number of values an item holds, and the number still missing after some items when \<open>k\<close> were
  missing before them; \<open>None\<close> when there are too many items.
\<close>

fun held_values :: "mp_item \<Rightarrow> nat" where
  "held_values (MArray n) = unat n"
| "held_values (MMap n) = 2 * unat n"
| "held_values _ = 0"

fun values_left :: "nat \<Rightarrow> mp_item list \<Rightarrow> nat option" where
  "values_left k [] = Some k"
| "values_left k (it # its) = (if k = 0 then None else values_left (k - 1 + held_values it) its)"

definition one_value :: "mp_item list \<Rightarrow> bool" where
  "one_value its \<longleftrightarrow> values_left 1 its = Some 0"

lemma values_left_append:
  "values_left k (its @ rest) = (case values_left k its of None \<Rightarrow> None | Some j \<Rightarrow> values_left j rest)"
  by (induction k its rule: values_left.induct) simp_all

lemma values_left_more: "values_left k its = Some j \<Longrightarrow> values_left (k + i) its = Some (j + i)"
proof (induction k its arbitrary: j rule: values_left.induct)
  case (2 k it its)
  then show ?case by (cases k) (simp_all add: ac_simps split: if_splits)
qed simp

lemma values_left_one: "one_value its \<Longrightarrow> values_left (Suc k) (its @ rest) = values_left k rest"
  using values_left_more [of 1 its 0 k] by (simp add: one_value_def values_left_append)

lemma values_left_floats: "values_left (length is + k) (map (\<lambda>i. MFloat (f i)) is) = Some k"
  by (induction "is") simp_all

lemma held_text [simp]: "held_values (text_item s) = 0"
  by (simp add: text_item_def)

lemma one_value_error: "one_value (error_reply s)"
  by (simp add: one_value_def error_reply_def)

lemma one_value_deleted: "one_value (deleted_items t)"
  by (simp add: one_value_def deleted_items_def)

lemma one_value_twin: "one_value (twin_items m t)"
  using values_left_floats [of "[0..<MAX_VARS_PER_TWINS]" 0 "\<lambda>i. twins_memory_get_var m t (of_nat i)"]
  by (simp add: one_value_def twin_items_def config_defs del: upt_Suc)

lemma one_value_twins:
  "values_left (length ts + k) (concat (map (\<lambda>t. twin_items m (of_nat t)) ts)) = Some k"
  by (induction ts) (simp_all add: values_left_one [OF one_value_twin])

lemma one_value_reply: "one_value (reply_items op t m)"
proof -
  have "one_value (MArray (of_nat MAX_TWINS) # concat (map (\<lambda>t. twin_items m (of_nat t)) [0..<MAX_TWINS]))"
    using one_value_twins [of "[0..<MAX_TWINS]" 0 m]
    by (simp add: one_value_def config_defs del: upt_Suc)
  then show ?thesis by (simp add: reply_items_def one_value_twin one_value_error one_value_deleted)
qed

lemma handle_request_ok:
  assumes "memory_ok m"
  shows "\<exists>items. fst (handle_request ctx addr data m) = mp_encode_all items \<and> one_value items \<and>
    length (mp_encode_all items) \<le> 4096 \<and>
    memory_ok (snd (handle_request ctx addr data m)) \<and>
    twins_memory_get_var (snd (handle_request ctx addr data m)) t v = twins_memory_get_var m t v"
proof (rule handle_request_cases [of ctx addr data m])
  fix s assume "length s < 200" "handle_request ctx addr data m = (send_error s, m)"
  then show ?thesis using error_reply_length [of s] assms one_value_error [of s] by (auto simp: send_error_items)
next
  fix op t' assume "handle_request ctx addr data m = serve op t' m"
  then show ?thesis using serve_ok [OF assms] reply_items_length one_value_reply by auto
qed

lemma server_round_received:
  obtains data where "replies (server_round ctx addr behind (Some msg) st) =
      replies st @ [fst (handle_request ctx addr data (s_memory st))]"
    "s_memory (server_round ctx addr behind (Some msg) st) = snd (handle_request ctx addr data (s_memory st))"
  by (rule that) (simp_all add: server_round_def Let_def split_beta)

lemma server_rounds_aux:
  "memory_ok (s_memory st) \<Longrightarrow>
   \<exists>answers. replies (server_rounds rounds st) = replies st @ map mp_encode_all answers \<and>
    length answers = length (filter (\<lambda>(_, _, _, r). r \<noteq> None) rounds) \<and>
    list_all (\<lambda>items. one_value items \<and> length (mp_encode_all items) \<le> 4096) answers \<and>
    memory_ok (s_memory (server_rounds rounds st)) \<and>
    twins_memory_get_var (s_memory (server_rounds rounds st)) t v
      = twins_memory_get_var (s_memory st) t v"
proof (induction rounds arbitrary: st)
  case (Cons r rounds)
  obtain ctx addr behind received where r: "r = (ctx, addr, behind, received)" by (metis prod_cases4)
  show ?case
  proof (cases received)
    case None
    with Cons show ?thesis by (simp add: r server_round_def)
  next
    case (Some msg)
    let ?st = "server_round ctx addr behind (Some msg) st"
    obtain data where d: "replies ?st = replies st @ [fst (handle_request ctx addr data (s_memory st))]"
      "s_memory ?st = snd (handle_request ctx addr data (s_memory st))"
      by (rule server_round_received)
    obtain items where i: "fst (handle_request ctx addr data (s_memory st)) = mp_encode_all items"
      "one_value items" "length (mp_encode_all items) \<le> 4096" "memory_ok (s_memory ?st)"
      "twins_memory_get_var (s_memory ?st) t v = twins_memory_get_var (s_memory st) t v"
      using handle_request_ok [OF Cons.prems, of ctx addr data t v] d(2) by auto
    obtain answers where
      "replies (server_rounds rounds ?st) = replies ?st @ map mp_encode_all answers"
      "length answers = length (filter (\<lambda>(_, _, _, r). r \<noteq> None) rounds)"
      "list_all (\<lambda>items. one_value items \<and> length (mp_encode_all items) \<le> 4096) answers"
      "memory_ok (s_memory (server_rounds rounds ?st))"
      "twins_memory_get_var (s_memory (server_rounds rounds ?st)) t v
        = twins_memory_get_var (s_memory ?st) t v"
      using Cons.IH [OF i(4)] by blast
    with i d(1) show ?thesis by (intro exI [of _ "items # answers"]) (simp add: r Some)
  qed
qed simp

text \<open>
  C21. Whatever is received, the server sends one reply per request, in order, each the encoding of
  exactly one complete MessagePack value that fits the reply buffer, nothing being missing from its
  maps and arrays; the memory stays well formed and no variable of a twin changes.
\<close>

theorem server_answers_each_request:
  assumes "memory_ok (s_memory st)" "api_server_thread rc rounds st = Some st'"
  shows "\<exists>answers. replies st' = replies st @ map mp_encode_all answers \<and>
    length answers = length (filter (\<lambda>(_, _, _, r). r \<noteq> None) rounds) \<and>
    list_all (\<lambda>items. one_value items \<and> length (mp_encode_all items) \<le> 4096) answers \<and>
    memory_ok (s_memory st') \<and>
    twins_memory_get_var (s_memory st') t v = twins_memory_get_var (s_memory st) t v"
proof -
  have "st' = server_rounds rounds st" using assms(2) by (simp add: api_server_thread_def split: if_splits)
  with server_rounds_aux [OF assms(1), of rounds t v] show ?thesis by blast
qed

text \<open>
  Only the reading of the first item is checked for an error: a request that consists of nothing
  but the size of an array, a size whose low byte is 2, disconnects the twin of that number.
\<close>

theorem short_request_disconnects:
  assumes "2 \<le> n" "ucast n = (2 :: u8)"
  shows "handle_request ctx addr (mp_encode (MArray n)) m =
    (mp_encode_all (deleted_items n), snd (twins_memory_set_status m n 2))"
  unfolding short_request_aux [OF assms] serve_reply by (simp add: reply_items_def)

text \<open>
  A twin that does not exist is not an error for the server: its deletion is confirmed although
  nothing happens, and a query for it reports the status \<open>2^64 - 1\<close> and the value -1 for all of
  its variables.
\<close>

theorem unknown_twin_answered:
  assumes "n = 2" "\<not> valid_twin (ucast target)"
  shows "handle_request ctx addr (mp_encode_all [MArray n, MUint 2, MUint target]) m =
      (mp_encode_all (deleted_items (ucast target)), m) \<and>
    fst (handle_request ctx addr (mp_encode_all [MArray n, MUint 1, MUint target]) m) =
      mp_encode_all ([MMap 3, text_item ''id'', MUint (ucast (ucast target :: u32)),
        text_item ''status'', MUint (- 1), text_item ''vars'', MArray 20] @
        replicate 20 (MFloat minus_one_f32))"
proof -
  let ?t = "ucast target :: u32"
  have bad: "MAX_TWINS \<le> unat ?t" using assms(2) by (simp add: valid_twin_def)
  have get: "twins_memory_get_status m ?t = - 1" "twins_memory_get_var m ?t v = minus_one_f32"
    "snd (twins_memory_set_status m ?t 2) = m" for v
    using bad by (simp_all add: twins_memory_get_status_def twins_memory_get_var_def
        twins_memory_set_status_def)
  have vars: "map (\<lambda>i. MFloat minus_one_f32) [0..<20] = replicate 20 (MFloat minus_one_f32)"
    by (simp add: map_replicate_const)
  have ops: "2 \<le> n" "n \<noteq> 0" using assms(1) by simp_all
  show ?thesis
    using request_aux [OF ops(2), of 2 "mp_encode (MUint target)" target ctx addr m]
      request_aux [OF ops(2), of 1 "mp_encode (MUint target)" target ctx addr m] assms(1)
    by (simp add: needs_target_def serve_reply reply_items_def twin_items_def get vars config_defs
        del: mp_encode.simps upt_Suc)
qed

text \<open>The contract at concrete inputs.\<close>

definition stack_context :: cw_unpack_context where
  "stack_context = start_context []"

definition zero_server :: server_t where
  "zero_server = \<lparr>s_memory = zero_memory, req_buf = replicate 1024 0, replies = []\<rparr>"

theorem request_answered_witness:
  "handle_request stack_context 0 [0x91, 0] zero_memory =
     (mp_encode_all (reply_items 0 0 zero_memory), zero_memory) \<and>
   handle_request stack_context 0 [0x92, 2, 7] zero_memory =
     (mp_encode_all (deleted_items 7), snd (twins_memory_set_status zero_memory 7 2))"
proof -
  have "handle_request stack_context 0 [0x91, 0] zero_memory =
      (mp_encode_all (reply_items 0 0 zero_memory), zero_memory)"
    using request_answered [of 1 0 "[]" 0 stack_context 0 zero_memory]
    by (simp add: mp_uint_def needs_target_def)
  moreover have "handle_request stack_context 0 [0x92, 2, 7] zero_memory =
      (mp_encode_all (deleted_items 7), snd (twins_memory_set_status zero_memory 7 2))"
    using request_answered [of 2 2 "[7]" 7 stack_context 0 zero_memory]
    by (simp add: mp_uint_def reply_items_def needs_target_def)
  ultimately show ?thesis ..
qed

theorem server_answers_each_request_witness:
  "\<exists>st. api_server_thread 0 [(stack_context, 0, [], Some [0x91, 0]), (stack_context, 0, [], None)]
      zero_server = Some st \<and> length (replies st) = 1 \<and> memory_ok (s_memory st)"
proof -
  let ?rounds = "[(stack_context, 0, [], Some [0x91, 0]), (stack_context, 0, [], None)]
    :: (cw_unpack_context \<times> u64 \<times> byte list \<times> byte list option) list"
  have ok: "memory_ok (s_memory zero_server)" "replies zero_server = []" by (simp_all add: zero_server_def)
  obtain st where st: "api_server_thread 0 ?rounds zero_server = Some st"
    by (simp add: api_server_thread_def)
  from server_answers_each_request [OF ok(1) st, of 0 0] obtain answers where
    "replies st = map mp_encode_all answers" "length answers = 1" "memory_ok (s_memory st)"
    by (auto simp: ok(2))
  with st show ?thesis by auto
qed

theorem short_request_disconnects_witness:
  "handle_request stack_context 0 [0x92] zero_memory =
     (mp_encode_all (deleted_items 2), snd (twins_memory_set_status zero_memory 2 2))"
  using short_request_disconnects [of 2 stack_context 0 zero_memory] by simp

theorem unknown_twin_answered_witness:
  "handle_request stack_context 0 [0x92, 2, 12] zero_memory =
     (mp_encode_all (deleted_items 12), zero_memory)"
  using unknown_twin_answered [of 2 12 stack_context 0 zero_memory]
  by (simp add: mp_uint_def valid_twin_def config_defs)

end
