(* ===== verification/Crow_Base64.thy ===== *)
theory Crow_Base64
  imports Prelude
begin

text \<open>
  The base64 codec of the HTTP library (\<open>utility::base64encode\<close>, \<open>base64encode_urlsafe\<close> and
  \<open>base64decode\<close> in \<open>api/include/external/crow_all.h\<close>).  The bytes pointed to are a list of
  exactly \<open>size\<close> elements.  The decoder computes the size of its result first; a size that would
  be negative makes \<open>std::string::resize\<close> throw, and reading behind the input is not defined;
  both are \<open>None\<close>.
\<close>

subsection \<open>The code\<close>

definition base64_key :: "byte list" where
  "base64_key = str_bytes ''ABCDEFGHIJKLMNOPQRSTUVWXYZabcdefghijklmnopqrstuvwxyz0123456789+/''"

definition base64_urlsafe_key :: "byte list" where
  "base64_urlsafe_key = str_bytes ''ABCDEFGHIJKLMNOPQRSTUVWXYZabcdefghijklmnopqrstuvwxyz0123456789-_''"

fun base64encode :: "byte list \<Rightarrow> byte list \<Rightarrow> byte list" where
  "base64encode key (a # b # c # data) =
     [key ! unat (drop_bit 2 (a AND 0xFC)),
      key ! unat (push_bit 4 (a AND 0x03) OR drop_bit 4 (b AND 0xF0)),
      key ! unat (push_bit 2 (b AND 0x0F) OR drop_bit 6 (c AND 0xC0)),
      key ! unat (c AND 0x3F)] @ base64encode key data"
| "base64encode key [a] =
     [key ! unat (drop_bit 2 (a AND 0xFC)), key ! unat (push_bit 4 (a AND 0x03)), 61, 61]"
| "base64encode key [a, b] =
     [key ! unat (drop_bit 2 (a AND 0xFC)),
      key ! unat (push_bit 4 (a AND 0x03) OR drop_bit 4 (b AND 0xF0)),
      key ! unat (push_bit 2 (b AND 0x0F)), 61]"
| "base64encode key [] = []"

text \<open>The mapping from characters to 0 to 63; \<open>char\<close> values above 127 compare as negative.\<close>

definition base64_value :: "byte \<Rightarrow> byte" where
  "base64_value c =
     (if 65 \<le> c \<and> c \<le> 90 then c - 65
      else if 97 \<le> c \<and> c \<le> 122 then c - 97 + 26
      else if 48 \<le> c \<and> c \<le> 57 then c - 48 + 52
      else if c = 43 \<or> c = 45 then 62
      else if c = 47 \<or> c = 95 then 63
      else 0)"

definition base64_size :: "byte list \<Rightarrow> nat option" where
  "base64_size data =
     (let size = length data in
      if size mod 4 = 2 then Some (size div 4 * 3 + 1)
      else if size mod 4 = 3 then Some (size div 4 * 3 + 2)
      else if 2 \<le> size \<and> data ! (size - 2) = 61 then
        (if size div 4 * 3 < 2 then None else Some (size div 4 * 3 - 2))
      else if 1 \<le> size \<and> data ! (size - 1) = 61 then
        (if size div 4 * 3 < 1 then None else Some (size div 4 * 3 - 1))
      else Some (size div 4 * 3))"

text \<open>The loop and the two cases behind it.\<close>

fun base64_blocks :: "nat \<Rightarrow> byte list \<Rightarrow> byte list option" where
  "base64_blocks n data =
     (if 3 \<le> n then
        (case data of
           c1 # c2 # c3 # c4 # rest \<Rightarrow>
             map_option ((@)
               [push_bit 2 (base64_value c1) OR drop_bit 4 (base64_value c2 AND 0x30),
                push_bit 4 (base64_value c2 AND 0x0F) OR drop_bit 2 (base64_value c3 AND 0x3C),
                push_bit 6 (base64_value c3 AND 0x03) OR base64_value c4])
               (base64_blocks (n - 3) rest)
         | _ \<Rightarrow> None)
      else if n = 2 then
        (case data of
           c1 # c2 # c3 # rest \<Rightarrow>
             Some [push_bit 2 (base64_value c1) OR drop_bit 4 (base64_value c2 AND 0x30),
                   push_bit 4 (base64_value c2 AND 0x0F) OR drop_bit 2 (base64_value c3 AND 0x3C)]
         | _ \<Rightarrow> None)
      else if n = 1 then
        (case data of
           c1 # c2 # rest \<Rightarrow>
             Some [push_bit 2 (base64_value c1) OR drop_bit 4 (base64_value c2 AND 0x30)]
         | _ \<Rightarrow> None)
      else Some [])"

declare base64_blocks.simps [simp del]

definition base64decode :: "byte list \<Rightarrow> byte list option" where
  "base64decode data =
     (case base64_size data of None \<Rightarrow> None | Some n \<Rightarrow> base64_blocks n data)"

subsection \<open>Bits\<close>

definition base64_alphabet :: "byte list \<Rightarrow> bool" where
  "base64_alphabet key \<longleftrightarrow>
     list_all (\<lambda>i. base64_value (key ! i) = of_nat i \<and> key ! i \<noteq> 61) [0..<64]"

lemma base64_alphabets: "base64_alphabet base64_key" "base64_alphabet base64_urlsafe_key"
  by code_simp+

lemma alphabet_nth:
  assumes "base64_alphabet key" "unat v < 64"
  shows "base64_value (key ! unat v) = v" "key ! unat v \<noteq> 61"
  using assms by (simp_all add: base64_alphabet_def list_all_iff)

text \<open>The four groups of six bits of three bytes.\<close>

lemma sextet_bound:
  assumes "\<not> bit v 6" "\<not> bit v 7" shows "unat (v :: byte) < 64"
proof -
  have "take_bit 6 v = v"
    by (rule word_bitsI) (use assms in \<open>simp add: upt_word_bits bit_simps\<close>)
  then have "unat v = take_bit 6 (unat v)" by (metis unsigned_take_bit_eq)
  also have "\<dots> < 2 ^ 6" by (rule take_bit_nat_less_exp)
  finally show ?thesis by simp
qed

lemma sextets_bound:
  fixes a b c :: byte
  shows "unat (drop_bit 2 (a AND 0xFC)) < 64"
    and "unat (push_bit 4 (a AND 0x03)) < 64"
    and "unat (push_bit 4 (a AND 0x03) OR drop_bit 4 (b AND 0xF0)) < 64"
    and "unat (push_bit 2 (b AND 0x0F)) < 64"
    and "unat (push_bit 2 (b AND 0x0F) OR drop_bit 6 (c AND 0xC0)) < 64"
    and "unat (c AND 0x3F) < 64"
  by (rule sextet_bound; simp add: bit_simps)+

lemma sextets_join:
  fixes a b c :: byte
  shows "push_bit 2 (drop_bit 2 (a AND 0xFC)) OR
      drop_bit 4 ((push_bit 4 (a AND 0x03) OR drop_bit 4 (b AND 0xF0)) AND 0x30) = a"
    and "push_bit 2 (drop_bit 2 (a AND 0xFC)) OR drop_bit 4 (push_bit 4 (a AND 0x03) AND 0x30) = a"
    and "push_bit 4 ((push_bit 4 (a AND 0x03) OR drop_bit 4 (b AND 0xF0)) AND 0x0F) OR
      drop_bit 2 ((push_bit 2 (b AND 0x0F) OR drop_bit 6 (c AND 0xC0)) AND 0x3C) = b"
    and "push_bit 4 ((push_bit 4 (a AND 0x03) OR drop_bit 4 (b AND 0xF0)) AND 0x0F) OR
      drop_bit 2 (push_bit 2 (b AND 0x0F) AND 0x3C) = b"
    and "push_bit 6 ((push_bit 2 (b AND 0x0F) OR drop_bit 6 (c AND 0xC0)) AND 0x03) OR (c AND 0x3F) = c"
  by (rule word_bitsI; simp add: upt_word_bits bit_simps; simp add: numeral_2_eq_2 numeral_3_eq_3)+

subsection \<open>Decoding an encoding\<close>

lemma nth_append_end:
  "0 < k \<Longrightarrow> k \<le> length ys \<Longrightarrow> (xs @ ys) ! (length (xs @ ys) - k) = ys ! (length ys - k)"
  by (auto simp: nth_append)

lemma encode_size:
  "base64_alphabet key \<Longrightarrow>
   length (base64encode key data) = (length data + 2) div 3 * 4 \<and>
   (data \<noteq> [] \<longrightarrow>
     (base64encode key data ! (length (base64encode key data) - 2) = 61 \<longleftrightarrow> length data mod 3 = 1) \<and>
     (base64encode key data ! (length (base64encode key data) - 1) = 61 \<longleftrightarrow> length data mod 3 \<noteq> 0))"
proof (induction key data rule: base64encode.induct)
  case (1 key a b c data)
  let ?e = "base64encode key data"
  note key = alphabet_nth(2) [OF "1.prems"]
  from 1 have len: "length ?e = (length data + 2) div 3 * 4" by simp
  show ?case
  proof (cases "data = []")
    case True
    then show ?thesis using key sextets_bound by simp
  next
    case False
    then have e4: "4 \<le> length ?e" unfolding len by (cases data) simp_all
    let ?e' = "base64encode key (a # b # c # data)"
    have second: "?e' ! (length ?e' - 2) = ?e ! (length ?e - 2)"
      and last: "?e' ! (length ?e' - 1) = ?e ! (length ?e - 1)"
      unfolding base64encode.simps by (rule nth_append_end; use e4 in simp)+
    have "(5 + length data) div 3 = (length data + 2) div 3 + 1" by presburger
    then have "length ?e' = (length (a # b # c # data) + 2) div 3 * 4" using len by simp
    then show ?thesis
      unfolding second last using "1.IH" [OF "1.prems"] False
      by (metis (no_types, lifting) add_Suc_right length_Cons mod_add_self2 numeral_3_eq_3
          add.right_neutral)
  qed
next
  case (3 key a b)
  then show ?case using alphabet_nth(2) [OF "3.prems"] sextets_bound by simp
qed simp_all

lemma decoded_size:
  assumes "base64_alphabet key"
  shows "base64_size (base64encode key data) = Some (length data)"
proof (cases "data = []")
  case True
  then show ?thesis by (simp add: base64_size_def)
next
  case False
  let ?e = "base64encode key data" let ?n = "length data"
  note size = encode_size [OF assms, of data]
  have len: "length ?e = (?n + 2) div 3 * 4" using size by blast
  have pad: "?e ! (length ?e - 2) = 61 \<longleftrightarrow> ?n mod 3 = 1" using size False by blast
  have pad': "?e ! (length ?e - 1) = 61 \<longleftrightarrow> ?n mod 3 \<noteq> 0" using size False by blast
  have "length ?e mod 4 = 0" "length ?e div 4 = (?n + 2) div 3" using len by simp_all
  moreover have "4 \<le> length ?e" using False unfolding len by (cases data) simp_all
  ultimately have "base64_size ?e =
      (if ?n mod 3 = 1 then Some ((?n + 2) div 3 * 3 - 2)
       else if ?n mod 3 \<noteq> 0 then Some ((?n + 2) div 3 * 3 - 1) else Some ((?n + 2) div 3 * 3))"
    unfolding base64_size_def Let_def pad pad' by auto
  moreover have "?n mod 3 = 0 \<or> ?n mod 3 = 1 \<or> ?n mod 3 = 2" by linarith
  ultimately show ?thesis by (auto simp: algebra_simps) presburger+
qed

lemma decoded_blocks:
  "base64_alphabet key \<Longrightarrow> base64_blocks (length data) (base64encode key data) = Some data"
  by (induction key data rule: base64encode.induct)
    (simp_all add: base64_blocks.simps [of "Suc _"] base64_blocks.simps [of 0] alphabet_nth(1)
      sextets_bound sextets_join del: push_bit_and drop_bit_and)

text \<open>The computed size never needs more characters than there are.\<close>

lemma base64_blocks_defined:
  "(4 * n + 2) div 3 \<le> length data \<Longrightarrow> base64_blocks n data \<noteq> None"
proof (induction n data rule: base64_blocks.induct)
  case (1 n data)
  show ?case
  proof (cases "3 \<le> n")
    case True
    with "1.prems" have "Suc (Suc (Suc (Suc 0))) \<le> length data" by linarith
    then obtain c1 c2 c3 c4 rest where data: "data = c1 # c2 # c3 # c4 # rest"
      by (auto simp: Suc_le_length_iff)
    have "(4 * (n - 3) + 2) div 3 \<le> length rest" using "1.prems" True by (simp add: data)
    from "1.IH" [OF True data refl refl refl this] show ?thesis
      using True by (simp add: base64_blocks.simps [of n] data)
  next
    case False
    then consider "n = 0" | "n = 1" | "n = 2" by linarith
    then show ?thesis
    proof cases
      case 1
      then show ?thesis by (simp add: base64_blocks.simps [of 0])
    next
      case 2
      with "1.prems" have "Suc (Suc 0) \<le> length data" by simp
      then obtain c1 c2 rest where "data = c1 # c2 # rest" by (auto simp: Suc_le_length_iff)
      with 2 show ?thesis by (simp add: base64_blocks.simps [of "Suc 0"])
    next
      case 3
      with "1.prems" have "Suc (Suc (Suc 0)) \<le> length data" by simp
      then obtain c1 c2 c3 rest where "data = c1 # c2 # c3 # rest" by (auto simp: Suc_le_length_iff)
      with 3 show ?thesis by (simp add: base64_blocks.simps [of 2])
    qed
  qed
qed

lemma base64_size_fits: "base64_size data = Some n \<Longrightarrow> (4 * n + 2) div 3 \<le> length data"
  by (auto simp: base64_size_def Let_def split: if_splits) presburger+

lemma base64_size_fails: "base64_size data = None \<longleftrightarrow> data = [61]"
proof (cases "4 \<le> length data")
  case True
  then have "4 div 4 \<le> length data div 4" by (rule div_le_mono)
  then have "2 \<le> length data div 4 * 3" by simp
  with True show ?thesis by (auto simp: base64_size_def Let_def)
next
  case False
  then have "length data = 0 \<or> length data = 1 \<or> length data = 2 \<or> length data = 3" by linarith
  then show ?thesis by (elim disjE) (auto simp: base64_size_def length_Suc_conv split: if_splits)
qed

subsection \<open>The contract of the codec\<close>

text \<open>
  C23. Round trip: decoding what either encoder made of some bytes gives these bytes, for every
  length.
\<close>

theorem base64_roundtrip:
  assumes "key = base64_key \<or> key = base64_urlsafe_key"
  shows "base64decode (base64encode key data) = Some data"
proof -
  have "base64_alphabet key" using assms base64_alphabets by auto
  then show ?thesis by (simp add: base64decode_def decoded_size decoded_blocks)
qed

theorem base64_roundtrip_witness:
  "base64encode base64_urlsafe_key [0xff, 0xfe] = str_bytes ''__4='' \<and>
   base64decode (base64encode base64_urlsafe_key [0xff, 0xfe]) = Some [0xff, 0xfe]"
proof -
  have "base64encode base64_urlsafe_key [0xff, 0xfe] = str_bytes ''__4=''" by code_simp
  then show ?thesis using base64_roundtrip [of base64_urlsafe_key "[0xff, 0xfe]"] by simp
qed

text \<open>
  Decoding is defined on every input but one: no character is read behind the end of the input,
  and only the single character \<open>=\<close> has a size that cannot be allocated.
\<close>

theorem base64decode_defined: "base64decode data = None \<longleftrightarrow> data = [61]"
proof (cases "base64_size data")
  case None
  then show ?thesis using base64_size_fails [of data] by (simp add: base64decode_def)
next
  case (Some n)
  then show ?thesis
    using base64_size_fails [of data] base64_blocks_defined [OF base64_size_fits [OF Some]]
    by (simp add: base64decode_def)
qed

end
