(* ===== verification/Crow_Sha1.thy ===== *)
theory Crow_Sha1
  imports Prelude
begin

text \<open>
  The SHA-1 class of the HTTP library (\<open>sha1::SHA1\<close> in \<open>api/include/external/crow_all.h\<close>), which
  absorbs a message byte by byte, and the hash function it computes, stated after the standard on
  the whole padded message.  \<open>size_t\<close> has 64 bits; the position in the block is a natural number.
  Writing behind the block is not defined, so the loop that pads to its end is given only for
  positions inside it.
\<close>

subsection \<open>The code\<close>

record sha1_t =
  m_digest :: "u32 list"
  m_block :: "byte list"
  m_blockByteIndex :: nat
  m_byteCount :: u64

definition LeftRotate :: "u32 \<Rightarrow> nat \<Rightarrow> u32" where
  "LeftRotate v count = push_bit count v XOR drop_bit (32 - count) v"

definition sha1_reset :: "sha1_t \<Rightarrow> sha1_t" where
  "sha1_reset s =
     s\<lparr>m_digest := [0x67452301, 0xEFCDAB89, 0x98BADCFE, 0x10325476, 0xC3D2E1F0],
       m_blockByteIndex := 0, m_byteCount := 0\<rparr>"

text \<open>The two loops that fill \<open>w\<close>.\<close>

definition block_words :: "byte list \<Rightarrow> u32 list" where
  "block_words blk =
     map (\<lambda>i. of_be32 (blk ! (i * 4 + 0)) (blk ! (i * 4 + 1)) (blk ! (i * 4 + 2)) (blk ! (i * 4 + 3)))
       [0..<16]"

fun extend_words :: "nat \<Rightarrow> u32 list \<Rightarrow> u32 list" where
  "extend_words 0 w = w"
| "extend_words (Suc k) w =
     (let i = length w
      in extend_words k
           (w @ [LeftRotate (w ! (i - 3) XOR w ! (i - 8) XOR w ! (i - 14) XOR w ! (i - 16)) 1]))"

type_synonym sha1_vars = "u32 \<times> u32 \<times> u32 \<times> u32 \<times> u32"

fun sha1_round :: "u32 list \<Rightarrow> nat \<Rightarrow> sha1_vars \<Rightarrow> sha1_vars" where
  "sha1_round w i (a, b, c, d, e) =
     (let (f, k) =
        (if i < 20 then ((b AND c) OR (NOT b AND d), 0x5A827999)
         else if i < 40 then (b XOR c XOR d, 0x6ED9EBA1)
         else if i < 60 then ((b AND c) OR (b AND d) OR (c AND d), 0x8F1BBCDC)
         else (b XOR c XOR d, 0xCA62C1D6));
        temp = LeftRotate a 5 + f + e + k + w ! i
      in (temp, a, LeftRotate b 30, c, d))"

definition compress :: "u32 list \<Rightarrow> byte list \<Rightarrow> u32 list" where
  "compress dg blk =
     (let w = extend_words 64 (block_words blk)
      in case fold (sha1_round w) [0..<80] (dg ! 0, dg ! 1, dg ! 2, dg ! 3, dg ! 4) of
           (a, b, c, d, e) \<Rightarrow> [dg ! 0 + a, dg ! 1 + b, dg ! 2 + c, dg ! 3 + d, dg ! 4 + e])"

definition processBlock :: "sha1_t \<Rightarrow> sha1_t" where
  "processBlock s = s\<lparr>m_digest := compress (m_digest s) (m_block s)\<rparr>"

definition processByte :: "byte \<Rightarrow> sha1_t \<Rightarrow> sha1_t" where
  "processByte octet s =
     (let s = s\<lparr>m_block := (m_block s)[m_blockByteIndex s := octet],
                m_blockByteIndex := m_blockByteIndex s + 1\<rparr>;
          s = s\<lparr>m_byteCount := m_byteCount s + 1\<rparr>
      in if m_blockByteIndex s = 64 then processBlock (s\<lparr>m_blockByteIndex := 0\<rparr>) else s)"

definition processBytes :: "byte list \<Rightarrow> sha1_t \<Rightarrow> sha1_t" where
  "processBytes data s = fold processByte data s"

lemma processByte_index:
  "m_blockByteIndex (processByte b s) = (m_blockByteIndex s + 1) mod 64"
  if "m_blockByteIndex s < 64"
  using that by (auto simp: processByte_def processBlock_def Let_def)

function pad_to_end :: "sha1_t \<Rightarrow> sha1_t" where
  "pad_to_end s =
     (if m_blockByteIndex s \<noteq> 0 \<and> m_blockByteIndex s < 64 then pad_to_end (processByte 0 s) else s)"
  by pat_completeness auto

termination
  by (relation "measure (\<lambda>s. if m_blockByteIndex s = 0 then 0 else 64 - m_blockByteIndex s)")
    (auto simp: processByte_index mod_Suc)

function pad_to_56 :: "sha1_t \<Rightarrow> sha1_t" where
  "pad_to_56 s = (if m_blockByteIndex s < 56 then pad_to_56 (processByte 0 s) else s)"
  by pat_completeness auto

termination
  by (relation "measure (\<lambda>s. 56 - m_blockByteIndex s)") (auto simp: processByte_index)

declare pad_to_end.simps [simp del] pad_to_56.simps [simp del]

definition getDigest :: "sha1_t \<Rightarrow> u32 list \<times> sha1_t" where
  "getDigest s =
     (let bitCount = m_byteCount s * 8;
          s = processByte 0x80 s;
          s = (if 56 < m_blockByteIndex s then pad_to_56 (pad_to_end s) else pad_to_56 s);
          s = processByte 0 s;
          s = processByte 0 s;
          s = processByte 0 s;
          s = processByte 0 s;
          s = processByte (ucast (drop_bit 24 bitCount AND 0xFF)) s;
          s = processByte (ucast (drop_bit 16 bitCount AND 0xFF)) s;
          s = processByte (ucast (drop_bit 8 bitCount AND 0xFF)) s;
          s = processByte (ucast (bitCount AND 0xFF)) s
      in (m_digest s, s))"

definition getDigestBytes :: "sha1_t \<Rightarrow> byte list" where
  "getDigestBytes s =
     (let d32 = fst (getDigest s)
      in concat (map (\<lambda>i. [ucast (drop_bit 24 (d32 ! i) AND 0xFF), ucast (drop_bit 16 (d32 ! i) AND 0xFF),
           ucast (drop_bit 8 (d32 ! i) AND 0xFF), ucast (d32 ! i AND 0xFF)]) [0..<5]))"

subsection \<open>The hash function\<close>

text \<open>
  The secure hash standard: the message schedule \<open>W\<close>, the functions and constants of the rounds,
  one block, and the padding to whole blocks.
\<close>

fun schedule :: "byte list \<Rightarrow> nat \<Rightarrow> u32" where
  "schedule blk t =
     (if t < 16
      then of_be32 (blk ! (4 * t)) (blk ! (4 * t + 1)) (blk ! (4 * t + 2)) (blk ! (4 * t + 3))
      else word_rotl 1 (schedule blk (t - 3) XOR schedule blk (t - 8) XOR schedule blk (t - 14) XOR
        schedule blk (t - 16)))"

declare schedule.simps [simp del]

definition sha1_f :: "nat \<Rightarrow> u32 \<Rightarrow> u32 \<Rightarrow> u32 \<Rightarrow> u32" where
  "sha1_f t x y z =
     (if t < 20 then (x AND y) XOR (NOT x AND z)
      else if t < 40 then x XOR y XOR z
      else if t < 60 then (x AND y) XOR (x AND z) XOR (y AND z)
      else x XOR y XOR z)"

definition sha1_k :: "nat \<Rightarrow> u32" where
  "sha1_k t = [0x5A827999, 0x6ED9EBA1, 0x8F1BBCDC, 0xCA62C1D6] ! (t div 20)"

fun hash_round :: "byte list \<Rightarrow> nat \<Rightarrow> sha1_vars \<Rightarrow> sha1_vars" where
  "hash_round blk t (a, b, c, d, e) =
     (word_rotl 5 a + sha1_f t b c d + e + sha1_k t + schedule blk t, a, word_rotl 30 b, c, d)"

definition hash_block :: "u32 list \<Rightarrow> byte list \<Rightarrow> u32 list" where
  "hash_block h blk =
     (case fold (hash_round blk) [0..<80] (h ! 0, h ! 1, h ! 2, h ! 3, h ! 4) of
        (a, b, c, d, e) \<Rightarrow> [h ! 0 + a, h ! 1 + b, h ! 2 + c, h ! 3 + d, h ! 4 + e])"

definition sha1_padded :: "byte list \<Rightarrow> byte list" where
  "sha1_padded msg =
     msg @ 0x80 # replicate ((119 - length msg mod 64) mod 64) 0 @ be64 (of_nat (8 * length msg))"

definition sha1_hash :: "byte list \<Rightarrow> byte list" where
  "sha1_hash msg =
     concat (map be32 (fold (\<lambda>blk h. hash_block h blk) (chunks 64 (sha1_padded msg))
       [0x67452301, 0xEFCDAB89, 0x98BADCFE, 0x10325476, 0xC3D2E1F0]))"

subsection \<open>One block\<close>

lemma LeftRotate_rotl:
  assumes "0 < n" "n < 32"
  shows "LeftRotate v n = word_rotl n v"
proof (rule bit_word_eqI)
  fix k assume k: "k < LENGTH(32)"
  show "bit (LeftRotate v n) k = bit (word_rotl n v) k"
  proof (cases "k < n")
    case True
    then have "(k + (32 - n)) mod 32 = 32 - n + k" using assms by simp
    with True k assms show ?thesis by (simp add: LeftRotate_def bit_simps bit_word_rotl_iff)
  next
    case False
    then have "k + (32 - n) = (k - n) + 32" using assms by simp
    then have "(k + (32 - n)) mod 32 = k - n" using k by (simp only: mod_add_self2) simp
    with False k assms word_bit_beyond [of "32 - n + k" v] show ?thesis
      by (simp add: LeftRotate_def bit_simps bit_word_rotl_iff)
  qed
qed

lemma sha1_f_choice: "(b AND c) OR (NOT b AND d) = (b AND c) XOR (NOT b AND d)" for b c d :: u32
  by (rule bit_word_eqI) (auto simp: bit_simps)

lemma sha1_f_majority:
  "(b AND c) OR (b AND d) OR (c AND d) = (b AND c) XOR (b AND d) XOR (c AND d)" for b c d :: u32
  by (rule bit_word_eqI) (auto simp: bit_simps)

lemma extend_words_schedule:
  "16 \<le> n \<Longrightarrow> extend_words k (map (schedule blk) [0..<n]) = map (schedule blk) [0..<n + k]"
proof (induction k arbitrary: n)
  case (Suc k)
  have "schedule blk n =
      word_rotl 1 (schedule blk (n - 3) XOR schedule blk (n - 8) XOR schedule blk (n - 14) XOR
        schedule blk (n - 16))"
    using Suc.prems by (simp add: schedule.simps [of blk n])
  with Suc.prems have "extend_words (Suc k) (map (schedule blk) [0..<n])
      = extend_words k (map (schedule blk) [0..<Suc n])"
    by (simp add: LeftRotate_rotl)
  with Suc.IH [of "Suc n"] Suc.prems show ?case by simp
qed simp

lemma block_words_schedule: "block_words blk = map (schedule blk) [0..<16]"
  by (simp add: block_words_def schedule.simps mult.commute)

lemma round_hash_round:
  assumes "t < 80"
  shows "sha1_round (map (schedule blk) [0..<80]) t v = hash_round blk t v"
proof -
  obtain a b c d e where v: "v = (a, b, c, d, e)" by (metis prod_cases5)
  consider "t < 20" "t div 20 = 0" | "20 \<le> t" "t < 40" "t div 20 = 1"
    | "40 \<le> t" "t < 60" "t div 20 = 2" | "60 \<le> t" "t div 20 = 3"
    using assms by linarith
  then show ?thesis
    using assms
    by cases (simp_all add: v LeftRotate_rotl sha1_f_def sha1_k_def sha1_f_choice sha1_f_majority Let_def
        del: upt_Suc)
qed

lemma compress_hash_block: "compress h blk = hash_block h blk"
proof -
  have w: "extend_words 64 (block_words blk) = map (schedule blk) [0..<80]"
    by (simp add: block_words_schedule extend_words_schedule del: upt_Suc)
  have "fold (sha1_round (map (schedule blk) [0..<80])) [0..<80] v = fold (hash_round blk) [0..<80] v" for v
    by (rule fold_cong) (simp_all add: round_hash_round fun_eq_iff del: upt_Suc)
  then show ?thesis by (simp only: compress_def hash_block_def w Let_def)
qed

subsection \<open>Absorbing bytes\<close>

text \<open>The digest after the whole blocks of some bytes, and the bytes of the block begun.\<close>

function absorb :: "u32 list \<Rightarrow> byte list \<Rightarrow> u32 list \<times> byte list" where
  "absorb h bs = (if 64 \<le> length bs then absorb (compress h (take 64 bs)) (drop 64 bs) else (h, bs))"
  by pat_completeness auto

termination
  by (relation "measure (length \<circ> snd)") auto

declare absorb.simps [simp del]

lemma absorb_short: "length bs < 64 \<Longrightarrow> absorb h bs = (h, bs)"
  by (simp add: absorb.simps)

lemma length_absorb: "length (snd (absorb h bs)) = length bs mod 64"
proof (induction h bs rule: absorb.induct)
  case (1 h bs)
  then show ?case by (simp add: absorb.simps [of h bs] mod_if [of "length bs"])
qed

lemma absorb_snoc:
  "absorb h (bs @ [b]) =
     (if length (snd (absorb h bs)) = 63
      then (compress (fst (absorb h bs)) (snd (absorb h bs) @ [b]), [])
      else (fst (absorb h bs), snd (absorb h bs) @ [b]))"
proof (induction h bs rule: absorb.induct)
  case (1 h bs)
  show ?case
  proof (cases "64 \<le> length bs")
    case True
    with 1 show ?thesis by (simp add: absorb.simps [of h])
  next
    case False
    then show ?thesis
      by (cases "length bs = 63") (simp_all add: absorb.simps [of h] absorb_short)
  qed
qed

lemma absorb_blocks:
  "length bs mod 64 = 0 \<Longrightarrow> absorb h bs = (fold (\<lambda>blk h. compress h blk) (chunks 64 bs) h, [])"
proof (induction h bs rule: absorb.induct)
  case (1 h bs)
  show ?case
  proof (cases "bs = []")
    case True
    then show ?thesis by (simp add: absorb_short)
  next
    case False
    with "1.prems" have le: "64 \<le> length bs" by (cases "length bs < 64") auto
    then have "length (drop 64 bs) mod 64 = 0" using "1.prems" by (simp add: mod_if [of "length bs"])
    with "1.IH" [OF le] le False show ?thesis
      by (simp add: absorb.simps [of h bs] chunks_step)
  qed
qed

text \<open>An object that has absorbed some bytes.\<close>

definition absorbed :: "u32 list \<Rightarrow> byte list \<Rightarrow> sha1_t \<Rightarrow> bool" where
  "absorbed h bs s \<longleftrightarrow>
     absorb h bs = (m_digest s, take (m_blockByteIndex s) (m_block s)) \<and>
     m_blockByteIndex s = length bs mod 64 \<and> length (m_block s) = 64 \<and>
     m_byteCount s = of_nat (length bs)"

lemma absorbed_byte:
  assumes "absorbed h bs s"
  shows "absorbed h (bs @ [b]) (processByte b s)"
proof -
  let ?i = "m_blockByteIndex s" and ?blk = "(m_block s)[m_blockByteIndex s := b]"
  have i: "?i = length bs mod 64" "?i < 64" and blk: "length (m_block s) = 64"
    and abs: "absorb h bs = (m_digest s, take ?i (m_block s))"
    and cnt: "m_byteCount s = of_nat (length bs)"
    using assms by (simp_all add: absorbed_def)
  have new: "take (Suc ?i) ?blk = take ?i (m_block s) @ [b]"
    using i(2) blk by (simp add: take_Suc_conv_app_nth)
  have snoc: "absorb h (bs @ [b]) =
      (if ?i = 63 then (compress (m_digest s) (take ?i (m_block s) @ [b]), [])
       else (m_digest s, take ?i (m_block s) @ [b]))"
    using abs i(2) blk by (simp add: absorb_snoc)
  have next_index: "(length bs + 1) mod 64 = (if ?i = 63 then 0 else Suc ?i)"
    using i by (simp add: mod_Suc)
  show ?thesis
  proof (cases "?i = 63")
    case True
    have "take 64 ?blk = ?blk" using blk by simp
    with new True have "?blk = take ?i (m_block s) @ [b]" by simp
    with True snoc next_index blk cnt show ?thesis
      by (simp add: absorbed_def processByte_def processBlock_def Let_def add.commute)
  next
    case False
    with snoc next_index blk cnt new i(2) show ?thesis
      by (simp add: absorbed_def processByte_def Let_def add.commute)
  qed
qed

lemma absorbed_bytes: "absorbed h bs s \<Longrightarrow> absorbed h (bs @ data) (processBytes data s)"
proof (induction data arbitrary: bs s)
  case (Cons b data)
  from Cons.IH [OF absorbed_byte [OF Cons.prems]] show ?case by (simp add: processBytes_def)
qed (simp add: processBytes_def)

lemma absorbed_reset:
  "length (m_block s) = 64 \<Longrightarrow>
   absorbed [0x67452301, 0xEFCDAB89, 0x98BADCFE, 0x10325476, 0xC3D2E1F0] [] (sha1_reset s)"
  by (simp add: absorbed_def absorb_short sha1_reset_def)

subsection \<open>Padding\<close>

lemma position_arith:
  fixes n :: nat
  shows "(n + (64 - n mod 64)) mod 64 = 0"
    and "n mod 64 \<le> 56 \<Longrightarrow> (120 - n mod 64) mod 64 = 56 - n mod 64"
    and "56 < n mod 64 \<Longrightarrow> (120 - n mod 64) mod 64 = (64 - n mod 64) + 56"
    and "(120 - (n + 1) mod 64) mod 64 = (119 - n mod 64) mod 64"
    and "(n + 9 + (119 - n mod 64) mod 64) mod 64 = 0"
proof -
  define q m where "q = n div 64" and "m = n mod 64"
  have n: "n = 64 * q + m" "m < 64" by (simp_all add: q_def m_def)
  show "(n + (64 - n mod 64)) mod 64 = 0"
  proof -
    have "n + (64 - m) = (q + 1) * 64" using n by simp
    then show ?thesis by (metis m_def mod_mult_self2_is_0)
  qed
  show small: "(120 - n mod 64) mod 64 = 56 - n mod 64" if "n mod 64 \<le> 56"
  proof -
    have le: "m \<le> 56" using that by (simp only: m_def)
    then have "120 - m = (56 - m) + 64" by simp
    then have "(120 - m) mod 64 = ((56 - m) + 64) mod 64" by (rule arg_cong)
    also have "\<dots> = (56 - m) mod 64" by (rule mod_add_self2)
    also have "\<dots> = 56 - m" by simp
    finally show ?thesis by (simp only: m_def)
  qed
  show "(120 - n mod 64) mod 64 = (64 - n mod 64) + 56" if "56 < n mod 64"
  proof -
    have m: "56 < m" "m < 64" using that n(2) by (simp_all only: m_def)
    then have "(120 - m) mod 64 = 120 - m" by (intro mod_less) linarith
    with m show ?thesis by (simp add: m_def [symmetric])
  qed
  show "(120 - (n + 1) mod 64) mod 64 = (119 - n mod 64) mod 64"
  proof (cases "m = 63")
    case True
    then have "(n + 1) mod 64 = 0" by (simp add: mod_Suc m_def)
    then show ?thesis using True by (simp add: m_def)
  next
    case False
    then have "(n + 1) mod 64 = m + 1" by (simp add: mod_Suc m_def)
    moreover have "120 - (m + 1) = 119 - m" by simp
    ultimately show ?thesis by (simp only: m_def)
  qed
  show "(n + 9 + (119 - n mod 64) mod 64) mod 64 = 0"
  proof -
    have "(n + 9 + (119 - m) mod 64) mod 64 = (n + 9 + (119 - m)) mod 64" by (rule mod_add_right_eq)
    also have "n + 9 + (119 - m) = (q + 2) * 64" using n by simp
    also have "(q + 2) * 64 mod 64 = 0" by (rule mod_mult_self2_is_0)
    finally show ?thesis by (simp only: m_def)
  qed
qed

lemma absorbed_index: "absorbed h bs s \<Longrightarrow> m_blockByteIndex s = length bs mod 64"
  by (simp add: absorbed_def)

lemma one_more_zero: "i < k \<Longrightarrow> z # replicate (k - (i + 1)) z = replicate (k - i) z"
  by (metis Suc_diff_Suc Suc_eq_plus1 replicate_Suc)

lemma absorbed_56:
  "absorbed h bs s \<Longrightarrow> length bs mod 64 \<le> 56 \<Longrightarrow>
   absorbed h (bs @ replicate (56 - length bs mod 64) 0) (pad_to_56 s)"
proof (induction "56 - length bs mod 64" arbitrary: bs s)
  case 0
  then show ?case by (simp add: pad_to_56.simps [of s] absorbed_index)
next
  case (Suc k)
  let ?i = "length bs mod 64"
  have step: "length (bs @ [0]) mod 64 = ?i + 1" using Suc.hyps(2) by (simp add: mod_Suc)
  have "absorbed h ((bs @ [0]) @ replicate (56 - length (bs @ [0]) mod 64) 0) (pad_to_56 (processByte 0 s))"
    by (rule Suc.hyps(1)) (use Suc.hyps(2) step absorbed_byte [OF Suc.prems(1), of 0] in simp_all)
  moreover have "pad_to_56 s = pad_to_56 (processByte 0 s)"
    using Suc.hyps(2) by (simp add: pad_to_56.simps [of s] absorbed_index [OF Suc.prems(1)])
  moreover have "0 # replicate (56 - (?i + 1)) (0 :: byte) = replicate (56 - ?i) 0"
    using Suc.hyps(2) by (intro one_more_zero) simp
  ultimately show ?case unfolding step by simp
qed

lemma absorbed_end:
  "absorbed h bs s \<Longrightarrow> 0 < length bs mod 64 \<Longrightarrow>
   absorbed h (bs @ replicate (64 - length bs mod 64) 0) (pad_to_end s)"
proof (induction "63 - length bs mod 64" arbitrary: bs s)
  case 0
  moreover have "length bs mod 64 < 64" by simp
  ultimately have last: "length bs mod 64 = 63" by linarith
  then have "pad_to_end s = pad_to_end (processByte 0 s)"
    by (simp add: pad_to_end.simps [of s] absorbed_index [OF "0.prems"(1)])
  moreover have "m_blockByteIndex (processByte 0 s) = 0"
    using absorbed_byte [OF "0.prems"(1), of 0] last by (simp add: absorbed_def mod_Suc)
  ultimately have "pad_to_end s = processByte 0 s" by (simp add: pad_to_end.simps [of "processByte 0 s"])
  then show ?case using absorbed_byte [OF "0.prems"(1), of 0] last by simp
next
  case (Suc k)
  let ?i = "length bs mod 64"
  have step: "length (bs @ [0]) mod 64 = ?i + 1" using Suc.hyps(2) by (simp add: mod_Suc)
  have "absorbed h ((bs @ [0]) @ replicate (64 - length (bs @ [0]) mod 64) 0) (pad_to_end (processByte 0 s))"
    by (rule Suc.hyps(1)) (use Suc.hyps(2) step absorbed_byte [OF Suc.prems(1), of 0] in simp_all)
  moreover have "pad_to_end s = pad_to_end (processByte 0 s)"
    using Suc.hyps(2) Suc.prems(2) by (simp add: pad_to_end.simps [of s] absorbed_index [OF Suc.prems(1)])
  moreover have "0 # replicate (64 - (?i + 1)) (0 :: byte) = replicate (64 - ?i) 0"
    using Suc.hyps(2) by (intro one_more_zero) simp
  ultimately show ?case unfolding step by simp
qed

text \<open>The number of zeros the two loops append.\<close>

lemma absorbed_zeros:
  assumes "absorbed h bs s"
  shows "absorbed h (bs @ replicate ((120 - length bs mod 64) mod 64) 0)
    (if 56 < m_blockByteIndex s then pad_to_56 (pad_to_end s) else pad_to_56 s)"
proof (cases "56 < length bs mod 64")
  case True
  let ?bs = "bs @ replicate (64 - length bs mod 64) (0 :: byte)"
  have whole: "length ?bs mod 64 = 0" using position_arith(1) [of "length bs"] by simp
  have "absorbed h ?bs (pad_to_end s)" by (rule absorbed_end [OF assms]) (use True in simp)
  from absorbed_56 [OF this] whole
  have "absorbed h (?bs @ replicate 56 0) (pad_to_56 (pad_to_end s))" by simp
  moreover have "(120 - length bs mod 64) mod 64 = (64 - length bs mod 64) + 56"
    by (rule position_arith(3) [OF True])
  then have "replicate (64 - length bs mod 64) 0 @ replicate 56 0
      = replicate ((120 - length bs mod 64) mod 64) (0 :: byte)"
    by (simp only: replicate_add)
  ultimately show ?thesis using True by (simp add: absorbed_index [OF assms])
next
  case False
  then have "(120 - length bs mod 64) mod 64 = 56 - length bs mod 64"
    by (intro position_arith(2)) simp
  then show ?thesis using absorbed_56 [OF assms] False by (simp add: absorbed_index [OF assms])
qed

text \<open>The length field: its upper half is written as zeros.\<close>

lemma be64_small:
  assumes "n < 2 ^ 32"
  shows "be64 (of_nat n) = [0, 0, 0, 0, ucast (drop_bit 24 (of_nat n :: u64) AND 0xFF),
    ucast (drop_bit 16 (of_nat n :: u64) AND 0xFF), ucast (drop_bit 8 (of_nat n :: u64) AND 0xFF),
    ucast ((of_nat n :: u64) AND 0xFF)]"
proof -
  have w: "of_nat n = (ucast (of_nat n :: u32) :: u64)"
    using assms by (simp add: word_unat_eq_iff unsigned_ucast_eq unsigned_of_nat take_bit_nat_eq_self)
  have z: "(ucast (drop_bit k (ucast v :: u64)) :: byte) = 0" if "32 \<le> k" for k and v :: u32
    using that word_bit_beyond [of _ v] by (intro bit_word_eqI) (simp add: bit_simps)
  have m: "(ucast (x AND 0xFF) :: byte) = ucast x" for x :: u64
    by (rule word_bitsI) (simp add: upt_word_bits bit_simps)
  show ?thesis unfolding be64_def w by (simp add: z m)
qed

lemma digest_padded:
  assumes "absorbed h data s" "8 * length data < 2 ^ 32"
  shows "absorbed h (sha1_padded data) (snd (getDigest s))"
proof -
  let ?n = "8 * length data" let ?z = "replicate ((119 - length data mod 64) mod 64) (0 :: byte)"
  let ?s1 = "processByte 0x80 s"
  let ?s2 = "if 56 < m_blockByteIndex ?s1 then pad_to_56 (pad_to_end ?s1) else pad_to_56 ?s1"
  let ?tail = "[0, 0, 0, 0, ucast (drop_bit 24 (of_nat ?n :: u64) AND 0xFF),
    ucast (drop_bit 16 (of_nat ?n :: u64) AND 0xFF), ucast (drop_bit 8 (of_nat ?n :: u64) AND 0xFF),
    ucast ((of_nat ?n :: u64) AND 0xFF)] :: byte list"
  have count: "m_byteCount s * 8 = of_nat ?n" using assms(1) by (simp add: absorbed_def mult.commute)
  have "(120 - (length data + 1) mod 64) mod 64 = (119 - length data mod 64) mod 64"
    by (rule position_arith(4))
  with absorbed_zeros [OF absorbed_byte [OF assms(1), of "0x80"]]
  have "absorbed h (data @ [0x80] @ ?z) ?s2" by simp
  from absorbed_bytes [OF this, of ?tail]
  have "absorbed h ((data @ [0x80] @ ?z) @ ?tail) (processBytes ?tail ?s2)" .
  moreover have "snd (getDigest s) = processBytes ?tail ?s2"
    by (simp add: getDigest_def processBytes_def Let_def count)
  moreover have "sha1_padded data = (data @ [0x80] @ ?z) @ ?tail"
    using be64_small [OF assms(2)] by (simp add: sha1_padded_def)
  ultimately show ?thesis by simp
qed

lemma length_padded: "length (sha1_padded data) mod 64 = 0"
  using position_arith(5) [of "length data"]
  by (simp add: sha1_padded_def add.assoc)

lemma length_compress: "length (compress h blk) = 5"
  by (simp add: compress_def Let_def split: prod.split)

lemma length_hashed:
  "length h = 5 \<Longrightarrow> length (fold (\<lambda>blk h. compress h blk) blks h) = 5"
  by (induction blks arbitrary: h) (simp_all add: length_compress)

lemma digest_bytes:
  assumes "length d = 5"
  shows "concat (map (\<lambda>i. [ucast (drop_bit 24 (d ! i) AND 0xFF), ucast (drop_bit 16 (d ! i) AND 0xFF),
      ucast (drop_bit 8 (d ! i) AND 0xFF), ucast (d ! i AND 0xFF)]) [0..<5]) = concat (map be32 d)"
proof -
  have m: "(ucast (x AND 0xFF) :: byte) = ucast x" for x :: u32
    by (rule word_bitsI) (simp add: upt_word_bits bit_simps)
  have "map be32 d = map (\<lambda>i. be32 (d ! i)) [0..<5]"
    using assms by (simp add: list_eq_iff_nth_eq)
  then show ?thesis by (simp only: be32_def m)
qed

subsection \<open>The contract of the class\<close>

text \<open>
  C24. The class computes SHA-1: for a message of less than \<open>2^29\<close> bytes, absorbed in any pieces by a
  fresh object, the digest bytes are the hash of the standard on the whole padded message.
\<close>

theorem sha1_class_computes_hash:
  assumes "length (m_block s) = 64" "length (concat pieces) < 2 ^ 29"
  shows "getDigestBytes (fold processBytes pieces (sha1_reset s)) = sha1_hash (concat pieces)"
proof -
  let ?h = "[0x67452301, 0xEFCDAB89, 0x98BADCFE, 0x10325476, 0xC3D2E1F0] :: u32 list"
  have all: "absorbed ?h (bs @ concat pieces) (fold processBytes pieces s)" if "absorbed ?h bs s" for bs s
    using that
  proof (induction pieces arbitrary: bs s)
    case (Cons p pieces)
    from Cons.IH [OF absorbed_bytes [OF Cons.prems, of p]] show ?case by simp
  qed simp
  let ?s = "fold processBytes pieces (sha1_reset s)" let ?p = "sha1_padded (concat pieces)"
  from all [OF absorbed_reset [OF assms(1)]] have "absorbed ?h (concat pieces) ?s" by simp
  then have "absorbed ?h ?p (snd (getDigest ?s))" using assms(2) by (intro digest_padded) simp_all
  then have "m_digest (snd (getDigest ?s)) = fold (\<lambda>blk h. compress h blk) (chunks 64 ?p) ?h"
    by (simp add: absorbed_def absorb_blocks [OF length_padded])
  moreover have "fst (getDigest ?s) = m_digest (snd (getDigest ?s))"
    by (simp add: getDigest_def Let_def)
  ultimately have d: "fst (getDigest ?s) = fold (\<lambda>blk h. compress h blk) (chunks 64 ?p) ?h" by simp
  have "length (fst (getDigest ?s)) = 5" unfolding d by (rule length_hashed) simp
  then have "getDigestBytes ?s = concat (map be32 (fst (getDigest ?s)))"
    unfolding getDigestBytes_def Let_def by (rule digest_bytes)
  then show ?thesis unfolding d by (simp add: sha1_hash_def compress_hash_block)
qed

definition zero_sha1 :: sha1_t where
  "zero_sha1 = \<lparr>m_digest = replicate 5 0, m_block = replicate 64 0, m_blockByteIndex = 0, m_byteCount = 0\<rparr>"

theorem sha1_class_computes_hash_witness:
  "getDigestBytes (fold processBytes [str_bytes ''ab'', str_bytes ''c''] (sha1_reset zero_sha1)) =
     sha1_hash (str_bytes ''abc'')"
proof -
  have "length (m_block zero_sha1) = 64" by (simp add: zero_sha1_def)
  from sha1_class_computes_hash [OF this, of "[str_bytes ''ab'', str_bytes ''c'']"]
  show ?thesis by (simp add: str_bytes_def)
qed

end
