(* ===== verification/Crow_Routes.thy ===== *)
theory Crow_Routes
  imports Prelude "HOL-Library.Sublist"
begin

text \<open>
  The checks the HTTP library makes on the pattern of a route (\<open>black_magic\<close> in
  \<open>api/include/external/crow_all.h\<close>): that its brackets match, which parameters it has, coded in
  base 6, and that these fit the handler's parameter types.  A string is walked by an index; here
  the functions recurse on what is left of it.  Throwing an exception is \<open>None\<close>.
\<close>

subsection \<open>The code\<close>

fun is_valid :: "string \<Rightarrow> int \<Rightarrow> bool" where
  "is_valid [] f = (f = 0)"
| "is_valid (c # s) f =
     (if f < 0 \<or> 2 \<le> f then False
      else if c = CHR ''<'' then is_valid s (f + 1)
      else if c = CHR ''>'' then is_valid s (f - 1)
      else is_valid s f)"

definition is_int :: "string \<Rightarrow> bool" where
  "is_int s = prefix ''<int>'' s"

definition is_uint :: "string \<Rightarrow> bool" where
  "is_uint s = prefix ''<uint>'' s"

definition is_float :: "string \<Rightarrow> bool" where
  "is_float s = (prefix ''<float>'' s \<or> prefix ''<double>'' s)"

definition is_str :: "string \<Rightarrow> bool" where
  "is_str s = (prefix ''<str>'' s \<or> prefix ''<string>'' s)"

definition is_path :: "string \<Rightarrow> bool" where
  "is_path s = prefix ''<path>'' s"

fun find_closing_tag_runtime :: "string \<Rightarrow> string option" where
  "find_closing_tag_runtime [] = None"
| "find_closing_tag_runtime (c # s) = (if c = CHR ''>'' then Some (c # s) else find_closing_tag_runtime s)"

lemma find_closing_shorter: "find_closing_tag_runtime s = Some t \<Longrightarrow> length t \<le> length s"
  by (induction s) (auto split: if_splits)

function get_parameter_tag_runtime :: "string \<Rightarrow> u64 option" where
  "get_parameter_tag_runtime [] = Some 0"
| "get_parameter_tag_runtime (c # s) =
     (if c = CHR ''<'' then
        (case (if is_int (c # s) then Some 1 else if is_uint (c # s) then Some 2
               else if is_float (c # s) then Some 3 else if is_str (c # s) then Some 4
               else if is_path (c # s) then Some 5 else None) of
           None \<Rightarrow> None
         | Some code \<Rightarrow>
             (case find_closing_tag_runtime s of
                None \<Rightarrow> None
              | Some t \<Rightarrow>
                  (case get_parameter_tag_runtime t of None \<Rightarrow> None | Some v \<Rightarrow> Some (v * 6 + code))))
      else get_parameter_tag_runtime s)"
  by pat_completeness auto

termination
  by (relation "measure length") (auto dest: find_closing_shorter)

text \<open>The types a handler can take, and the code of its parameter list.\<close>

datatype arg_type = SignedArg | UnsignedArg | DoubleArg | StringArg | OtherArg

fun parameter_tag :: "arg_type \<Rightarrow> u64" where
  "parameter_tag SignedArg = 1"
| "parameter_tag UnsignedArg = 2"
| "parameter_tag DoubleArg = 3"
| "parameter_tag StringArg = 4"
| "parameter_tag OtherArg = 0"

fun compute_parameter_tag_from_args_list :: "arg_type list \<Rightarrow> u64" where
  "compute_parameter_tag_from_args_list [] = 0"
| "compute_parameter_tag_from_args_list (a # args) =
     (let sub_value = compute_parameter_tag_from_args_list args
      in if parameter_tag a \<noteq> 0 then sub_value * 6 + parameter_tag a else sub_value)"

function is_parameter_tag_compatible :: "u64 \<Rightarrow> u64 \<Rightarrow> bool" where
  "is_parameter_tag_compatible a b =
     (if a = 0 then b = 0
      else if b = 0 then a = 0
      else
        (let sa = a mod 6; sb = a mod 6;
             sa = (if sa = 5 then 4 else sa);
             sb = (if sb = 5 then 4 else sb)
         in if sa \<noteq> sb then False else is_parameter_tag_compatible (a div 6) (b div 6)))"
  by pat_completeness auto

termination
  by (relation "measure (\<lambda>(a, b). unat a)") (auto simp: unat_div unat_gt_0)

declare is_parameter_tag_compatible.simps [simp del]

subsection \<open>Patterns\<close>

text \<open>A route as its author writes it: literal text and typed parameters.\<close>

datatype param_kind = IntParam | UintParam | FloatParam | DoubleParam | StrParam | StringParam | PathParam

datatype route_part = Literal string | Param param_kind

fun kind_name :: "param_kind \<Rightarrow> string" where
  "kind_name IntParam = ''int''"
| "kind_name UintParam = ''uint''"
| "kind_name FloatParam = ''float''"
| "kind_name DoubleParam = ''double''"
| "kind_name StrParam = ''str''"
| "kind_name StringParam = ''string''"
| "kind_name PathParam = ''path''"

fun kind_code :: "param_kind \<Rightarrow> nat" where
  "kind_code IntParam = 1"
| "kind_code UintParam = 2"
| "kind_code FloatParam = 3"
| "kind_code DoubleParam = 3"
| "kind_code StrParam = 4"
| "kind_code StringParam = 4"
| "kind_code PathParam = 5"

fun part_text :: "route_part \<Rightarrow> string" where
  "part_text (Literal s) = s"
| "part_text (Param k) = CHR ''<'' # kind_name k @ ''>''"

definition route_text :: "route_part list \<Rightarrow> string" where
  "route_text parts = concat (map part_text parts)"

fun part_ok :: "route_part \<Rightarrow> bool" where
  "part_ok (Literal s) = (CHR ''<'' \<notin> set s \<and> CHR ''>'' \<notin> set s)"
| "part_ok (Param k) = True"

fun route_kinds :: "route_part list \<Rightarrow> param_kind list" where
  "route_kinds [] = []"
| "route_kinds (Literal s # parts) = route_kinds parts"
| "route_kinds (Param k # parts) = k # route_kinds parts"

text \<open>The digits in base 6, the first parameter the lowest.\<close>

fun tag_of :: "nat list \<Rightarrow> u64" where
  "tag_of [] = 0"
| "tag_of (c # cs) = tag_of cs * 6 + of_nat c"

lemma tag_literal:
  "CHR ''<'' \<notin> set s \<Longrightarrow> get_parameter_tag_runtime (s @ t) = get_parameter_tag_runtime t"
  by (induction s) auto

lemma tag_param:
  "get_parameter_tag_runtime (part_text (Param k) @ t) =
     (case get_parameter_tag_runtime t of None \<Rightarrow> None | Some v \<Rightarrow> Some (v * 6 + of_nat (kind_code k)))"
  by (induct k; cases "get_parameter_tag_runtime t") (simp_all add: is_int_def is_uint_def is_float_def is_str_def is_path_def)

lemma tag_route:
  "list_all part_ok parts \<Longrightarrow>
   get_parameter_tag_runtime (route_text parts) = Some (tag_of (map kind_code (route_kinds parts)))"
proof (induction parts)
  case (Cons p parts)
  have IH: "get_parameter_tag_runtime (concat (map part_text parts))
      = Some (tag_of (map kind_code (route_kinds parts)))"
    using Cons by (simp add: route_text_def)
  show ?case
  proof (cases p)
    case (Literal s)
    then show ?thesis using Cons.prems IH by (simp add: route_text_def tag_literal)
  next
    case (Param k)
    then show ?thesis using IH tag_param [of k] by (simp add: route_text_def del: part_text.simps)
  qed
qed (simp add: route_text_def)

lemma valid_literal: "CHR ''<'' \<notin> set s \<Longrightarrow> CHR ''>'' \<notin> set s \<Longrightarrow> f \<in> {0, 1} \<Longrightarrow>
    is_valid (s @ t) f = is_valid t f"
  by (induction s) auto

lemma valid_route: "list_all part_ok parts \<Longrightarrow> is_valid (route_text parts) 0"
proof (induction parts)
  case (Cons p parts)
  have IH: "is_valid (concat (map part_text parts)) 0" using Cons by (simp add: route_text_def)
  show ?case
  proof (cases p)
    case (Literal s)
    then show ?thesis using Cons.prems IH by (simp add: route_text_def valid_literal)
  next
    case (Param k)
    have "CHR ''<'' \<notin> set (kind_name k)" "CHR ''>'' \<notin> set (kind_name k)" by (cases k; simp)+
    then show ?thesis using IH by (simp add: Param route_text_def valid_literal)
  qed
qed (simp add: route_text_def)

text \<open>The codes as numbers: a base 6 number of at most 24 digits does not wrap.\<close>

fun digits_value :: "nat list \<Rightarrow> nat" where
  "digits_value [] = 0"
| "digits_value (c # cs) = digits_value cs * 6 + c"

definition digits_ok :: "nat list \<Rightarrow> bool" where
  "digits_ok cs \<longleftrightarrow> length cs \<le> 24 \<and> list_all (\<lambda>c. 0 < c \<and> c < 6) cs"

lemma digits_bound: "list_all (\<lambda>c. 0 < c \<and> c < 6) cs \<Longrightarrow> digits_value cs < 6 ^ length cs"
  by (induction cs) auto

lemma tag_value: "digits_ok cs \<Longrightarrow> unat (tag_of cs) = digits_value cs"
proof -
  assume ok: "digits_ok cs"
  have "tag_of cs = of_nat (digits_value cs)" by (induction cs) simp_all
  moreover have "digits_value cs < 2 ^ 64"
  proof -
    have "digits_value cs < 6 ^ length cs" using ok by (simp add: digits_ok_def digits_bound)
    also have "\<dots> \<le> (6::nat) ^ 24" using ok by (intro power_increasing) (simp_all add: digits_ok_def)
    finally show ?thesis by simp
  qed
  ultimately show ?thesis by (simp add: unat_of_nat_small)
qed

lemma tag_div: "digits_ok (c # cs) \<Longrightarrow> tag_of (c # cs) div 6 = tag_of cs \<and> tag_of (c # cs) \<noteq> 0"
proof -
  assume ok: "digits_ok (c # cs)"
  then have ok': "digits_ok cs" "0 < c" "c < 6" by (simp_all add: digits_ok_def)
  have "unat (tag_of (c # cs) div 6) = unat (tag_of cs)"
    using tag_value [OF ok] tag_value [OF ok'(1)] ok'(3) by (simp add: unat_div)
  moreover have "unat (tag_of (c # cs)) \<noteq> 0" using tag_value [OF ok] ok'(2) by simp
  ultimately show ?thesis by (auto simp: word_unat_eq_iff)
qed

lemma compatible_lengths:
  "digits_ok cs \<Longrightarrow> digits_ok ds \<Longrightarrow>
   is_parameter_tag_compatible (tag_of cs) (tag_of ds) \<longleftrightarrow> length cs = length ds"
proof (induction cs arbitrary: ds)
  case Nil
  then show ?case
    using tag_div by (cases ds) (auto simp: is_parameter_tag_compatible.simps [of 0])
next
  case (Cons c cs)
  have c: "tag_of (c # cs) div 6 = tag_of cs" "tag_of (c # cs) \<noteq> 0" "digits_ok cs"
    using tag_div [OF Cons.prems(1)] Cons.prems(1) by (simp_all add: digits_ok_def)
  show ?case
  proof (cases ds)
    case Nil
    then show ?thesis using c(2) by (simp add: is_parameter_tag_compatible.simps [of _ 0])
  next
    case (Cons d ds')
    have d: "tag_of (d # ds') div 6 = tag_of ds'" "tag_of (d # ds') \<noteq> 0" "digits_ok ds'"
      using tag_div [of d ds'] Cons.prems(2) Cons by (simp_all add: digits_ok_def)
    have "is_parameter_tag_compatible (tag_of (c # cs)) (tag_of (d # ds'))
        = is_parameter_tag_compatible (tag_of cs) (tag_of ds')"
      using c(1,2) d(1,2)
      by (subst is_parameter_tag_compatible.simps) (simp add: Let_def del: tag_of.simps)
    then show ?thesis using Cons.IH [OF c(3) d(3)] Cons by simp
  qed
qed

text \<open>The code of a handler's parameter list.\<close>

lemma handler_tag:
  "OtherArg \<notin> set args \<Longrightarrow>
   compute_parameter_tag_from_args_list args = tag_of (map (unat \<circ> parameter_tag) args)"
proof (induction args)
  case (Cons a args)
  then show ?case by (cases a) simp_all
qed simp

lemma kind_code_digit: "0 < kind_code k \<and> kind_code k < 6"
  by (cases k) simp_all

lemma parameter_tag_digits:
  "OtherArg \<notin> set args \<Longrightarrow> list_all (\<lambda>c. 0 < c \<and> c < 6) (map (unat \<circ> parameter_tag) args)"
proof (induction args)
  case (Cons a args)
  then show ?case by (cases a) simp_all
qed simp

subsection \<open>The contract of the checks\<close>

text \<open>
  A pattern built from literal text and typed parameters passes the check of its brackets, and
  its code is the list of its parameter kinds in base 6, the first parameter the lowest digit.
\<close>

theorem route_tag_lists_parameters:
  assumes "list_all part_ok parts"
  shows "is_valid (route_text parts) 0 \<and>
    get_parameter_tag_runtime (route_text parts) = Some (tag_of (map kind_code (route_kinds parts)))"
  using valid_route [OF assms] tag_route [OF assms] by simp

text \<open>
  The check that a handler fits its route compares the first code with itself: every handler
  with the right number of parameters passes, whatever their types.
\<close>

theorem handler_types_not_checked:
  assumes "list_all part_ok parts" "length (route_kinds parts) \<le> 24" "OtherArg \<notin> set args"
    "length args \<le> 24" "get_parameter_tag_runtime (route_text parts) = Some tag"
  shows "is_parameter_tag_compatible tag (compute_parameter_tag_from_args_list args) \<longleftrightarrow>
    length args = length (route_kinds parts)"
proof -
  have kinds: "digits_ok (map kind_code (route_kinds parts))"
    using assms(2) kind_code_digit by (simp add: digits_ok_def list_all_iff)
  have args: "digits_ok (map (unat \<circ> parameter_tag) args)"
    using assms(4) parameter_tag_digits [OF assms(3)] by (simp add: digits_ok_def)
  have "tag = tag_of (map kind_code (route_kinds parts))" using tag_route [OF assms(1)] assms(5) by simp
  then show ?thesis
    using compatible_lengths [OF kinds args] handler_tag [OF assms(3)] by auto
qed

text \<open>The contract on the pattern of a user: a handler of a double for a string parameter.\<close>

theorem route_tag_lists_parameters_witness:
  "get_parameter_tag_runtime ''/users/<int>/<string>'' = Some 25"
  using route_tag_lists_parameters
    [of "[Literal ''/users/'', Param IntParam, Literal ''/'', Param StringParam]"]
  by (simp add: route_text_def)

theorem handler_types_not_checked_witness:
  "is_parameter_tag_compatible 4 (compute_parameter_tag_from_args_list [DoubleArg])"
  using handler_types_not_checked [of "[Literal ''/users/'', Param StringParam]" "[DoubleArg]" 4]
    tag_route [of "[Literal ''/users/'', Param StringParam]"]
  by (simp add: route_text_def)

end
