(* ===== verification/Crow_Trie.thy ===== *)
theory Crow_Trie
  imports Prelude "HOL-Library.Sublist"
begin

text \<open>
  The search tree of the router (\<open>Trie\<close> in \<open>api/include/external/crow_all.h\<close>): inserting the
  patterns of the rules, joining chains of nodes, and finding the rule of a URL.  The URL is walked
  by an index; here the functions are given what is left of it.  A \<open>double\<close> is its 64-bit
  representation and \<open>strtod\<close> is an argument of the search, giving the value and the number of
  characters converted, or \<open>None\<close> when nothing is converted or the value is out of range.
\<close>

subsection \<open>Nodes and parameters\<close>

datatype param_type = P_INT | P_UINT | P_DOUBLE | P_STRING | P_PATH

record routing_params =
  int_params :: "int list"
  uint_params :: "u64 list"
  double_params :: "u64 list"
  string_params :: "string list"

definition no_params :: routing_params where
  "no_params = \<lparr>int_params = [], uint_params = [], double_params = [], string_params = []\<rparr>"

record routing_result =
  found_rule :: nat
  blueprint_indices :: "u64 list"
  r_params :: routing_params

text \<open>\<open>param = None\<close> stands for \<open>ParamType::MAX\<close>, a node without a parameter.\<close>

definition INVALID_BP_ID :: u64 where
  "INVALID_BP_ID = - 1"

datatype node =
  Node (rule_index: nat) (blueprint_index: u64) (key: string) (param: "param_type option")
    (children: "node list")

definition new_node :: node where
  "new_node = Node 0 INVALID_BP_ID [] None []"

definition IsSimpleNode :: "node \<Rightarrow> bool" where
  "IsSimpleNode n \<longleftrightarrow>
     rule_index n = 0 \<and> blueprint_index n = INVALID_BP_ID \<and> length (children n) < 2 \<and>
     param n = None \<and> list_all (\<lambda>x. param x = None) (children n)"

subsection \<open>Inserting a pattern\<close>

definition paramTraits :: "(param_type \<times> string) list" where
  "paramTraits =
     [(P_INT, ''<int>''), (P_UINT, ''<uint>''), (P_DOUBLE, ''<float>''), (P_DOUBLE, ''<double>''),
      (P_STRING, ''<str>''), (P_STRING, ''<string>''), (P_PATH, ''<path>'')]"

definition find_trait :: "string \<Rightarrow> (param_type \<times> string) option" where
  "find_trait url = find (\<lambda>(t, name). prefix name url) paramTraits"

text \<open>The first character of a key; of an empty \<open>std::string\<close> it is the terminating NUL.\<close>

definition key_start :: "node \<Rightarrow> char" where
  "key_start n = (if key n = [] then CHR 0x00 else hd (key n))"

text \<open>The index of the first child with a property, or of the new child behind the others.\<close>

fun find_child :: "(node \<Rightarrow> bool) \<Rightarrow> node list \<Rightarrow> nat" where
  "find_child P [] = 0"
| "find_child P (n # ns) = (if P n then 0 else Suc (find_child P ns))"

text \<open>
  What \<open>add\<close> does: it inserts, it throws because the pattern has a handler already, or, at an
  unknown parameter kind, it repeats the same step forever.
\<close>

datatype add_result = Added node | HandlerExists | Repeats

fun set_child :: "node \<Rightarrow> nat \<Rightarrow> add_result \<Rightarrow> add_result" where
  "set_child (Node r b k p ch) j (Added c) = Added (Node r b k p (ch[j := c]))"
| "set_child n j res = res"

fun with_new_child :: "node \<Rightarrow> node \<Rightarrow> node" where
  "with_new_child (Node r b k p ch) c = Node r b k p (ch @ [c])"

lemma find_trait_prefix:
  assumes "find_trait url = Some (t, name)"
  shows "name \<noteq> []" "prefix name url"
  using assms by (auto simp: find_trait_def paramTraits_def split: if_splits)

lemma find_trait_shorter:
  "find_trait (c # url) = Some (t, name) \<Longrightarrow> Suc (length url) - length name \<le> length url"
  using find_trait_prefix(1) [of "c # url" t name] by (cases name) simp_all

function trie_add ::
  "nat \<Rightarrow> nat \<Rightarrow> u64 \<Rightarrow> nat \<Rightarrow> string \<Rightarrow> node \<Rightarrow> add_result" where
  "trie_add rule bp_len bp i [] (Node r b k p ch) =
     (if r \<noteq> 0 then HandlerExists else Added (Node rule b k p ch))"
| "trie_add rule bp_len bp i (c # url) n =
     (if c = CHR ''<'' then
        (case find_trait (c # url) of
           None \<Rightarrow> Repeats
         | Some (t, name) \<Rightarrow>
             (let j = find_child (\<lambda>x. param x = Some t) (children n);
                  n = (if j < length (children n) then n
                       else with_new_child n (Node 0 INVALID_BP_ID [] (Some t) []))
              in set_child n j
                   (trie_add rule bp_len bp (i + length name) (drop (length name) (c # url))
                     (children n ! j))))
      else
        (let j = find_child (\<lambda>x. key_start x = c) (children n);
             n = (if j < length (children n) then n
                  else with_new_child n
                    (Node 0
                      (if bp_len \<noteq> 0 \<and> bp \<noteq> INVALID_BP_ID \<and> i = bp_len then bp else INVALID_BP_ID)
                      [c] None []))
         in set_child n j (trie_add rule bp_len bp (i + 1) url (children n ! j))))"
  by pat_completeness auto

termination
  by (relation "measure (\<lambda>(rule, bp_len, bp, i, url, n). length url)")
    (auto dest!: find_trait_shorter simp: less_Suc_eq_le)

subsection \<open>Joining chains of nodes\<close>

function optimizeNode :: "node \<Rightarrow> node" where
  "optimizeNode (Node r b k p ch) =
     (if ch = [] then Node r b k p ch
      else if IsSimpleNode (Node r b k p ch) then
        (let c = hd ch in optimizeNode (Node (rule_index c) (blueprint_index c) (k @ key c) p (children c)))
      else Node r b k p (map optimizeNode ch))"
  by pat_completeness auto

lemma size_list_hd: "ch \<noteq> [] \<Longrightarrow> size (hd ch) < Suc (size_list size ch)"
  by (cases ch) simp_all

lemma size_children: "size_list size (children n) < size n"
  by (cases n) simp

termination optimizeNode
proof (relation "measure size", goal_cases)
  case (2 r b k p ch c)
  then show ?case using size_list_hd [of ch] size_children [of "hd ch"] by (cases "hd ch") (auto simp: Let_def)
next
  case (3 r b k p ch z)
  then show ?case by (auto simp: less_Suc_eq_le intro!: size_list_estimation')
qed simp

definition trie_validate :: "node \<Rightarrow> node option" where
  "trie_validate h =
     (if IsSimpleNode h
      then Some (Node (rule_index h) (blueprint_index h) (key h) (param h) (map optimizeNode (children h)))
      else None)"

definition trie_is_empty :: "node \<Rightarrow> bool" where
  "trie_is_empty h \<longleftrightarrow> children h = []"

subsection \<open>Searching\<close>

definition is_url_digit :: "char \<Rightarrow> bool" where
  "is_url_digit c \<longleftrightarrow> 48 \<le> (of_char c :: nat) \<and> (of_char c :: nat) \<le> 57"

definition digits_int :: "string \<Rightarrow> int" where
  "digits_int ds = foldl (\<lambda>v c. v * 10 + (of_char c - 48)) 0 ds"

text \<open>
  \<open>strtoll\<close> and \<open>strtoull\<close> in base 10 on a string that does not begin with white space: the value
  and the rest of the string, or \<open>None\<close> when there are no digits or the value is out of range.
\<close>

definition split_sign :: "string \<Rightarrow> bool \<times> string" where
  "split_sign s =
     (case s of [] \<Rightarrow> (False, s)
      | c # t \<Rightarrow> if c = CHR ''-'' then (True, t) else if c = CHR ''+'' then (False, t) else (False, s))"

definition strtoll :: "string \<Rightarrow> (int \<times> string) option" where
  "strtoll s =
     (let (neg, t) = split_sign s; ds = takeWhile is_url_digit t;
          v = (if neg then - digits_int ds else digits_int ds)
      in if ds = [] \<or> v < - (2 ^ 63) \<or> 2 ^ 63 \<le> v then None
         else Some (v, dropWhile is_url_digit t))"

definition strtoull :: "string \<Rightarrow> (u64 \<times> string) option" where
  "strtoull s =
     (let (neg, t) = split_sign s; ds = takeWhile is_url_digit t; v = digits_int ds
      in if ds = [] \<or> 2 ^ 64 \<le> v then None
         else Some (word_of_int (if neg then - v else v), dropWhile is_url_digit t))"

text \<open>
  What a child takes off the front of the URL, and the parameters with its own added; \<open>None\<close> when
  it does not fit.
\<close>

fun fragment ::
  "(string \<Rightarrow> (u64 \<times> nat) option) \<Rightarrow> param_type option \<Rightarrow> string \<Rightarrow> string \<Rightarrow> routing_params
   \<Rightarrow> (string \<times> routing_params) option" where
  "fragment strtod (Some P_INT) k url ps =
     (if is_url_digit (hd url) \<or> hd url = CHR ''+'' \<or> hd url = CHR ''-'' then
        (case strtoll url of
           None \<Rightarrow> None
         | Some (v, rest) \<Rightarrow> Some (rest, ps\<lparr>int_params := int_params ps @ [v]\<rparr>))
      else None)"
| "fragment strtod (Some P_UINT) k url ps =
     (if is_url_digit (hd url) \<or> hd url = CHR ''+'' then
        (case strtoull url of
           None \<Rightarrow> None
         | Some (v, rest) \<Rightarrow> Some (rest, ps\<lparr>uint_params := uint_params ps @ [v]\<rparr>))
      else None)"
| "fragment strtod (Some P_DOUBLE) k url ps =
     (if is_url_digit (hd url) \<or> hd url = CHR ''+'' \<or> hd url = CHR ''-'' \<or> hd url = CHR ''.'' then
        (case strtod url of
           None \<Rightarrow> None
         | Some (v, n) \<Rightarrow> Some (drop n url, ps\<lparr>double_params := double_params ps @ [v]\<rparr>))
      else None)"
| "fragment strtod (Some P_STRING) k url ps =
     (let s = takeWhile (\<lambda>c. c \<noteq> CHR ''/'') url
      in if s \<noteq> [] then Some (drop (length s) url, ps\<lparr>string_params := string_params ps @ [s]\<rparr>)
         else None)"
| "fragment strtod (Some P_PATH) k url ps =
     (if url \<noteq> [] then Some ([], ps\<lparr>string_params := string_params ps @ [url]\<rparr>) else None)"
| "fragment strtod None k url ps =
     (if prefix k url then Some (drop (length k) url, ps) else None)"

text \<open>
  The variables of the loop: \<open>found\<close>, \<open>found_BP\<close>, \<open>match_params\<close>, the blueprints of the path and
  \<open>found_fragment\<close>.  The parameters are pushed and popped around each child, so every child
  starts with those of its parent; the blueprints are popped also where none was pushed.  At the
  end of the URL they are moved away before the result is built from them.
\<close>

type_synonym search_state = "nat \<times> u64 list \<times> routing_params \<times> u64 list \<times> bool"

definition update_found ::
  "routing_result \<Rightarrow> nat \<times> u64 list \<times> routing_params \<Rightarrow> nat \<times> u64 list \<times> routing_params" where
  "update_found ret st =
     (case st of (found, found_BP, match_params) \<Rightarrow>
        if found_rule ret \<noteq> 0 \<and> (found = 0 \<or> found_rule ret < found)
        then (found_rule ret, blueprint_indices ret, r_params ret)
        else (found, blueprint_indices ret, match_params))"

fun find_node ::
    "(string \<Rightarrow> (u64 \<times> nat) option) \<Rightarrow> string \<Rightarrow> node \<Rightarrow> routing_params \<Rightarrow> u64 list
     \<Rightarrow> routing_result \<times> u64 list"
  and find_children ::
    "(string \<Rightarrow> (u64 \<times> nat) option) \<Rightarrow> string \<Rightarrow> node list \<Rightarrow> routing_params \<Rightarrow> search_state
     \<Rightarrow> search_state" where
  "find_node strtod url (Node r b k p ch) ps bps =
     (if url = [] then (\<lparr>found_rule = r, blueprint_indices = [], r_params = ps\<rparr>, [])
      else
        (case find_children strtod url ch ps (0, [], no_params, bps, False) of
           (found, found_BP, match_params, bps, found_fragment) \<Rightarrow>
             if found_fragment
             then (\<lparr>found_rule = found, blueprint_indices = found_BP, r_params = match_params\<rparr>, bps)
             else (\<lparr>found_rule = found, blueprint_indices = bps, r_params = match_params\<rparr>, [])))"
| "find_children strtod url [] ps st = st"
| "find_children strtod url (c # cs) ps (found, found_BP, match_params, bps, found_fragment) =
     (case fragment strtod (param c) (key c) url ps of
        None \<Rightarrow> find_children strtod url cs ps (found, found_BP, match_params, bps, found_fragment)
      | Some (rest, ps') \<Rightarrow>
          (let bps = (if blueprint_index c \<noteq> INVALID_BP_ID then bps @ [blueprint_index c] else bps);
               (ret, bps) = find_node strtod rest c ps' bps;
               (found, found_BP, match_params) = update_found ret (found, found_BP, match_params)
           in find_children strtod url cs ps (found, found_BP, match_params, butlast bps, True)))"

definition trie_find :: "(string \<Rightarrow> (u64 \<times> nat) option) \<Rightarrow> string \<Rightarrow> node \<Rightarrow> routing_result" where
  "trie_find strtod url h = fst (find_node strtod url h no_params [])"

subsection \<open>What a tree stands for\<close>

text \<open>
  A pattern as a list of characters and parameters, and how it is matched against a URL from left
  to right.  A tree stands for the patterns that lead from its root to the nodes with a rule.
\<close>

datatype route_token = Chr char | Par param_type

function tokens :: "string \<Rightarrow> route_token list option" where
  "tokens [] = Some []"
| "tokens (c # url) =
     (if c = CHR ''<'' then
        (case find_trait (c # url) of
           None \<Rightarrow> None
         | Some (t, name) \<Rightarrow> map_option (Cons (Par t)) (tokens (drop (length name) (c # url))))
      else map_option (Cons (Chr c)) (tokens url))"
  by pat_completeness auto

termination
  by (relation "measure length") (auto dest!: find_trait_shorter simp: less_Suc_eq_le)

fun match ::
  "(string \<Rightarrow> (u64 \<times> nat) option) \<Rightarrow> route_token list \<Rightarrow> string \<Rightarrow> routing_params
   \<Rightarrow> routing_params option" where
  "match strtod [] url ps = (if url = [] then Some ps else None)"
| "match strtod (t # ts) [] ps = None"
| "match strtod (Chr c # ts) (d # url) ps = (if c = d then match strtod ts url ps else None)"
| "match strtod (Par t # ts) (d # url) ps =
     (case fragment strtod (Some t) [] (d # url) ps of
        None \<Rightarrow> None | Some (rest, ps) \<Rightarrow> match strtod ts rest ps)"

definition label :: "node \<Rightarrow> route_token list" where
  "label n = (case param n of None \<Rightarrow> map Chr (key n) | Some t \<Rightarrow> [Par t])"

fun node_paths :: "node \<Rightarrow> (route_token list \<times> nat) list" where
  "node_paths (Node r b k p ch) =
     (if r \<noteq> 0 then [([], r)] else []) @
     concat (map (\<lambda>c. map (map_prod ((@) (label c)) id) (node_paths c)) ch)"

definition full_paths :: "node \<Rightarrow> (route_token list \<times> nat) list" where
  "full_paths c = map (map_prod ((@) (label c)) id) (node_paths c)"

lemma node_paths_full:
  "node_paths (Node r b k p ch) = (if r \<noteq> 0 then [([], r)] else []) @ concat (map full_paths ch)"
  by (simp add: full_paths_def [abs_def])

declare node_paths.simps [simp del]

fun node_wf :: "node \<Rightarrow> bool" where
  "node_wf (Node r b k p ch) = list_all (\<lambda>c. label c \<noteq> [] \<and> node_wf c) ch"

lemma node_paths_rules: "(t, i) \<in> set (node_paths n) \<Longrightarrow> i \<noteq> 0"
  by (induction n arbitrary: t rule: node_paths.induct)
    (auto simp: node_paths_full full_paths_def split: if_splits)

subsection \<open>The search finds the least matching rule\<close>

definition pick :: "nat \<times> 'p \<Rightarrow> nat \<times> 'p \<Rightarrow> nat \<times> 'p" where
  "pick a b = (if fst b \<noteq> 0 \<and> (fst a = 0 \<or> fst b < fst a) then b else a)"

definition best :: "(nat \<times> routing_params) list \<Rightarrow> nat \<times> routing_params" where
  "best cs = foldl pick (0, no_params) cs"

definition candidates ::
  "(string \<Rightarrow> (u64 \<times> nat) option) \<Rightarrow> string \<Rightarrow> routing_params \<Rightarrow> (route_token list \<times> nat) list
   \<Rightarrow> (nat \<times> routing_params) list" where
  "candidates strtod url ps = List.map_filter (\<lambda>(t, i). map_option (Pair i) (match strtod t url ps))"

lemma candidates_simps [simp]:
  "candidates strtod url ps [] = []"
  "candidates strtod url ps (xs @ ys) = candidates strtod url ps xs @ candidates strtod url ps ys"
  "candidates strtod url ps ((t, i) # xs) =
     (case match strtod t url ps of None \<Rightarrow> [] | Some q \<Rightarrow> [(i, q)]) @ candidates strtod url ps xs"
  by (simp_all add: candidates_def map_filter_def split: option.split)

lemma pick_assoc: "pick (pick a b) c = pick a (pick b c)"
  by (auto simp: pick_def)

lemma pick_none: "pick a (0, x) = a" "pick a (pick (0, x) b) = pick a b"
  by (auto simp: pick_def)

lemma foldl_pick: "foldl pick a cs = pick a (best cs)"
proof (induction cs arbitrary: a)
  case Nil
  then show ?case by (simp add: best_def pick_none)
next
  case (Cons c cs)
  have "best (c # cs) = foldl pick (pick (0, no_params) c) cs" by (simp add: best_def)
  then have "best (c # cs) = pick (pick (0, no_params) c) (best cs)" by (simp only: Cons)
  then show ?case by (simp add: Cons pick_assoc pick_none)
qed

lemma best_append: "pick a (best (xs @ ys)) = pick (pick a (best xs)) (best ys)"
  by (simp add: foldl_pick [symmetric])

lemma best_least:
  assumes "best cs = (r, ps)"
  shows "r \<noteq> 0 \<Longrightarrow> (r, ps) \<in> set cs" "(j, q) \<in> set cs \<Longrightarrow> j \<noteq> 0 \<Longrightarrow> r \<noteq> 0 \<and> r \<le> j"
proof -
  have "(r \<noteq> 0 \<longrightarrow> (r, ps) \<in> insert a (set cs)) \<and> (\<forall>(j, q) \<in> insert a (set cs). j \<noteq> 0 \<longrightarrow> r \<noteq> 0 \<and> r \<le> j)"
    if "foldl pick a cs = (r, ps)" for a
    using that
  proof (induction cs arbitrary: a)
    case (Cons c cs)
    then have "foldl pick (pick a c) cs = (r, ps)" by simp
    from Cons.IH [OF this] show ?case by (auto simp: pick_def split: if_splits)
  qed auto
  from this [of "(0, no_params)"] assms
  show "r \<noteq> 0 \<Longrightarrow> (r, ps) \<in> set cs" "(j, q) \<in> set cs \<Longrightarrow> j \<noteq> 0 \<Longrightarrow> r \<noteq> 0 \<and> r \<le> j"
    by (auto simp: best_def)
qed

lemma match_chars:
  "match strtod (map Chr k @ ts) url ps =
     (if prefix k url then match strtod ts (drop (length k) url) ps else None)"
proof (induction k arbitrary: url)
  case (Cons c k)
  then show ?case by (cases url) auto
qed simp

lemma fragment_key: "p \<noteq> None \<Longrightarrow> fragment strtod p k url ps = fragment strtod p [] url ps"
  by (cases p; cases "the p") simp_all

lemma match_label:
  assumes "url \<noteq> []"
  shows "match strtod (label c @ ts) url ps =
    (case fragment strtod (param c) (key c) url ps of
       None \<Rightarrow> None | Some (rest, ps) \<Rightarrow> match strtod ts rest ps)"
proof (cases "param c")
  case None
  then show ?thesis by (simp add: label_def match_chars)
next
  case (Some t)
  with assms show ?thesis
    using fragment_key [of "Some t" strtod "key c"] by (cases url) (simp_all add: label_def)
qed

lemma candidates_full:
  assumes "url \<noteq> []"
  shows "candidates strtod url ps (full_paths c) =
    (case fragment strtod (param c) (key c) url ps of
       None \<Rightarrow> [] | Some (rest, ps) \<Rightarrow> candidates strtod rest ps (node_paths c))"
proof -
  have "candidates strtod url ps (map (map_prod ((@) (label c)) id) xs) =
    (case fragment strtod (param c) (key c) url ps of
       None \<Rightarrow> [] | Some (rest, ps) \<Rightarrow> candidates strtod rest ps xs)" for xs
    by (induction xs) (auto simp: match_label [OF assms] split: option.split prod.split)
  then show ?thesis by (simp add: full_paths_def)
qed

lemma candidates_end:
  assumes "node_wf (Node r b k p ch)"
  shows "candidates strtod [] ps (node_paths (Node r b k p ch)) = (if r \<noteq> 0 then [(r, ps)] else [])"
proof -
  have "candidates strtod [] ps (map (map_prod ((@) (label c)) id) xs) = []" if "label c \<noteq> []" for c xs
    using that by (induction xs) (auto simp: neq_Nil_conv)
  then have "candidates strtod [] ps (concat (map full_paths ch)) = []"
    using assms by (induction ch) (simp_all add: full_paths_def)
  then show ?thesis by (simp add: node_paths_full)
qed

text \<open>The search, without the blueprints.\<close>

definition result_of :: "routing_result \<times> u64 list \<Rightarrow> nat \<times> routing_params" where
  "result_of x = (found_rule (fst x), r_params (fst x))"

definition state_of :: "search_state \<Rightarrow> nat \<times> routing_params" where
  "state_of st = (fst st, fst (snd (snd st)))"

lemma state_of_simp [simp]: "state_of (f, fb, mp, bps, fr) = (f, mp)"
  by (simp add: state_of_def)

lemma update_found_pick:
  "update_found ret (f, fb, mp) = (f', fb', mp') \<Longrightarrow> (f', mp') = pick (f, mp) (found_rule ret, r_params ret)"
  by (auto simp: update_found_def pick_def split: if_splits)

lemma find_node_least:
  "node_wf n \<Longrightarrow> pick a (result_of (find_node strtod url n ps bps)) =
     pick a (best (candidates strtod url ps (node_paths n)))"
  "list_all (\<lambda>c. label c \<noteq> [] \<and> node_wf c) ch \<Longrightarrow> url \<noteq> [] \<Longrightarrow>
   state_of (find_children strtod url ch ps st) =
     pick (state_of st) (best (candidates strtod url ps (concat (map full_paths ch))))"
proof (induction strtod url n ps bps and strtod url ch ps st arbitrary: a and
    rule: find_node_find_children.induct)
  case (1 strtod url r b k p ch ps bps)
  show ?case
  proof (cases "url = []")
    case True
    then show ?thesis
      using candidates_end [OF "1.prems"] by (simp add: result_of_def best_def pick_none pick_def)
  next
    case False
    obtain f fb mp bps' fr where st: "find_children strtod url ch ps (0, [], no_params, bps, False) = (f, fb, mp, bps', fr)"
      by (metis prod_cases5)
    have "(f, mp) = pick (0, no_params) (best (candidates strtod url ps (concat (map full_paths ch))))"
      using "1.IH" [OF False] "1.prems" False st by simp
    moreover have "candidates strtod url ps (node_paths (Node r b k p ch)) =
        candidates strtod url ps (concat (map full_paths ch))"
      using False by (cases url) (simp_all add: node_paths_full)
    moreover have "result_of (find_node strtod url (Node r b k p ch) ps bps) = (f, mp)"
      using False by (simp add: st result_of_def)
    ultimately show ?thesis by (simp only: pick_none)
  qed
next
  case (2 strtod url ps st)
  then show ?case by (cases st) (simp add: best_def pick_none)
next
  case (3 strtod url c cs ps f fb mp bps fr)
  let ?cs = "candidates strtod url ps (concat (map full_paths cs))"
  have rest: "candidates strtod url ps (concat (map full_paths (c # cs))) =
      candidates strtod url ps (full_paths c) @ ?cs" by simp
  show ?case
  proof (cases "fragment strtod (param c) (key c) url ps")
    case None
    then show ?thesis
      using "3.IH"(1) [OF None] "3.prems" unfolding rest by (simp add: candidates_full)
  next
    case (Some x)
    obtain url' ps' where x: "x = (url', ps')" by force
    define bps1 where "bps1 = (if blueprint_index c \<noteq> INVALID_BP_ID then bps @ [blueprint_index c] else bps)"
    obtain ret bps2 where ret: "find_node strtod url' c ps' bps1 = (ret, bps2)" by force
    obtain f' fb' mp' where upd: "update_found ret (f, fb, mp) = (f', fb', mp')" by (metis prod_cases3)
    have "(f', mp') = pick (f, mp) (result_of (ret, bps2))"
      using update_found_pick [OF upd] by (simp add: result_of_def)
    also have "\<dots> = pick (f, mp) (best (candidates strtod url' ps' (node_paths c)))"
      using "3.IH"(2) [OF Some x [symmetric] bps1_def, of "(f, mp)"] "3.prems" ret by simp
    finally have step: "(f', mp') = pick (f, mp) (best (candidates strtod url' ps' (node_paths c)))" .
    have "find_children strtod url (c # cs) ps (f, fb, mp, bps, fr) =
        find_children strtod url cs ps (f', fb', mp', butlast bps2, True)"
      by (simp add: Some x Let_def ret upd flip: bps1_def)
    moreover have "state_of (find_children strtod url cs ps (f', fb', mp', butlast bps2, True)) =
        pick (f', mp') (best ?cs)"
      using "3.IH"(3) [OF Some x [symmetric] bps1_def ret [symmetric] refl upd [symmetric] refl] "3.prems"
      by simp
    ultimately show ?thesis
      unfolding rest using "3.prems" by (simp add: best_append candidates_full Some x step)
  qed
qed

subsection \<open>Joining chains changes no path\<close>

declare optimizeNode.simps [simp del]

lemma full_paths_under:
  "label m = l @ label c \<Longrightarrow> node_paths m = node_paths c \<Longrightarrow>
   full_paths m = map (map_prod ((@) l) id) (full_paths c)"
  by (auto simp: full_paths_def)

lemma node_paths_same:
  "node_paths (Node (rule_index c) b k p (children c)) = node_paths c"
  by (cases c) (simp add: node_paths_full)

lemma simple_node:
  assumes "IsSimpleNode (Node r b k p ch)" "ch \<noteq> []"
  obtains c where "ch = [c]" "r = 0" "p = None" "param c = None"
  using assms by (cases ch) (auto simp: IsSimpleNode_def)

lemma node_paths_cong:
  assumes "\<And>d. d \<in> set ch \<Longrightarrow> full_paths (f d) = full_paths d"
  shows "node_paths (Node r b k p (map f ch)) = node_paths (Node r b k p ch)"
proof -
  have "map full_paths (map f ch) = map full_paths ch" using assms by simp
  then show ?thesis by (simp only: node_paths_full)
qed

lemma optimizeNode_full:
  "node_wf n \<Longrightarrow> label n \<noteq> [] \<Longrightarrow>
   full_paths (optimizeNode n) = full_paths n \<and> node_wf (optimizeNode n) \<and> label (optimizeNode n) \<noteq> []"
proof (induction n rule: optimizeNode.induct)
  case (1 r b k p ch)
  let ?n = "Node r b k p ch"
  consider "ch = []" | "ch \<noteq> []" "IsSimpleNode ?n" | "ch \<noteq> []" "\<not> IsSimpleNode ?n" by blast
  then show ?case
  proof cases
    case 1
    with "1.prems" show ?thesis by (simp add: optimizeNode.simps)
  next
    case 2
    obtain c where c: "ch = [c]" "r = 0" "p = None" "param c = None" by (rule simple_node [OF 2(2,1)])
    let ?m = "Node (rule_index c) (blueprint_index c) (k @ key c) p (children c)"
    have label: "label ?m = label ?n @ label c" by (simp add: label_def c)
    have "node_paths ?n = full_paths c" by (simp add: node_paths_full c)
    then have "full_paths ?n = map (map_prod ((@) (label ?n)) id) (full_paths c)"
      by (simp only: full_paths_def [of ?n])
    then have "full_paths ?m = full_paths ?n"
      using full_paths_under [OF label node_paths_same] by simp
    moreover have "node_wf c" using "1.prems"(1) by (simp add: c(1))
    then have "node_wf ?m" by (cases c) simp
    moreover have "label ?m \<noteq> []" unfolding label using "1.prems"(2) by blast
    moreover have "optimizeNode ?n = optimizeNode ?m"
      using 2 c(1) by (subst optimizeNode.simps) (simp add: Let_def)
    moreover have "c = hd ch" by (simp add: c(1))
    from "1.IH"(1) [OF 2(1,2) this]
    have "node_wf ?m \<Longrightarrow> label ?m \<noteq> [] \<Longrightarrow>
      full_paths (optimizeNode ?m) = full_paths ?m \<and> node_wf (optimizeNode ?m) \<and> label (optimizeNode ?m) \<noteq> []" .
    ultimately show ?thesis by presburger
  next
    case 3
    have ch: "full_paths (optimizeNode d) = full_paths d \<and> node_wf (optimizeNode d) \<and> label (optimizeNode d) \<noteq> []"
      if "d \<in> set ch" for d
      using "1.IH"(2) [OF 3(1,2) that] "1.prems" that by (auto simp: list_all_iff)
    have eq: "optimizeNode ?n = Node r b k p (map optimizeNode ch)"
      using 3 by (subst optimizeNode.simps) simp
    have "label (Node r b k p (map optimizeNode ch)) = label ?n" by (simp add: label_def split: option.split)
    moreover have "node_paths (Node r b k p (map optimizeNode ch)) = node_paths ?n"
      by (rule node_paths_cong) (use ch in simp)
    ultimately show ?thesis
      using "1.prems" ch unfolding eq by (simp add: full_paths_def list_all_iff)
  qed
qed

lemma trie_validate_paths:
  assumes "trie_validate h = Some h'" "node_wf h"
  shows "node_paths h' = node_paths h \<and> node_wf h'"
proof -
  obtain r b k p ch where h: "h = Node r b k p ch" by (cases h)
  have ch: "full_paths (optimizeNode d) = full_paths d \<and> node_wf (optimizeNode d) \<and> label (optimizeNode d) \<noteq> []"
    if "d \<in> set ch" for d
    using optimizeNode_full [of d] assms(2) that by (auto simp: h list_all_iff)
  then have "node_paths (Node r b k p (map optimizeNode ch)) = node_paths (Node r b k p ch)"
    by (intro node_paths_cong) simp
  with assms(1) ch show ?thesis
    by (auto simp: h trie_validate_def list_all_iff split: if_splits)
qed

subsection \<open>Inserting adds one path\<close>

text \<open>Trees before \<open>optimize\<close>: a node has one character or a parameter.\<close>

fun node_single :: "node \<Rightarrow> bool" where
  "node_single (Node r b k p ch) =
     list_all (\<lambda>c. length (key c) = (if param c = None then 1 else 0) \<and> node_single c) ch"

lemma node_single_wf: "node_single n \<Longrightarrow> node_wf n"
  by (induction n rule: node_single.induct) (auto simp: list_all_iff label_def split: option.splits)

lemma find_child_found:
  "find_child P ns < length ns \<Longrightarrow> P (ns ! find_child P ns)"
  by (induction ns) (auto split: if_splits)

lemma find_child_new: "\<not> find_child P ns < length ns \<Longrightarrow> find_child P ns = length ns"
  by (induction ns) (auto split: if_splits)

lemma set_concat_update:
  assumes "j < length ch" "set (f c) = insert x (set (f (ch ! j)))"
  shows "set (concat (map f (ch[j := c]))) = insert x (set (concat (map f ch)))"
  using assms
proof (induction ch arbitrary: j)
  case (Cons d ch)
  then show ?case by (cases j) auto
qed simp

lemma set_full_paths:
  "set (node_paths c') = insert (ts, i) (set (node_paths c)) \<Longrightarrow> label c' = label c \<Longrightarrow>
   set (full_paths c') = insert (label c @ ts, i) (set (full_paths c))"
  by (simp add: full_paths_def)

text \<open>One step of the insertion: the \<open>j\<close>-th child is replaced by what inserting the rest gives.\<close>

lemma set_child_adds:
  assumes "j < length ch" "set_child (Node r b k p ch) j (Added c) = Added n'"
    "set (node_paths c) = insert (ts, rule) (set (node_paths (ch ! j)))"
    "label c = label (ch ! j)" "node_single (Node r b k p ch)" "node_single c"
    "key c = key (ch ! j)" "param c = param (ch ! j)"
  shows "set (node_paths n') = insert (label c @ ts, rule) (set (node_paths (Node r b k p ch))) \<and>
    node_single n' \<and> key n' = k \<and> param n' = p"
proof -
  have n': "n' = Node r b k p (ch[j := c])" using assms(2) by simp
  have "set (full_paths c) = insert (label c @ ts, rule) (set (full_paths (ch ! j)))"
    using set_full_paths [OF assms(3,4)] assms(4) by simp
  from set_concat_update [OF assms(1), of full_paths, OF this]
  have "set (node_paths n') = insert (label c @ ts, rule) (set (node_paths (Node r b k p ch)))"
    by (auto simp: n' node_paths_full)
  moreover have "length (key (ch ! j)) = (if param (ch ! j) = None then 1 else 0)"
    using assms(1,5) by (simp add: list_all_iff)
  then have "node_single n'"
    using assms(5-8)
    by (auto simp: n' list_all_iff split: if_splits dest!: set_update_subset_insert [THEN subsetD])
  ultimately show ?thesis by (simp add: n')
qed

text \<open>The child to go on with, there already or new.\<close>

lemma child_for:
  assumes "node_single n" "P x" "length (key x) = (if param x = None then 1 else 0)"
    "rule_index x = 0" "children x = []"
  defines "j \<equiv> find_child P (children n)"
  defines "m \<equiv> (if j < length (children n) then n else with_new_child n x)"
  shows "j < length (children m)" "P (children m ! j)" "node_single m"
    "set (node_paths m) = set (node_paths n)" "key m = key n" "param m = param n"
proof -
  obtain r b k p ch where n: "n = Node r b k p ch" by (cases n)
  obtain b' k' p' where x: "x = Node 0 b' k' p' []" using assms(4,5) by (cases x) simp
  have "full_paths x = []" by (simp add: full_paths_def x node_paths_full)
  then show "j < length (children m)" "P (children m ! j)" "node_single m"
    "set (node_paths m) = set (node_paths n)" "key m = key n" "param m = param n"
    using assms(1-3) find_child_found [of P ch] find_child_new [of P ch]
    by (auto simp: m_def j_def n x node_paths_full nth_append)
qed

lemma set_child_added:
  "set_child m j res = Added n' \<Longrightarrow> \<exists>c. res = Added c"
  by (cases "(m, j, res)" rule: set_child.cases) auto

lemma child_single:
  assumes "node_single m" "j < length (children m)"
  shows "length (key (children m ! j)) = (if param (children m ! j) = None then 1 else 0)"
    "node_single (children m ! j)"
  using assms by (cases m; simp add: list_all_iff)+

lemma label_cong: "key c = key d \<Longrightarrow> param c = param d \<Longrightarrow> label c = label d"
  by (simp add: label_def split: option.split)

lemma trie_add_step:
  assumes "set_child m j res = Added n'" "j < length (children m)" "node_single m"
    and IH: "\<And>c. res = Added c \<Longrightarrow> \<exists>ts. tokens url = Some ts \<and> node_single c \<and>
      set (node_paths c) = insert (ts, rule) (set (node_paths (children m ! j))) \<and>
      key c = key (children m ! j) \<and> param c = param (children m ! j)"
  shows "\<exists>ts. tokens url = Some ts \<and> node_single n' \<and> key n' = key m \<and> param n' = param m \<and>
    set (node_paths n') = insert (label (children m ! j) @ ts, rule) (set (node_paths m))"
proof -
  obtain r b k p ch where m: "m = Node r b k p ch" by (cases m)
  obtain c where c: "res = Added c" using set_child_added [OF assms(1)] by blast
  from IH [OF c] obtain ts where ts: "tokens url = Some ts" "node_single c"
    "set (node_paths c) = insert (ts, rule) (set (node_paths (ch ! j)))"
    "key c = key (ch ! j)" "param c = param (ch ! j)" by (auto simp: m)
  have "label c = label (ch ! j)" by (rule label_cong) (simp_all add: ts)
  with ts assms(1-3) set_child_adds [of j ch r b k p c n' ts rule] show ?thesis by (simp add: m c)
qed

lemma trie_add_paths:
  "trie_add rule bp_len bp i url n = Added n' \<Longrightarrow> node_single n \<Longrightarrow> rule \<noteq> 0 \<Longrightarrow> CHR 0x00 \<notin> set url \<Longrightarrow>
   \<exists>ts. tokens url = Some ts \<and> node_single n' \<and>
     set (node_paths n') = insert (ts, rule) (set (node_paths n)) \<and> key n' = key n \<and> param n' = param n"
proof (induction rule bp_len bp i url n arbitrary: n' rule: trie_add.induct)
  case (1 rule bp_len bp i r b k p ch)
  then have "r = 0" "n' = Node rule b k p ch" by (simp_all split: if_splits)
  with "1.prems"(2,3) show ?case by (simp add: node_paths_full)
next
  case (2 rule bp_len bp i c url n)
  show ?case
  proof (cases "c = CHR ''<''")
    case True
    with "2.prems"(1) obtain t name where t: "find_trait (c # url) = Some (t, name)"
      by (auto split: option.splits)
    define P where "P = (\<lambda>x. param x = Some t)"
    define x where "x = Node 0 INVALID_BP_ID [] (Some t) []"
    define j where "j = find_child P (children n)"
    define m where "m = (if j < length (children n) then n else with_new_child n x)"
    have m: "j < length (children m)" "P (children m ! j)" "node_single m"
      "set (node_paths m) = set (node_paths n)" "key m = key n" "param m = param n"
      unfolding m_def j_def by (rule child_for; simp add: P_def x_def "2.prems"(2))+
    have res: "set_child m j (trie_add rule bp_len bp (i + length name) (drop (length name) (c # url))
        (children m ! j)) = Added n'"
      using "2.prems"(1) t True unfolding m_def j_def P_def x_def by (simp add: Let_def split del: if_split)
    have "CHR 0x00 \<notin> set (drop (length name) (c # url))"
      using "2.prems"(4) by (meson in_set_dropD)
    then have "\<exists>ts. tokens (drop (length name) (c # url)) = Some ts \<and> node_single n' \<and> key n' = key m \<and>
        param n' = param m \<and> set (node_paths n') = insert (label (children m ! j) @ ts, rule) (set (node_paths m))"
      using "2.IH"(1) [OF True t refl j_def [unfolded P_def] m_def [unfolded x_def]] "2.prems"(3)
        child_single [OF m(3,1)]
      by (intro trie_add_step [OF res m(1,3)]) simp
    moreover have "label (children m ! j) = [Par t]" using m(2) by (simp add: P_def label_def)
    ultimately show ?thesis using True t by (auto simp: m)
  next
    case False
    define P where "P = (\<lambda>x. key_start x = c)"
    define x where "x = Node 0
       (if bp_len \<noteq> 0 \<and> bp \<noteq> INVALID_BP_ID \<and> i = bp_len then bp else INVALID_BP_ID) [c] None []"
    define j where "j = find_child P (children n)"
    define m where "m = (if j < length (children n) then n else with_new_child n x)"
    have m: "j < length (children m)" "P (children m ! j)" "node_single m"
      "set (node_paths m) = set (node_paths n)" "key m = key n" "param m = param n"
      unfolding m_def j_def by (rule child_for; simp add: P_def x_def key_start_def "2.prems"(2))+
    have res: "set_child m j (trie_add rule bp_len bp (i + 1) url (children m ! j)) = Added n'"
      using "2.prems"(1) False unfolding m_def j_def P_def x_def by (simp add: Let_def split del: if_split)
    have "\<exists>ts. tokens url = Some ts \<and> node_single n' \<and> key n' = key m \<and>
        param n' = param m \<and> set (node_paths n') = insert (label (children m ! j) @ ts, rule) (set (node_paths m))"
      using "2.IH"(2) [OF False j_def [unfolded P_def] m_def [unfolded x_def]] "2.prems"(3,4)
        child_single [OF m(3,1)]
      by (intro trie_add_step [OF res m(1,3)]) simp
    moreover have "c \<noteq> CHR 0x00" using "2.prems"(4) by auto
    then have "label (children m ! j) = [Chr c]"
      using m(2) child_single(1) [OF m(3,1)]
      by (cases "key (children m ! j)") (auto simp: P_def key_start_def label_def split: if_splits)
    ultimately show ?thesis using False by (auto simp: m)
  qed
qed

subsection \<open>The tree of a list of patterns\<close>

text \<open>Patterns with their rules inserted one after the other, until one cannot be.\<close>

fun trie_adds :: "(string \<times> nat) list \<Rightarrow> node \<Rightarrow> add_result" where
  "trie_adds [] n = Added n"
| "trie_adds ((url, rule) # es) n =
     (case trie_add rule 0 INVALID_BP_ID 0 url n of Added n' \<Rightarrow> trie_adds es n' | res \<Rightarrow> res)"

lemma trie_adds_append:
  "trie_adds (es @ fs) n = (case trie_adds es n of Added n' \<Rightarrow> trie_adds fs n' | res \<Rightarrow> res)"
  by (induction es n rule: trie_adds.induct) (auto split: add_result.split)

definition route_match :: "(string \<Rightarrow> (u64 \<times> nat) option) \<Rightarrow> string \<Rightarrow> string \<Rightarrow> routing_params option" where
  "route_match strtod pat url =
     (case tokens pat of None \<Rightarrow> None | Some ts \<Rightarrow> match strtod ts url no_params)"

definition entries_ok :: "(string \<times> nat) list \<Rightarrow> bool" where
  "entries_ok es \<longleftrightarrow> (\<forall>(pat, i) \<in> set es. i \<noteq> 0 \<and> CHR 0x00 \<notin> set pat)"

lemma entries_ok_simps [simp]:
  "entries_ok []" "entries_ok ((pat, i) # es) \<longleftrightarrow> i \<noteq> 0 \<and> CHR 0x00 \<notin> set pat \<and> entries_ok es"
  by (auto simp: entries_ok_def)

lemma trie_adds_paths:
  "trie_adds es n = Added n' \<Longrightarrow> node_single n \<Longrightarrow> entries_ok es \<Longrightarrow>
   node_single n' \<and>
   set (node_paths n') = set (node_paths n) \<union> {(ts, i). \<exists>pat. (pat, i) \<in> set es \<and> tokens pat = Some ts}"
proof (induction es n rule: trie_adds.induct)
  case (2 url rule es n)
  obtain m where m: "trie_add rule 0 INVALID_BP_ID 0 url n = Added m"
    using "2.prems"(1) by (auto split: add_result.splits)
  from trie_add_paths [OF this "2.prems"(2)] "2.prems"(3) obtain ts where ts: "tokens url = Some ts"
    "node_single m" "set (node_paths m) = insert (ts, rule) (set (node_paths n))" by auto
  from "2.IH" [OF m] "2.prems" m ts show ?case by auto
qed auto

lemma node_paths_new [simp]: "node_paths new_node = []" "node_single new_node"
  by (simp_all add: new_node_def node_paths_full)

lemma trie_find_aux:
  fixes strtod :: "string \<Rightarrow> (u64 \<times> nat) option" and url :: string
  assumes "trie_adds es new_node = Added h" "trie_validate h = Some h'" "entries_ok es"
  defines "res \<equiv> trie_find strtod url h'"
  shows "found_rule res \<noteq> 0 \<Longrightarrow>
      \<exists>pat. (pat, found_rule res) \<in> set es \<and> route_match strtod pat url = Some (r_params res)"
    "(pat, i) \<in> set es \<Longrightarrow> route_match strtod pat url \<noteq> None \<Longrightarrow> found_rule res \<noteq> 0 \<and> found_rule res \<le> i"
proof -
  have h: "node_single h"
      "set (node_paths h) = {(ts, i). \<exists>pat. (pat, i) \<in> set es \<and> tokens pat = Some ts}"
    using trie_adds_paths [OF assms(1) _ assms(3)] by auto
  have h': "node_paths h' = node_paths h" "node_wf h'"
    using trie_validate_paths [OF assms(2) node_single_wf [OF h(1)]] by auto
  have cands: "(j, q) \<in> set (candidates strtod url no_params (node_paths h')) \<longleftrightarrow>
      (\<exists>pat. (pat, j) \<in> set es \<and> route_match strtod pat url = Some q)" for j q
    by (auto simp: candidates_def map_filter_def h'(1) h(2) route_match_def image_iff split: option.splits)
      force+
  let ?b = "best (candidates strtod url no_params (node_paths h'))"
  have "?b = pick (0, no_params) ?b" unfolding foldl_pick [symmetric] by (simp only: best_def)
  also have "\<dots> = pick (0, no_params) (found_rule res, r_params res)"
    using find_node_least(1) [OF h'(2), of "(0, no_params)" strtod url no_params "[]"]
    by (simp add: res_def trie_find_def result_of_def)
  finally have b: "?b = (found_rule res, if found_rule res = 0 then no_params else r_params res)"
    by (simp add: pick_def)
  note least = best_least [OF b]
  show "\<exists>pat. (pat, found_rule res) \<in> set es \<and> route_match strtod pat url = Some (r_params res)"
    if "found_rule res \<noteq> 0" using least(1) [OF that] that by (simp add: cands)
  show "found_rule res \<noteq> 0 \<and> found_rule res \<le> i"
    if pat: "(pat, i) \<in> set es" "route_match strtod pat url \<noteq> None"
  proof -
    obtain q where "route_match strtod pat url = Some q" using pat(2) by blast
    with pat(1) have "(i, q) \<in> set (candidates strtod url no_params (node_paths h'))"
      unfolding cands by blast
    moreover have "i \<noteq> 0" using assms(3) pat(1) by (auto simp: entries_ok_def)
    ultimately show ?thesis by (rule least(2))
  qed
qed

text \<open>
  C33. The search of the optimised tree finds, for any URL, the least index of a rule whose pattern
  matches the URL from left to right, with the parameters of that match; it finds none exactly when
  no pattern matches.
\<close>

theorem trie_find_least_match:
  assumes "trie_adds es new_node = Added h" "trie_validate h = Some h'" "entries_ok es"
    "trie_find strtod url h' = res"
  shows "(found_rule res = 0 \<longleftrightarrow> (\<forall>(pat, i) \<in> set es. route_match strtod pat url = None)) \<and>
    (found_rule res \<noteq> 0 \<longrightarrow>
      (\<exists>pat. (pat, found_rule res) \<in> set es \<and> route_match strtod pat url = Some (r_params res)) \<and>
      (\<forall>(pat, i) \<in> set es. route_match strtod pat url \<noteq> None \<longrightarrow> found_rule res \<le> i))"
  using trie_find_aux [OF assms(1-3), where strtod = strtod and url = url] unfolding assms(4) by fastforce

definition no_double :: "string \<Rightarrow> (u64 \<times> nat) option" where
  "no_double s = None"

definition sample_rules :: "(string \<times> nat) list" where
  "sample_rules = [(''/ab'', 2), (''/<int>/x'', 3), (''/<string>/x'', 4)]"

definition sample_tree :: node where
  "sample_tree =
     (case trie_adds sample_rules new_node of
        Added h \<Rightarrow> (case trie_validate h of Some h' \<Rightarrow> h' | None \<Rightarrow> new_node)
      | _ \<Rightarrow> new_node)"

theorem trie_find_least_match_witness:
  "found_rule (trie_find no_double ''/-7/x'' sample_tree) = 3 \<and>
   (\<exists>pat. (pat, 3) \<in> set sample_rules \<and>
     route_match no_double pat ''/-7/x'' = Some (r_params (trie_find no_double ''/-7/x'' sample_tree)))"
proof -
  define h where "h = (case trie_adds sample_rules new_node of Added h \<Rightarrow> h | _ \<Rightarrow> new_node)"
  have "(case trie_adds sample_rules new_node of Added h \<Rightarrow> True | _ \<Rightarrow> False)" by code_simp
  then have h: "trie_adds sample_rules new_node = Added h"
    by (auto simp: h_def split: add_result.splits)
  have "case trie_adds sample_rules new_node of Added h \<Rightarrow> trie_validate h \<noteq> None | _ \<Rightarrow> False" by code_simp
  then have h': "trie_validate h = Some sample_tree"
    by (auto simp: h_def sample_tree_def split: add_result.splits)
  have ok: "entries_ok sample_rules" by (simp add: sample_rules_def)
  have "found_rule (trie_find no_double ''/-7/x'' sample_tree) = 3" by code_simp
  with trie_find_least_match [OF h h' ok refl, of no_double "''/-7/x''"] show ?thesis by simp
qed

end
