(* ===== verification/Crow_Router.thy ===== *)
theory Crow_Router
  imports Crow_Trie
begin

text \<open>
  The router (\<open>Router\<close>, \<open>BaseRule\<close> and \<open>RuleParameterTraits::methods\<close> in
  \<open>api/include/external/crow_all.h\<close>) for an application without blueprints: rules are validated and
  entered into one search tree per method, and a request is answered, redirected or given to the
  handler of a rule.  A handler is of any type \<open>'h\<close>; it is run by the caller.
\<close>

subsection \<open>Methods\<close>

text \<open>An \<open>HTTPMethod\<close> is its number.\<close>

definition Get :: nat where "Get = 1"
definition Head :: nat where "Head = 2"
definition Post :: nat where "Post = 3"
definition Options :: nat where "Options = 6"
definition Patch :: nat where "Patch = 8"
definition Unlink :: nat where "Unlink = 32"
definition Source :: nat where "Source = 33"
definition InternalMethodCount :: nat where "InternalMethodCount = 34"

lemmas method_numbers = Get_def Head_def Post_def Options_def Patch_def Unlink_def Source_def
  InternalMethodCount_def

definition method_strings :: "string list" where
  "method_strings =
     [''DELETE'', ''GET'', ''HEAD'', ''POST'', ''PUT'', ''CONNECT'', ''OPTIONS'', ''TRACE'', ''PATCH'',
      ''PURGE'', ''COPY'', ''LOCK'', ''MKCOL'', ''MOVE'', ''PROPFIND'', ''PROPPATCH'', ''SEARCH'',
      ''UNLOCK'', ''BIND'', ''REBIND'', ''UNBIND'', ''ACL'', ''REPORT'', ''MKACTIVITY'', ''CHECKOUT'',
      ''MERGE'', ''M-SEARCH'', ''NOTIFY'', ''SUBSCRIBE'', ''UNSUBSCRIBE'', ''MKCALENDAR'', ''LINK'',
      ''UNLINK'', ''SOURCE'']"

definition method_name :: "nat \<Rightarrow> string" where
  "method_name m = (if m < InternalMethodCount then method_strings ! m else ''invalid'')"

text \<open>
  The methods of a rule are the bits of a 32-bit number.  Setting a method shifts an \<open>int\<close>, which is
  defined for the methods below 32 only.
\<close>

fun rule_mask :: "nat list \<Rightarrow> u32" where
  "rule_mask [] = push_bit Get 1"
| "rule_mask [m] = push_bit m 1"
| "rule_mask (m # ms) = or (rule_mask ms) (push_bit m 1)"

fun foreach_method_from :: "nat \<Rightarrow> nat \<Rightarrow> u32 \<Rightarrow> u32 \<Rightarrow> nat list" where
  "foreach_method_from 0 m method_bit methods = []"
| "foreach_method_from (Suc left) m method_bit methods =
     (if and methods method_bit \<noteq> 0 then [m] else []) @
     foreach_method_from left (Suc m) (push_bit 1 method_bit) methods"

definition foreach_method :: "u32 \<Rightarrow> nat list" where
  "foreach_method methods = foreach_method_from InternalMethodCount 0 1 methods"

subsection \<open>Rules and the trees of the methods\<close>

record 'h route_rule =
  rule_path :: string
  rule_methods :: u32
  rule_handler :: "'h option"

record 'h per_method =
  rules :: "'h route_rule option list"
  trie :: node

definition new_per_method :: "'h per_method" where
  "new_per_method = \<lparr>rules = [None, None], trie = new_node\<rparr>"

record 'h router =
  per_methods :: "'h per_method list"
  catchall_rule :: "'h option"

text \<open>What makes registering throw, and the pattern at which it does not return.\<close>

datatype router_error = Empty_rule | No_leading_slash | No_handler | Handler_already_exists | Never_returns | Head_not_simple

definition RULE_SPECIAL_REDIRECT_SLASH :: nat where
  "RULE_SPECIAL_REDIRECT_SLASH = 1"

definition rule_validate :: "'h route_rule \<Rightarrow> router_error option" where
  "rule_validate r =
     (if rule_path r = [] then Some Empty_rule
      else if hd (rule_path r) \<noteq> CHR ''/'' then Some No_leading_slash
      else if rule_handler r = None then Some No_handler
      else None)"

definition added :: "add_result \<Rightarrow> router_error + node" where
  "added res =
     (case res of Added n \<Rightarrow> Inr n | HandlerExists \<Rightarrow> Inl Handler_already_exists | Repeats \<Rightarrow> Inl Never_returns)"

definition has_trailing_slash :: "string \<Rightarrow> bool" where
  "has_trailing_slash rule \<longleftrightarrow> 1 < length rule \<and> last rule = CHR ''/''"

definition add_to_method :: "'h route_rule \<Rightarrow> 'h per_method \<Rightarrow> router_error + 'h per_method" where
  "add_to_method r pm =
     (let rs = rules pm @ [Some r] in
      case added (trie_add (length rs - 1) 0 INVALID_BP_ID 0 (rule_path r) (trie pm)) of
        Inl e \<Rightarrow> Inl e
      | Inr t \<Rightarrow>
          (if has_trailing_slash (rule_path r)
           then (case added (trie_add RULE_SPECIAL_REDIRECT_SLASH 0 INVALID_BP_ID 0 (butlast (rule_path r)) t) of
                   Inl e \<Rightarrow> Inl e | Inr t \<Rightarrow> Inr \<lparr>rules = rs, trie = t\<rparr>)
           else Inr \<lparr>rules = rs, trie = t\<rparr>))"

fun internal_add_rule_object ::
  "'h route_rule \<Rightarrow> nat list \<Rightarrow> 'h per_method list \<Rightarrow> router_error + 'h per_method list" where
  "internal_add_rule_object r [] pms = Inr pms"
| "internal_add_rule_object r (m # ms) pms =
     (case add_to_method r (pms ! m) of
        Inl e \<Rightarrow> Inl e
      | Inr pm \<Rightarrow> internal_add_rule_object r ms (pms[m := pm]))"

fun validate_rules :: "'h route_rule list \<Rightarrow> 'h per_method list \<Rightarrow> router_error + 'h per_method list" where
  "validate_rules [] pms = Inr pms"
| "validate_rules (r # rs) pms =
     (case rule_validate r of
        Some e \<Rightarrow> Inl e
      | None \<Rightarrow>
          (case internal_add_rule_object r (foreach_method (rule_methods r)) pms of
             Inl e \<Rightarrow> Inl e
           | Inr pms \<Rightarrow> validate_rules rs pms))"

fun validate_tries :: "'h per_method list \<Rightarrow> router_error + 'h per_method list" where
  "validate_tries [] = Inr []"
| "validate_tries (pm # pms) =
     (case trie_validate (trie pm) of
        None \<Rightarrow> Inl Head_not_simple
      | Some t \<Rightarrow> (case validate_tries pms of Inl e \<Rightarrow> Inl e | Inr pms \<Rightarrow> Inr (pm\<lparr>trie := t\<rparr> # pms)))"

definition router_validate :: "'h route_rule list \<Rightarrow> router_error + 'h per_method list" where
  "router_validate all_rules =
     (case validate_rules all_rules (replicate InternalMethodCount new_per_method) of
        Inl e \<Rightarrow> Inl e | Inr pms \<Rightarrow> validate_tries pms)"

subsection \<open>Handling a request\<close>

record http_response =
  code :: nat
  headers :: "(string \<times> string) list"
  skip_body :: bool

definition response :: "nat \<Rightarrow> http_response" where
  "response c = \<lparr>code = c, headers = [], skip_body = False\<rparr>"

text \<open>\<open>found_method = None\<close>: the method of the result is not set.\<close>

record handle_result = routing_result +
  found_method :: "nat option"
  catch_all :: bool

definition not_found :: handle_result where
  "not_found =
     \<lparr>found_rule = 0, blueprint_indices = [], r_params = no_params,
      found_method = Some InternalMethodCount, catch_all = False\<rparr>"

definition find_for ::
  "(string \<Rightarrow> (u64 \<times> nat) option) \<Rightarrow> 'h per_method list \<Rightarrow> nat \<Rightarrow> string \<Rightarrow> handle_result" where
  "find_for strtod pms m url =
     (let res = trie_find strtod url (trie (pms ! m))
      in \<lparr>found_rule = found_rule res, blueprint_indices = blueprint_indices res,
          r_params = r_params res, found_method = None, catch_all = False\<rparr>)"

definition allow_list :: "(nat \<Rightarrow> bool) \<Rightarrow> string" where
  "allow_list P =
     ''OPTIONS, HEAD'' @
     concat (map (\<lambda>i. '', '' @ method_name i)
       (filter (\<lambda>i. i \<noteq> Head \<and> P i) [0..<InternalMethodCount]))"

definition no_content :: "string \<Rightarrow> http_response" where
  "no_content allow = (response 204)\<lparr>headers := [(''Allow'', allow)]\<rparr>"

definition handle_initial ::
  "(string \<Rightarrow> (u64 \<times> nat) option) \<Rightarrow> 'h per_method list \<Rightarrow> nat \<Rightarrow> string \<Rightarrow> http_response
   \<Rightarrow> handle_result \<times> http_response" where
  "handle_initial strtod pms m url res =
     (if InternalMethodCount \<le> m then (not_found, res)
      else if m = Head then
        (let found = find_for strtod pms m url in
         if found_rule found \<noteq> 0 then (found\<lparr>found_method := Some m\<rparr>, res\<lparr>skip_body := True\<rparr>)
         else
           (let found = find_for strtod pms Get url in
            if found_rule found = 0 then (found, response 404)
            else (found\<lparr>found_method := Some Get\<rparr>, res\<lparr>skip_body := True\<rparr>)))
      else if m = Options then
        (if url = ''/*'' then
           (not_found\<lparr>found_method := Some m\<rparr>,
            no_content (allow_list (\<lambda>i. \<not> trie_is_empty (trie (pms ! i)))))
         else
           (let matched = (\<lambda>i. found_rule (find_for strtod pms i url) \<noteq> 0) in
            if \<exists>i \<in> set [0..<InternalMethodCount]. matched i
            then (not_found\<lparr>found_method := Some m\<rparr>, no_content (allow_list matched))
            else (not_found, response 404)))
      else
        (let found = find_for strtod pms m url in
         if found_rule found = 0 then
           (if \<exists>i \<in> set [0..<InternalMethodCount]. found_rule (find_for strtod pms i url) \<noteq> 0
            then (found\<lparr>catch_all := True\<rparr>, res\<lparr>code := 405\<rparr>)
            else (found\<lparr>catch_all := True\<rparr>, res\<lparr>code := 404\<rparr>))
         else (found\<lparr>found_method := Some m\<rparr>, res)))"

text \<open>
  What becomes of a request: a response is sent as it is, a handler is run on the request and the
  response so far, or \<open>Corrupted\<close>: the exception of a rule index out of range, or a method that is
  not set.
\<close>

datatype 'h outcome =
  Respond http_response
| Run_catchall 'h http_response
| Run_rule "'h route_rule" routing_params http_response
| Corrupted

definition handle :: "'h router \<Rightarrow> string \<Rightarrow> http_response \<Rightarrow> handle_result \<Rightarrow> 'h outcome" where
  "handle rt url res found =
     (if catch_all found then
        (case catchall_rule rt of Some h \<Rightarrow> Run_catchall h res | None \<Rightarrow> Respond res)
      else
        (case found_method found of
           None \<Rightarrow> Corrupted
         | Some m \<Rightarrow>
             (let rs = rules (per_methods rt ! m) in
              if length rs \<le> found_rule found then Corrupted
              else if found_rule found = RULE_SPECIAL_REDIRECT_SLASH then
                Respond ((response 301)\<lparr>headers := [(''Location'', url @ ''/'')]\<rparr>)
              else
                (case rs ! found_rule found of
                   None \<Rightarrow> Corrupted | Some r \<Rightarrow> Run_rule r (r_params found) res))))"

text \<open>\<open>Connection::handle_url\<close>: without a rule the response of \<open>handle_initial\<close> is sent at once.\<close>

definition serve_request :: "(string \<Rightarrow> (u64 \<times> nat) option) \<Rightarrow> 'h router \<Rightarrow> nat \<Rightarrow> string \<Rightarrow> 'h outcome" where
  "serve_request strtod rt m url =
     (case handle_initial strtod (per_methods rt) m url (response 200) of
        (found, res) \<Rightarrow>
          if found_rule found = 0 \<and> \<not> catch_all found then Respond res
          else handle rt url res found)"

subsection \<open>What the router promises\<close>

definition has_method :: "nat \<Rightarrow> 'h route_rule \<Rightarrow> bool" where
  "has_method m r \<longleftrightarrow> m < 32 \<and> bit (rule_methods r) m"

definition rules_for :: "nat \<Rightarrow> 'h route_rule list \<Rightarrow> 'h route_rule list" where
  "rules_for m rs = filter (has_method m) rs"

text \<open>The first rule that matches, with its parameters.\<close>

fun first_match ::
  "(string \<Rightarrow> (u64 \<times> nat) option) \<Rightarrow> string \<Rightarrow> 'h route_rule list \<Rightarrow> ('h route_rule \<times> routing_params) option" where
  "first_match strtod url [] = None"
| "first_match strtod url (r # rs) =
     (case route_match strtod (rule_path r) url of
        Some q \<Rightarrow> Some (r, q) | None \<Rightarrow> first_match strtod url rs)"

text \<open>A rule ends in a slash, and the URL matches it but for the slash.\<close>

definition redirected :: "(string \<Rightarrow> (u64 \<times> nat) option) \<Rightarrow> string \<Rightarrow> 'h route_rule list \<Rightarrow> bool" where
  "redirected strtod url rs \<longleftrightarrow>
     (\<exists>r \<in> set rs. has_trailing_slash (rule_path r) \<and>
       route_match strtod (butlast (rule_path r)) url \<noteq> None)"

definition routed :: "(string \<Rightarrow> (u64 \<times> nat) option) \<Rightarrow> nat \<Rightarrow> string \<Rightarrow> 'h route_rule list \<Rightarrow> bool" where
  "routed strtod m url rs \<longleftrightarrow>
     redirected strtod url (rules_for m rs) \<or> first_match strtod url (rules_for m rs) \<noteq> None"

definition plain_rules :: "'h route_rule list \<Rightarrow> bool" where
  "plain_rules rs \<longleftrightarrow> list_all (\<lambda>r. CHR 0x00 \<notin> set (rule_path r)) rs"

subsection \<open>The methods of a rule\<close>

lemma and_push_bit: "and (w :: u32) (push_bit n 1) \<noteq> 0 \<longleftrightarrow> n < 32 \<and> bit w n"
proof
  assume "and w (push_bit n 1) \<noteq> 0"
  then obtain k where "bit (and w (push_bit n 1)) k" by (metis bit_eqI bit_0_eq bot_apply bot_bool_def)
  then show "n < 32 \<and> bit w n"
    by (auto simp: bit_simps dest: bit_imp_le_length)
next
  assume "n < 32 \<and> bit w n"
  then have "bit (and w (push_bit n 1)) n" by (simp add: bit_simps)
  then show "and w (push_bit n 1) \<noteq> 0" by auto
qed

lemma foreach_method_bits:
  "foreach_method_from left m (push_bit m 1) w = filter (\<lambda>i. i < 32 \<and> bit w i) [m..<m + left]"
proof (induction left arbitrary: m)
  case (Suc left)
  have "push_bit 1 (push_bit m 1) = (push_bit (Suc m) 1 :: u32)" by (simp add: push_bit_push_bit)
  then have rest: "foreach_method_from left (Suc m) (push_bit 1 (push_bit m 1)) w =
      filter (\<lambda>i. i < 32 \<and> bit w i) [Suc m..<Suc m + left]"
    by (simp only: Suc)
  have upt: "[m..<m + Suc left] = m # [Suc m..<Suc m + left]" by (simp add: upt_conv_Cons)
  show ?case unfolding foreach_method_from.simps rest upt and_push_bit by simp
qed simp

lemma foreach_method_eq: "foreach_method w = filter (\<lambda>i. i < 32 \<and> bit w i) [0..<34]"
  using foreach_method_bits [of 34 0 w] by (simp add: foreach_method_def InternalMethodCount_def)

lemma foreach_method_set [simp]: "m \<in> set (foreach_method (rule_methods r)) \<longleftrightarrow> has_method m r"
  by (auto simp: foreach_method_eq has_method_def)

lemma foreach_method_props: "distinct (foreach_method w)" "m \<in> set (foreach_method w) \<Longrightarrow> m < 34"
  by (auto simp: foreach_method_eq)

subsection \<open>The tree of a method holds its rules\<close>

text \<open>The patterns that go into a tree, with their indices from \<open>i\<close> on.\<close>

fun entries :: "nat \<Rightarrow> 'h route_rule list \<Rightarrow> (string \<times> nat) list" where
  "entries i [] = []"
| "entries i (r # rs) =
     (rule_path r, i) #
     (if has_trailing_slash (rule_path r) then [(butlast (rule_path r), RULE_SPECIAL_REDIRECT_SLASH)] else []) @
     entries (Suc i) rs"

lemma entries_append: "entries i (rs @ rs') = entries i rs @ entries (i + length rs) rs'"
  by (induction rs arbitrary: i) simp_all

lemma entries_set:
  "(pat, j) \<in> set (entries i rs) \<longleftrightarrow>
     (\<exists>k<length rs. pat = rule_path (rs ! k) \<and> j = i + k) \<or>
     (\<exists>r\<in>set rs. has_trailing_slash (rule_path r) \<and> pat = butlast (rule_path r) \<and> j = RULE_SPECIAL_REDIRECT_SLASH)"
  by (induction rs arbitrary: i) (auto simp: less_Suc_eq_0_disj)

lemma entries_fit: "plain_rules rs \<Longrightarrow> i \<noteq> 0 \<Longrightarrow> entries_ok (entries i rs)"
  by (induction rs arbitrary: i)
    (auto simp: plain_rules_def RULE_SPECIAL_REDIRECT_SLASH_def dest: in_set_butlastD)

definition method_holds :: "'h route_rule list \<Rightarrow> 'h per_method \<Rightarrow> bool" where
  "method_holds rs pm \<longleftrightarrow>
     rules pm = [None, None] @ map Some rs \<and> trie_adds (entries 2 rs) new_node = Added (trie pm)"

lemma added_eq: "added res = Inr n \<longleftrightarrow> res = Added n"
  by (simp add: added_def split: add_result.split)

lemma add_to_method_holds:
  assumes "add_to_method r pm = Inr pm'" "method_holds rs pm"
  shows "method_holds (rs @ [r]) pm'"
  using assms
  by (auto simp: add_to_method_def method_holds_def entries_append trie_adds_append Let_def added_eq
      split: sum.splits if_splits)

lemma internal_add_holds:
  "internal_add_rule_object r ms pms = Inr pms' \<Longrightarrow> distinct ms \<Longrightarrow> \<forall>m\<in>set ms. m < length pms \<Longrightarrow>
   length pms' = length pms \<and>
   (\<forall>m rs. method_holds rs (pms ! m) \<longrightarrow> method_holds (if m \<in> set ms then rs @ [r] else rs) (pms' ! m))"
proof (induction r ms pms rule: internal_add_rule_object.induct)
  case (2 r m ms pms)
  obtain pm where pm: "add_to_method r (pms ! m) = Inr pm"
    using "2.prems"(1) by (auto split: sum.splits)
  from "2.IH" [OF this] "2.prems" pm
  have ih: "length pms' = length pms" "\<And>k rs. method_holds rs (pms[m := pm] ! k) \<Longrightarrow>
      method_holds (if k \<in> set ms then rs @ [r] else rs) (pms' ! k)" by auto
  have "method_holds (if k \<in> set (m # ms) then rs @ [r] else rs) (pms' ! k)"
    if "method_holds rs (pms ! k)" for k rs
  proof (cases "k = m")
    case True
    then have "method_holds (rs @ [r]) (pms[m := pm] ! k)"
      using add_to_method_holds [OF pm] that "2.prems"(3) by simp
    from ih(2) [OF this] show ?thesis using True "2.prems"(2) by simp
  next
    case False
    then show ?thesis using ih(2) [of rs k] that by simp
  qed
  with ih(1) show ?case by blast
qed simp

lemma validate_rules_holds:
  "validate_rules rs pms = Inr pms' \<Longrightarrow> length pms = 34 \<Longrightarrow>
   \<forall>m<34. method_holds (done_rules m) (pms ! m) \<Longrightarrow>
   length pms' = 34 \<and> (\<forall>m<34. method_holds (done_rules m @ rules_for m rs) (pms' ! m))"
proof (induction rs pms arbitrary: done_rules rule: validate_rules.induct)
  case (2 r rs pms)
  obtain pms1 where step: "rule_validate r = None"
    "internal_add_rule_object r (foreach_method (rule_methods r)) pms = Inr pms1"
    "validate_rules rs pms1 = Inr pms'"
    using "2.prems"(1) by (auto split: option.splits sum.splits)
  have "length pms1 = 34"
    "\<forall>m<34. method_holds (done_rules m @ rules_for m [r]) (pms1 ! m)"
    using internal_add_holds [OF step(2) foreach_method_props(1)] foreach_method_props(2) "2.prems"(2,3)
    by (fastforce simp: rules_for_def)+
  from "2.IH" [OF step this]
  have "length pms' = 34 \<and> (\<forall>m<34. method_holds ((done_rules m @ rules_for m [r]) @ rules_for m rs) (pms' ! m))" .
  moreover have "(done_rules m @ rules_for m [r]) @ rules_for m rs = done_rules m @ rules_for m (r # rs)" for m
    by (simp add: rules_for_def)
  ultimately show ?case by simp
qed (simp add: rules_for_def)

lemma validate_tries_nth:
  "validate_tries pms = Inr pms' \<Longrightarrow> length pms' = length pms \<and>
   (\<forall>m<length pms. rules (pms' ! m) = rules (pms ! m) \<and> trie_validate (trie (pms ! m)) = Some (trie (pms' ! m)))"
  by (induction pms arbitrary: pms')
    (auto simp: less_Suc_eq_0_disj split: option.splits sum.splits)

lemma router_validate_method:
  assumes "router_validate rs = Inr pms" "m < 34"
  obtains h where "trie_adds (entries 2 (rules_for m rs)) new_node = Added h"
    "trie_validate h = Some (trie (pms ! m))" "rules (pms ! m) = [None, None] @ map Some (rules_for m rs)"
proof -
  obtain pms0 where pms0: "validate_rules rs (replicate 34 new_per_method) = Inr pms0"
    "validate_tries pms0 = Inr pms"
    using assms(1) by (auto simp: router_validate_def InternalMethodCount_def split: sum.splits)
  have "method_holds [] (new_per_method :: 'a per_method)" by (simp add: method_holds_def new_per_method_def)
  with validate_rules_holds [OF pms0(1), of "\<lambda>m. []"]
  have holds: "length pms0 = 34" "method_holds (rules_for m rs) (pms0 ! m)" using assms(2) by auto
  with validate_tries_nth [OF pms0(2)] assms(2) show ?thesis
    by (intro that [of "trie (pms0 ! m)"]) (auto simp: method_holds_def)
qed

subsection \<open>The rule found for a request\<close>

lemma first_match_none: "first_match strtod url rs = None \<longleftrightarrow> (\<forall>r\<in>set rs. route_match strtod (rule_path r) url = None)"
  by (induction rs) (auto split: option.splits)

lemma first_match_nth:
  "k < length rs \<Longrightarrow> route_match strtod (rule_path (rs ! k)) url = Some q \<Longrightarrow>
   \<forall>j<k. route_match strtod (rule_path (rs ! j)) url = None \<Longrightarrow> first_match strtod url rs = Some (rs ! k, q)"
proof (induction rs arbitrary: k)
  case (Cons r rs)
  show ?case
  proof (cases k)
    case 0
    with Cons.prems show ?thesis by simp
  next
    case (Suc i)
    have "route_match strtod (rule_path r) url = None" using Cons.prems(3) Suc by (auto dest: spec [of _ 0])
    moreover have "\<forall>j<i. route_match strtod (rule_path (rs ! j)) url = None"
    proof (intro allI impI)
      fix j assume "j < i"
      with Cons.prems(3) Suc have "route_match strtod (rule_path ((r # rs) ! Suc j)) url = None"
        by (simp only: Suc_mono)
      then show "route_match strtod (rule_path (rs ! j)) url = None" by simp
    qed
    ultimately show ?thesis using Cons.IH [of i] Cons.prems(1,2) Suc by simp
  qed
qed simp

lemma find_for_cases:
  assumes "router_validate rs = Inr pms" "m < 34" "plain_rules rs"
  obtains (none) "found_rule (find_for strtod pms m url) = 0" "\<not> routed strtod m url rs"
  | (redirect) "found_rule (find_for strtod pms m url) = 1" "redirected strtod url (rules_for m rs)"
      "2 \<le> length (rules (pms ! m))"
  | (rule) r q k where "found_rule (find_for strtod pms m url) = k + 2" "\<not> redirected strtod url (rules_for m rs)"
      "first_match strtod url (rules_for m rs) = Some (r, q)" "r_params (find_for strtod pms m url) = q"
      "k + 2 < length (rules (pms ! m))" "rules (pms ! m) ! (k + 2) = Some r"
proof -
  let ?rs = "rules_for m rs" and ?f = "find_for strtod pms m url"
  obtain h where h: "trie_adds (entries 2 ?rs) new_node = Added h" "trie_validate h = Some (trie (pms ! m))"
    "rules (pms ! m) = [None, None] @ map Some ?rs" by (rule router_validate_method [OF assms(1,2)])
  have "plain_rules ?rs" using assms(3) by (auto simp: plain_rules_def rules_for_def list_all_iff)
  then have "entries_ok (entries 2 ?rs)" by (simp add: entries_fit)
  note find = trie_find_aux [OF h(1,2) this, where strtod = strtod and url = url]
  have found: "found_rule ?f \<noteq> 0 \<Longrightarrow>
      \<exists>pat. (pat, found_rule ?f) \<in> set (entries 2 ?rs) \<and> route_match strtod pat url = Some (r_params ?f)"
    using find(1) by (simp add: find_for_def Let_def)
  have least: "found_rule ?f \<noteq> 0 \<and> found_rule ?f \<le> i"
    if "(pat, i) \<in> set (entries 2 ?rs)" "route_match strtod pat url \<noteq> None" for pat i
    using find(2) that by (simp add: find_for_def Let_def)
  have red: "found_rule ?f \<noteq> 0 \<and> found_rule ?f \<le> 1" if "redirected strtod url ?rs"
    using that least [of _ 1] unfolding redirected_def entries_set RULE_SPECIAL_REDIRECT_SLASH_def by blast
  have matched: "found_rule ?f \<noteq> 0 \<and> found_rule ?f \<le> k + 2"
    if "k < length ?rs" "route_match strtod (rule_path (?rs ! k)) url \<noteq> None" for k
    using that least [of "rule_path (?rs ! k)" "k + 2"] unfolding entries_set by (simp add: ac_simps)
  show ?thesis
  proof (cases "found_rule ?f = 0")
    case True
    then have "\<not> redirected strtod url ?rs" "first_match strtod url ?rs = None"
      using red matched unfolding first_match_none all_set_conv_all_nth by blast+
    with True show ?thesis by (intro none) (simp_all add: routed_def)
  next
    case False
    then obtain pat where pat: "(pat, found_rule ?f) \<in> set (entries 2 ?rs)"
      "route_match strtod pat url = Some (r_params ?f)" using found by blast
    then consider (a) k where "k < length ?rs" "pat = rule_path (?rs ! k)" "found_rule ?f = 2 + k"
      | (b) r where "r \<in> set ?rs" "has_trailing_slash (rule_path r)" "pat = butlast (rule_path r)" "found_rule ?f = 1"
      unfolding entries_set RULE_SPECIAL_REDIRECT_SLASH_def by blast
    then show ?thesis
    proof cases
      case a
      have "first_match strtod url ?rs = Some (?rs ! k, r_params ?f)"
      proof (rule first_match_nth [OF a(1)])
        show "route_match strtod (rule_path (?rs ! k)) url = Some (r_params ?f)" using pat(2) a(2) by simp
        show "\<forall>j<k. route_match strtod (rule_path (?rs ! j)) url = None"
        proof (intro allI impI)
          fix j assume "j < k"
          with matched [of j] a(1,3) show "route_match strtod (rule_path (?rs ! j)) url = None"
            by (cases "route_match strtod (rule_path (?rs ! j)) url") simp_all
        qed
      qed
      moreover have "\<not> redirected strtod url ?rs" using red a(3) by auto
      ultimately show ?thesis using a by (intro rule [of k]) (simp_all add: h(3))
    next
      case b
      then have "redirected strtod url ?rs" using pat(2) by (auto simp: redirected_def)
      with b(4) show ?thesis by (intro redirect) (simp_all add: h(3))
    qed
  qed
qed

lemma find_for_routed:
  "router_validate rs = Inr pms \<Longrightarrow> m < 34 \<Longrightarrow> plain_rules rs \<Longrightarrow>
   found_rule (find_for strtod pms m url) \<noteq> 0 \<longleftrightarrow> routed strtod m url rs"
  by (erule (2) find_for_cases [where strtod = strtod and url = url]) (auto simp: routed_def)

lemma some_method:
  "(\<exists>i \<in> {0..<InternalMethodCount}. P i) \<longleftrightarrow> (\<exists>i<34. P i)"
  "(\<forall>i \<in> {0..<InternalMethodCount}. P i) \<longleftrightarrow> (\<forall>i<34. P i)"
  by (auto simp: InternalMethodCount_def)

lemma find_for_fields [simp]:
  "found_method (find_for strtod pms m url) = None" "catch_all (find_for strtod pms m url) = False"
  by (simp_all add: find_for_def Let_def)

lemma response_simps [simp]:
  "skip_body (response c) = False" "(response c)\<lparr>code := c'\<rparr> = response c'"
  by (simp_all add: response_def)

text \<open>What the rules of a method make of a URL.\<close>

definition answer ::
  "(string \<Rightarrow> (u64 \<times> nat) option) \<Rightarrow> string \<Rightarrow> 'h route_rule list \<Rightarrow> http_response \<Rightarrow> 'h outcome \<Rightarrow> 'h outcome" where
  "answer strtod url rs res otherwise =
     (if redirected strtod url rs then Respond ((response 301)\<lparr>headers := [(''Location'', url @ ''/'')]\<rparr>)
      else (case first_match strtod url rs of Some (r, q) \<Rightarrow> Run_rule r q res | None \<Rightarrow> otherwise))"

lemma handle_answer:
  assumes "router_validate rs = Inr pms" "m < 34" "plain_rules rs" "routed strtod m url rs"
  shows "handle \<lparr>per_methods = pms, catchall_rule = c\<rparr> url res ((find_for strtod pms m url)\<lparr>found_method := Some m\<rparr>) =
    answer strtod url (rules_for m rs) res x"
  by (rule find_for_cases [OF assms(1-3), where strtod = strtod and url = url])
    (use assms(4) in \<open>simp_all add: handle_def answer_def RULE_SPECIAL_REDIRECT_SLASH_def\<close>)

lemma answer_none: "\<not> routed strtod m url rs \<Longrightarrow> answer strtod url (rules_for m rs) res x = x"
  by (simp add: routed_def answer_def split: option.split)

text \<open>
  C34. A request (other than HEAD and OPTIONS) goes to the first registered rule of its method that
  matches the URL, with the parameters of the match, unless the URL is one that only lacks the final slash of a
  rule, which is redirected; without a rule it is answered 405 when another method has one and 404
  when none has, through the catch-all handler when there is one.
\<close>

theorem router_serves:
  assumes "router_validate rs = Inr pms" "plain_rules rs" "m < InternalMethodCount" "m \<noteq> Head" "m \<noteq> Options"
  shows "serve_request strtod \<lparr>per_methods = pms, catchall_rule = c\<rparr> m url =
    answer strtod url (rules_for m rs) (response 200)
      (let res = response (if \<exists>i<34. routed strtod i url rs then 405 else 404)
       in (case c of Some h \<Rightarrow> Run_catchall h res | None \<Rightarrow> Respond res))"
proof -
  have m: "m < 34" using assms(3) by (simp add: InternalMethodCount_def)
  note routed = find_for_routed [OF assms(1) _ assms(2), where strtod = strtod and url = url]
  have some: "(\<exists>i<34. found_rule (find_for strtod pms i url) \<noteq> 0) \<longleftrightarrow> (\<exists>i<34. routed strtod i url rs)"
    using routed by blast
  show ?thesis
  proof (cases "routed strtod m url rs")
    case True
    then have "found_rule (find_for strtod pms m url) \<noteq> 0" by (simp only: routed [OF m])
    then show ?thesis
      using assms(3-5) handle_answer [OF assms(1) m assms(2) True]
      by (simp add: serve_request_def handle_initial_def)
  next
    case False
    then have "found_rule (find_for strtod pms m url) = 0" using routed [OF m] by blast
    then show ?thesis
      using assms(3-5) answer_none [OF False] unfolding some [symmetric]
      by (auto simp add: serve_request_def handle_initial_def handle_def some_method Let_def split: option.split)
  qed
qed

text \<open>
  A HEAD request is served by the rules for HEAD, else by those for GET, and the body is left
  out; without either it is answered 404, whatever other methods match.
\<close>

theorem head_falls_back_to_get:
  assumes "router_validate rs = Inr pms" "plain_rules rs"
  shows "serve_request strtod \<lparr>per_methods = pms, catchall_rule = c\<rparr> Head url =
    (let res = (response 200)\<lparr>skip_body := True\<rparr>
     in answer strtod url (rules_for Head rs) res
          (answer strtod url (rules_for Get rs) res (Respond (response 404))))"
proof -
  have m: "Head < 34" "Get < 34" "\<not> InternalMethodCount \<le> Head" by (simp_all add: method_numbers)
  note routed = find_for_routed [OF assms(1) _ assms(2), where strtod = strtod and url = url]
  note handled = handle_answer [OF assms(1) _ assms(2)]
  consider "routed strtod Head url rs" | "\<not> routed strtod Head url rs" "routed strtod Get url rs"
    | "\<not> routed strtod Head url rs" "\<not> routed strtod Get url rs" by blast
  then show ?thesis
  proof cases
    case 1
    then have "found_rule (find_for strtod pms Head url) \<noteq> 0" by (simp only: routed [OF m(1)])
    with m(3) handled [OF m(1) 1] show ?thesis by (simp add: serve_request_def handle_initial_def Let_def)
  next
    case 2
    then have "found_rule (find_for strtod pms Head url) = 0" "found_rule (find_for strtod pms Get url) \<noteq> 0"
      using routed m by blast+
    with m(3) handled [OF m(2) 2(2)] answer_none [OF 2(1)] show ?thesis
      by (simp add: serve_request_def handle_initial_def Let_def)
  next
    case 3
    then have "found_rule (find_for strtod pms Head url) = 0" "found_rule (find_for strtod pms Get url) = 0"
      using routed m by blast+
    with m(3) answer_none [OF 3(1)] answer_none [OF 3(2)] show ?thesis
      by (simp add: serve_request_def handle_initial_def Let_def)
  qed
qed

lemma allow_list_cong:
  assumes "\<And>i. i < 34 \<Longrightarrow> P i = Q i"
  shows "allow_list P = allow_list Q"
proof -
  have "filter (\<lambda>i. i \<noteq> Head \<and> P i) [0..<InternalMethodCount] = filter (\<lambda>i. i \<noteq> Head \<and> Q i) [0..<InternalMethodCount]"
    by (rule filter_cong) (auto simp: assms InternalMethodCount_def)
  then show ?thesis by (simp only: allow_list_def)
qed

text \<open>
  An OPTIONS request for a URL is answered with exactly the methods that have a rule for it
  (and OPTIONS and HEAD) in the \<open>Allow\<close> header, or 404 when no method has one.
\<close>

theorem options_lists_methods:
  assumes "router_validate rs = Inr pms" "plain_rules rs" "url \<noteq> ''/*''"
  shows "serve_request strtod \<lparr>per_methods = pms, catchall_rule = c\<rparr> Options url =
    Respond
      (if \<exists>i<34. routed strtod i url rs then no_content (allow_list (\<lambda>i. routed strtod i url rs))
       else response 404)"
proof -
  note routed = find_for_routed [OF assms(1) _ assms(2), where strtod = strtod and url = url]
  have some: "(\<exists>i<34. found_rule (find_for strtod pms i url) \<noteq> 0) \<longleftrightarrow> (\<exists>i<34. routed strtod i url rs)"
    using routed by blast
  have allow: "allow_list (\<lambda>i. found_rule (find_for strtod pms i url) \<noteq> 0) = allow_list (\<lambda>i. routed strtod i url rs)"
    by (rule allow_list_cong) (rule routed)
  have ne: "\<not> InternalMethodCount \<le> Options" "Options \<noteq> Head" by (simp_all add: method_numbers)
  have "handle_initial strtod pms Options url (response 200) =
      (if \<exists>i<34. routed strtod i url rs
       then (not_found\<lparr>found_method := Some Options\<rparr>, no_content (allow_list (\<lambda>i. routed strtod i url rs)))
       else (not_found, response 404))"
    unfolding handle_initial_def Let_def set_upt some_method some allow
    using assms(3) ne by (simp only: simp_thms if_True if_False)
  then show ?thesis by (auto simp add: serve_request_def not_found_def)
qed

text \<open>
  No rule is ever run for UNLINK or SOURCE: their bits are beyond the 32 of a rule's methods.
\<close>

theorem high_methods_never_run:
  assumes "router_validate rs = Inr pms" "plain_rules rs" "m = Unlink \<or> m = Source"
  shows "serve_request strtod \<lparr>per_methods = pms, catchall_rule = c\<rparr> m url \<noteq> Run_rule r q res"
proof -
  have "rules_for m rs = []" using assms(3) by (auto simp: rules_for_def has_method_def method_numbers)
  then have none: "\<not> routed strtod m url rs" by (simp add: routed_def redirected_def)
  have m: "m < 34" "\<not> InternalMethodCount \<le> m" "m \<noteq> Head" "m \<noteq> Options"
    using assms(3) by (auto simp: method_numbers)
  have "found_rule (find_for strtod pms m url) = 0"
    using find_for_routed [OF assms(1) m(1) assms(2)] none by blast
  with m(2-4) show ?thesis by (auto simp: serve_request_def handle_initial_def handle_def Let_def split: option.split)
qed

subsection \<open>The routes of the application\<close>

text \<open>The handlers of \<open>ChronyController\<close> and \<open>OtroController\<close>.\<close>

datatype app_handler = Configure | Restart | Otro

definition app_rules :: "app_handler route_rule list" where
  "app_rules =
     [\<lparr>rule_path = ''/configure'', rule_methods = rule_mask [Patch], rule_handler = Some Configure\<rparr>,
      \<lparr>rule_path = ''/restart'', rule_methods = rule_mask [Post], rule_handler = Some Restart\<rparr>,
      \<lparr>rule_path = ''/otro'', rule_methods = rule_mask [Get], rule_handler = Some Otro\<rparr>]"

definition app_methods :: "app_handler per_method list" where
  "app_methods = (case router_validate app_rules of Inr pms \<Rightarrow> pms | Inl e \<Rightarrow> [])"

lemma app_validates: "router_validate app_rules = Inr app_methods"
proof -
  have "case router_validate app_rules of Inr pms \<Rightarrow> True | Inl e \<Rightarrow> False" by code_simp
  then show ?thesis by (auto simp: app_methods_def split: sum.splits)
qed

lemma app_plain: "plain_rules app_rules"
  by (simp add: plain_rules_def app_rules_def)

lemma app_routed:
  "\<not> redirected no_double ''/configure'' (rules_for m app_rules)"
  "first_match no_double ''/configure'' (rules_for Patch app_rules) = Some (hd app_rules, no_params)"
  "first_match no_double ''/configure'' (rules_for Get app_rules) = None"
  "first_match no_double ''/configure'' (rules_for Head app_rules) = None"
proof -
  have "list_all (\<lambda>r. \<not> has_trailing_slash (rule_path r)) app_rules" by code_simp
  then show "\<not> redirected no_double ''/configure'' (rules_for m app_rules)"
    by (auto simp: redirected_def rules_for_def list_all_iff)
qed code_simp+

lemma app_methods_routed: "routed no_double m ''/configure'' app_rules \<longleftrightarrow> m = Patch"
proof -
  have "map (\<lambda>r. route_match no_double (rule_path r) ''/configure'' \<noteq> None) app_rules = [True, False, False]"
    by code_simp
  then have "first_match no_double ''/configure'' (rules_for m app_rules) \<noteq> None \<longleftrightarrow> has_method m (hd app_rules)"
    unfolding first_match_none by (auto simp: rules_for_def app_rules_def)
  moreover have "has_method m (hd app_rules) \<longleftrightarrow> m = Patch"
  proof -
    have "rule_methods (hd app_rules) = push_bit Patch 1" by (simp add: app_rules_def)
    moreover have "bit (push_bit Patch 1 :: u32) m \<longleftrightarrow> m < 32 \<and> m = Patch"
      by (auto simp: bit_simps possible_bit_def)
    moreover have "Patch < 32" by (simp add: Patch_def)
    ultimately show ?thesis unfolding has_method_def by auto
  qed
  ultimately show ?thesis by (simp add: routed_def app_routed(1))
qed

lemmas app_answer = answer_def app_routed app_methods_routed

theorem router_serves_witness:
  "serve_request no_double \<lparr>per_methods = app_methods, catchall_rule = None\<rparr> Patch ''/configure'' =
    Run_rule (hd app_rules) no_params (response 200) \<and>
   serve_request no_double \<lparr>per_methods = app_methods, catchall_rule = None\<rparr> Get ''/configure'' =
    Respond (response 405)"
  using router_serves [OF app_validates app_plain, of Patch no_double None "''/configure''"]
    router_serves [OF app_validates app_plain, of Get no_double None "''/configure''"]
  by (simp add: app_answer) (simp add: method_numbers)

theorem head_falls_back_to_get_witness:
  "serve_request no_double \<lparr>per_methods = app_methods, catchall_rule = None\<rparr> Head ''/configure'' =
    Respond (response 404)"
  using head_falls_back_to_get [OF app_validates app_plain, of no_double None "''/configure''"]
  by (simp add: app_answer)

theorem options_lists_methods_witness:
  "serve_request no_double \<lparr>per_methods = app_methods, catchall_rule = None\<rparr> Options ''/configure'' =
    Respond (no_content ''OPTIONS, HEAD, PATCH'')"
proof -
  have "Patch < 34" "allow_list (\<lambda>i. i = Patch) = ''OPTIONS, HEAD, PATCH''" by code_simp+
  then show ?thesis
    using options_lists_methods [OF app_validates app_plain, of "''/configure''" no_double None]
    by (auto simp: app_methods_routed)
qed

theorem high_methods_never_run_witness:
  "serve_request no_double \<lparr>per_methods = app_methods, catchall_rule = None\<rparr> Unlink ''/configure'' \<noteq>
    Run_rule (hd app_rules) no_params (response 200)"
  by (rule high_methods_never_run [OF app_validates app_plain]) simp

end
