(* ===== verification/Crow_Http.thy ===== *)
theory Crow_Http
  imports Crow_Router
begin

unbundle bit_operations_syntax

text \<open>
  The parser of HTTP requests (\<open>http_parser_execute\<close> and \<open>HTTPParser\<close> in
  \<open>api/include/external/crow_all.h\<close>), a state machine that is fed the bytes of a connection in
  pieces and calls back with the parts of a request.  The callbacks are those of \<open>HTTPParser\<close>.  What
  they call in turn is the connection (\<open>handler_\<close>), whose three methods are parameters here (\<open>env\<close>)
  over a state \<open>'c\<close> of its own: \<open>handle_url\<close> tells whether the URL is answered at once (which ends the
  parsing and clears the parser), \<open>handle_message\<close> whether the response is written before the callback
  returns (which clears the parser).  The parameters of a request's query (\<open>url_params\<close>) are those of
  its \<open>raw_url\<close>, see \<open>Crow_Query\<close>, and are not stored a second time.  Moving from a string leaves it
  empty.

  A position is the number of characters before it, and the loops are also given the characters from
  there on.  The first loop over a header's field and value skips ahead over at most
  \<open>max_header_size\<close> characters; the buffer of a connection has 4096, so this is no limit.
  \<open>CROW_CALLBACK_NOTIFY_\<close> and \<open>CROW_CALLBACK_DATA_\<close> assert that there is no error yet, which
  holds whenever the loop is entered; the other assertions are modelled (the program is built without
  \<open>NDEBUG\<close>).  A response that is completed only after the callback has returned (by another thread, or
  a timer) makes the connection clear the parser between two pieces; that is not modelled, and after
  such a message \<open>feed\<close> does nothing more.  The handlers of this service all answer before they return.
\<close>

subsection \<open>States and errors\<close>

datatype (plugins only: code size) http_state =
  s_dead | s_start_req
| s_req_method | s_req_spaces_before_url | s_req_schema | s_req_schema_slash
| s_req_schema_slash_slash | s_req_server_start | s_req_server | s_req_server_with_at
| s_req_path | s_req_query_string_start | s_req_query_string
| s_req_http_start | s_req_http_H | s_req_http_HT | s_req_http_HTT | s_req_http_HTTP
| s_req_http_I | s_req_http_IC | s_req_http_major | s_req_http_dot | s_req_http_minor
| s_req_http_end | s_req_line_almost_done
| s_header_field_start | s_header_field
| s_header_value_discard_ws | s_header_value_discard_ws_almost_done | s_header_value_discard_lws
| s_header_value_start | s_header_value | s_header_value_lws | s_header_almost_done
| s_chunk_size_start | s_chunk_size | s_chunk_parameters | s_chunk_size_almost_done
| s_headers_almost_done | s_headers_done
| s_chunk_data | s_chunk_data_almost_done | s_chunk_data_done
| s_body_identity | s_body_identity_eof | s_message_done

definition parsing_header :: "http_state \<Rightarrow> bool" where
  "parsing_header st \<longleftrightarrow>
     st \<notin> {s_chunk_data, s_chunk_data_almost_done, s_chunk_data_done, s_body_identity,
           s_body_identity_eof, s_message_done}"

datatype header_states =
  h_general | h_C | h_CO | h_CON
| h_matching_connection | h_matching_proxy_connection | h_matching_content_length
| h_matching_transfer_encoding | h_matching_upgrade
| h_connection | h_content_length | h_content_length_num | h_content_length_ws
| h_transfer_encoding | h_upgrade
| h_matching_transfer_encoding_token_start | h_matching_transfer_encoding_chunked
| h_matching_transfer_encoding_token
| h_matching_connection_keep_alive | h_matching_connection_close
| h_transfer_encoding_chunked | h_connection_keep_alive | h_connection_close

datatype http_errno =
  CHPE_OK | CHPE_INVALID_EOF_STATE | CHPE_HEADER_OVERFLOW | CHPE_CLOSED_CONNECTION
| CHPE_INVALID_VERSION | CHPE_INVALID_METHOD | CHPE_INVALID_URL | CHPE_LF_EXPECTED
| CHPE_INVALID_HEADER_TOKEN | CHPE_INVALID_CONTENT_LENGTH | CHPE_UNEXPECTED_CONTENT_LENGTH
| CHPE_INVALID_CHUNK_SIZE | CHPE_INVALID_CONSTANT | CHPE_STRICT | CHPE_UNKNOWN
| CHPE_INVALID_TRANSFER_ENCODING

definition F_CHUNKED :: u8 where "F_CHUNKED = 1"
definition F_CONNECTION_KEEP_ALIVE :: u8 where "F_CONNECTION_KEEP_ALIVE = 2"
definition F_CONNECTION_CLOSE :: u8 where "F_CONNECTION_CLOSE = 4"
definition F_TRAILING :: u8 where "F_TRAILING = 8"
definition F_UPGRADE :: u8 where "F_UPGRADE = 16"
definition F_SKIPBODY :: u8 where "F_SKIPBODY = 32"
definition F_CONTENTLENGTH :: u8 where "F_CONTENTLENGTH = 64"

lemmas flag_numbers = F_CHUNKED_def F_CONNECTION_KEEP_ALIVE_def F_CONNECTION_CLOSE_def F_TRAILING_def
  F_UPGRADE_def F_SKIPBODY_def F_CONTENTLENGTH_def

definition max_header_size :: u32 where
  "max_header_size = 80 * 1024"

definition ULLONG_MAX :: u64 where
  "ULLONG_MAX = - 1"

subsection \<open>Characters\<close>

abbreviation cr :: char where "cr \<equiv> CHR 0x0D"
abbreviation lf :: char where "lf \<equiv> CHR 0x0A"
abbreviation tab :: char where "tab \<equiv> CHR 0x09"
abbreviation nul :: char where "nul \<equiv> CHR 0x00"

definition ascii :: "char \<Rightarrow> u8" where
  "ascii c = of_char c"

definition LOWER :: "char \<Rightarrow> u8" where
  "LOWER c = ascii c OR 0x20"

definition IS_ALPHA :: "char \<Rightarrow> bool" where
  "IS_ALPHA c \<longleftrightarrow> 97 \<le> LOWER c \<and> LOWER c \<le> 122"

definition IS_NUM :: "char \<Rightarrow> bool" where
  "IS_NUM c \<longleftrightarrow> 48 \<le> ascii c \<and> ascii c \<le> 57"

definition IS_MARK :: "char \<Rightarrow> bool" where
  "IS_MARK c \<longleftrightarrow> c \<in> set (''-_.!~*()'' @ [CHR 0x27])"

definition IS_USERINFO_CHAR :: "char \<Rightarrow> bool" where
  "IS_USERINFO_CHAR c \<longleftrightarrow> IS_ALPHA c \<or> IS_NUM c \<or> IS_MARK c \<or> c \<in> set ''%;:&=+$,''"

text \<open>The table \<open>tokens\<close>: a letter in lower case, another token character as it is, else NUL.\<close>

definition TOKEN :: "char \<Rightarrow> char" where
  "TOKEN c =
     (if 65 \<le> ascii c \<and> ascii c \<le> 90 then char_of (unat (ascii c) + 32)
      else if IS_ALPHA c \<or> IS_NUM c \<or> c \<in> set (''!#$%&*+-.^_|~'' @ [CHR 0x27, CHR 0x60]) then c
      else nul)"

text \<open>
  The table \<open>normal_url_char\<close>: the printable characters but the question mark and the number sign.
\<close>

definition IS_URL_CHAR :: "char \<Rightarrow> bool" where
  "IS_URL_CHAR c \<longleftrightarrow> 33 \<le> ascii c \<and> ascii c \<le> 126 \<and> c \<noteq> CHR ''?'' \<and> c \<noteq> CHR ''#''"

definition IS_HEADER_CHAR :: "char \<Rightarrow> bool" where
  "IS_HEADER_CHAR c \<longleftrightarrow> c = cr \<or> c = lf \<or> c = tab \<or> (31 < ascii c \<and> ascii c \<noteq> 127)"

text \<open>
  The table \<open>unhex\<close>, -1 being \<open>None\<close>.  It has 256 entries of which the first 128 are given; the others
  are zero.
\<close>

definition unhex :: "char \<Rightarrow> u64 option" where
  "unhex c =
     (if 48 \<le> ascii c \<and> ascii c \<le> 57 then Some (of_nat (unat (ascii c) - 48))
      else if 97 \<le> LOWER c \<and> LOWER c \<le> 102 then Some (of_nat (unat (LOWER c) - 87))
      else if 128 \<le> ascii c then Some 0
      else None)"

subsection \<open>The parser and its request\<close>

record request =
  req_method :: nat
  raw_url :: string
  req_url :: string
  req_headers :: "(string \<times> string) list"
  req_body :: string
  http_ver_major :: u8
  http_ver_minor :: u8
  keep_alive :: bool
  close_connection :: bool
  req_upgrade :: bool

definition new_request :: request where
  "new_request =
     \<lparr>req_method = Get, raw_url = [], req_url = [], req_headers = [], req_body = [], http_ver_major = 0,
      http_ver_minor = 0, keep_alive = False, close_connection = False, req_upgrade = False\<rparr>"

record http_parser =
  flags :: u8
  state :: http_state
  header_state :: header_states
  index :: nat
  uses_transfer_encoding :: bool
  allow_chunked_length :: bool
  lenient_http_headers :: bool
  nread :: u32
  content_length :: u64
  qs_point :: u64
  http_major :: u8
  http_minor :: u8
  p_method :: nat
  http_errno :: http_errno
  upgrade :: bool

text \<open>\<open>conn\<close> is the state of the connection \<open>handler_\<close>.\<close>

record 'c HTTPParser = http_parser +
  req :: request
  header_building_state :: nat
  header_field :: string
  header_value :: string
  message_complete :: bool
  conn :: 'c

text \<open>\<open>http_parser_init\<close> and the initialisers of the class.\<close>

definition new_parser :: "'c \<Rightarrow> 'c HTTPParser" where
  "new_parser c =
     \<lparr>flags = 0, state = s_start_req, header_state = h_general, index = 0,
      uses_transfer_encoding = False, allow_chunked_length = False, lenient_http_headers = False,
      nread = 0, content_length = 0, qs_point = 0, http_major = 0, http_minor = 0, p_method = 0,
      http_errno = CHPE_OK, upgrade = False, req = new_request, header_building_state = 0,
      header_field = [], header_value = [], message_complete = False, conn = c\<rparr>"

record 'c env =
  handle_url :: "request \<Rightarrow> 'c \<Rightarrow> bool \<times> 'c"
  handle_header :: "request \<Rightarrow> 'c \<Rightarrow> 'c"
  handle_message :: "request \<Rightarrow> 'c \<Rightarrow> bool \<times> 'c"
  buffer_address :: u64

subsection \<open>The callbacks\<close>

definition clear :: "'c HTTPParser \<Rightarrow> 'c HTTPParser" where
  "clear s = s\<lparr>req := new_request, header_field := [], header_value := [], header_building_state := 0,
     qs_point := 0, message_complete := False, state := s_start_req\<rparr>"

definition on_method :: "'c HTTPParser \<Rightarrow> 'c HTTPParser" where
  "on_method s = s\<lparr>req := (req s)\<lparr>req_method := p_method s\<rparr>\<rparr>"

text \<open>
  A URL that is answered at once: \<open>done\<close> feeds the end of the input, which is an error in the middle of
  a request, and the parser is cleared after the response is written.
\<close>

definition on_url :: "'c env \<Rightarrow> string \<Rightarrow> 'c HTTPParser \<Rightarrow> 'c HTTPParser" where
  "on_url E txt s =
     (let raw = raw_url (req s) @ txt;
          url = (if qs_point s \<noteq> 0 then take (unat (qs_point s)) raw else raw);
          s = s\<lparr>req := (req s)\<lparr>raw_url := raw, req_url := url\<rparr>\<rparr>;
          (answered, c) = handle_url E (req s) (conn s);
          s = s\<lparr>conn := c\<rparr>
      in if answered then clear (s\<lparr>http_errno := CHPE_INVALID_EOF_STATE\<rparr>) else s)"

definition on_header_field :: "string \<Rightarrow> 'c HTTPParser \<Rightarrow> 'c HTTPParser" where
  "on_header_field txt s =
     (if header_building_state s = 0 then
        (let s = (if header_value s \<noteq> []
                  then s\<lparr>req := (req s)\<lparr>req_headers := req_headers (req s) @ [(header_field s, header_value s)]\<rparr>,
                         header_value := []\<rparr>
                  else s)
         in s\<lparr>header_field := txt, header_building_state := 1\<rparr>)
      else if header_building_state s = 1 then s\<lparr>header_field := header_field s @ txt\<rparr>
      else s)"

definition on_header_value :: "string \<Rightarrow> 'c HTTPParser \<Rightarrow> 'c HTTPParser" where
  "on_header_value txt s =
     (if header_building_state s = 0 then s\<lparr>header_value := header_value s @ txt\<rparr>
      else if header_building_state s = 1 then s\<lparr>header_building_state := 0, header_value := txt\<rparr>
      else s)"

definition set_connection_parameters :: "'c HTTPParser \<Rightarrow> 'c HTTPParser" where
  "set_connection_parameters s =
     (let v10 = (http_major s = 1 \<and> http_minor s = 0); v11 = (http_major s = 1 \<and> http_minor s = 1);
          alive = (flags s AND F_CONNECTION_KEEP_ALIVE \<noteq> 0)
      in s\<lparr>req := (req s)\<lparr>http_ver_major := http_major s, http_ver_minor := http_minor s,
             keep_alive := (if v10 then alive else v11),
             close_connection := (if v10 then \<not> alive else v11 \<and> flags s AND F_CONNECTION_CLOSE \<noteq> 0),
             req_upgrade := upgrade s\<rparr>\<rparr>)"

definition on_headers_complete :: "'c env \<Rightarrow> 'c HTTPParser \<Rightarrow> 'c HTTPParser" where
  "on_headers_complete E s =
     (let s = set_connection_parameters
            (if header_field s \<noteq> []
             then s\<lparr>req := (req s)\<lparr>req_headers := req_headers (req s) @ [(header_field s, header_value s)]\<rparr>,
                    header_field := [], header_value := []\<rparr>
             else s)
      in s\<lparr>conn := handle_header E (req s) (conn s)\<rparr>)"

definition on_body :: "string \<Rightarrow> 'c HTTPParser \<Rightarrow> 'c HTTPParser" where
  "on_body txt s = s\<lparr>req := (req s)\<lparr>req_body := req_body (req s) @ txt\<rparr>\<rparr>"

definition on_message_complete :: "'c env \<Rightarrow> 'c HTTPParser \<Rightarrow> 'c HTTPParser" where
  "on_message_complete E s =
     (let s = s\<lparr>message_complete := True\<rparr>;
          (written, c) = handle_message E (req s) (conn s);
          s = s\<lparr>conn := c\<rparr>
      in if written then clear s else s)"

subsection \<open>Control flow\<close>

text \<open>
  The local variables of \<open>http_parser_execute\<close>: the position \<open>p\<close>, \<open>nread\<close> and the marks, which are
  positions where the text of a callback begins.
\<close>

record locals =
  pos :: nat
  lread :: u32
  field_mark :: "nat option"
  value_mark :: "nat option"
  url_mark :: "nat option"
  url_start_mark :: "nat option"
  body_mark :: "nat option"

text \<open>
  How the code of a state ends: with \<open>break\<close>, the characters behind \<open>p\<close> being left; with
  \<open>goto reexecute\<close>, the characters from \<open>p\<close> on being left; with \<open>return\<close>; with \<open>goto error\<close>; or with a
  failed assertion.
\<close>

datatype 'c flow =
  Break "'c HTTPParser" locals string
| Reexecute "'c HTTPParser" locals string
| Return nat "'c HTTPParser"
| Fail "'c HTTPParser" locals
| Assert_failed

definition fail :: "http_errno \<Rightarrow> 'c HTTPParser \<Rightarrow> locals \<Rightarrow> 'c flow" where
  "fail e s l = Fail (s\<lparr>nread := lread l, http_errno := e\<rparr>) l"

definition notify ::
  "('c HTTPParser \<Rightarrow> 'c HTTPParser) \<Rightarrow> nat \<Rightarrow> 'c HTTPParser \<Rightarrow> ('c HTTPParser \<Rightarrow> 'c flow) \<Rightarrow> 'c flow" where
  "notify f er s k = (let s = f s in if http_errno s \<noteq> CHPE_OK then Return er s else k s)"

definition marked_text :: "string \<Rightarrow> nat \<Rightarrow> nat \<Rightarrow> string" where
  "marked_text data m p = take (p - m) (drop m data)"

definition data_callback ::
  "(string \<Rightarrow> 'c HTTPParser \<Rightarrow> 'c HTTPParser) \<Rightarrow> string \<Rightarrow> nat option \<Rightarrow> nat \<Rightarrow> nat \<Rightarrow> 'c HTTPParser
   \<Rightarrow> ('c HTTPParser \<Rightarrow> 'c flow) \<Rightarrow> 'c flow" where
  "data_callback f data mark p er s k =
     (case mark of None \<Rightarrow> k s | Some m \<Rightarrow> notify (f (marked_text data m p)) er s k)"

definition set_mark :: "nat \<Rightarrow> nat option \<Rightarrow> nat option" where
  "set_mark p m = (if m = None then Some p else m)"

definition COUNT_HEADER_SIZE :: "nat \<Rightarrow> 'c HTTPParser \<Rightarrow> locals \<Rightarrow> (locals \<Rightarrow> 'c flow) \<Rightarrow> 'c flow" where
  "COUNT_HEADER_SIZE v s l k =
     (let l = l\<lparr>lread := lread l + of_nat v\<rparr>
      in if max_header_size < lread l then fail CHPE_HEADER_OVERFLOW s l else k l)"

text \<open>\<open>CROW_STRICT_CHECK\<close> and the move to the next state.\<close>

definition expect :: "char \<Rightarrow> http_state \<Rightarrow> 'c HTTPParser \<Rightarrow> locals \<Rightarrow> char \<Rightarrow> string \<Rightarrow> 'c flow" where
  "expect c nxt s l ch rest = (if ch \<noteq> c then fail CHPE_STRICT s l else Break (s\<lparr>state := nxt\<rparr>) l rest)"

subsection \<open>The request line\<close>

definition first_method :: "char \<Rightarrow> nat option" where
  "first_method ch =
     map_of (zip ''ABCDGHLMNOPRSTU'' [21, 18, 5, 0, 1, 2, 11, 12, 27, 6, 3, 22, 28, 7, 17]) ch"

definition do_start_req :: "'c HTTPParser \<Rightarrow> locals \<Rightarrow> char \<Rightarrow> string \<Rightarrow> 'c flow" where
  "do_start_req s l ch rest =
     (if ch = cr \<or> ch = lf then Break s l rest
      else
        (let s = s\<lparr>flags := 0, uses_transfer_encoding := False, content_length := ULLONG_MAX\<rparr> in
         if \<not> IS_ALPHA ch then fail CHPE_INVALID_METHOD s l
         else
           (let s = s\<lparr>p_method := 0, index := 1\<rparr> in
            case first_method ch of
              None \<Rightarrow> fail CHPE_INVALID_METHOD s l
            | Some m \<Rightarrow> Break (s\<lparr>p_method := m, state := s_req_method\<rparr>) l rest)))"

text \<open>From one method to another at a position and a character, by the number of the methods.\<close>

definition method_changes :: "((nat \<times> nat \<times> char) \<times> nat) list" where
  "method_changes =
     [((3, 1, CHR ''U''), 4), ((3, 1, CHR ''A''), 8), ((3, 1, CHR ''R''), 14), ((4, 2, CHR ''R''), 9),
      ((5, 1, CHR ''H''), 24), ((5, 2, CHR ''P''), 10), ((12, 1, CHR ''O''), 13),
      ((12, 1, CHR ''E''), 25), ((12, 1, CHR ''-''), 26), ((12, 2, CHR ''A''), 23),
      ((12, 3, CHR ''A''), 30), ((28, 1, CHR ''E''), 16), ((28, 1, CHR ''O''), 33),
      ((22, 2, CHR ''B''), 19), ((14, 4, CHR ''P''), 15), ((11, 1, CHR ''I''), 31),
      ((17, 2, CHR ''S''), 29), ((17, 2, CHR ''B''), 20), ((17, 3, CHR ''I''), 32)]"

definition char_at :: "string \<Rightarrow> nat \<Rightarrow> char" where
  "char_at str i = (if i < length str then str ! i else nul)"

definition do_method :: "'c HTTPParser \<Rightarrow> locals \<Rightarrow> char \<Rightarrow> string \<Rightarrow> 'c flow" where
  "do_method s l ch rest =
     (if ch = nul then fail CHPE_INVALID_METHOD s l
      else
        (let matcher = method_strings ! p_method s;
             next_s =
               (if ch = CHR '' '' \<and> char_at matcher (index s) = nul
                then Some (s\<lparr>state := s_req_spaces_before_url\<rparr>)
                else if ch = char_at matcher (index s) then Some s
                else if (65 \<le> ascii ch \<and> ascii ch \<le> 90) \<or> ch = CHR ''-'' then
                  map_option (\<lambda>m. s\<lparr>p_method := m\<rparr>) (map_of method_changes (p_method s, index s, ch))
                else None)
         in
         case next_s of
           None \<Rightarrow> fail CHPE_INVALID_METHOD s l
         | Some s \<Rightarrow>
             notify on_method (pos l) s (\<lambda>s. Break (s\<lparr>index := (index s + 1) mod 32\<rparr>) l rest)))"

definition url_state :: "http_state \<Rightarrow> char \<Rightarrow> http_state" where
  "url_state st ch =
     (if ch \<in> {CHR '' '', cr, lf, tab, CHR 0x0C} then s_dead
      else
        (case st of
           s_req_spaces_before_url \<Rightarrow>
             (if ch = CHR ''/'' \<or> ch = CHR ''*'' then s_req_path
              else if IS_ALPHA ch then s_req_schema else s_dead)
         | s_req_schema \<Rightarrow>
             (if IS_ALPHA ch then s_req_schema
              else if ch = CHR '':'' then s_req_schema_slash else s_dead)
         | s_req_schema_slash \<Rightarrow> (if ch = CHR ''/'' then s_req_schema_slash_slash else s_dead)
         | s_req_schema_slash_slash \<Rightarrow> (if ch = CHR ''/'' then s_req_server_start else s_dead)
         | s_req_path \<Rightarrow>
             (if IS_URL_CHAR ch then s_req_path
              else if ch = CHR ''?'' then s_req_query_string_start else s_dead)
         | _ \<Rightarrow>
             (if st \<in> {s_req_server_with_at, s_req_server_start, s_req_server} then
                (if st = s_req_server_with_at \<and> ch = CHR ''@'' then s_dead
                 else if ch = CHR ''/'' then s_req_path
                 else if ch = CHR ''?'' then s_req_query_string_start
                 else if ch = CHR ''@'' then s_req_server_with_at
                 else if IS_USERINFO_CHAR ch \<or> ch = CHR ''['' \<or> ch = CHR '']'' then s_req_server
                 else s_dead)
              else if st \<in> {s_req_query_string_start, s_req_query_string} then
                (if IS_URL_CHAR ch \<or> ch = CHR ''?'' then s_req_query_string else s_dead)
              else s_dead)))"

text \<open>
  \<open>qs_point\<close> is \<open>p - url_start_mark\<close>.  The mark is null when the URL began in an earlier piece, and the
  difference is then the address of the character.
\<close>

definition url_offset :: "'c env \<Rightarrow> locals \<Rightarrow> u64" where
  "url_offset E l =
     (case url_start_mark l of
        Some m \<Rightarrow> of_nat (pos l - m) | None \<Rightarrow> buffer_address E + of_nat (pos l))"

definition parse_url_char :: "'c env \<Rightarrow> 'c HTTPParser \<Rightarrow> locals \<Rightarrow> char \<Rightarrow> string \<Rightarrow> 'c flow" where
  "parse_url_char E s l ch rest =
     (let st = url_state (state s) ch;
          s = (if st = s_req_query_string_start then s\<lparr>qs_point := url_offset E l\<rparr> else s);
          s = s\<lparr>state := st\<rparr>
      in if st = s_dead then fail CHPE_INVALID_URL s l else Break s l rest)"

definition do_spaces :: "'c env \<Rightarrow> 'c HTTPParser \<Rightarrow> locals \<Rightarrow> char \<Rightarrow> string \<Rightarrow> 'c flow" where
  "do_spaces E s l ch rest =
     (if ch = CHR '' '' then Break s l rest
      else
        (let l = l\<lparr>url_mark := set_mark (pos l) (url_mark l),
                   url_start_mark := set_mark (pos l) (url_start_mark l)\<rparr>;
             s = (if p_method s = 5 then s\<lparr>state := s_req_server_start\<rparr> else s)
         in parse_url_char E s l ch rest))"

definition do_schema :: "'c env \<Rightarrow> 'c HTTPParser \<Rightarrow> locals \<Rightarrow> char \<Rightarrow> string \<Rightarrow> 'c flow" where
  "do_schema E s l ch rest =
     (if ch = CHR '' '' \<or> ch = cr \<or> ch = lf then fail CHPE_INVALID_URL s l
      else parse_url_char E s l ch rest)"

definition do_url :: "'c env \<Rightarrow> string \<Rightarrow> 'c HTTPParser \<Rightarrow> locals \<Rightarrow> char \<Rightarrow> string \<Rightarrow> 'c flow" where
  "do_url E data s l ch rest =
     (let url_done = (\<lambda>s. data_callback (on_url E) data (url_mark l) (pos l) (pos l + 1) s
                       (\<lambda>s. Break s (l\<lparr>url_mark := None\<rparr>) rest))
      in
      if ch = CHR '' '' then url_done (s\<lparr>state := s_req_http_start\<rparr>)
      else if ch = cr \<or> ch = lf then
        (if p_method s \<noteq> Get then fail CHPE_INVALID_VERSION (s\<lparr>state := s_dead\<rparr>) l
         else url_done (s\<lparr>http_major := 0, http_minor := 9,
                state := (if ch = cr then s_req_line_almost_done else s_header_field_start)\<rparr>))
      else parse_url_char E s l ch rest)"

definition do_http_start :: "'c HTTPParser \<Rightarrow> locals \<Rightarrow> char \<Rightarrow> string \<Rightarrow> 'c flow" where
  "do_http_start s l ch rest =
     (if ch = CHR '' '' then Break s l rest
      else if ch = CHR ''H'' then Break (s\<lparr>state := s_req_http_H\<rparr>) l rest
      else if ch = CHR ''I'' \<and> p_method s = Source then Break (s\<lparr>state := s_req_http_I\<rparr>) l rest
      else fail CHPE_INVALID_CONSTANT s l)"

definition do_http_version :: "'c HTTPParser \<Rightarrow> locals \<Rightarrow> char \<Rightarrow> string \<Rightarrow> 'c flow" where
  "do_http_version s l ch rest =
     (case state s of
        s_req_http_major \<Rightarrow>
          (if \<not> IS_NUM ch then fail CHPE_INVALID_VERSION s l
           else Break (s\<lparr>http_major := ascii ch - 48, state := s_req_http_dot\<rparr>) l rest)
      | s_req_http_dot \<Rightarrow>
          (if ch \<noteq> CHR ''.'' then fail CHPE_INVALID_VERSION s l
           else Break (s\<lparr>state := s_req_http_minor\<rparr>) l rest)
      | _ \<Rightarrow>
          (if \<not> IS_NUM ch then fail CHPE_INVALID_VERSION s l
           else Break (s\<lparr>http_minor := ascii ch - 48, state := s_req_http_end\<rparr>) l rest))"

definition do_http_end :: "'c HTTPParser \<Rightarrow> locals \<Rightarrow> char \<Rightarrow> string \<Rightarrow> 'c flow" where
  "do_http_end s l ch rest =
     (if ch = cr then Break (s\<lparr>state := s_req_line_almost_done\<rparr>) l rest
      else if ch = lf then Break (s\<lparr>state := s_header_field_start\<rparr>) l rest
      else fail CHPE_INVALID_VERSION s l)"

text \<open>The states that wait for a line feed.\<close>

definition expect_lf :: "http_state \<Rightarrow> 'c HTTPParser \<Rightarrow> locals \<Rightarrow> char \<Rightarrow> string \<Rightarrow> 'c flow" where
  "expect_lf nxt s l ch rest =
     (if ch \<noteq> lf then fail CHPE_LF_EXPECTED s l else Break (s\<lparr>state := nxt\<rparr>) l rest)"

subsection \<open>Headers\<close>

definition do_field_start :: "'c HTTPParser \<Rightarrow> locals \<Rightarrow> char \<Rightarrow> string \<Rightarrow> 'c flow" where
  "do_field_start s l ch rest =
     (if ch = cr then Break (s\<lparr>state := s_headers_almost_done\<rparr>) l rest
      else if ch = lf then Reexecute (s\<lparr>state := s_headers_almost_done\<rparr>) l (ch # rest)
      else if TOKEN ch = nul then fail CHPE_INVALID_HEADER_TOKEN s l
      else
        Break
          (s\<lparr>index := 0, state := s_header_field,
             header_state :=
               (if TOKEN ch = CHR ''c'' then h_C
                else if TOKEN ch = CHR ''p'' then h_matching_proxy_connection
                else if TOKEN ch = CHR ''t'' then h_matching_transfer_encoding
                else if TOKEN ch = CHR ''u'' then h_matching_upgrade
                else h_general)\<rparr>)
          (l\<lparr>field_mark := set_mark (pos l) (field_mark l)\<rparr>) rest)"

definition match_name :: "string \<Rightarrow> header_states \<Rightarrow> char \<Rightarrow> 'c HTTPParser \<Rightarrow> 'c HTTPParser" where
  "match_name name matched c s =
     (let i = (index s + 1) mod 32; s = s\<lparr>index := i\<rparr>
      in if length name < i \<or> c \<noteq> char_at name i then s\<lparr>header_state := h_general\<rparr>
         else if i = length name - 1 then s\<lparr>header_state := matched\<rparr>
         else s)"

text \<open>The character \<open>ch\<close> of a header's name; \<open>None\<close> is the failed assertion.\<close>

definition field_char :: "'c HTTPParser \<Rightarrow> char \<Rightarrow> 'c HTTPParser option" where
  "field_char s ch =
     (let c = TOKEN ch; next_s = s\<lparr>index := (index s + 1) mod 32\<rparr> in
      case header_state s of
        h_general \<Rightarrow> Some s
      | h_C \<Rightarrow> Some (next_s\<lparr>header_state := (if c = CHR ''o'' then h_CO else h_general)\<rparr>)
      | h_CO \<Rightarrow> Some (next_s\<lparr>header_state := (if c = CHR ''n'' then h_CON else h_general)\<rparr>)
      | h_CON \<Rightarrow>
          Some (next_s\<lparr>header_state :=
                 (if c = CHR ''n'' then h_matching_connection
                  else if c = CHR ''t'' then h_matching_content_length else h_general)\<rparr>)
      | h_matching_connection \<Rightarrow> Some (match_name ''connection'' h_connection c s)
      | h_matching_proxy_connection \<Rightarrow> Some (match_name ''proxy-connection'' h_connection c s)
      | h_matching_content_length \<Rightarrow> Some (match_name ''content-length'' h_content_length c s)
      | h_matching_transfer_encoding \<Rightarrow>
          (let s = match_name ''transfer-encoding'' h_transfer_encoding c s in
           Some (if header_state s = h_transfer_encoding then s\<lparr>uses_transfer_encoding := True\<rparr> else s))
      | h_matching_upgrade \<Rightarrow> Some (match_name ''upgrade'' h_upgrade c s)
      | _ \<Rightarrow>
          (if header_state s \<in> {h_connection, h_content_length, h_transfer_encoding, h_upgrade}
           then Some (if ch \<noteq> CHR '' '' then s\<lparr>header_state := h_general\<rparr> else s)
           else None))"

fun field_loop :: "'c HTTPParser \<Rightarrow> nat \<Rightarrow> string \<Rightarrow> ('c HTTPParser \<times> nat \<times> string) option" where
  "field_loop s p [] = Some (s, p, [])"
| "field_loop s p (ch # rest) =
     (if TOKEN ch = nul then Some (s, p, ch # rest)
      else (case field_char s ch of None \<Rightarrow> None | Some s \<Rightarrow> field_loop s (p + 1) rest))"

definition do_field :: "string \<Rightarrow> 'c HTTPParser \<Rightarrow> locals \<Rightarrow> string \<Rightarrow> 'c flow" where
  "do_field data s l cs =
     (case field_loop s (pos l) cs of
        None \<Rightarrow> Assert_failed
      | Some (s, p, []) \<Rightarrow>
          COUNT_HEADER_SIZE (p - 1 - pos l) s (l\<lparr>pos := p - 1\<rparr>) (\<lambda>l. Break s l [])
      | Some (s, p, ch # rest) \<Rightarrow>
          COUNT_HEADER_SIZE (p - pos l) s (l\<lparr>pos := p\<rparr>)
            (\<lambda>l. if ch = CHR '':'' then
                   data_callback on_header_field data (field_mark l) p (p + 1)
                     (s\<lparr>state := s_header_value_discard_ws\<rparr>)
                     (\<lambda>s. Break s (l\<lparr>field_mark := None\<rparr>) rest)
                 else fail CHPE_INVALID_HEADER_TOKEN s l))"

definition do_value_start :: "'c HTTPParser \<Rightarrow> locals \<Rightarrow> char \<Rightarrow> string \<Rightarrow> 'c flow" where
  "do_value_start s l ch rest =
     (let l = l\<lparr>value_mark := set_mark (pos l) (value_mark l)\<rparr>;
          s = s\<lparr>state := s_header_value, index := 0\<rparr>;
          c = LOWER ch
      in
      case header_state s of
        h_upgrade \<Rightarrow>
          (let s = (if ch \<noteq> CHR ''h'' \<or> rest = [] \<or> hd rest \<noteq> CHR ''2''
                    then s\<lparr>flags := flags s OR F_UPGRADE\<rparr> else s)
           in Break (s\<lparr>header_state := h_general\<rparr>) l rest)
      | h_transfer_encoding \<Rightarrow>
          Break (s\<lparr>header_state :=
                  (if c = ascii (CHR ''c'') then h_matching_transfer_encoding_chunked
                   else h_matching_transfer_encoding_token)\<rparr>) l rest
      | h_matching_transfer_encoding_token_start \<Rightarrow> Break s l rest
      | h_content_length \<Rightarrow>
          (if \<not> IS_NUM ch then fail CHPE_INVALID_CONTENT_LENGTH s l
           else if flags s AND F_CONTENTLENGTH \<noteq> 0 then fail CHPE_UNEXPECTED_CONTENT_LENGTH s l
           else Break (s\<lparr>flags := flags s OR F_CONTENTLENGTH, content_length := ucast (ascii ch) - 48,
                         header_state := h_content_length_num\<rparr>) l rest)
      | h_content_length_ws \<Rightarrow> Break s l rest
      | h_connection \<Rightarrow>
          Break (s\<lparr>header_state :=
                  (if c = ascii (CHR ''k'') then h_matching_connection_keep_alive
                   else if c = ascii (CHR ''c'') then h_matching_connection_close
                   else if c = 32 \<or> c = 9 then h_connection
                   else h_general)\<rparr>) l rest
      | _ \<Rightarrow> Break (s\<lparr>header_state := h_general\<rparr>) l rest)"

definition do_discard_ws :: "'c HTTPParser \<Rightarrow> locals \<Rightarrow> char \<Rightarrow> string \<Rightarrow> 'c flow" where
  "do_discard_ws s l ch rest =
     (if ch = CHR '' '' \<or> ch = tab then Break s l rest
      else if ch = cr then Break (s\<lparr>state := s_header_value_discard_ws_almost_done\<rparr>) l rest
      else if ch = lf then Break (s\<lparr>state := s_header_value_discard_lws\<rparr>) l rest
      else do_value_start s l ch rest)"

text \<open>One character of a header's value; the header state is a local variable of the loop.\<close>

datatype 'c value_step =
  Go header_states "'c HTTPParser"
| Bad_length header_states "'c HTTPParser"
| Stuck

definition match_value :: "string \<Rightarrow> header_states \<Rightarrow> header_states \<Rightarrow> header_states \<Rightarrow> char \<Rightarrow> 'c HTTPParser \<Rightarrow> 'c value_step" where
  "match_value name h matched mismatch ch s =
     (let i = (index s + 1) mod 32; s = s\<lparr>index := i\<rparr>
      in if length name < i \<or> LOWER ch \<noteq> ascii (char_at name i) then Go mismatch s
         else if i = length name - 1 then Go matched s
         else Go h s)"

definition length_char :: "'c HTTPParser \<Rightarrow> char \<Rightarrow> 'c value_step" where
  "length_char s ch =
     (if ch = CHR '' '' then Go h_content_length_ws s
      else if \<not> IS_NUM ch then Bad_length h_content_length_num s
      else if (ULLONG_MAX - 10) div 10 < content_length s then Bad_length h_content_length_num s
      else Go h_content_length_num (s\<lparr>content_length := content_length s * 10 + ucast (ascii ch - 48)\<rparr>))"

definition value_char :: "header_states \<Rightarrow> 'c HTTPParser \<Rightarrow> char \<Rightarrow> 'c value_step" where
  "value_char h s ch =
     (let c = LOWER ch in
      case h of
        h_general \<Rightarrow> Go h_general s
      | h_connection \<Rightarrow> Stuck
      | h_transfer_encoding \<Rightarrow> Stuck
      | h_content_length \<Rightarrow> (if ch = CHR '' '' then Go h s else length_char s ch)
      | h_content_length_num \<Rightarrow> length_char s ch
      | h_content_length_ws \<Rightarrow> (if ch = CHR '' '' then Go h s else Bad_length h s)
      | h_matching_transfer_encoding_token_start \<Rightarrow>
          (if c = ascii (CHR ''c'') then Go h_matching_transfer_encoding_chunked s
           else if TOKEN (char_of (unat c)) \<noteq> nul then Go h_matching_transfer_encoding_token s
           else if c = 32 \<or> c = 9 then Go h s
           else Go h_general s)
      | h_matching_transfer_encoding_chunked \<Rightarrow>
          match_value ''chunked'' h h_transfer_encoding_chunked h_matching_transfer_encoding_token ch s
      | h_matching_transfer_encoding_token \<Rightarrow>
          (if ch = CHR '','' then Go h_matching_transfer_encoding_token_start (s\<lparr>index := 0\<rparr>) else Go h s)
      | h_matching_connection_keep_alive \<Rightarrow>
          match_value ''keep-alive'' h h_connection_keep_alive h_general ch s
      | h_matching_connection_close \<Rightarrow>
          match_value ''close'' h h_connection_close h_general ch s
      | h_transfer_encoding_chunked \<Rightarrow>
          (if ch \<noteq> CHR '' '' then Go h_matching_transfer_encoding_token s else Go h s)
      | h_connection_keep_alive \<Rightarrow> (if ch \<noteq> CHR '' '' then Go h_general s else Go h s)
      | h_connection_close \<Rightarrow> (if ch \<noteq> CHR '' '' then Go h_general s else Go h s)
      | _ \<Rightarrow> Go h_general (s\<lparr>state := s_header_value\<rparr>))"

text \<open>
  The loop over a value: up to the end of the input, up to the end of the line, a forbidden character
  (the local header state is then lost), a wrong length, or the failed assertion.
\<close>

datatype 'c value_result =
  Value_input header_states "'c HTTPParser" nat
| Value_line header_states "'c HTTPParser" nat char string
| Value_token "'c HTTPParser" nat
| Value_length header_states "'c HTTPParser" nat
| Value_stuck

fun value_loop :: "header_states \<Rightarrow> 'c HTTPParser \<Rightarrow> nat \<Rightarrow> string \<Rightarrow> 'c value_result" where
  "value_loop h s p [] = Value_input h s p"
| "value_loop h s p (ch # rest) =
     (if ch = cr \<or> ch = lf then Value_line h s p ch rest
      else if \<not> lenient_http_headers s \<and> \<not> IS_HEADER_CHAR ch then Value_token s p
      else
        (case value_char h s ch of
           Go h s \<Rightarrow> value_loop h s (p + 1) rest
         | Bad_length h s \<Rightarrow> Value_length h s p
         | Stuck \<Rightarrow> Value_stuck))"

definition do_value :: "string \<Rightarrow> 'c HTTPParser \<Rightarrow> locals \<Rightarrow> string \<Rightarrow> 'c flow" where
  "do_value data s l cs =
     (let start = pos l in
      case value_loop (header_state s) s start cs of
        Value_input h s p \<Rightarrow>
          COUNT_HEADER_SIZE (p - 1 - start) (s\<lparr>header_state := h\<rparr>) (l\<lparr>pos := p - 1\<rparr>)
            (\<lambda>l. Break (s\<lparr>header_state := h\<rparr>) l [])
      | Value_line h s p ch rest \<Rightarrow>
          (let l = l\<lparr>pos := p\<rparr>; s = s\<lparr>state := s_header_almost_done\<rparr> in
           if ch = cr then
             data_callback on_header_value data (value_mark l) p (p + 1) (s\<lparr>header_state := h\<rparr>)
               (\<lambda>s. COUNT_HEADER_SIZE (p - start) (s\<lparr>header_state := h\<rparr>) (l\<lparr>value_mark := None\<rparr>)
                      (\<lambda>l. Break (s\<lparr>header_state := h\<rparr>) l rest))
           else
             COUNT_HEADER_SIZE (p - start) s l
               (\<lambda>l. data_callback on_header_value data (value_mark l) p p (s\<lparr>header_state := h\<rparr>)
                      (\<lambda>s. Reexecute s (l\<lparr>value_mark := None\<rparr>) (ch # rest))))
      | Value_token s p \<Rightarrow> fail CHPE_INVALID_HEADER_TOKEN s (l\<lparr>pos := p\<rparr>)
      | Value_length h s p \<Rightarrow> fail CHPE_INVALID_CONTENT_LENGTH (s\<lparr>header_state := h\<rparr>) (l\<lparr>pos := p\<rparr>)
      | Value_stuck \<Rightarrow> Assert_failed)"

definition do_value_lws :: "'c HTTPParser \<Rightarrow> locals \<Rightarrow> char \<Rightarrow> string \<Rightarrow> 'c flow" where
  "do_value_lws s l ch rest =
     (if ch = CHR '' '' \<or> ch = tab then
        (let s = (if header_state s = h_content_length_num then s\<lparr>header_state := h_content_length_ws\<rparr> else s)
         in Reexecute (s\<lparr>state := s_header_value_start\<rparr>) l (ch # rest))
      else
        (let s = s\<lparr>flags := flags s OR
                     (case header_state s of
                        h_connection_keep_alive \<Rightarrow> F_CONNECTION_KEEP_ALIVE
                      | h_connection_close \<Rightarrow> F_CONNECTION_CLOSE
                      | h_transfer_encoding_chunked \<Rightarrow> F_CHUNKED
                      | _ \<Rightarrow> 0)\<rparr>
         in Reexecute (s\<lparr>state := s_header_field_start\<rparr>) l (ch # rest)))"

definition do_discard_lws :: "string \<Rightarrow> 'c HTTPParser \<Rightarrow> locals \<Rightarrow> char \<Rightarrow> string \<Rightarrow> 'c flow" where
  "do_discard_lws data s l ch rest =
     (if ch = CHR '' '' \<or> ch = tab then Break (s\<lparr>state := s_header_value_discard_ws\<rparr>) l rest
      else
        (let l = l\<lparr>value_mark := set_mark (pos l) (value_mark l)\<rparr> in
         data_callback on_header_value data (value_mark l) (pos l) (pos l)
           (s\<lparr>state := s_header_field_start\<rparr>)
           (\<lambda>s. Reexecute s (l\<lparr>value_mark := None\<rparr>) (ch # rest))))"

subsection \<open>The end of the headers\<close>

text \<open>\<open>Return\<close> with \<open>nread\<close> stored.\<close>

definition leave :: "nat \<Rightarrow> 'c HTTPParser \<Rightarrow> locals \<Rightarrow> 'c flow" where
  "leave n s l = Return n (s\<lparr>nread := lread l\<rparr>)"

definition do_headers_almost_done :: "'c env \<Rightarrow> 'c HTTPParser \<Rightarrow> locals \<Rightarrow> char \<Rightarrow> string \<Rightarrow> 'c flow" where
  "do_headers_almost_done E s l ch rest =
     (if ch \<noteq> lf then fail CHPE_STRICT s l
      else if flags s AND F_TRAILING \<noteq> 0 then
        notify (on_message_complete E) (pos l + 1) s (\<lambda>s. Break s l rest)
      else if uses_transfer_encoding s \<and> flags s AND F_CONTENTLENGTH \<noteq> 0 \<and>
          (if flags s AND F_CHUNKED \<noteq> 0 then \<not> allow_chunked_length s else \<not> lenient_http_headers s)
        then fail CHPE_UNEXPECTED_CONTENT_LENGTH s l
      else
        (let s = on_headers_complete E
               (s\<lparr>state := s_headers_done, upgrade := (flags s AND F_UPGRADE \<noteq> 0 \<or> p_method s = 5)\<rparr>)
         in if http_errno s \<noteq> CHPE_OK then leave (pos l) s l else Reexecute s l (ch # rest)))"

definition do_headers_done :: "'c env \<Rightarrow> 'c HTTPParser \<Rightarrow> locals \<Rightarrow> char \<Rightarrow> string \<Rightarrow> 'c flow" where
  "do_headers_done E s l ch rest =
     (if ch \<noteq> lf then fail CHPE_STRICT s l
      else
        (let s = s\<lparr>nread := 0\<rparr>; l = l\<lparr>lread := 0\<rparr>;
             complete = (\<lambda>s. notify (on_message_complete E) (pos l + 1) s (\<lambda>s. Break s l rest))
         in
         if upgrade s then
           notify (on_message_complete E) (pos l + 1) s (\<lambda>s. leave (pos l + 1) s l)
         else if flags s AND F_SKIPBODY \<noteq> 0 then complete s
         else if flags s AND F_CHUNKED \<noteq> 0 then Break (s\<lparr>state := s_chunk_size_start\<rparr>) l rest
         else if uses_transfer_encoding s then
           (if \<not> lenient_http_headers s
            then leave (pos l) (s\<lparr>nread := lread l, http_errno := CHPE_INVALID_TRANSFER_ENCODING\<rparr>) l
            else Break (s\<lparr>state := s_body_identity_eof\<rparr>) l rest)
         else if content_length s = 0 then complete s
         else if content_length s \<noteq> ULLONG_MAX then Break (s\<lparr>state := s_body_identity\<rparr>) l rest
         else complete s))"

subsection \<open>The body\<close>

definition do_body_identity :: "string \<Rightarrow> 'c HTTPParser \<Rightarrow> locals \<Rightarrow> string \<Rightarrow> 'c flow" where
  "do_body_identity data s l cs =
     (if content_length s = 0 \<or> content_length s = ULLONG_MAX then Assert_failed
      else
        (let to_read = min (unat (content_length s)) (length cs);
             s = s\<lparr>content_length := content_length s - of_nat to_read\<rparr>;
             l = l\<lparr>body_mark := set_mark (pos l) (body_mark l), pos := pos l + (to_read - 1)\<rparr>
         in
         if content_length s = 0 then
           data_callback on_body data (body_mark l) (pos l + 1) (pos l) (s\<lparr>state := s_message_done\<rparr>)
             (\<lambda>s. Reexecute s (l\<lparr>body_mark := None\<rparr>) (drop (to_read - 1) cs))
         else Break s l (drop to_read cs)))"

definition do_body_eof :: "'c HTTPParser \<Rightarrow> locals \<Rightarrow> string \<Rightarrow> 'c flow" where
  "do_body_eof s l cs =
     Break s (l\<lparr>body_mark := set_mark (pos l) (body_mark l), pos := pos l + length cs - 1\<rparr>) []"

definition do_chunk_size_start :: "'c HTTPParser \<Rightarrow> locals \<Rightarrow> char \<Rightarrow> string \<Rightarrow> 'c flow" where
  "do_chunk_size_start s l ch rest =
     (if lread l \<noteq> 1 \<or> flags s AND F_CHUNKED = 0 then Assert_failed
      else
        (case unhex ch of
           None \<Rightarrow> fail CHPE_INVALID_CHUNK_SIZE s l
         | Some v \<Rightarrow> Break (s\<lparr>content_length := v, state := s_chunk_size\<rparr>) l rest))"

definition do_chunk_size :: "'c HTTPParser \<Rightarrow> locals \<Rightarrow> char \<Rightarrow> string \<Rightarrow> 'c flow" where
  "do_chunk_size s l ch rest =
     (if flags s AND F_CHUNKED = 0 then Assert_failed
      else if ch = cr then Break (s\<lparr>state := s_chunk_size_almost_done\<rparr>) l rest
      else
        (case unhex ch of
           None \<Rightarrow>
             (if ch = CHR '';'' \<or> ch = CHR '' '' then Break (s\<lparr>state := s_chunk_parameters\<rparr>) l rest
              else fail CHPE_INVALID_CHUNK_SIZE s l)
         | Some v \<Rightarrow>
             (if (ULLONG_MAX - 16) div 16 < content_length s then fail CHPE_INVALID_CONTENT_LENGTH s l
              else Break (s\<lparr>content_length := content_length s * 16 + v\<rparr>) l rest)))"

definition do_chunk_parameters :: "'c HTTPParser \<Rightarrow> locals \<Rightarrow> char \<Rightarrow> string \<Rightarrow> 'c flow" where
  "do_chunk_parameters s l ch rest =
     (if flags s AND F_CHUNKED = 0 then Assert_failed
      else if ch = cr then Break (s\<lparr>state := s_chunk_size_almost_done\<rparr>) l rest
      else Break s l rest)"

definition do_chunk_size_almost_done :: "'c HTTPParser \<Rightarrow> locals \<Rightarrow> char \<Rightarrow> string \<Rightarrow> 'c flow" where
  "do_chunk_size_almost_done s l ch rest =
     (if flags s AND F_CHUNKED = 0 then Assert_failed
      else if ch \<noteq> lf then fail CHPE_STRICT s l
      else
        (let s = s\<lparr>nread := 0\<rparr>; l = l\<lparr>lread := 0\<rparr>
         in if content_length s = 0
            then Break (s\<lparr>flags := flags s OR F_TRAILING, state := s_header_field_start\<rparr>) l rest
            else Break (s\<lparr>state := s_chunk_data\<rparr>) l rest))"

definition do_chunk_data :: "'c HTTPParser \<Rightarrow> locals \<Rightarrow> string \<Rightarrow> 'c flow" where
  "do_chunk_data s l cs =
     (if flags s AND F_CHUNKED = 0 \<or> content_length s = 0 \<or> content_length s = ULLONG_MAX
      then Assert_failed
      else
        (let to_read = min (unat (content_length s)) (length cs);
             s = s\<lparr>content_length := content_length s - of_nat to_read\<rparr>;
             l = l\<lparr>body_mark := set_mark (pos l) (body_mark l), pos := pos l + (to_read - 1)\<rparr>;
             s = (if content_length s = 0 then s\<lparr>state := s_chunk_data_almost_done\<rparr> else s)
         in Break s l (drop to_read cs)))"

definition do_chunk_data_almost_done :: "string \<Rightarrow> 'c HTTPParser \<Rightarrow> locals \<Rightarrow> char \<Rightarrow> string \<Rightarrow> 'c flow" where
  "do_chunk_data_almost_done data s l ch rest =
     (if flags s AND F_CHUNKED = 0 \<or> content_length s \<noteq> 0 then Assert_failed
      else if ch \<noteq> cr then fail CHPE_STRICT s l
      else data_callback on_body data (body_mark l) (pos l) (pos l + 1) (s\<lparr>state := s_chunk_data_done\<rparr>)
             (\<lambda>s. Break s (l\<lparr>body_mark := None\<rparr>) rest))"

definition do_chunk_data_done :: "'c HTTPParser \<Rightarrow> locals \<Rightarrow> char \<Rightarrow> string \<Rightarrow> 'c flow" where
  "do_chunk_data_done s l ch rest =
     (if flags s AND F_CHUNKED = 0 then Assert_failed
      else if ch \<noteq> lf then fail CHPE_STRICT s l
      else Break (s\<lparr>nread := 0, state := s_chunk_size_start\<rparr>) (l\<lparr>lread := 0\<rparr>) rest)"

subsection \<open>The parser\<close>

text \<open>The \<open>switch\<close> over the state, at the first of the characters \<open>ch # rest\<close>.\<close>

definition switch :: "'c env \<Rightarrow> string \<Rightarrow> 'c HTTPParser \<Rightarrow> locals \<Rightarrow> char \<Rightarrow> string \<Rightarrow> 'c flow" where
  "switch E data s l ch rest =
     (case state s of
        s_dead \<Rightarrow> (if ch = cr \<or> ch = lf then Break s l rest else fail CHPE_CLOSED_CONNECTION s l)
      | s_start_req \<Rightarrow> do_start_req s l ch rest
      | s_req_method \<Rightarrow> do_method s l ch rest
      | s_req_spaces_before_url \<Rightarrow> do_spaces E s l ch rest
      | s_req_schema \<Rightarrow> do_schema E s l ch rest
      | s_req_schema_slash \<Rightarrow> do_schema E s l ch rest
      | s_req_schema_slash_slash \<Rightarrow> do_schema E s l ch rest
      | s_req_server_start \<Rightarrow> do_schema E s l ch rest
      | s_req_server \<Rightarrow> do_url E data s l ch rest
      | s_req_server_with_at \<Rightarrow> do_url E data s l ch rest
      | s_req_path \<Rightarrow> do_url E data s l ch rest
      | s_req_query_string_start \<Rightarrow> do_url E data s l ch rest
      | s_req_query_string \<Rightarrow> do_url E data s l ch rest
      | s_req_http_start \<Rightarrow> do_http_start s l ch rest
      | s_req_http_H \<Rightarrow> expect (CHR ''T'') s_req_http_HT s l ch rest
      | s_req_http_HT \<Rightarrow> expect (CHR ''T'') s_req_http_HTT s l ch rest
      | s_req_http_HTT \<Rightarrow> expect (CHR ''P'') s_req_http_HTTP s l ch rest
      | s_req_http_I \<Rightarrow> expect (CHR ''C'') s_req_http_IC s l ch rest
      | s_req_http_IC \<Rightarrow> expect (CHR ''E'') s_req_http_HTTP s l ch rest
      | s_req_http_HTTP \<Rightarrow> expect (CHR ''/'') s_req_http_major s l ch rest
      | s_req_http_major \<Rightarrow> do_http_version s l ch rest
      | s_req_http_dot \<Rightarrow> do_http_version s l ch rest
      | s_req_http_minor \<Rightarrow> do_http_version s l ch rest
      | s_req_http_end \<Rightarrow> do_http_end s l ch rest
      | s_req_line_almost_done \<Rightarrow> expect_lf s_header_field_start s l ch rest
      | s_header_field_start \<Rightarrow> do_field_start s l ch rest
      | s_header_field \<Rightarrow> do_field data s l (ch # rest)
      | s_header_value_discard_ws \<Rightarrow> do_discard_ws s l ch rest
      | s_header_value_discard_ws_almost_done \<Rightarrow> expect lf s_header_value_discard_lws s l ch rest
      | s_header_value_discard_lws \<Rightarrow> do_discard_lws data s l ch rest
      | s_header_value_start \<Rightarrow> do_value_start s l ch rest
      | s_header_value \<Rightarrow> do_value data s l (ch # rest)
      | s_header_value_lws \<Rightarrow> do_value_lws s l ch rest
      | s_header_almost_done \<Rightarrow> expect_lf s_header_value_lws s l ch rest
      | s_chunk_size_start \<Rightarrow> do_chunk_size_start s l ch rest
      | s_chunk_size \<Rightarrow> do_chunk_size s l ch rest
      | s_chunk_parameters \<Rightarrow> do_chunk_parameters s l ch rest
      | s_chunk_size_almost_done \<Rightarrow> do_chunk_size_almost_done s l ch rest
      | s_headers_almost_done \<Rightarrow> do_headers_almost_done E s l ch rest
      | s_headers_done \<Rightarrow> do_headers_done E s l ch rest
      | s_chunk_data \<Rightarrow> do_chunk_data s l (ch # rest)
      | s_chunk_data_almost_done \<Rightarrow> do_chunk_data_almost_done data s l ch rest
      | s_chunk_data_done \<Rightarrow> do_chunk_data_done s l ch rest
      | s_body_identity \<Rightarrow> do_body_identity data s l (ch # rest)
      | s_body_identity_eof \<Rightarrow> do_body_eof s l (ch # rest)
      | s_message_done \<Rightarrow> notify (on_message_complete E) (pos l + 1) s (\<lambda>s. Break s l rest))"

text \<open>
  The label \<open>reexecute\<close>: at most \<open>n\<close> switches in a row.  The longest chain is that of a line feed
  behind a header, which ends the headers, with four; \<open>reexecute_defined\<close> below shows that five are
  enough.
\<close>

fun reexecute :: "nat \<Rightarrow> 'c env \<Rightarrow> string \<Rightarrow> 'c HTTPParser \<Rightarrow> locals \<Rightarrow> string \<Rightarrow> 'c flow option" where
  "reexecute n E data s l [] = None"
| "reexecute 0 E data s l (ch # rest) = None"
| "reexecute (Suc n) E data s l (ch # rest) =
     (case switch E data s l ch rest of
        Reexecute s l cs \<Rightarrow> reexecute n E data s l cs
      | fl \<Rightarrow> Some fl)"

text \<open>What \<open>http_parser_execute\<close> does: it returns a number, it aborts, or it does not return.\<close>

datatype 'c execute_result = Returned nat "'c HTTPParser" | Aborted | Spins

definition at_error :: "'c HTTPParser \<Rightarrow> locals \<Rightarrow> 'c execute_result" where
  "at_error s l =
     Returned (pos l)
       ((if http_errno s = CHPE_OK then s\<lparr>http_errno := CHPE_UNKNOWN\<rparr> else s)\<lparr>nread := lread l\<rparr>)"

definition marks :: "locals \<Rightarrow> nat" where
  "marks l = length (filter (\<lambda>m. m \<noteq> None) [field_mark l, value_mark l, url_mark l, body_mark l])"

definition at_end :: "'c env \<Rightarrow> string \<Rightarrow> 'c HTTPParser \<Rightarrow> locals \<Rightarrow> 'c execute_result" where
  "at_end E data s l =
     (if 1 < marks l then Aborted
      else
        (case
           data_callback on_header_field data (field_mark l) (pos l) (pos l) s
             (\<lambda>s. data_callback on_header_value data (value_mark l) (pos l) (pos l) s
                (\<lambda>s. data_callback (on_url E) data (url_mark l) (pos l) (pos l) s
                   (\<lambda>s. data_callback on_body data (body_mark l) (pos l) (pos l) s
                      (\<lambda>s. leave (length data) s l))))
         of Return n s \<Rightarrow> Returned n s | _ \<Rightarrow> Aborted))"

subsection \<open>The positions add up\<close>

text \<open>What the code of a state leaves, in positions, after \<open>n\<close> characters from its position on.\<close>

definition moves :: "nat \<Rightarrow> nat \<Rightarrow> 'c flow \<Rightarrow> bool" where
  "moves p n fl =
     (case fl of
        Break s l rest \<Rightarrow> p \<le> pos l \<and> pos l + 1 + length rest = p + n
      | Reexecute s l cs \<Rightarrow> p \<le> pos l \<and> pos l + length cs = p + n \<and> cs \<noteq> []
      | Return k s \<Rightarrow> k \<le> p + n
      | Fail s l \<Rightarrow> p \<le> pos l \<and> pos l \<le> p + n
      | Assert_failed \<Rightarrow> True)"

lemma moves_simps [simp]:
  "moves p n (Break s l rest) \<longleftrightarrow> p \<le> pos l \<and> pos l + 1 + length rest = p + n"
  "moves p n (Reexecute s l cs) \<longleftrightarrow> p \<le> pos l \<and> pos l + length cs = p + n \<and> cs \<noteq> []"
  "moves p n (Return k s) \<longleftrightarrow> k \<le> p + n"
  "moves p n (fail e s l) \<longleftrightarrow> p \<le> pos l \<and> pos l \<le> p + n"
  "moves p n Assert_failed"
  by (simp_all add: moves_def fail_def)

lemma moves_notify:
  "er \<le> p + n \<Longrightarrow> (\<And>s. moves p n (k s)) \<Longrightarrow> moves p n (notify f er s k)"
  by (simp add: notify_def Let_def)

lemma moves_data:
  "er \<le> p + n \<Longrightarrow> (\<And>s. moves p n (k s)) \<Longrightarrow> moves p n (data_callback f data m q er s k)"
  by (auto simp: data_callback_def moves_notify split: option.split)

lemma moves_count:
  "(\<And>r. moves p n (k (l\<lparr>lread := r\<rparr>))) \<Longrightarrow> p \<le> pos l \<Longrightarrow> pos l \<le> p + n \<Longrightarrow>
   moves p n (COUNT_HEADER_SIZE v s l k)"
  by (simp add: COUNT_HEADER_SIZE_def Let_def)

lemma moves_leave [simp]: "moves p n (leave k s l) \<longleftrightarrow> k \<le> p + n"
  by (simp add: leave_def)

lemma field_loop_moves:
  "field_loop s p cs = Some (s', p', cs') \<Longrightarrow> p \<le> p' \<and> p' + length cs' = p + length cs"
  by (induction s p cs rule: field_loop.induct) (auto split: if_splits option.splits)

definition value_end :: "'c value_result \<Rightarrow> nat \<Rightarrow> nat \<Rightarrow> bool" where
  "value_end r p n =
     (case r of
        Value_input h s p' \<Rightarrow> p' = p + n
      | Value_line h s p' ch rest \<Rightarrow> p \<le> p' \<and> p' + 1 + length rest = p + n
      | Value_token s p' \<Rightarrow> p \<le> p' \<and> p' \<le> p + n
      | Value_length h s p' \<Rightarrow> p \<le> p' \<and> p' \<le> p + n
      | Value_stuck \<Rightarrow> True)"

lemma value_loop_moves: "value_end (value_loop h s p cs) p (length cs)"
proof (induction h s p cs rule: value_loop.induct)
  case (2 h s p ch rest)
  have "value_end r (p + 1) (length rest) \<Longrightarrow> value_end r p (length (ch # rest))" for r
    by (auto simp: value_end_def split: value_result.splits)
  with 2 show ?case by (auto simp: value_end_def split: value_step.split)
qed (simp add: value_end_def)

lemmas moves_intros = moves_notify moves_data moves_count

lemma moves_line:
  "moves (pos l) (Suc (length rest)) (do_start_req s l ch rest)"
  "moves (pos l) (Suc (length rest)) (do_method s l ch rest)"
  "moves (pos l) (Suc (length rest)) (do_spaces E s l ch rest)"
  "moves (pos l) (Suc (length rest)) (do_schema E s l ch rest)"
  "moves (pos l) (Suc (length rest)) (do_url E data s l ch rest)"
  "moves (pos l) (Suc (length rest)) (do_http_start s l ch rest)"
  "moves (pos l) (Suc (length rest)) (do_http_version s l ch rest)"
  "moves (pos l) (Suc (length rest)) (do_http_end s l ch rest)"
  "moves (pos l) (Suc (length rest)) (expect_lf nxt s l ch rest)"
  "moves (pos l) (Suc (length rest)) (expect c nxt s l ch rest)"
  unfolding do_start_req_def do_method_def do_spaces_def do_schema_def do_url_def do_http_start_def
    do_http_version_def do_http_end_def expect_lf_def expect_def parse_url_char_def
  by (auto simp: Let_def split: option.split http_state.split intro!: moves_intros)

lemma moves_field:
  "moves (pos l) (Suc (length rest)) (do_field data s l (ch # rest))"
proof (cases "field_loop s (pos l) (ch # rest)")
  case None
  then show ?thesis by (simp add: do_field_def)
next
  case (Some r)
  obtain s' p cs where r: "r = (s', p, cs)" by (cases r)
  have m: "pos l \<le> p" "p + length cs = pos l + Suc (length rest)"
    using field_loop_moves [of s "pos l" "ch # rest" s' p cs] Some r by auto
  show ?thesis
    using m unfolding do_field_def Some r by (cases cs) (auto intro!: moves_intros)
qed

lemma moves_value:
  "moves (pos l) (Suc (length rest)) (do_value data s l (ch # rest))"
  using value_loop_moves [of "header_state s" s "pos l" "ch # rest"]
  unfolding do_value_def
  by (cases "value_loop (header_state s) s (pos l) (ch # rest)")
    (auto simp: value_end_def Let_def intro!: moves_intros)

lemma moves_headers:
  "moves (pos l) (Suc (length rest)) (do_field_start s l ch rest)"
  "moves (pos l) (Suc (length rest)) (do_value_start s l ch rest)"
  "moves (pos l) (Suc (length rest)) (do_discard_ws s l ch rest)"
  "moves (pos l) (Suc (length rest)) (do_value_lws s l ch rest)"
  "moves (pos l) (Suc (length rest)) (do_discard_lws data s l ch rest)"
  "moves (pos l) (Suc (length rest)) (do_headers_almost_done E s l ch rest)"
  "moves (pos l) (Suc (length rest)) (do_headers_done E s l ch rest)"
proof -
  show start: "moves (pos l) (Suc (length rest)) (do_value_start s l ch rest)" for s l
    by (auto simp: do_value_start_def Let_def split: header_states.split)
  show "moves (pos l) (Suc (length rest)) (do_discard_ws s l ch rest)"
    by (simp add: do_discard_ws_def start)
qed (auto simp: do_field_start_def do_value_lws_def do_discard_lws_def do_headers_almost_done_def
    do_headers_done_def Let_def intro!: moves_intros)

lemma moves_body:
  "moves (pos l) (Suc (length rest)) (do_body_identity data s l (ch # rest))"
  "moves (pos l) (Suc (length rest)) (do_body_eof s l (ch # rest))"
  "moves (pos l) (Suc (length rest)) (do_chunk_size_start s l ch rest)"
  "moves (pos l) (Suc (length rest)) (do_chunk_size s l ch rest)"
  "moves (pos l) (Suc (length rest)) (do_chunk_parameters s l ch rest)"
  "moves (pos l) (Suc (length rest)) (do_chunk_size_almost_done s l ch rest)"
  "moves (pos l) (Suc (length rest)) (do_chunk_data s l (ch # rest))"
  "moves (pos l) (Suc (length rest)) (do_chunk_data_almost_done data s l ch rest)"
  "moves (pos l) (Suc (length rest)) (do_chunk_data_done s l ch rest)"
proof -
  have read: "0 < min (unat n) (length (ch # rest))" if "n \<noteq> 0" for n :: u64
    using that by (simp add: unat_gt_0)
  show "moves (pos l) (Suc (length rest)) (do_body_identity data s l (ch # rest))"
    "moves (pos l) (Suc (length rest)) (do_chunk_data s l (ch # rest))"
    using read [of "content_length s"]
    by (auto simp: do_body_identity_def do_chunk_data_def Let_def intro!: moves_intros)
qed (auto simp: do_body_eof_def do_chunk_size_start_def do_chunk_size_def do_chunk_parameters_def
    do_chunk_size_almost_done_def do_chunk_data_almost_done_def do_chunk_data_done_def Let_def
    intro!: moves_intros split: option.split)

lemma moves_switch: "moves (pos l) (Suc (length rest)) (switch E data s l ch rest)"
  by (simp add: switch_def moves_line moves_field moves_value moves_headers moves_body moves_notify
      split: http_state.split)

lemma reexecute_moves:
  "reexecute n E data s l cs = Some fl \<Longrightarrow> moves (pos l) (length cs) fl \<and> (\<forall>s' l' cs'. fl \<noteq> Reexecute s' l' cs')"
proof (induction n E data s l cs rule: reexecute.induct)
  case (3 n E data s l ch rest)
  have m: "moves (pos l) (Suc (length rest)) (switch E data s l ch rest)" by (rule moves_switch)
  show ?case
  proof (cases "switch E data s l ch rest")
    case (Reexecute s' l' cs')
    with "3.prems" "3.IH" [of s' l' cs'] have "moves (pos l') (length cs') fl"
      "\<forall>s' l' cs'. fl \<noteq> Reexecute s' l' cs'" by auto
    then show ?thesis using m Reexecute by (auto simp: moves_def split: flow.splits)
  qed (use "3.prems" m in auto)
qed auto

subsection \<open>The loop\<close>

text \<open>The count of the header's characters before the switch.\<close>

definition count_char :: "'c HTTPParser \<Rightarrow> locals \<Rightarrow> locals" where
  "count_char s l = l\<lparr>lread := lread l + (if parsing_header (state s) then 1 else 0)\<rparr>"

definition overflows :: "'c HTTPParser \<Rightarrow> locals \<Rightarrow> bool" where
  "overflows s l \<longleftrightarrow> parsing_header (state s) \<and> max_header_size < lread l"

function exec_loop :: "'c env \<Rightarrow> string \<Rightarrow> 'c HTTPParser \<Rightarrow> locals \<Rightarrow> string \<Rightarrow> 'c execute_result" where
  "exec_loop E data s l [] = at_end E data s l"
| "exec_loop E data s l (ch # rest) =
     (if overflows s (count_char s l) then
        at_error (s\<lparr>nread := lread (count_char s l), http_errno := CHPE_HEADER_OVERFLOW\<rparr>) (count_char s l)
      else
        (case reexecute 5 E data s (count_char s l) (ch # rest) of
           Some (Break s l rest) \<Rightarrow> exec_loop E data s (l\<lparr>pos := pos l + 1\<rparr>) rest
         | Some (Return n s) \<Rightarrow> Returned n s
         | Some (Fail s l) \<Rightarrow> at_error s l
         | Some Assert_failed \<Rightarrow> Aborted
         | _ \<Rightarrow> Spins))"
  by pat_completeness auto

termination
proof (relation "measure (\<lambda>(E, data, s, l, cs). length cs)", goal_cases)
  case (2 E data s l ch rest fl s' l'' rest')
  then show ?case
    using reexecute_moves [of 5 E data s "count_char s l" "ch # rest" "Break s' l'' rest'"] by simp
qed simp

lemma count_char_simps [simp]:
  "pos (count_char s l) = pos l" "field_mark (count_char s l) = field_mark l"
  "value_mark (count_char s l) = value_mark l" "url_mark (count_char s l) = url_mark l"
  "url_start_mark (count_char s l) = url_start_mark l" "body_mark (count_char s l) = body_mark l"
  by (simp_all add: count_char_def)

text \<open>The marks of a text that began in an earlier piece.\<close>

definition start_locals :: "'c HTTPParser \<Rightarrow> locals" where
  "start_locals s =
     \<lparr>pos = 0, lread = nread s,
      field_mark = (if state s = s_header_field then Some 0 else None),
      value_mark = (if state s = s_header_value then Some 0 else None),
      url_mark =
        (if state s \<in> {s_req_path, s_req_schema, s_req_schema_slash, s_req_schema_slash_slash,
                       s_req_server_start, s_req_server, s_req_server_with_at,
                       s_req_query_string_start, s_req_query_string}
         then Some 0 else None),
      url_start_mark = None, body_mark = None\<rparr>"

definition http_parser_execute :: "'c env \<Rightarrow> string \<Rightarrow> 'c HTTPParser \<Rightarrow> 'c execute_result" where
  "http_parser_execute E data s =
     (if http_errno s \<noteq> CHPE_OK then Returned 0 s
      else if data = [] then
        (if state s = s_body_identity_eof then Returned 0 (on_message_complete E s)
         else if state s = s_dead \<or> state s = s_start_req then Returned 0 s
         else Returned 1 (s\<lparr>http_errno := CHPE_INVALID_EOF_STATE\<rparr>))
      else exec_loop E data s (start_locals s) data)"

text \<open>\<open>HTTPParser::feed\<close>: its result and the parser, or \<open>None\<close> for an aborted program.\<close>

definition feed :: "'c env \<Rightarrow> string \<Rightarrow> 'c HTTPParser \<Rightarrow> (bool \<times> 'c HTTPParser) option" where
  "feed E data s =
     (if message_complete s then Some (True, s)
      else
        (case http_parser_execute E data s of
           Returned n s \<Rightarrow> Some (http_errno s = CHPE_OK \<and> n = length data, s)
         | _ \<Rightarrow> None))"


end
