(* ===== verification/Crow_Http_Safe.thy ===== *)
theory Crow_Http_Safe
  imports Crow_Http
begin

unbundle bit_operations_syntax

text \<open>
  What holds of the parser on every input: it never loops, so it returns or ends by a failed
  assertion, and as long as the input has no NUL character none of its assertions fails.
\<close>

subsection \<open>The parser returns\<close>

text \<open>The number of switches a character can still go through.\<close>

definition rank :: "http_state \<Rightarrow> nat" where
  "rank st =
     (if st = s_header_value_lws \<or> st = s_header_value_discard_lws then 4
      else if st = s_header_field_start then 3
      else if st = s_headers_almost_done \<or> st = s_header_value \<or> st = s_body_identity then 2
      else 1)"

definition re_at :: "(http_state \<Rightarrow> bool) \<Rightarrow> 'c flow \<Rightarrow> bool" where
  "re_at P fl = (case fl of Reexecute s l cs \<Rightarrow> P (state s) | _ \<Rightarrow> True)"

lemma re_at_simps [simp]:
  "re_at P (Break s l rest)" "re_at P (Reexecute s l cs) \<longleftrightarrow> P (state s)" "re_at P (Return n s)"
  "re_at P (fail e s l)" "re_at P Assert_failed" "re_at P (leave n s l)"
  by (simp_all add: re_at_def fail_def leave_def)

lemma re_at_notify:
  "(\<And>s'. s' = f s \<Longrightarrow> re_at P (k s')) \<Longrightarrow> re_at P (notify f er s k)"
  by (simp add: notify_def Let_def)

lemma re_at_data:
  "(\<And>s'. s' = s \<or> (\<exists>txt. s' = f txt s) \<Longrightarrow> re_at P (k s')) \<Longrightarrow> re_at P (data_callback f data m q er s k)"
  by (auto simp: data_callback_def intro!: re_at_notify split: option.split)

lemma re_at_count: "(\<And>l. re_at P (k l)) \<Longrightarrow> re_at P (COUNT_HEADER_SIZE v s l k)"
  by (simp add: COUNT_HEADER_SIZE_def Let_def)

lemmas re_at_intros = re_at_notify re_at_data re_at_count

lemma callback_state [simp]:
  "state (on_method s) = state s" "state (on_header_field txt s) = state s"
  "state (on_header_value txt s) = state s" "state (on_body txt s) = state s"
  "state (on_headers_complete E s) = state s"
  by (simp_all add: on_method_def on_header_field_def on_header_value_def on_body_def
      on_headers_complete_def set_connection_parameters_def Let_def)

lemma re_at_switch: "re_at (\<lambda>st. rank st < rank (state s)) (switch E data s l ch rest)"
proof -
  have "re_at (\<lambda>st. rank st < rank (state s)) (do_value data s l (ch # rest))"
    if "state s = s_header_value"
    unfolding do_value_def Let_def
    by (auto simp: that rank_def split: value_result.split intro!: re_at_intros)
  moreover have "re_at (\<lambda>st. rank st < rank (state s)) (do_field data s l (ch # rest))"
    unfolding do_field_def
    by (auto split: option.split list.split prod.split intro!: re_at_intros)
  moreover have "re_at (\<lambda>st. rank st < rank (state s)) (do_body_identity data s l (ch # rest))"
    if "state s = s_body_identity"
    unfolding do_body_identity_def Let_def by (auto simp: that rank_def intro!: re_at_intros)
  moreover have "re_at (\<lambda>st. rank st < rank (state s)) (do_value_start s l ch rest)"
    by (auto simp: do_value_start_def Let_def split: header_states.split)
  moreover have "re_at (\<lambda>st. rank st < rank (state s)) (do_discard_lws data s l ch rest)"
    if "state s = s_header_value_discard_lws"
    unfolding do_discard_lws_def Let_def by (auto simp: that rank_def intro!: re_at_intros)
  moreover have "re_at (\<lambda>st. rank st < rank (state s)) (do_value_lws s l ch rest)"
    if "state s = s_header_value_lws"
    by (simp add: do_value_lws_def Let_def that rank_def)
  moreover have "re_at (\<lambda>st. rank st < rank (state s)) (do_headers_almost_done E s l ch rest)"
    if "state s = s_headers_almost_done"
    by (auto simp: do_headers_almost_done_def Let_def that rank_def intro!: re_at_intros)
  moreover have "re_at (\<lambda>st. rank st < rank (state s)) (do_field_start s l ch rest)"
    if "state s = s_header_field_start"
    by (simp add: do_field_start_def that rank_def)
  ultimately show ?thesis
    unfolding switch_def
    by (cases "state s")
      (auto simp: do_start_req_def do_method_def do_spaces_def do_schema_def do_url_def do_http_start_def
        do_http_version_def do_http_end_def expect_lf_def expect_def parse_url_char_def do_discard_ws_def
        do_headers_done_def do_body_eof_def do_chunk_size_start_def do_chunk_size_def
        do_chunk_parameters_def do_chunk_size_almost_done_def do_chunk_data_def
        do_chunk_data_almost_done_def do_chunk_data_done_def Let_def
        intro!: re_at_intros split: option.split)
qed

lemma reexecute_defined:
  "cs \<noteq> [] \<Longrightarrow> rank (state s) \<le> n \<Longrightarrow> reexecute n E data s l cs \<noteq> None"
proof (induction n E data s l cs rule: reexecute.induct)
  case (3 n E data s l ch rest)
  show ?case
  proof (cases "switch E data s l ch rest")
    case (Reexecute s' l' cs')
    have "rank (state s') < rank (state s)" using re_at_switch [of s E data l ch rest] Reexecute by simp
    moreover have "cs' \<noteq> []" using moves_switch [of l rest E data s ch] Reexecute by simp
    ultimately show ?thesis using "3.IH" [OF Reexecute] "3.prems"(2) Reexecute by simp
  qed simp_all
qed (auto simp: rank_def split: if_splits)

lemma rank_bound: "rank st \<le> 5"
  by (simp add: rank_def)

lemma exec_loop_returns:
  "pos l + length cs = length data \<Longrightarrow> exec_loop E data s l cs \<noteq> Spins \<and>
   (\<forall>n s'. exec_loop E data s l cs = Returned n s' \<longrightarrow> n \<le> length data)"
proof (induction E data s l cs rule: exec_loop.induct)
  case (1 E data s l)
  have len: "pos l = length data" using "1.prems" by simp
  have "moves (length data) 0 (data_callback on_header_field data (field_mark l) (pos l) (pos l) s
             (\<lambda>s. data_callback on_header_value data (value_mark l) (pos l) (pos l) s
                (\<lambda>s. data_callback (on_url E) data (url_mark l) (pos l) (pos l) s
                   (\<lambda>s. data_callback on_body data (body_mark l) (pos l) (pos l) s
                      (\<lambda>s. leave (length data) s l)))))"
    by (intro moves_data) (simp_all add: len)
  then show ?case by (auto simp: at_end_def moves_def split: flow.splits)
next
  case (2 E data s l ch rest)
  show ?case
  proof (cases "overflows s (count_char s l)")
    case True
    then show ?thesis using "2.prems" by (simp add: at_error_def)
  next
    case False
    obtain fl where fl: "reexecute 5 E data s (count_char s l) (ch # rest) = Some fl"
      using reexecute_defined [of "ch # rest" s 5] rank_bound by blast
    have m: "moves (pos l) (length (ch # rest)) fl" "\<forall>s' l' cs'. fl \<noteq> Reexecute s' l' cs'"
      using reexecute_moves [OF fl] by simp_all
    show ?thesis
    proof (cases fl)
      case (Break s2 l2 rest2)
      then show ?thesis
        using "2.IH" [OF False fl Break] "2.prems" m(1) False fl by simp
    qed (use "2.prems" m False fl in \<open>auto simp: at_error_def moves_def\<close>)
  qed
qed

text \<open>
  C35. Whatever the state of the parser and the bytes it is fed, \<open>http_parser_execute\<close> never loops: it
  returns, with a number of characters that is at most that of the input, or one of its assertions
  fails, which ends the program (with a NUL in the input that does happen, \<open>nul_in_connection_aborts\<close>;
  without one it does not, as shown below).  On the empty input, the end of the connection, it always
  returns, with 0, or with 1 when the end is unexpected.
\<close>

theorem http_parser_returns:
  "http_parser_execute E data s \<noteq> Spins \<and>
   (data \<noteq> [] \<and> http_parser_execute E data s = Aborted \<or>
    (\<exists>n s'. http_parser_execute E data s = Returned n s' \<and> n \<le> (if data = [] then 1 else length data)))"
proof (cases "http_errno s \<noteq> CHPE_OK \<or> data = []")
  case True
  then show ?thesis by (auto simp: http_parser_execute_def)
next
  case False
  have "pos (start_locals s) + length data = length data" by (simp add: start_locals_def)
  from exec_loop_returns [OF this, of E s] False show ?thesis
    by (cases "exec_loop E data s (start_locals s) data") (auto simp: http_parser_execute_def)
qed

subsection \<open>The assertions\<close>

fun field_state :: "header_states \<Rightarrow> bool" where
  "field_state h_general = True"
| "field_state h_C = True"
| "field_state h_CO = True"
| "field_state h_CON = True"
| "field_state h_matching_connection = True"
| "field_state h_matching_proxy_connection = True"
| "field_state h_matching_content_length = True"
| "field_state h_matching_transfer_encoding = True"
| "field_state h_matching_upgrade = True"
| "field_state h_connection = True"
| "field_state h_content_length = True"
| "field_state h_transfer_encoding = True"
| "field_state h_upgrade = True"
| "field_state _ = False"

fun value_state :: "header_states \<Rightarrow> bool" where
  "value_state h_connection = False"
| "value_state h_transfer_encoding = False"
| "value_state _ = True"

definition url_part :: "http_state \<Rightarrow> bool" where
  "url_part st \<longleftrightarrow>
     (case st of s_req_path \<Rightarrow> True | s_req_schema \<Rightarrow> True | s_req_schema_slash \<Rightarrow> True
      | s_req_schema_slash_slash \<Rightarrow> True | s_req_server_start \<Rightarrow> True | s_req_server \<Rightarrow> True
      | s_req_server_with_at \<Rightarrow> True | s_req_query_string_start \<Rightarrow> True | s_req_query_string \<Rightarrow> True
      | _ \<Rightarrow> False)"

definition body_part :: "http_state \<Rightarrow> bool" where
  "body_part st \<longleftrightarrow>
     (case st of s_body_identity \<Rightarrow> True | s_body_identity_eof \<Rightarrow> True | s_chunk_data \<Rightarrow> True
      | s_chunk_data_almost_done \<Rightarrow> True | _ \<Rightarrow> False)"

definition state_fits :: "http_state \<Rightarrow> header_states \<Rightarrow> bool \<Rightarrow> u64 \<Rightarrow> bool" where
  "state_fits st h chunked len \<longleftrightarrow>
     (case st of
        s_header_field \<Rightarrow> field_state h
      | s_header_value \<Rightarrow> value_state h
      | s_header_almost_done \<Rightarrow> value_state h
      | s_header_value_lws \<Rightarrow> value_state h
      | s_header_value_start \<Rightarrow> value_state h
      | s_chunk_size_start \<Rightarrow> chunked
      | s_chunk_size \<Rightarrow> chunked \<and> len \<noteq> ULLONG_MAX
      | s_chunk_parameters \<Rightarrow> chunked \<and> len \<noteq> ULLONG_MAX
      | s_chunk_size_almost_done \<Rightarrow> chunked \<and> len \<noteq> ULLONG_MAX
      | s_chunk_data \<Rightarrow> chunked \<and> len \<noteq> 0 \<and> len \<noteq> ULLONG_MAX
      | s_chunk_data_almost_done \<Rightarrow> chunked \<and> len = 0
      | s_chunk_data_done \<Rightarrow> chunked
      | s_body_identity \<Rightarrow> len \<noteq> 0 \<and> len \<noteq> ULLONG_MAX
      | _ \<Rightarrow> True)"

definition state_ok :: "'c HTTPParser \<Rightarrow> bool" where
  "state_ok s \<longleftrightarrow> state_fits (state s) (header_state s) (flags s AND F_CHUNKED \<noteq> 0) (content_length s)"

lemmas state_defs = state_ok_def state_fits_def

definition marks_ok :: "http_state \<Rightarrow> locals \<Rightarrow> bool" where
  "marks_ok st l \<longleftrightarrow>
     (field_mark l = None \<or> st = s_header_field) \<and> (value_mark l = None \<or> st = s_header_value) \<and>
     (url_mark l = None \<or> url_part st) \<and> (body_mark l = None \<or> body_part st)"

lemmas part_defs = url_part_def body_part_def

text \<open>\<open>k\<close> characters have been counted at the start of a chunk's size.\<close>

definition machine_ok :: "u32 \<Rightarrow> 'c HTTPParser \<Rightarrow> locals \<Rightarrow> bool" where
  "machine_ok k s l \<longleftrightarrow> state_ok s \<and> marks_ok (state s) l \<and> (state s = s_chunk_size_start \<longrightarrow> lread l = k)"

definition parser_ok :: "'c HTTPParser \<Rightarrow> bool" where
  "parser_ok s \<longleftrightarrow> http_errno s \<noteq> CHPE_OK \<or> machine_ok 0 s (start_locals s)"

definition flow_ok :: "'c flow \<Rightarrow> bool" where
  "flow_ok fl =
     (case fl of
        Break s l rest \<Rightarrow> machine_ok 0 s l \<and> nul \<notin> set rest
      | Reexecute s l cs \<Rightarrow> machine_ok 1 s l \<and> nul \<notin> set cs
      | Return n s \<Rightarrow> parser_ok s
      | Fail s l \<Rightarrow> http_errno s \<noteq> CHPE_OK
      | Assert_failed \<Rightarrow> False)"

lemma flow_ok_simps [simp]:
  "flow_ok (Break s l rest) \<longleftrightarrow> machine_ok 0 s l \<and> nul \<notin> set rest"
  "flow_ok (Reexecute s l cs) \<longleftrightarrow> machine_ok 1 s l \<and> nul \<notin> set cs"
  "flow_ok (Return n s) \<longleftrightarrow> parser_ok s"
  "flow_ok (fail e s l) \<longleftrightarrow> e \<noteq> CHPE_OK"
  "\<not> flow_ok Assert_failed"
  by (simp_all add: flow_ok_def fail_def)

lemma flow_ok_notify:
  "(\<And>s'. s' = f s \<Longrightarrow> http_errno s' = CHPE_OK \<Longrightarrow> flow_ok (k s')) \<Longrightarrow> flow_ok (notify f er s k)"
  by (simp add: notify_def Let_def parser_ok_def)

lemma flow_ok_data:
  "(mark = None \<Longrightarrow> flow_ok (k s)) \<Longrightarrow>
   (\<And>txt. http_errno (f txt s) = CHPE_OK \<Longrightarrow> flow_ok (k (f txt s))) \<Longrightarrow>
   flow_ok (data_callback f data mark q er s k)"
  by (auto simp: data_callback_def intro!: flow_ok_notify split: option.split)

lemma flow_ok_count:
  "(\<And>r. flow_ok (k (l\<lparr>lread := r\<rparr>))) \<Longrightarrow> flow_ok (COUNT_HEADER_SIZE v s l k)"
  by (simp add: COUNT_HEADER_SIZE_def Let_def)

lemmas flow_ok_intros = flow_ok_notify flow_ok_data flow_ok_count

text \<open>The callbacks leave the machine alone, but for clearing it.\<close>

lemma callback_fields [simp]:
  "state_ok (on_method s) = state_ok s" "state_ok (on_header_field txt s) = state_ok s"
  "state_ok (on_header_value txt s) = state_ok s" "state_ok (on_body txt s) = state_ok s"
  "state_ok (on_headers_complete E s) = state_ok s"
  "http_errno (on_method s) = http_errno s" "http_errno (on_header_field txt s) = http_errno s"
  "http_errno (on_header_value txt s) = http_errno s" "http_errno (on_body txt s) = http_errno s"
  "http_errno (on_headers_complete E s) = http_errno s"
  by (simp_all add: on_method_def on_header_field_def on_header_value_def on_body_def state_ok_def
      on_headers_complete_def set_connection_parameters_def Let_def)

lemma state_ok_updates [simp]:
  "state_ok (s\<lparr>p_method := m\<rparr>) = state_ok s" "state_ok (s\<lparr>index := i\<rparr>) = state_ok s"
  "state_ok (s\<lparr>qs_point := q\<rparr>) = state_ok s" "state_ok (s\<lparr>nread := r\<rparr>) = state_ok s"
  "state_ok (s\<lparr>http_errno := e\<rparr>) = state_ok s" "state_ok (s\<lparr>http_major := v\<rparr>) = state_ok s"
  "state_ok (s\<lparr>http_minor := v\<rparr>) = state_ok s" "state_ok (s\<lparr>uses_transfer_encoding := b\<rparr>) = state_ok s"
  "state_ok (s\<lparr>req := rq\<rparr>) = state_ok s" "state_ok (s\<lparr>conn := c\<rparr>) = state_ok s"
  by (simp_all add: state_ok_def)

lemma cleared: "state (clear s) = s_start_req" "state_ok (clear s)"
  by (simp_all add: clear_def state_defs)

lemma on_url_cases:
  "http_errno (on_url E txt s) \<noteq> CHPE_OK \<or>
   (state (on_url E txt s) = state s \<and> state_ok (on_url E txt s) = state_ok s)"
  by (simp add: on_url_def Let_def clear_def split: prod.split)

lemma message_complete_cases:
  "(state (on_message_complete E s) = s_start_req \<and> state_ok (on_message_complete E s)) \<or>
   (state (on_message_complete E s) = state s \<and> state_ok (on_message_complete E s) = state_ok s)"
  by (simp add: on_message_complete_def Let_def cleared split: prod.split) (simp add: state_ok_def)

lemma machine_ok_message_complete:
  assumes "state_ok s" "marks_ok s_start_req l" "state s \<noteq> s_chunk_size_start"
  shows "machine_ok k (on_message_complete E s) l"
  using message_complete_cases [of E s] assms by (auto simp: machine_ok_def marks_ok_def part_defs)

lemma start_locals_ok: "marks_ok (state s) (start_locals s)"
  by (cases "state s") (simp_all add: marks_ok_def start_locals_def part_defs)

lemma leave_ok:
  assumes "state_ok s" "state s \<noteq> s_chunk_size_start \<or> lread l = 0"
  shows "flow_ok (leave n s l)"
  using assms start_locals_ok [of "s\<lparr>nread := lread l\<rparr>"]
  by (auto simp: leave_def parser_ok_def machine_ok_def start_locals_def)

lemma leave_error: "http_errno s \<noteq> CHPE_OK \<Longrightarrow> flow_ok (leave n s l)"
  by (simp add: leave_def parser_ok_def)

lemma field_char_ok:
  assumes "field_state (header_state s)"
  obtains s' where "field_char s ch = Some s'" "field_state (header_state s')" "state s' = state s"
  using assms
  by (cases "header_state s") (auto simp: field_char_def match_name_def Let_def split: if_splits)

lemma field_loop_ok:
  "field_state (header_state s) \<Longrightarrow>
   \<exists>s' p' cs'. field_loop s p cs = Some (s', p', cs') \<and> field_state (header_state s') \<and>
     state s' = state s \<and> set cs' \<subseteq> set cs"
proof (induction s p cs rule: field_loop.induct)
  case (2 s p ch rest)
  obtain s' where s': "field_char s ch = Some s'" "field_state (header_state s')" "state s' = state s"
    by (rule field_char_ok [OF "2.prems"])
  with "2.IH" [OF _ s'(1)] "2.prems" show ?case by (cases "TOKEN ch = nul") auto
qed auto

lemma value_char_ok:
  assumes "value_state h"
  shows "case value_char h s ch of Go h' s' \<Rightarrow> value_state h' | Bad_length h' s' \<Rightarrow> True | Stuck \<Rightarrow> False"
  using assms by (cases h) (simp_all add: value_char_def match_value_def length_char_def Let_def)

lemma value_loop_ok:
  "value_state h \<Longrightarrow>
   (case value_loop h s p cs of
      Value_input h s p \<Rightarrow> value_state h
    | Value_line h s p ch rest \<Rightarrow> value_state h \<and> insert ch (set rest) \<subseteq> set cs
    | Value_stuck \<Rightarrow> False | _ \<Rightarrow> True)"
proof (induction h s p cs rule: value_loop.induct)
  case (2 h s p ch rest)
  show ?case
  proof (cases "(ch = cr \<or> ch = lf) \<or> (\<not> lenient_http_headers s \<and> \<not> IS_HEADER_CHAR ch)")
    case True
    with "2.prems" show ?thesis by auto
  next
    case False
    obtain h' s' where "value_char h s ch = Go h' s' \<and> value_state h' \<or> value_char h s ch = Bad_length h' s'"
      using value_char_ok [OF "2.prems", of s ch] by (cases "value_char h s ch") auto
    with "2.IH" False show ?thesis by (auto split: value_result.splits)
  qed
qed simp

lemma value_loop_state:
  "state s = s_header_value \<Longrightarrow>
   (case value_loop h s p cs of
      Value_input h s p \<Rightarrow> state s = s_header_value | _ \<Rightarrow> True)"
proof (induction h s p cs rule: value_loop.induct)
  case (2 h s p ch rest)
  have "case value_char h s ch of Go h' s' \<Rightarrow> state s' = s_header_value | _ \<Rightarrow> True"
    using "2.prems" by (cases h) (simp_all add: value_char_def match_value_def length_char_def Let_def)
  with 2 show ?case by (auto split: value_step.splits)
qed simp

subsection \<open>Each state keeps the invariant\<close>

lemma line_ok:
  fixes s :: "'c HTTPParser"
  assumes "machine_ok 1 s l" "nul \<notin> set rest"
  shows
  "state s = s_start_req \<Longrightarrow> flow_ok (do_start_req s l ch rest)"
  "state s = s_req_method \<Longrightarrow> flow_ok (do_method s l ch rest)"
  "state s = s_req_http_start \<Longrightarrow> flow_ok (do_http_start s l ch rest)"
  "state s = s_req_http_major \<or> state s = s_req_http_dot \<or> state s = s_req_http_minor \<Longrightarrow>
     flow_ok (do_http_version s l ch rest)"
  "state s = s_req_http_end \<Longrightarrow> flow_ok (do_http_end s l ch rest)"
proof -
  show "state s = s_start_req \<Longrightarrow> flow_ok (do_start_req s l ch rest)"
    using assms by (simp add: do_start_req_def machine_ok_def marks_ok_def part_defs Let_def split: option.split)
      (simp add: state_defs)
  show "state s = s_req_http_start \<Longrightarrow> flow_ok (do_http_start s l ch rest)"
    "state s = s_req_http_end \<Longrightarrow> flow_ok (do_http_end s l ch rest)"
    using assms by (simp_all add: do_http_start_def do_http_end_def machine_ok_def marks_ok_def part_defs)
      (simp_all add: state_defs)
  show "flow_ok (do_http_version s l ch rest)"
    if "state s = s_req_http_major \<or> state s = s_req_http_dot \<or> state s = s_req_http_minor"
    using that assms by (elim disjE; simp add: do_http_version_def machine_ok_def marks_ok_def part_defs)
      (simp_all add: state_defs)
  have "machine_ok 0 (s'\<lparr>index := i\<rparr>) l"
    if "state s' = s_req_method \<or> state s' = s_req_spaces_before_url" "state s = s_req_method" for s' :: "'c HTTPParser" and i
    using assms(1) that by (auto simp: machine_ok_def marks_ok_def part_defs state_defs)
  then show "state s = s_req_method \<Longrightarrow> flow_ok (do_method s l ch rest)"
    using assms(2) by (auto simp: do_method_def Let_def intro!: flow_ok_notify split: option.split)
qed

lemma expect_ok:
  assumes "marks_ok s_dead l" "state_ok (s\<lparr>state := nxt\<rparr>)" "nxt \<noteq> s_chunk_size_start" "nul \<notin> set rest"
  shows "flow_ok (expect c nxt s l ch rest)" "flow_ok (expect_lf nxt s l ch rest)"
  using assms by (auto simp: expect_def expect_lf_def machine_ok_def marks_ok_def part_defs)

lemma url_state_cases:
  "url_part st \<or> st = s_req_spaces_before_url \<Longrightarrow> url_state st ch = s_dead \<or> url_part (url_state st ch)"
  by (cases st) (simp_all add: url_state_def url_part_def)

lemma url_part_ok: "url_part (state s) \<Longrightarrow> state_ok s \<and> state s \<noteq> s_chunk_size_start"
  by (cases "state s") (simp_all add: state_defs url_part_def)

lemma parse_url_ok:
  fixes s :: "'c HTTPParser"
  assumes "url_part (state s) \<or> state s = s_req_spaces_before_url" "nul \<notin> set rest"
    "field_mark l = None" "value_mark l = None" "body_mark l = None"
  shows "flow_ok (parse_url_char E s l ch rest)"
proof (cases "url_state (state s) ch = s_dead")
  case True
  then show ?thesis by (simp add: parse_url_char_def Let_def)
next
  case False
  with url_state_cases [OF assms(1), of ch] have part: "url_part (url_state (state s) ch)" by blast
  have "machine_ok 0 s' l" if "state s' = url_state (state s) ch" for s' :: "'c HTTPParser"
    using url_part_ok [of s'] part that assms(3-5) by (simp add: machine_ok_def marks_ok_def)
  with False assms(2) show ?thesis by (simp add: parse_url_char_def Let_def)
qed

lemma url_ok:
  assumes "machine_ok 1 s l" "nul \<notin> set rest"
  shows "state s = s_req_spaces_before_url \<Longrightarrow> flow_ok (do_spaces E s l ch rest)"
    "url_part (state s) \<Longrightarrow> flow_ok (do_schema E s l ch rest)"
    "url_part (state s) \<Longrightarrow> flow_ok (do_url E data s l ch rest)"
proof -
  have marks: "field_mark l = None" "value_mark l = None" "body_mark l = None"
    if "url_part (state s) \<or> state s = s_req_spaces_before_url"
    using assms(1) that by (cases "state s"; simp add: machine_ok_def marks_ok_def part_defs)+
  have "machine_ok 0 s l" if "state s = s_req_spaces_before_url"
    using assms(1) that by (simp add: machine_ok_def)
  then show "flow_ok (do_spaces E s l ch rest)" if "state s = s_req_spaces_before_url"
    using that marks assms(2)
    by (auto simp: do_spaces_def Let_def url_part_def intro!: parse_url_ok)
  show "flow_ok (do_schema E s l ch rest)" if "url_part (state s)"
    using that marks assms(2) by (auto simp: do_schema_def intro!: parse_url_ok)
  have finished: "flow_ok (data_callback (on_url E) data (url_mark l) q er s'
      (\<lambda>s. Break s (l\<lparr>url_mark := None\<rparr>) rest))"
    if s': "state s' = s_req_http_start \<or> state s' = s_req_line_almost_done \<or> state s' = s_header_field_start"
      and part: "url_part (state s)" for s' q er
  proof -
    have ok: "machine_ok 0 s2 (l\<lparr>url_mark := None\<rparr>)" if "state s2 = state s'" for s2
      using that s' marks part by (auto simp: machine_ok_def marks_ok_def state_defs)
    show ?thesis
      using on_url_cases [of E _ s'] assms(2) by (intro flow_ok_data) (auto intro!: ok)
  qed
  show "flow_ok (do_url E data s l ch rest)" if "url_part (state s)"
    using that marks assms(2) finished by (auto simp: do_url_def Let_def intro!: parse_url_ok)
qed

lemma field_ok:
  assumes "machine_ok 1 s l" "nul \<notin> set (ch # rest)" "state s = s_header_field"
  shows "flow_ok (do_field data s l (ch # rest))"
proof -
  have hs: "field_state (header_state s)" and marks: "value_mark l = None" "url_mark l = None" "body_mark l = None"
    using assms(1,3) by (simp_all add: machine_ok_def state_defs marks_ok_def part_defs)
  obtain s' p cs where f: "field_loop s (pos l) (ch # rest) = Some (s', p, cs)"
    "field_state (header_state s')" "state s' = state s" "set cs \<subseteq> set (ch # rest)"
    using field_loop_ok [OF hs] by blast
  have here: "machine_ok 0 s' l2" if "value_mark l2 = None" "url_mark l2 = None" "body_mark l2 = None" for l2
    using f(2,3) assms(3) that by (simp add: machine_ok_def state_defs marks_ok_def)
  have after: "machine_ok 0 s2 (l2\<lparr>field_mark := None\<rparr>)"
    if "state s2 = s_header_value_discard_ws" "value_mark l2 = None" "url_mark l2 = None" "body_mark l2 = None" for s2 l2
    using that by (simp add: machine_ok_def state_defs marks_ok_def)
  have "nul \<notin> set cs" using f(4) assms(2) by auto
  then show ?thesis
    unfolding do_field_def f(1)
    by (cases cs) (auto intro!: flow_ok_intros here after simp: marks)
qed

lemma value_ok:
  assumes "machine_ok 1 s l" "nul \<notin> set (ch # rest)" "state s = s_header_value"
  shows "flow_ok (do_value data s l (ch # rest))"
proof -
  have hs: "value_state (header_state s)" and marks: "field_mark l = None" "url_mark l = None" "body_mark l = None"
    using assms(1,3) by (simp_all add: machine_ok_def state_defs marks_ok_def part_defs)
  note loop = value_loop_ok [OF hs, where s = s and p = "pos l" and cs = "ch # rest"]
    value_loop_state [OF assms(3), where h = "header_state s" and p = "pos l" and cs = "ch # rest"]
  show ?thesis
  proof (cases "value_loop (header_state s) s (pos l) (ch # rest)")
    case (Value_input h s' p)
    then show ?thesis
      using loop marks
      by (auto simp: do_value_def Let_def machine_ok_def state_defs marks_ok_def intro!: flow_ok_count)
  next
    case (Value_line h s' p c rest')
    have vs: "value_state h" using loop(1) Value_line by simp
    have nul: "nul \<noteq> c" "nul \<notin> set rest'" using loop(1) assms(2) Value_line by auto
    have hv: "header_state (on_header_value u s2) = header_state s2" for u s2
      by (simp add: on_header_value_def)
    show ?thesis
      unfolding do_value_def Let_def Value_line
      using nul
      by (auto simp: marks vs hv machine_ok_def state_defs marks_ok_def part_defs intro!: flow_ok_intros)
  qed (use loop in \<open>simp_all add: do_value_def Let_def\<close>)
qed

lemma unat_ascii: "unat (ascii ch) = of_char ch"
proof -
  have "ascii ch = word_of_nat (of_char ch)" by (simp only: ascii_def of_nat_of_char)
  moreover have "(of_char ch :: nat) < 2 ^ 8" using nat_of_char_less_256 [of ch] by simp
  ultimately show ?thesis by (simp add: unat_of_nat take_bit_nat_eq_self)
qed

lemma or_space: "(x :: u8) OR 0x20 = 0x20 \<Longrightarrow> x = 0 \<or> x = 0x20"
proof -
  assume "x OR 0x20 = 0x20"
  moreover have "x AND (x OR 0x20) = x" by (rule bit_word_eqI) (auto simp: bit_simps)
  ultimately have "x AND 0x20 = x" by simp
  moreover have thirtytwo: "bit (0x20 :: u8) n \<longleftrightarrow> n = 5" for n
  proof -
    have "bit (push_bit 5 (1 :: u8)) n \<longleftrightarrow> n = 5" unfolding bit_push_bit_iff by (auto simp: bit_1_iff)
    then show ?thesis by simp
  qed
  have "x AND 0x20 = 0x20" if "bit x 5"
    by (rule bit_word_eqI) (use that in \<open>auto simp only: bit_and_iff thirtytwo\<close>)
  moreover have "x AND 0x20 = 0" if "\<not> bit x 5"
    by (rule bit_word_eqI) (use that in \<open>auto simp only: bit_and_iff thirtytwo bit_0_eq bot_apply bot_bool_def\<close>)
  ultimately show ?thesis by (cases "bit x 5") auto
qed

lemma lower_space: "LOWER ch \<noteq> 9" "LOWER ch = 32 \<Longrightarrow> ch = nul \<or> ch = CHR '' ''"
proof -
  have "bit (LOWER ch) 5" by (simp add: LOWER_def bit_simps)
  then show "LOWER ch \<noteq> 9" by auto
  assume "LOWER ch = 32"
  then have "ascii ch = 0 \<or> ascii ch = 0x20" using or_space by (simp add: LOWER_def)
  then have "unat (ascii ch) = 0 \<or> unat (ascii ch) = 32" by auto
  then have "(of_char ch :: nat) = of_char nul \<or> (of_char ch :: nat) = of_char (CHR '' '')"
    by (simp add: unat_ascii)
  then show "ch = nul \<or> ch = CHR '' ''" by (simp only: of_char_eq_iff)
qed

lemma value_start_ok:
  assumes "state_ok s" "marks_ok s_dead l \<or> marks_ok s_header_value_start l" "ch \<noteq> nul" "nul \<notin> set rest"
    "state s = s_header_value_start \<or> ch \<noteq> CHR '' ''"
  shows "flow_ok (do_value_start s l ch rest)"
proof -
  have lower: "LOWER ch \<noteq> 32 \<and> LOWER ch \<noteq> 9" if "ch \<noteq> CHR '' ''"
    using lower_space assms(3) that by blast
  have marks: "field_mark l = None" "value_mark l = None" "url_mark l = None" "body_mark l = None"
    using assms(2) by (auto simp: marks_ok_def part_defs)
  show ?thesis
    using assms marks lower
    by (cases "header_state s")
      (auto simp: do_value_start_def Let_def machine_ok_def state_defs marks_ok_def part_defs)
qed

lemma header_ok:
  assumes "machine_ok 1 s l" "ch \<noteq> nul" "nul \<notin> set rest"
  shows
  "state s = s_header_field_start \<Longrightarrow> flow_ok (do_field_start s l ch rest)"
  "state s = s_header_value_start \<Longrightarrow> flow_ok (do_value_start s l ch rest)"
  "state s = s_header_value_discard_ws \<Longrightarrow> flow_ok (do_discard_ws s l ch rest)"
  "state s = s_header_value_lws \<Longrightarrow> flow_ok (do_value_lws s l ch rest)"
  "state s = s_header_value_discard_lws \<Longrightarrow> flow_ok (do_discard_lws data s l ch rest)"
proof -
  show "state s = s_header_field_start \<Longrightarrow> flow_ok (do_field_start s l ch rest)"
    using assms by (auto simp: do_field_start_def machine_ok_def marks_ok_def part_defs state_defs)
  show "state s = s_header_value_start \<Longrightarrow> flow_ok (do_value_start s l ch rest)"
    using assms by (intro value_start_ok) (auto simp: machine_ok_def)
  show "flow_ok (do_discard_ws s l ch rest)" if st: "state s = s_header_value_discard_ws"
  proof (cases "ch = CHR '' '' \<or> ch = tab \<or> ch = cr \<or> ch = lf")
    case True
    with assms st show ?thesis
      by (auto simp: do_discard_ws_def machine_ok_def marks_ok_def part_defs state_defs)
  next
    case False
    have "flow_ok (do_value_start s l ch rest)"
      using assms st False by (intro value_start_ok) (auto simp: machine_ok_def marks_ok_def part_defs)
    with False show ?thesis by (simp add: do_discard_ws_def)
  qed
  show "state s = s_header_value_lws \<Longrightarrow> flow_ok (do_value_lws s l ch rest)"
    using assms by (auto simp: do_value_lws_def Let_def machine_ok_def marks_ok_def part_defs state_defs)
  show "state s = s_header_value_discard_lws \<Longrightarrow> flow_ok (do_discard_lws data s l ch rest)"
    using assms
    by (auto simp: do_discard_lws_def Let_def machine_ok_def marks_ok_def part_defs state_defs intro!: flow_ok_data)
qed

lemma headers_end_ok:
  assumes "machine_ok 1 s l" "ch \<noteq> nul" "nul \<notin> set rest"
  shows
  "state s = s_headers_almost_done \<Longrightarrow> flow_ok (do_headers_almost_done E s l ch rest)"
  "state s = s_headers_done \<Longrightarrow> flow_ok (do_headers_done E s l ch rest)"
proof -
  have marks: "marks_ok s_start_req l" if "state s = s_headers_almost_done \<or> state s = s_headers_done"
    using assms(1) that by (auto simp: machine_ok_def marks_ok_def part_defs)
  show "flow_ok (do_headers_almost_done E s l ch rest)" if st: "state s = s_headers_almost_done"
  proof -
    have "state_ok s" using assms(1) by (simp add: machine_ok_def)
    moreover have "machine_ok 1 (on_headers_complete E (s\<lparr>state := s_headers_done, upgrade := u\<rparr>)) l" for u
      using marks st by (simp add: machine_ok_def) (simp add: marks_ok_def part_defs state_defs)
    ultimately show ?thesis
      using assms(2,3) marks st
      by (auto simp: do_headers_almost_done_def Let_def parser_ok_def leave_def
          intro!: flow_ok_notify machine_ok_message_complete)
  qed
  show "flow_ok (do_headers_done E s l ch rest)" if st: "state s = s_headers_done"
  proof -
    have ok: "state_ok s" "marks_ok s_start_req l" "state s \<noteq> s_chunk_size_start"
      using assms(1) marks st by (simp_all add: machine_ok_def)
    have complete: "flow_ok (notify (on_message_complete E) er (s\<lparr>nread := 0\<rparr>)
        (\<lambda>s. Break s (l\<lparr>lread := 0\<rparr>) rest))" for er
      using ok assms(3) by (auto intro!: flow_ok_notify machine_ok_message_complete) (simp add: marks_ok_def)
    have upgraded: "flow_ok (notify (on_message_complete E) er (s\<lparr>nread := 0\<rparr>)
        (\<lambda>s. leave er s (l\<lparr>lread := 0\<rparr>)))" for er
      using ok message_complete_cases [of E "s\<lparr>nread := 0\<rparr>"]
      by (auto intro!: flow_ok_notify leave_ok)
    have go: "machine_ok 0 (s\<lparr>nread := 0, state := st\<rparr>) (l\<lparr>lread := 0\<rparr>)"
      if "state_ok (s\<lparr>state := st\<rparr>)" for st
      using that ok(2) by (simp add: machine_ok_def marks_ok_def part_defs state_defs)
    show ?thesis
      using assms(3)
      by (simp add: do_headers_done_def Let_def complete upgraded leave_error go)
        (auto simp: state_defs intro!: go)
  qed
qed

lemma body_ok:
  assumes "machine_ok 1 s l" "nul \<notin> set (ch # rest)"
  shows
  "state s = s_body_identity \<Longrightarrow> flow_ok (do_body_identity data s l (ch # rest))"
  "state s = s_body_identity_eof \<Longrightarrow> flow_ok (do_body_eof s l (ch # rest))"
  "state s = s_chunk_data \<Longrightarrow> flow_ok (do_chunk_data s l (ch # rest))"
proof -
  have drop: "nul \<notin> set (drop n (ch # rest))" for n
    using assms(2) by (meson in_set_dropD)
  have left: "content_length s - of_nat (min (unat (content_length s)) n) \<noteq> ULLONG_MAX"
    if "content_length s \<noteq> ULLONG_MAX" for n
  proof
    let ?m = "min (unat (content_length s)) n"
    assume eq: "content_length s - of_nat ?m = ULLONG_MAX"
    have "?m < 2 ^ 64" using unsigned_less [where 'a = nat and w = "content_length s"] by (simp add: min.strict_coboundedI1)
    then have m: "unat (of_nat ?m :: u64) = ?m" by (simp add: unat_of_nat take_bit_nat_eq_self)
    then have "unat (content_length s - of_nat ?m) = unat (content_length s) - ?m"
      by (subst unat_sub) (simp_all add: word_le_nat_alt)
    then have "unat (content_length s) \<ge> unat ULLONG_MAX" using eq by simp
    moreover have "content_length s \<le> ULLONG_MAX" by (simp add: ULLONG_MAX_def)
    ultimately show False using that by (simp add: word_le_nat_alt [symmetric])
  qed
  show "flow_ok (do_body_identity data s l (ch # rest))" if "state s = s_body_identity"
    using assms(1) that left [of "Suc (length rest)"] drop
    by (auto simp: do_body_identity_def Let_def machine_ok_def marks_ok_def part_defs state_defs
        intro!: flow_ok_data)
  show "flow_ok (do_body_eof s l (ch # rest))" if "state s = s_body_identity_eof"
    using assms(1) that by (simp add: do_body_eof_def machine_ok_def marks_ok_def part_defs state_defs)
  show "flow_ok (do_chunk_data s l (ch # rest))" if "state s = s_chunk_data"
    using assms(1) that left [of "Suc (length rest)"] drop
    by (auto simp: do_chunk_data_def Let_def machine_ok_def marks_ok_def part_defs state_defs)
qed

lemma unhex_small:
  assumes "unhex ch = Some v"
  shows "v \<le> 15"
proof -
  have "of_nat k \<le> (15 :: u64)" if "k \<le> 15" for k
    using that by (simp add: word_le_nat_alt unat_of_nat)
  note small = this
  have "unat (ascii ch) - 48 \<le> 15" if "ascii ch \<le> 57" using that by (simp add: word_le_nat_alt)
  moreover have "unat (LOWER ch) - 87 \<le> 15" if "LOWER ch \<le> 102" using that by (simp add: word_le_nat_alt)
  moreover have "v = of_nat (unat (ascii ch) - 48) \<and> ascii ch \<le> 57 \<or>
      v = of_nat (unat (LOWER ch) - 87) \<and> LOWER ch \<le> 102 \<or> v = 0"
    using assms unfolding unhex_def by (simp only: split: if_splits) blast+
  ultimately show ?thesis using small by auto
qed

lemma unat_ULLONG_MAX: "unat ULLONG_MAX = 18446744073709551615"
  by (simp add: ULLONG_MAX_def unsigned_minus_1_eq_mask mask_eq_exp_minus_1)

lemma chunk_ok:
  assumes "machine_ok 1 s l" "nul \<notin> set rest"
  shows
  "state s = s_chunk_size_start \<Longrightarrow> flow_ok (do_chunk_size_start s l ch rest)"
  "state s = s_chunk_size \<Longrightarrow> flow_ok (do_chunk_size s l ch rest)"
  "state s = s_chunk_parameters \<Longrightarrow> flow_ok (do_chunk_parameters s l ch rest)"
  "state s = s_chunk_size_almost_done \<Longrightarrow> flow_ok (do_chunk_size_almost_done s l ch rest)"
  "state s = s_chunk_data_almost_done \<Longrightarrow> flow_ok (do_chunk_data_almost_done data s l ch rest)"
  "state s = s_chunk_data_done \<Longrightarrow> flow_ok (do_chunk_data_done s l ch rest)"
proof -
  have first: "v \<noteq> ULLONG_MAX" if "unhex ch = Some v" for v
    using unhex_small [OF that] by (auto simp: unat_ULLONG_MAX word_le_nat_alt)
  have later: "content_length s * 16 + v \<noteq> ULLONG_MAX"
    if "unhex ch = Some v" "\<not> (ULLONG_MAX - 16) div 16 < content_length s" for v
  proof -
    have "unat v \<le> 15" using unhex_small [OF that(1)] by (simp add: word_le_nat_alt)
    moreover have "unat (content_length s) \<le> 1152921504606846974"
      using that(2) by (simp add: ULLONG_MAX_def word_less_nat_alt)
    ultimately have "unat (content_length s * 16 + v) = unat (content_length s) * 16 + unat v"
      by (simp add: unat_word_ariths)
    then show ?thesis
      using \<open>unat v \<le> 15\<close> \<open>unat (content_length s) \<le> _\<close> unat_ULLONG_MAX by auto
  qed
  show "state s = s_chunk_size_start \<Longrightarrow> flow_ok (do_chunk_size_start s l ch rest)"
    using assms first
    by (auto simp: do_chunk_size_start_def machine_ok_def marks_ok_def part_defs state_defs split: option.split)
  show "state s = s_chunk_size \<Longrightarrow> flow_ok (do_chunk_size s l ch rest)"
    using assms later
    by (auto simp: do_chunk_size_def machine_ok_def marks_ok_def part_defs state_defs split: option.split)
  show "state s = s_chunk_parameters \<Longrightarrow> flow_ok (do_chunk_parameters s l ch rest)"
    using assms by (auto simp: do_chunk_parameters_def machine_ok_def marks_ok_def part_defs state_defs)
  show "state s = s_chunk_size_almost_done \<Longrightarrow> flow_ok (do_chunk_size_almost_done s l ch rest)"
    using assms by (auto simp: do_chunk_size_almost_done_def Let_def machine_ok_def marks_ok_def part_defs state_defs)
  show "state s = s_chunk_data_almost_done \<Longrightarrow> flow_ok (do_chunk_data_almost_done data s l ch rest)"
    using assms
    by (auto simp: do_chunk_data_almost_done_def machine_ok_def marks_ok_def part_defs state_defs on_body_def
        intro!: flow_ok_data)
  show "state s = s_chunk_data_done \<Longrightarrow> flow_ok (do_chunk_data_done s l ch rest)"
    using assms by (auto simp: do_chunk_data_done_def machine_ok_def marks_ok_def part_defs state_defs)
qed

lemma switch_ok:
  assumes "machine_ok 1 s l" "ch \<noteq> nul" "nul \<notin> set rest"
  shows "flow_ok (switch E data s l ch rest)"
proof -
  have cs: "nul \<notin> set (ch # rest)" using assms(2,3) by simp
  have keep: "machine_ok 0 s l" if "state s = s_dead" using assms(1) that by (simp add: machine_ok_def)
  have marks: "marks_ok s_dead l" if "\<not> url_part (state s)" "\<not> body_part (state s)"
      "state s \<noteq> s_header_field" "state s \<noteq> s_header_value"
    using assms(1) that by (auto simp: machine_ok_def marks_ok_def)
  have complete: "flow_ok (notify (on_message_complete E) er s (\<lambda>s. Break s l rest))"
    if "state s = s_message_done" for er
  proof -
    have "state_ok s" "marks_ok s_start_req l" "state s \<noteq> s_chunk_size_start"
      using assms(1) that by (simp_all add: machine_ok_def marks_ok_def part_defs)
    with assms(3) show ?thesis by (auto intro!: flow_ok_notify machine_ok_message_complete)
  qed
  note expects = expect_ok [where s = s, OF marks _ _ assms(3)]
  show ?thesis
    using line_ok [OF assms(1,3)] url_ok [OF assms(1,3)] field_ok [OF assms(1) cs]
      value_ok [OF assms(1) cs] header_ok [OF assms] headers_end_ok [OF assms] body_ok [OF assms(1) cs]
      chunk_ok [OF assms(1,3)] keep complete expects assms(1,3)
    unfolding switch_def
    by (cases "state s") (simp_all add: part_defs, simp_all add: state_defs machine_ok_def)
qed

lemma reexecute_ok:
  "reexecute n E data s l cs = Some fl \<Longrightarrow> machine_ok 1 s l \<Longrightarrow> nul \<notin> set cs \<Longrightarrow> flow_ok fl"
proof (induction n E data s l cs rule: reexecute.induct)
  case (3 n E data s l ch rest)
  have ok: "flow_ok (switch E data s l ch rest)" using "3.prems" by (intro switch_ok) auto
  show ?case
  proof (cases "switch E data s l ch rest")
    case (Reexecute s' l' cs')
    with ok "3.prems"(1) "3.IH" [OF Reexecute] show ?thesis by simp
  qed (use "3.prems"(1) ok in auto)
qed auto

lemma not_both: "\<not> (url_part st \<and> body_part st)"
  by (cases st) (simp_all add: part_defs)

lemma parts_only:
  "\<not> url_part s_header_field" "\<not> body_part s_header_field" "\<not> url_part s_header_value"
  "\<not> body_part s_header_value"
  by (simp_all add: part_defs)

lemma at_end_ok:
  assumes "machine_ok 0 s l"
  shows "\<exists>n s'. at_end E data s l = Returned n s' \<and> parser_ok s'"
proof -
  have one: "\<not> 1 < marks l"
    using assms not_both [of "state s"] parts_only by (auto simp: machine_ok_def marks_ok_def marks_def)
  have ok: "state_ok s" "state s \<noteq> s_chunk_size_start \<or> lread l = 0" using assms by (auto simp: machine_ok_def)
  have fl: "flow_ok (data_callback on_header_field data (field_mark l) (pos l) (pos l) s
             (\<lambda>s. data_callback on_header_value data (value_mark l) (pos l) (pos l) s
                (\<lambda>s. data_callback (on_url E) data (url_mark l) (pos l) (pos l) s
                   (\<lambda>s. data_callback on_body data (body_mark l) (pos l) (pos l) s
                      (\<lambda>s. leave (length data) s l)))))" (is "flow_ok ?fl")
    using ok on_url_cases [of E] by (auto intro!: flow_ok_data leave_ok)
  moreover have "\<exists>n s'. ?fl = Return n s'"
    by (auto simp: data_callback_def notify_def leave_def Let_def split: option.split)
  ultimately show ?thesis using one by (auto simp: at_end_def)
qed

lemma exec_loop_ok:
  "machine_ok 0 s l \<Longrightarrow> nul \<notin> set cs \<Longrightarrow> \<exists>n s'. exec_loop E data s l cs = Returned n s' \<and> parser_ok s'"
proof (induction E data s l cs rule: exec_loop.induct)
  case (1 E data s l)
  then show ?case by (simp add: at_end_ok)
next
  case (2 E data s l ch rest)
  have error: "parser_ok (s\<lparr>nread := r, http_errno := e\<rparr>)" if "e \<noteq> CHPE_OK" for s r e
    using that by (simp add: parser_ok_def)
  show ?case
  proof (cases "overflows s (count_char s l)")
    case True
    then show ?thesis by (simp add: at_error_def parser_ok_def)
  next
    case False
    have machine_ok: "machine_ok 1 s (count_char s l)"
      using "2.prems"(1) by (auto simp: machine_ok_def marks_ok_def count_char_def parsing_header_def)
    obtain fl where fl: "reexecute 5 E data s (count_char s l) (ch # rest) = Some fl"
      using reexecute_defined [of "ch # rest" s 5] rank_bound by blast
    have ok: "flow_ok fl" "\<forall>s' l' cs'. fl \<noteq> Reexecute s' l' cs'"
      using reexecute_ok [OF fl machine_ok "2.prems"(2)] reexecute_moves [OF fl] by blast+
    show ?thesis
    proof (cases fl)
      case (Break s2 l2 rest2)
      have "machine_ok 0 s2 (l2\<lparr>pos := pos l2 + 1\<rparr>)" "nul \<notin> set rest2"
        using ok(1) Break by (simp_all add: machine_ok_def marks_ok_def)
      from "2.IH" [OF False fl Break this] show ?thesis using False fl Break by simp
    qed (use ok False fl in \<open>auto simp: at_error_def parser_ok_def flow_ok_def\<close>)
  qed
qed

lemma feed_ok:
  assumes "parser_ok s" "nul \<notin> set data"
  shows "\<exists>b s'. feed E data s = Some (b, s') \<and> parser_ok s'"
proof (cases "message_complete s \<or> http_errno s \<noteq> CHPE_OK \<or> data = []")
  case True
  have "parser_ok (on_message_complete E s)" if "state s = s_body_identity_eof"
    using message_complete_cases [of E s] start_locals_ok [of "on_message_complete E s"] that
    by (auto simp: parser_ok_def machine_ok_def state_defs)
  with True assms(1) show ?thesis
    by (auto simp: feed_def http_parser_execute_def) (simp_all add: parser_ok_def)
next
  case False
  then have "machine_ok 0 s (start_locals s)" using assms(1) by (simp add: parser_ok_def)
  from exec_loop_ok [OF this assms(2), of E data] False show ?thesis
    by (auto simp: feed_def http_parser_execute_def)
qed

text \<open>A connection feeds one piece after the other.\<close>

fun feed_all :: "'c env \<Rightarrow> string list \<Rightarrow> 'c HTTPParser \<Rightarrow> 'c HTTPParser option" where
  "feed_all E [] s = Some s"
| "feed_all E (data # pieces) s =
     (case feed E data s of None \<Rightarrow> None | Some (ok, s) \<Rightarrow> feed_all E pieces s)"

lemma new_parser_ok: "parser_ok (new_parser c)"
  by (simp add: parser_ok_def machine_ok_def state_defs marks_ok_def start_locals_def new_parser_def)

text \<open>
  C36. However the bytes of a connection are cut into pieces and whatever the connection does with
  the requests, no assertion of the parser fails and every call returns, as long as there is no NUL
  among the bytes.
\<close>

theorem http_parser_never_aborts:
  fixes c :: 'c
  assumes "nul \<notin> set (concat pieces)"
  shows "feed_all E pieces (new_parser c) \<noteq> None"
proof -
  have "feed_all E pieces s \<noteq> None" if "parser_ok s" for s :: "'c HTTPParser"
    using that assms
  proof (induction pieces arbitrary: s)
    case (Cons data pieces)
    obtain b s' where "feed E data s = Some (b, s')" "parser_ok s'"
      using feed_ok [OF Cons.prems(1), of data E] Cons.prems(2) by auto
    with Cons show ?case by simp
  qed simp
  from this [OF new_parser_ok] show ?thesis .
qed

text \<open>A connection that keeps the requests and answers each at once.\<close>

definition recorder :: "request list env" where
  "recorder =
     \<lparr>handle_url = (\<lambda>r c. (False, c)), handle_header = (\<lambda>r c. c), handle_message = (\<lambda>r c. (True, c @ [r])),
      buffer_address = 0\<rparr>"

theorem http_parser_never_aborts_witness:
  "feed_all recorder [''GET /x HT'', ''TP/1.1'' @ [cr, lf], [cr, lf]] (new_parser []) \<noteq> None"
  by (rule http_parser_never_aborts) simp

definition nul_request :: string where
  "nul_request = ''GET / HTTP/1.1'' @ [cr, lf] @ ''Connection: '' @ [nul, CHR ''x'']"

text \<open>
  An example with a NUL for which an assertion fails and the program ends: behind the name of the
  header \<open>Connection\<close> the NUL is taken for a blank, and the next character of the value finds the
  header state that the loop over values asserts not to see.
\<close>

theorem nul_in_connection_aborts: "feed recorder nul_request (new_parser []) = None"
  by code_simp

end
