(* ===== verification/Crow_Http_Line.thy ===== *)
theory Crow_Http_Line
  imports Crow_Http_Safe
begin

unbundle bit_operations_syntax

text \<open>
  The parser on a request line: the steps of its loop, the 34 methods, a path with or without a query,
  and the version.
\<close>

subsection \<open>Steps of the loop\<close>

declare exec_loop.simps(2) [simp del]

lemma same_state [simp]: "state s = st \<Longrightarrow> s\<lparr>state := st\<rparr> = s"
  by (cases s) simp

text \<open>\<open>n\<close> characters further, all of them counted as part of the header.\<close>

definition advance :: "nat \<Rightarrow> locals \<Rightarrow> locals" where
  "advance n l = l\<lparr>pos := pos l + n, lread := lread l + of_nat n\<rparr>"

definition room :: "locals \<Rightarrow> nat \<Rightarrow> bool" where
  "room l n \<longleftrightarrow> unat (lread l) + n \<le> unat max_header_size"

lemma advance_simps [simp]:
  "pos (advance n l) = pos l + n" "field_mark (advance n l) = field_mark l"
  "value_mark (advance n l) = value_mark l" "url_mark (advance n l) = url_mark l"
  "url_start_mark (advance n l) = url_start_mark l" "body_mark (advance n l) = body_mark l"
  "lread (advance n l) = lread l + of_nat n"
  "advance 0 l = l" "advance m (advance n l) = advance (n + m) l"
  by (simp_all add: advance_def add.assoc)

lemma swap_reads: "l\<lparr>lread := r, pos := p\<rparr> = l\<lparr>pos := p, lread := r\<rparr>"
  by (cases l) simp

lemma max_header: "unat max_header_size = 81920"
  by (simp add: max_header_size_def)

lemma room_lread:
  assumes "room l (n + k)"
  shows "unat (lread l + of_nat n) = unat (lread l) + n" "room (advance n l) k"
    "\<not> max_header_size < lread l + of_nat n"
proof -
  have small: "unat (lread l) + n < 4294967296" using assms by (simp add: room_def max_header)
  then show n: "unat (lread l + of_nat n) = unat (lread l) + n"
    by (simp add: unat_word_ariths unat_of_nat mod_add_right_eq)
  then show "room (advance n l) k" "\<not> max_header_size < lread l + of_nat n"
    using assms by (simp_all add: room_def word_less_nat_alt)
qed

lemma room_mono: "room l n \<Longrightarrow> k \<le> n \<Longrightarrow> room l k"
  by (simp add: room_def)

text \<open>One character of the header, handled with a \<open>break\<close>.\<close>

lemma header_step:
  assumes "parsing_header (state s)" "room l (Suc k)"
    "reexecute 5 E data s (l\<lparr>lread := lread l + 1\<rparr>) (ch # rest) = Some (Break s' l' rest')"
  shows "exec_loop E data s l (ch # rest) = exec_loop E data s' (l'\<lparr>pos := pos l' + 1\<rparr>) rest'"
proof -
  have "\<not> max_header_size < lread l + 1" using room_lread(3) [of l 1 k] assms(2) by simp
  with assms show ?thesis by (simp add: exec_loop.simps(2) count_char_def overflows_def)
qed

lemma switch_step:
  assumes "parsing_header (state s)" "room l (Suc k)"
    "switch E data s (l\<lparr>lread := lread l + 1\<rparr>) ch rest = Break s' (l'\<lparr>lread := lread l + 1\<rparr>) rest"
    "pos l' = pos l" "lread l' = lread l"
  shows "exec_loop E data s l (ch # rest) = exec_loop E data s' (advance 1 l') rest"
proof -
  have "reexecute 5 E data s (l\<lparr>lread := lread l + 1\<rparr>) (ch # rest) =
      Some (Break s' (l'\<lparr>lread := lread l + 1\<rparr>) rest)"
    by (simp add: numeral_eq_Suc assms(3))
  from header_step [OF assms(1,2) this] assms(4,5) show ?thesis
    by (simp add: advance_def swap_reads)
qed

text \<open>More switches than needed change nothing.\<close>

lemma reexecute_more:
  "reexecute n E data s l cs = Some fl \<Longrightarrow> reexecute (n + k) E data s l cs = Some fl"
proof (induction n E data s l cs rule: reexecute.induct)
  case (3 n E data s l ch rest)
  then show ?case by (cases "switch E data s l ch rest") auto
qed auto

lemma reexecute_enough:
  assumes "rank (state s) \<le> n" "n \<le> m" "cs \<noteq> []"
  shows "reexecute m E data s l cs = reexecute n E data s l cs"
proof -
  obtain fl where "reexecute n E data s l cs = Some fl" using reexecute_defined [OF assms(3,1)] by blast
  with reexecute_more [OF this, of "m - n"] assms(2) show ?thesis by simp
qed

text \<open>A \<open>goto reexecute\<close> that changes nothing else.\<close>

lemma reexecute_step:
  assumes "switch E data s l ch rest = Reexecute s' l (ch # rest)"
  shows "reexecute 5 E data s l (ch # rest) = reexecute 5 E data s' l (ch # rest)"
proof -
  have less: "rank (state s') < rank (state s)" using re_at_switch [of s E data l ch rest] assms by simp
  have "rank (state s') \<le> 4" using less rank_bound [of "state s"] by simp
  then have "reexecute 5 E data s' l (ch # rest) = reexecute 4 E data s' l (ch # rest)"
    by (intro reexecute_enough) simp_all
  moreover have "reexecute 5 E data s l (ch # rest) = reexecute 4 E data s' l (ch # rest)"
    by (simp add: numeral_eq_Suc assms)
  ultimately show ?thesis by simp
qed

subsection \<open>The method\<close>

definition method_step :: "char \<Rightarrow> nat \<times> nat \<Rightarrow> (nat \<times> nat) option" where
  "method_step ch mi =
     (let (m, i) = mi in
      map_option (\<lambda>m. (m, (i + 1) mod 32))
        (if ch = char_at (method_strings ! m) i then Some m
         else if (65 \<le> ascii ch \<and> ascii ch \<le> 90) \<or> ch = CHR ''-'' then map_of method_changes (m, i, ch)
         else None))"

fun method_run :: "string \<Rightarrow> nat \<times> nat \<Rightarrow> (nat \<times> nat) option" where
  "method_run [] mi = Some mi"
| "method_run (ch # cs) mi =
     (if ch = nul \<or> ch = CHR '' '' then None
      else case method_step ch mi of None \<Rightarrow> None | Some mi \<Rightarrow> method_run cs mi)"

definition named :: "nat \<Rightarrow> nat \<Rightarrow> 'c HTTPParser \<Rightarrow> 'c HTTPParser" where
  "named m i s = s\<lparr>p_method := m, index := i, req := (req s)\<lparr>req_method := m\<rparr>\<rparr>"

lemma named_simps [simp]:
  "state (named m i s) = state s" "http_errno (named m i s) = http_errno s"
  "p_method (named m i s) = m" "index (named m i s) = i" "named m' i' (named m i s) = named m' i' s"
  by (simp_all add: named_def)

lemma method_char:
  assumes "state s = s_req_method" "http_errno s = CHPE_OK" "room l (Suc k)"
    "ch \<noteq> nul" "ch \<noteq> CHR '' ''" "method_step ch (p_method s, index s) = Some (m, i)"
  shows "exec_loop E data s l (ch # rest) = exec_loop E data (named m i s) (advance 1 l) rest"
proof (rule switch_step [OF _ assms(3)])
  show "parsing_header (state s)" by (simp add: assms(1) parsing_header_def)
  show "switch E data s (l\<lparr>lread := lread l + 1\<rparr>) ch rest =
      Break (named m i s) (l\<lparr>lread := lread l + 1\<rparr>) rest"
    using assms
    by (auto simp: switch_def do_method_def method_step_def Let_def notify_def on_method_def named_def
        split: if_splits option.splits)
qed simp_all

lemma method_chars:
  "state s = s_req_method \<Longrightarrow> http_errno s = CHPE_OK \<Longrightarrow> room l (length cs) \<Longrightarrow>
   method_run cs (p_method s, index s) = Some (m, i) \<Longrightarrow> cs \<noteq> [] \<Longrightarrow>
   exec_loop E data s l (cs @ rest) = exec_loop E data (named m i s) (advance (length cs) l) rest"
proof (induction cs arbitrary: s l)
  case (Cons ch cs)
  obtain m1 i1 where step: "ch \<noteq> nul" "ch \<noteq> CHR '' ''"
    "method_step ch (p_method s, index s) = Some (m1, i1)" "method_run cs (m1, i1) = Some (m, i)"
    using Cons.prems(4) by (auto split: if_splits option.splits)
  have first: "exec_loop E data s l ((ch # cs) @ rest) =
      exec_loop E data (named m1 i1 s) (advance 1 l) (cs @ rest)"
    using method_char [OF Cons.prems(1,2) _ step(1-3), of l "length cs"] Cons.prems(3) by simp
  show ?case
  proof (cases "cs = []")
    case True
    then show ?thesis using first step(4) by simp
  next
    case False
    have "room (advance 1 l) (length cs)" using room_lread(2) [of l 1 "length cs"] Cons.prems(3) by simp
    with Cons.IH [of "named m1 i1 s" "advance 1 l"] Cons.prems False step(4) first show ?thesis by simp
  qed
qed simp

definition method_table :: bool where
  "method_table =
     list_all
       (\<lambda>m. case method_name m of
              [] \<Rightarrow> False
            | c # cs \<Rightarrow>
                IS_ALPHA c \<and> c \<noteq> cr \<and> c \<noteq> lf \<and> cs \<noteq> [] \<and> char_at (c # cs) (length cs + 1) = nul \<and>
                length cs < 31 \<and>
                (case first_method c of None \<Rightarrow> False | Some m0 \<Rightarrow> method_run cs (m0, 1) = Some (m, length cs + 1)))
       [0..<34]"

lemma method_table_holds: method_table
  by code_simp

lemma method_entry:
  assumes "m < 34"
  obtains c cs m0 where "method_name m = c # cs" "cs \<noteq> []" "IS_ALPHA c" "c \<noteq> cr" "c \<noteq> lf"
    "first_method c = Some m0" "method_run cs (m0, 1) = Some (m, length cs + 1)"
    "char_at (method_strings ! m) (length cs + 1) = nul" "length cs < 31"
proof -
  have "method_strings ! m = method_name m" using assms by (simp add: method_name_def InternalMethodCount_def)
  moreover have "m \<in> set [0..<34]" using assms by simp
  ultimately show ?thesis
    using method_table_holds that unfolding method_table_def list_all_iff
    by (fastforce split: list.splits option.splits)
qed

definition started :: "'c HTTPParser \<Rightarrow> 'c HTTPParser" where
  "started s = s\<lparr>flags := 0, uses_transfer_encoding := False, content_length := ULLONG_MAX\<rparr>"

text \<open>The parser behind the method and its blank.\<close>

definition with_method :: "nat \<Rightarrow> 'c HTTPParser \<Rightarrow> 'c HTTPParser" where
  "with_method m s =
     (named m ((length (method_name m) + 1) mod 32) (started s))\<lparr>state := s_req_spaces_before_url\<rparr>"

lemma method_read:
  assumes "m < 34" "state s = s_start_req" "http_errno s = CHPE_OK" "room l (length (method_name m) + 1)"
  shows "exec_loop E data s l (method_name m @ CHR '' '' # rest) =
    exec_loop E data (with_method m s) (advance (length (method_name m) + 1) l) rest"
proof -
  obtain c cs m0 where entry: "method_name m = c # cs" "cs \<noteq> []" "IS_ALPHA c" "c \<noteq> cr" "c \<noteq> lf"
    "first_method c = Some m0" "method_run cs (m0, 1) = Some (m, length cs + 1)"
    "char_at (method_strings ! m) (length cs + 1) = nul" "length cs < 31"
    by (rule method_entry [OF assms(1)])
  let ?n = "length cs"
  let ?s1 = "(started s)\<lparr>p_method := m0, index := 1, state := s_req_method\<rparr>"
  let ?s2 = "named m (?n + 1) ?s1"
  have rooms: "room l (Suc (?n + 1))" "room (advance 1 l) (?n + 1)" "room (advance (?n + 1) l) (Suc 0)"
    using assms(4) entry(1) room_lread(2) [of l 1 "?n + 1"] room_lread(2) [of l "?n + 1" 1] by simp_all
  have "exec_loop E data s l (c # cs @ CHR '' '' # rest) =
      exec_loop E data ?s1 (advance 1 l) (cs @ CHR '' '' # rest)"
    by (rule switch_step [OF _ rooms(1)])
      (simp_all add: switch_def do_start_req_def Let_def started_def assms(2) entry parsing_header_def)
  also have "\<dots> = exec_loop E data ?s2 (advance (?n + 1) l) (CHR '' '' # rest)"
    using method_chars [of ?s1 "advance 1 l" cs m "?n + 1"] entry(2,7) rooms(2) room_mono assms(3)
    by (simp add: started_def)
  also have "\<dots> = exec_loop E data (with_method m s) (advance 1 (advance (?n + 1) l)) rest"
  proof (rule switch_step [OF _ rooms(3)])
    have "CHR '' '' \<noteq> nul" by simp
    then show "switch E data ?s2 ((advance (?n + 1) l)\<lparr>lread := lread (advance (?n + 1) l) + 1\<rparr>) (CHR '' '') rest =
        Break (with_method m s) ((advance (?n + 1) l)\<lparr>lread := lread (advance (?n + 1) l) + 1\<rparr>) rest"
      using entry(1,8,9) assms(3)
      by (simp add: switch_def do_method_def Let_def notify_def on_method_def with_method_def named_def started_def)
  qed (simp_all add: parsing_header_def)
  finally show ?thesis by (simp add: entry(1))
qed

subsection \<open>The URL\<close>

text \<open>A path, with a query or without.\<close>

definition target_ok :: "string \<Rightarrow> bool" where
  "target_ok t \<longleftrightarrow>
     (case t of [] \<Rightarrow> False | c # cs \<Rightarrow> c = CHR ''/'' \<and> list_all (\<lambda>c. IS_URL_CHAR c \<or> c = CHR ''?'') cs)"

definition path_of :: "string \<Rightarrow> string" where
  "path_of t = takeWhile (\<lambda>c. c \<noteq> CHR ''?'') t"

lemma url_char_plain:
  "IS_URL_CHAR c \<Longrightarrow> c \<notin> {CHR '' '', cr, lf, tab, CHR 0x0C} \<and> c \<noteq> CHR ''?''"
  by (auto simp: IS_URL_CHAR_def ascii_def)

lemma url_state_path: "IS_URL_CHAR c \<Longrightarrow> url_state s_req_path c = s_req_path"
  using url_char_plain [of c] by (simp add: url_state_def)

lemma url_state_query:
  assumes "st = s_req_query_string_start \<or> st = s_req_query_string" "IS_URL_CHAR c \<or> c = CHR ''?''"
  shows "url_state st c = s_req_query_string"
proof -
  have "c \<notin> {CHR '' '', cr, lf, tab, CHR 0x0C}" using assms(2) url_char_plain by auto
  with assms show ?thesis by (elim disjE) (simp_all add: url_state_def)
qed

lemma url_char_step:
  assumes "state s \<in> {s_req_path, s_req_query_string_start, s_req_query_string}" "room l (Suc k)"
    "url_state (state s) ch \<noteq> s_dead"
  shows "exec_loop E data s l (ch # rest) =
    exec_loop E data
      ((if url_state (state s) ch = s_req_query_string_start then s\<lparr>qs_point := url_offset E l\<rparr> else s)
        \<lparr>state := url_state (state s) ch\<rparr>)
      (advance 1 l) rest"
proof (rule switch_step [OF _ assms(2)])
  have "ch \<notin> {CHR '' '', cr, lf}" using assms(3) by (auto simp: url_state_def)
  then show "switch E data s (l\<lparr>lread := lread l + 1\<rparr>) ch rest =
      Break ((if url_state (state s) ch = s_req_query_string_start then s\<lparr>qs_point := url_offset E l\<rparr> else s)
        \<lparr>state := url_state (state s) ch\<rparr>) (l\<lparr>lread := lread l + 1\<rparr>) rest"
    using assms(1,3)
    by (auto simp: switch_def do_url_def Let_def parse_url_char_def url_offset_def split: option.split)
  show "parsing_header (state s)" using assms(1) by (auto simp: parsing_header_def)
qed simp_all

lemma path_chars:
  "state s = s_req_path \<Longrightarrow> list_all IS_URL_CHAR cs \<Longrightarrow> room l (length cs) \<Longrightarrow>
   exec_loop E data s l (cs @ rest) = exec_loop E data s (advance (length cs) l) rest"
proof (induction cs arbitrary: l)
  case (Cons ch cs)
  have "url_state (state s) ch = s_req_path" using Cons.prems(1,2) by (simp add: url_state_path)
  then have "exec_loop E data s l ((ch # cs) @ rest) = exec_loop E data s (advance 1 l) (cs @ rest)"
    using url_char_step [of s l "length cs" ch E data "cs @ rest"] Cons.prems(1,3) by simp
  moreover have "room (advance 1 l) (length cs)" using room_lread(2) [of l 1 "length cs"] Cons.prems(3) by simp
  ultimately show ?case using Cons.IH [of "advance 1 l"] Cons.prems(1,2) by simp
qed simp

lemma query_chars:
  "state s \<in> {s_req_query_string_start, s_req_query_string} \<Longrightarrow>
   list_all (\<lambda>c. IS_URL_CHAR c \<or> c = CHR ''?'') cs \<Longrightarrow> room l (length cs) \<Longrightarrow>
   \<exists>st \<in> {s_req_query_string_start, s_req_query_string}.
     exec_loop E data s l (cs @ rest) = exec_loop E data (s\<lparr>state := st\<rparr>) (advance (length cs) l) rest"
proof (induction cs arbitrary: s l)
  case Nil
  then show ?case by (intro bexI [of _ "state s"]) simp_all
next
  case (Cons ch cs)
  have "url_state (state s) ch = s_req_query_string"
    using Cons.prems(1,2) by (intro url_state_query) simp_all
  then have "exec_loop E data s l ((ch # cs) @ rest) =
      exec_loop E data (s\<lparr>state := s_req_query_string\<rparr>) (advance 1 l) (cs @ rest)"
    using url_char_step [of s l "length cs" ch E data "cs @ rest"] Cons.prems(1,3) by simp
  moreover have "room (advance 1 l) (length cs)" using room_lread(2) [of l 1 "length cs"] Cons.prems(3) by simp
  ultimately show ?case
    using Cons.IH [of "s\<lparr>state := s_req_query_string\<rparr>" "advance 1 l"] Cons.prems(2) by simp
qed

text \<open>The parser behind the URL, before the callback.\<close>

definition at_url :: "string \<Rightarrow> 'c HTTPParser \<Rightarrow> 'c HTTPParser" where
  "at_url t s =
     s\<lparr>qs_point := (if CHR ''?'' \<in> set t then of_nat (length (path_of t)) else qs_point s),
       state := s_req_http_start\<rparr>"

lemma target_parts:
  assumes "target_ok t"
  obtains p where "t = CHR ''/'' # p" "list_all IS_URL_CHAR p" "CHR ''?'' \<notin> set t"
  | p r where "t = CHR ''/'' # p @ CHR ''?'' # r" "list_all IS_URL_CHAR p"
      "list_all (\<lambda>c. IS_URL_CHAR c \<or> c = CHR ''?'') r" "path_of t = CHR ''/'' # p"
proof -
  obtain cs where t: "t = CHR ''/'' # cs" "list_all (\<lambda>c. IS_URL_CHAR c \<or> c = CHR ''?'') cs"
    using assms by (auto simp: target_ok_def split: list.splits)
  let ?p = "takeWhile (\<lambda>c. c \<noteq> CHR ''?'') cs"
  have p: "list_all IS_URL_CHAR ?p" using t(2) by (auto simp: list_all_iff dest!: set_takeWhileD)
  show ?thesis
  proof (cases "dropWhile (\<lambda>c. c \<noteq> CHR ''?'') cs")
    case Nil
    then have "?p = cs" "CHR ''?'' \<notin> set cs"
      using takeWhile_dropWhile_id [of "\<lambda>c. c \<noteq> CHR ''?''" cs] by (auto simp: dropWhile_eq_Nil_conv)
    with that(1) [of cs] t(1) p show ?thesis by simp
  next
    case (Cons d r)
    then have "d = CHR ''?''" using hd_dropWhile [of "\<lambda>c. c \<noteq> CHR ''?''" cs] by simp
    moreover have "cs = ?p @ d # r" using takeWhile_dropWhile_id [of "\<lambda>c. c \<noteq> CHR ''?''" cs] Cons by simp
    moreover have "path_of t = CHR ''/'' # ?p" by (simp add: path_of_def t(1))
    moreover have "list_all (\<lambda>c. IS_URL_CHAR c \<or> c = CHR ''?'') r"
      using t(2) by (subst (asm) \<open>cs = ?p @ d # r\<close>) simp
    ultimately show ?thesis using that(2) [of ?p r] t(1) p by simp
  qed
qed

lemma target_chars:
  assumes "target_ok t" "state s = s_req_spaces_before_url" "p_method s \<noteq> 5" "room l (length t)"
    "url_mark l = None" "url_start_mark l = None"
  shows "\<exists>st \<in> {s_req_path, s_req_query_string_start, s_req_query_string}.
    exec_loop E data s l (t @ rest) =
    exec_loop E data ((at_url t s)\<lparr>state := st\<rparr>)
      ((advance (length t) l)\<lparr>url_mark := Some (pos l), url_start_mark := Some (pos l)\<rparr>) rest"
proof -
  let ?mark = "\<lambda>l'. l'\<lparr>url_mark := Some (pos l), url_start_mark := Some (pos l)\<rparr>"
  let ?s1 = "s\<lparr>state := s_req_path\<rparr>"
  have mark_advance: "?mark (advance n l) = advance n (?mark l)" for n by (simp add: advance_def)
  have slash: "exec_loop E data s l (CHR ''/'' # cs) = exec_loop E data ?s1 (advance 1 (?mark l)) cs"
    if "room l (Suc k)" for cs k
  proof (rule switch_step [OF _ that])
    show "switch E data s (l\<lparr>lread := lread l + 1\<rparr>) (CHR ''/'') cs =
        Break ?s1 ((?mark l)\<lparr>lread := lread l + 1\<rparr>) cs"
      using assms(2,3,5,6)
      by (simp add: switch_def do_spaces_def Let_def parse_url_char_def url_state_def set_mark_def)
  qed (simp_all add: assms(2) parsing_header_def)
  show ?thesis
    using assms(1)
  proof (cases rule: target_parts)
    case (1 p)
    have rooms: "room l (Suc (length p))" "room (advance 1 (?mark l)) (length p)"
      using assms(4) 1(1) room_lread(2) [of l 1 "length p"] by (simp_all add: room_def)
    have "exec_loop E data s l (t @ rest) = exec_loop E data ?s1 (?mark (advance (length t) l)) rest"
      using slash [OF rooms(1), of "p @ rest"] path_chars [of ?s1 p "advance 1 (?mark l)" E data rest]
        1(1,2) rooms(2) by (simp add: mark_advance)
    moreover have "?s1 = (at_url t s)\<lparr>state := s_req_path\<rparr>" using 1(3) by (cases s) (simp add: at_url_def)
    ultimately show ?thesis by (intro bexI [of _ s_req_path]) simp_all
  next
    case (2 p r)
    let ?l1 = "advance (Suc (length p)) (?mark l)"
    let ?s2 = "?s1\<lparr>qs_point := of_nat (length (path_of t)), state := s_req_query_string_start\<rparr>"
    have rooms: "room l (Suc (length p + 1 + length r))" "room (advance 1 (?mark l)) (length p)"
      "room ?l1 (Suc (length r))" "room (advance 1 ?l1) (length r)"
      using assms(4) 2(1) room_lread(2) [of l 1 "length p + 1 + length r"]
        room_lread(2) [of l "Suc (length p)" "Suc (length r)"] room_lread(2) [of l "length p + 2" "length r"]
      by (simp_all add: room_def)
    have "exec_loop E data s l (t @ rest) = exec_loop E data ?s1 ?l1 (CHR ''?'' # r @ rest)"
      using slash [OF rooms(1), of "p @ CHR ''?'' # r @ rest"] 2(1,2) rooms(2)
        path_chars [of ?s1 p "advance 1 (?mark l)" E data "CHR ''?'' # r @ rest"] by simp
    also have "\<dots> = exec_loop E data ?s2 (advance 1 ?l1) (r @ rest)"
      using url_char_step [of ?s1 ?l1 "length r" "CHR ''?''" E data "r @ rest"] rooms(3) 2(4)
      by (simp add: url_state_def IS_URL_CHAR_def url_offset_def)
    finally have step: "exec_loop E data s l (t @ rest) = exec_loop E data ?s2 (advance 1 ?l1) (r @ rest)" .
    obtain st where st: "st \<in> {s_req_query_string_start, s_req_query_string}"
      "exec_loop E data ?s2 (advance 1 ?l1) (r @ rest) =
       exec_loop E data (?s2\<lparr>state := st\<rparr>) (advance (length r) (advance 1 ?l1)) rest"
      using query_chars [of ?s2 r "advance 1 ?l1" E data rest] 2(3) rooms(4) by auto
    have "?s2\<lparr>state := st\<rparr> = (at_url t s)\<lparr>state := st\<rparr>" using 2(1) by (cases s) (simp add: at_url_def)
    moreover have "advance (length r) (advance 1 ?l1) = ?mark (advance (length t) l)"
      by (simp add: mark_advance 2(1))
    ultimately show ?thesis using st step by (intro bexI [of _ st]) auto
  qed
qed

lemma header_return:
  assumes "parsing_header (state s)" "room l (Suc k)"
    "switch E data s (l\<lparr>lread := lread l + 1\<rparr>) ch rest = Return n s'"
  shows "exec_loop E data s l (ch # rest) = Returned n s'"
proof -
  have "reexecute 5 E data s (l\<lparr>lread := lread l + 1\<rparr>) (ch # rest) = Some (Return n s')"
    by (simp add: numeral_eq_Suc assms(3))
  moreover have "\<not> max_header_size < lread l + 1" using room_lread(3) [of l 1 k] assms(2) by simp
  ultimately show ?thesis by (simp add: exec_loop.simps(2) count_char_def overflows_def assms(1))
qed

lemma marked_text_at: "drop m data = t @ rest \<Longrightarrow> marked_text data m (m + length t) = t"
  by (simp add: marked_text_def)

lemma target_read:
  assumes "target_ok t" "state s = s_req_spaces_before_url" "p_method s \<noteq> 5" "room l (length t + 1)"
    "url_mark l = None" "url_start_mark l = None" "drop (pos l) data = t @ CHR '' '' # rest"
  shows "exec_loop E data s l (t @ CHR '' '' # rest) =
    (let s1 = on_url E t (at_url t s) in
     if http_errno s1 \<noteq> CHPE_OK then Returned (pos l + length t + 1) s1
     else exec_loop E data s1 ((advance (length t + 1) l)\<lparr>url_start_mark := Some (pos l)\<rparr>) rest)"
proof -
  let ?l1 = "(advance (length t) l)\<lparr>url_mark := Some (pos l), url_start_mark := Some (pos l)\<rparr>"
  let ?s1 = "on_url E t (at_url t s)"
  obtain st where st: "st \<in> {s_req_path, s_req_query_string_start, s_req_query_string}"
    "exec_loop E data s l (t @ CHR '' '' # rest) =
     exec_loop E data ((at_url t s)\<lparr>state := st\<rparr>) ?l1 (CHR '' '' # rest)"
    using target_chars [OF assms(1-3) room_mono [OF assms(4)] assms(5,6), of E data "CHR '' '' # rest"] by auto
  have room: "room ?l1 (Suc 0)" using room_lread(2) [of l "length t" 1] assms(4) by (simp add: room_def)
  have header: "parsing_header (state ((at_url t s)\<lparr>state := st\<rparr>))"
    using st(1) by (auto simp: parsing_header_def)
  have same: "(at_url t s)\<lparr>state := st, state := s_req_http_start\<rparr> = at_url t s" by (simp add: at_url_def)
  have switch: "switch E data ((at_url t s)\<lparr>state := st\<rparr>) (?l1\<lparr>lread := lread ?l1 + 1\<rparr>) (CHR '' '') rest =
      notify (on_url E t) (pos l + length t + 1) (at_url t s)
        (\<lambda>s. Break s (?l1\<lparr>lread := lread ?l1 + 1, url_mark := None\<rparr>) rest)"
    using st(1) marked_text_at [OF assms(7)]
    by (auto simp: switch_def do_url_def data_callback_def at_url_def)
  show ?thesis
  proof (cases "http_errno ?s1 \<noteq> CHPE_OK")
    case True
    with switch header_return [OF header room] st(2) show ?thesis by (simp add: notify_def Let_def)
  next
    case False
    have "exec_loop E data ((at_url t s)\<lparr>state := st\<rparr>) ?l1 (CHR '' '' # rest) =
        exec_loop E data ?s1 (advance 1 (?l1\<lparr>url_mark := None\<rparr>)) rest"
    proof (rule switch_step [OF header room])
      show "switch E data ((at_url t s)\<lparr>state := st\<rparr>) (?l1\<lparr>lread := lread ?l1 + 1\<rparr>) (CHR '' '') rest =
          Break ?s1 ((?l1\<lparr>url_mark := None\<rparr>)\<lparr>lread := lread ?l1 + 1\<rparr>) rest"
        using switch False by (simp add: notify_def Let_def)
    qed simp_all
    moreover have "advance 1 (?l1\<lparr>url_mark := None\<rparr>) =
        (advance (length t + 1) l)\<lparr>url_start_mark := Some (pos l)\<rparr>"
      using assms(5) by (cases l) (simp add: advance_def)
    ultimately show ?thesis using st(2) False by (simp add: Let_def)
  qed
qed

subsection \<open>The version\<close>

text \<open>Characters that only change the parser, each with the parser behind it.\<close>

primrec walks :: "'c env \<Rightarrow> string \<Rightarrow> 'c HTTPParser \<Rightarrow> (char \<times> 'c HTTPParser) list \<Rightarrow> bool" where
  "walks E data s [] \<longleftrightarrow> True"
| "walks E data s (step # steps) \<longleftrightarrow>
     parsing_header (state s) \<and> (\<forall>l rest. switch E data s l (fst step) rest = Break (snd step) l rest) \<and>
     walks E data (snd step) steps"

lemma walk:
  "walks E data s steps \<Longrightarrow> room l (length steps) \<Longrightarrow>
   exec_loop E data s l (map fst steps @ rest) =
   exec_loop E data (last (s # map snd steps)) (advance (length steps) l) rest"
proof (induction steps arbitrary: s l)
  case (Cons step steps)
  have "exec_loop E data s l (fst step # map fst steps @ rest) =
      exec_loop E data (snd step) (advance 1 l) (map fst steps @ rest)"
    by (rule switch_step [of _ _ "length steps"]) (use Cons.prems in simp_all)
  moreover have "room (advance 1 l) (length steps)"
    using room_lread(2) [of l 1 "length steps"] Cons.prems(2) by simp
  ultimately show ?case using Cons.IH [of "snd step" "advance 1 l"] Cons.prems(1) by simp
qed simp

definition with_version :: "'c HTTPParser \<Rightarrow> 'c HTTPParser" where
  "with_version s = s\<lparr>http_major := 1, http_minor := 1, state := s_header_field_start\<rparr>"

lemma version_read:
  assumes "state s = s_req_http_start" "room l 10"
  shows "exec_loop E data s l (''HTTP/1.1'' @ cr # lf # rest) =
    exec_loop E data (with_version s) (advance 10 l) rest"
proof -
  let ?steps = "[(CHR ''H'', s\<lparr>state := s_req_http_H\<rparr>), (CHR ''T'', s\<lparr>state := s_req_http_HT\<rparr>),
    (CHR ''T'', s\<lparr>state := s_req_http_HTT\<rparr>), (CHR ''P'', s\<lparr>state := s_req_http_HTTP\<rparr>),
    (CHR ''/'', s\<lparr>state := s_req_http_major\<rparr>), (CHR ''1'', s\<lparr>http_major := 1, state := s_req_http_dot\<rparr>),
    (CHR ''.'', s\<lparr>http_major := 1, state := s_req_http_minor\<rparr>),
    (CHR ''1'', s\<lparr>http_major := 1, http_minor := 1, state := s_req_http_end\<rparr>),
    (cr, s\<lparr>http_major := 1, http_minor := 1, state := s_req_line_almost_done\<rparr>), (lf, with_version s)]"
  have swap: "s\<lparr>http_major := v, state := st, http_minor := w, state := st'\<rparr> =
      s\<lparr>http_major := v, http_minor := w, state := st'\<rparr>" for v w st st'
    by (cases s) simp
  have "walks E data s ?steps"
    by (simp add: assms(1) parsing_header_def switch_def do_http_start_def expect_def do_http_version_def
        IS_NUM_def ascii_def do_http_end_def expect_lf_def with_version_def swap)
  from walk [OF this, of l rest] assms(2) show ?thesis by (simp add: numeral_eq_Suc)
qed

end
