(* ===== verification/Crow_Http_Header.thy ===== *)
theory Crow_Http_Header
  imports Crow_Http_Line
begin

unbundle bit_operations_syntax

text \<open>
  The parser on the lines of a header: the automaton that recognises the names with a meaning, the
  loop over a value, and what a list of headers leaves in the parser.
\<close>

subsection \<open>The name of a header\<close>

text \<open>What the header state and the index say of the characters \<open>w\<close> of the name so far.\<close>

definition part_of :: "string \<Rightarrow> string \<Rightarrow> nat \<Rightarrow> bool" where
  "part_of name w i \<longleftrightarrow>
     w \<noteq> [] \<and> i = length w - 1 \<and> length w < length name \<and> w = take (length w) name"

fun name_inv :: "string \<Rightarrow> header_states \<Rightarrow> nat \<Rightarrow> bool" where
  "name_inv w h_general i = True"
| "name_inv w h_C i = (w = ''c'' \<and> i = 0)"
| "name_inv w h_CO i = (w = ''co'' \<and> i = 1)"
| "name_inv w h_CON i = (w = ''con'' \<and> i = 2)"
| "name_inv w h_matching_connection i = part_of ''connection'' w i"
| "name_inv w h_matching_proxy_connection i = part_of ''proxy-connection'' w i"
| "name_inv w h_matching_content_length i = part_of ''content-length'' w i"
| "name_inv w h_matching_transfer_encoding i = part_of ''transfer-encoding'' w i"
| "name_inv w h_matching_upgrade i = part_of ''upgrade'' w i"
| "name_inv w h_connection i = (w = ''connection'' \<or> w = ''proxy-connection'')"
| "name_inv w h_content_length i = (w = ''content-length'')"
| "name_inv w h_transfer_encoding i = (w = ''transfer-encoding'')"
| "name_inv w h_upgrade i = (w = ''upgrade'')"
| "name_inv w _ i = False"

lemma part_of_next:
  assumes "part_of name w i" "length name < 32"
  shows "(i + 1) mod 32 = length w" "length w < length name"
    "c = name ! length w \<Longrightarrow> length w + 1 < length name \<Longrightarrow> part_of name (w @ [c]) (length w)"
    "c = name ! length w \<Longrightarrow> length w + 1 = length name \<Longrightarrow> w @ [c] = name"
proof -
  have w: "w \<noteq> []" "i = length w - 1" "length w < length name" "w = take (length w) name"
    using assms(1) by (simp_all add: part_of_def)
  then have "i + 1 = length w" by (cases w) simp_all
  then show "(i + 1) mod 32 = length w" using w(3) assms(2) by simp
  show "length w < length name" by (fact w(3))
  have "take (length w + 1) name = w @ [name ! length w]"
    using w(3,4) by (metis Suc_eq_plus1 take_Suc_conv_app_nth)
  then show "c = name ! length w \<Longrightarrow> length w + 1 < length name \<Longrightarrow> part_of name (w @ [c]) (length w)"
    "c = name ! length w \<Longrightarrow> length w + 1 = length name \<Longrightarrow> w @ [c] = name"
    by (simp_all add: part_of_def)
qed

lemma match_name_cases:
  assumes "part_of name w (index s)" "length name < 32"
  obtains "match_name name matched c s = s\<lparr>index := length w, header_state := h_general\<rparr>"
  | "match_name name matched c s = s\<lparr>index := length w, header_state := matched\<rparr>" "w @ [c] = name"
  | "match_name name matched c s = s\<lparr>index := length w\<rparr>" "part_of name (w @ [c]) (length w)"
proof -
  note nx = part_of_next [OF assms]
  consider "c \<noteq> name ! length w" | "c = name ! length w" "length w + 1 = length name"
    | "c = name ! length w" "length w + 1 < length name" using nx(2) by linarith
  then show ?thesis
  proof cases
    case 1
    then show ?thesis using that(1) nx(1,2) by (simp add: match_name_def char_at_def)
  next
    case 2
    then show ?thesis using that(2) nx(1,2) nx(4) [of c] by (simp add: match_name_def char_at_def Let_def)
  next
    case 3
    then show ?thesis using that(3) nx(1,2) nx(3) [of c] by (simp add: match_name_def char_at_def Let_def)
  qed
qed

text \<open>The parser after one more character of the name.\<close>

definition goes :: "'c HTTPParser \<Rightarrow> string \<Rightarrow> 'c HTTPParser option \<Rightarrow> bool" where
  "goes s w r \<longleftrightarrow> (\<exists>i h. r = Some (s\<lparr>index := i, header_state := h\<rparr>) \<and> name_inv w h i)"

lemma goesI:
  "name_inv w h i \<Longrightarrow> goes s w (Some (s\<lparr>index := i, header_state := h\<rparr>))"
  "name_inv w (header_state s) i \<Longrightarrow> goes s w (Some (s\<lparr>index := i\<rparr>))"
  "name_inv w h (index s) \<Longrightarrow> goes s w (Some (s\<lparr>header_state := h\<rparr>))"
  "name_inv w (header_state s) (index s) \<Longrightarrow> goes s w (Some s)"
proof -
  have same: "s\<lparr>index := i\<rparr> = s\<lparr>index := i, header_state := header_state s\<rparr>"
    "s\<lparr>header_state := h\<rparr> = s\<lparr>index := index s, header_state := h\<rparr>"
    "s = s\<lparr>index := index s, header_state := header_state s\<rparr>" for i h by (cases s, simp)+
  show step: "goes s w (Some (s\<lparr>index := i, header_state := h\<rparr>))" if "name_inv w h i" for i h
    using that unfolding goes_def by blast
  show "name_inv w (header_state s) i \<Longrightarrow> goes s w (Some (s\<lparr>index := i\<rparr>))"
    "name_inv w h (index s) \<Longrightarrow> goes s w (Some (s\<lparr>header_state := h\<rparr>))"
    by (subst same(1) same(2); erule step)+
  show "name_inv w (header_state s) (index s) \<Longrightarrow> goes s w (Some s)"
    by (drule step) (simp add: same(3) [symmetric])
qed

lemma goes_match:
  assumes "part_of name w (index s)" "length name < 32"
    "name_inv (w @ [c]) matched (length w) \<or> w @ [c] \<noteq> name"
    "\<And>i. name_inv (w @ [c]) (header_state s) i = part_of name (w @ [c]) i"
  shows "goes s (w @ [c]) (Some (match_name name matched c s))"
  using assms(1,2)
  by (cases rule: match_name_cases [where c = c and matched = matched])
    (use assms(3,4) in \<open>auto intro!: goesI\<close>)

lemma field_char_goes:
  assumes "name_inv w (header_state s) (index s)" "TOKEN ch \<noteq> nul" "w @ [TOKEN ch] \<noteq> ''transfer-encoding''"
  shows "goes s (w @ [TOKEN ch]) (field_char s ch)"
proof -
  have blank: "ch \<noteq> CHR '' ''" using assms(2) by (auto simp: TOKEN_def ascii_def IS_ALPHA_def IS_NUM_def LOWER_def)
  show ?thesis
    using assms(1)
  proof (cases "header_state s")
    case h_matching_transfer_encoding
    then have part: "part_of ''transfer-encoding'' w (index s)" using assms(1) by simp
    let ?s = "match_name ''transfer-encoding'' h_transfer_encoding (TOKEN ch) s"
    have "header_state ?s \<noteq> h_transfer_encoding"
      using part
      by (cases rule: match_name_cases [where c = "TOKEN ch" and matched = h_transfer_encoding])
        (use assms(3) h_matching_transfer_encoding in simp_all)
    moreover have "goes s (w @ [TOKEN ch]) (Some ?s)"
      using part assms(3) h_matching_transfer_encoding by (intro goes_match) simp_all
    ultimately show ?thesis using h_matching_transfer_encoding by (simp add: field_char_def Let_def)
  qed (auto simp: field_char_def Let_def blank part_of_def intro!: goesI goes_match)
qed

lemma field_loop_name:
  "name_inv w (header_state s) (index s) \<Longrightarrow> list_all (\<lambda>c. TOKEN c \<noteq> nul) cs \<Longrightarrow>
   \<forall>k \<in> {1..length cs}. w @ map TOKEN (take k cs) \<noteq> ''transfer-encoding'' \<Longrightarrow>
   \<exists>i h. field_loop s p (cs @ CHR '':'' # rest) =
       Some (s\<lparr>index := i, header_state := h\<rparr>, p + length cs, CHR '':'' # rest) \<and>
     name_inv (w @ map TOKEN cs) h i"
proof (induction cs arbitrary: w s p)
  case Nil
  have "TOKEN (CHR '':'') = nul" by code_simp
  moreover have "s = s\<lparr>index := index s, header_state := header_state s\<rparr>" by (cases s) simp
  ultimately show ?case using Nil(1) by (simp, blast)
next
  case (Cons ch cs)
  have token: "TOKEN ch \<noteq> nul" "w @ [TOKEN ch] \<noteq> ''transfer-encoding''"
    using Cons.prems(2) bspec [OF Cons.prems(3), of 1] by simp_all
  obtain i h where first: "field_char s ch = Some (s\<lparr>index := i, header_state := h\<rparr>)"
    "name_inv (w @ [TOKEN ch]) h i"
    using field_char_goes [OF Cons.prems(1) token] by (auto simp: goes_def)
  have "(w @ [TOKEN ch]) @ map TOKEN (take k cs) \<noteq> ''transfer-encoding''" if "k \<in> {1..length cs}" for k
    using bspec [OF Cons.prems(3), of "Suc k"] that by simp
  then obtain i' h' where "field_loop (s\<lparr>index := i, header_state := h\<rparr>) (p + 1) (cs @ CHR '':'' # rest) =
       Some (s\<lparr>index := i', header_state := h'\<rparr>, p + 1 + length cs, CHR '':'' # rest)"
     "name_inv ((w @ [TOKEN ch]) @ map TOKEN cs) h' i'"
    using Cons.IH [of "w @ [TOKEN ch]" "s\<lparr>index := i, header_state := h\<rparr>" "p + 1"] first(2) Cons.prems(2)
    by auto
  with first(1) token(1) show ?case by (intro exI [of _ i'] exI [of _ h']) simp
qed

definition is_length :: "string \<Rightarrow> bool" where
  "is_length n \<longleftrightarrow> map TOKEN n = ''content-length''"

text \<open>
  A name of no meaning to the parser, in any case of letters.  A name that only begins with
  \<open>Transfer-Encoding\<close> has one: it sets \<open>uses_transfer_encoding\<close> all the same.
\<close>

definition plain_name :: "string \<Rightarrow> bool" where
  "plain_name n \<longleftrightarrow>
     n \<noteq> [] \<and> list_all (\<lambda>c. TOKEN c \<noteq> nul) n \<and>
     map TOKEN n \<notin> {''connection'', ''proxy-connection'', ''content-length'', ''upgrade''} \<and>
     take 17 (map TOKEN n) \<noteq> ''transfer-encoding''"

definition first_state :: "char \<Rightarrow> header_states" where
  "first_state c =
     (if TOKEN c = CHR ''c'' then h_C
      else if TOKEN c = CHR ''p'' then h_matching_proxy_connection
      else if TOKEN c = CHR ''t'' then h_matching_transfer_encoding
      else if TOKEN c = CHR ''u'' then h_matching_upgrade
      else h_general)"

lemma first_state_inv: "name_inv [TOKEN c] (first_state c) 0"
  by (simp add: first_state_def part_of_def)

lemma name_tokens:
  assumes "plain_name n \<or> is_length n"
  shows "n \<noteq> []" "list_all (\<lambda>c. TOKEN c \<noteq> nul) n" "take 17 (map TOKEN n) \<noteq> ''transfer-encoding''"
proof -
  have "TOKEN c \<noteq> nul" if "is_length n" "c \<in> set n" for c
  proof -
    have "TOKEN c \<in> set ''content-length''" using that by (metis is_length_def image_eqI list.set_map)
    then show ?thesis by auto
  qed
  then show "list_all (\<lambda>c. TOKEN c \<noteq> nul) n" using assms by (auto simp: plain_name_def list_all_iff)
  show "n \<noteq> []" "take 17 (map TOKEN n) \<noteq> ''transfer-encoding''"
    using assms by (auto simp: plain_name_def is_length_def)
qed

lemma field_loop_line:
  assumes "plain_name (c # n) \<or> is_length (c # n)" "header_state s = first_state c" "index s = 0"
  shows "\<exists>i h. field_loop s p (n @ CHR '':'' # rest) =
       Some (s\<lparr>index := i, header_state := h\<rparr>, p + length n, CHR '':'' # rest) \<and>
     name_inv (map TOKEN (c # n)) h i"
proof -
  note tokens = name_tokens [OF assms(1)]
  have "[TOKEN c] @ map TOKEN (take k n) \<noteq> ''transfer-encoding''" if "k \<in> {1..length n}" for k
  proof
    assume eq: "[TOKEN c] @ map TOKEN (take k n) = ''transfer-encoding''"
    then have "length ([TOKEN c] @ map TOKEN (take k n)) = 17" by simp
    then have "k = 16" using that by simp
    with eq tokens(3) show False by (simp add: take_map numeral_eq_Suc)
  qed
  then show ?thesis
    using field_loop_name [of "[TOKEN c]" s n p rest] first_state_inv [of c] assms(2,3) tokens(2) by simp
qed

lemma reexecute_break:
  "switch E data s l ch rest = Break s' l' rest' \<Longrightarrow>
   reexecute 5 E data s l (ch # rest) = Some (Break s' l' rest')"
  by (simp add: numeral_eq_Suc)

subsection \<open>The value of a header\<close>

definition text_ok :: "string \<Rightarrow> bool" where
  "text_ok v \<longleftrightarrow>
     v \<noteq> [] \<and> hd v \<noteq> CHR '' '' \<and> hd v \<noteq> tab \<and>
     list_all (\<lambda>c. IS_HEADER_CHAR c \<and> c \<noteq> cr \<and> c \<noteq> lf) v"

definition add_digit :: "nat \<Rightarrow> char \<Rightarrow> nat" where
  "add_digit n c = n * 10 + (of_char c - 48)"

definition length_value :: "string \<Rightarrow> nat" where
  "length_value v = foldl add_digit 0 v"

lemma value_loop_general:
  "list_all (\<lambda>c. IS_HEADER_CHAR c \<and> c \<noteq> cr \<and> c \<noteq> lf) cs \<Longrightarrow>
   value_loop h_general s p (cs @ cr # rest) = Value_line h_general s (p + length cs) cr rest"
  by (induction cs arbitrary: p) (simp_all add: value_char_def)

lemma foldl_add_digit: "n \<le> foldl add_digit n cs"
proof (induction cs arbitrary: n)
  case (Cons c cs)
  from Cons [of "add_digit n c"] show ?case by (simp add: add_digit_def)
qed simp

lemma length_char_digit:
  assumes "IS_NUM c" "add_digit (unat (content_length s)) c < 10 ^ 18"
  shows "length_char s c =
    Go h_content_length_num (s\<lparr>content_length := of_nat (add_digit (unat (content_length s)) c)\<rparr>)"
proof -
  let ?n = "content_length s"
  have digit: "48 \<le> ascii c" "ascii c \<le> 57" using assms(1) by (simp_all add: IS_NUM_def)
  have d: "unat (ascii c - 48) = of_char c - (48 :: nat)" 
    using digit(1) by (subst unat_sub) (simp_all add: unat_ascii)
  have small: "unat ?n < 10 ^ 17" using assms(2) by (simp add: add_digit_def)
  have "?n * 10 + ucast (ascii c - 48) = of_nat (add_digit (unat ?n) c)"
    by (simp add: add_digit_def d [symmetric])
  moreover have "\<not> (ULLONG_MAX - 10) div 10 < ?n"
    using small by (simp add: ULLONG_MAX_def word_less_nat_alt)
  moreover have "c \<noteq> CHR '' ''" using digit by (auto simp: ascii_def)
  ultimately show ?thesis by (simp add: length_char_def assms(1))
qed

lemma value_loop_digits:
  "list_all IS_NUM cs \<Longrightarrow> foldl add_digit (unat (content_length s)) cs < 10 ^ 18 \<Longrightarrow>
   \<not> lenient_http_headers s \<Longrightarrow>
   value_loop h_content_length_num s p (cs @ cr # rest) =
   Value_line h_content_length_num
     (s\<lparr>content_length := of_nat (foldl add_digit (unat (content_length s)) cs)\<rparr>) (p + length cs) cr rest"
proof (induction cs arbitrary: s p)
  case (Cons c cs)
  let ?n = "add_digit (unat (content_length s)) c"
  have plain: "c \<noteq> cr" "c \<noteq> lf" "IS_HEADER_CHAR c"
    using Cons.prems(1) by (auto simp: IS_NUM_def IS_HEADER_CHAR_def ascii_def word_le_nat_alt word_less_nat_alt)
  have small: "?n < 10 ^ 18" using Cons.prems(2) foldl_add_digit [of ?n cs] by simp
  have unat: "unat (of_nat ?n :: u64) = ?n"
    using small by (simp add: unat_of_nat)
  have "length_char s c = Go h_content_length_num (s\<lparr>content_length := of_nat ?n\<rparr>)"
    using length_char_digit [OF _ small] Cons.prems(1) by simp
  then show ?case
    using Cons.IH [of "s\<lparr>content_length := of_nat ?n\<rparr>" "p + 1"] Cons.prems plain unat
    by (simp add: value_char_def)
qed simp

subsection \<open>The lines of the header\<close>

definition header_line :: "string \<times> string \<Rightarrow> string" where
  "header_line h = fst h @ '': '' @ snd h @ [cr, lf]"

definition http_header_ok :: "string \<times> string \<Rightarrow> bool" where
  "http_header_ok h \<longleftrightarrow>
     text_ok (snd h) \<and>
     (if is_length (fst h) then list_all IS_NUM (snd h) \<and> length_value (snd h) < 10 ^ 18 else plain_name (fst h))"

text \<open>The parser behind the line feed of a header.\<close>

definition after_line :: "string \<times> string \<Rightarrow> 'c HTTPParser \<Rightarrow> 'c HTTPParser" where
  "after_line h s =
     (let s = on_header_value (snd h) (on_header_field (fst h) s);
          s = s\<lparr>index := 0\<rparr>
      in if is_length (fst h)
         then s\<lparr>header_state := h_content_length_num, flags := flags s OR F_CONTENTLENGTH,
                content_length := of_nat (length_value (snd h)), state := s_header_value_lws\<rparr>
         else s\<lparr>header_state := h_general, state := s_header_value_lws\<rparr>)"

text \<open>The first character of a value, and the loop over the others.\<close>

lemma value_start_plain:
  assumes "name_inv w (header_state s) i"
    "w \<notin> {''connection'', ''proxy-connection'', ''upgrade'', ''transfer-encoding'', ''content-length''}"
  shows "do_value_start s l c rest =
    Break (s\<lparr>state := s_header_value, index := 0, header_state := h_general\<rparr>)
      (l\<lparr>value_mark := set_mark (pos l) (value_mark l)\<rparr>) rest"
  using assms by (cases "header_state s") (simp_all add: do_value_start_def Let_def)

lemma value_start_length:
  assumes "header_state s = h_content_length" "IS_NUM c" "flags s AND F_CONTENTLENGTH = 0"
  shows "do_value_start s l c rest =
    Break (s\<lparr>state := s_header_value, index := 0, flags := flags s OR F_CONTENTLENGTH,
             content_length := of_nat (add_digit 0 c), header_state := h_content_length_num\<rparr>)
      (l\<lparr>value_mark := set_mark (pos l) (value_mark l)\<rparr>) rest"
proof -
  have "48 \<le> unat (ascii c)" using assms(2) by (simp add: IS_NUM_def word_le_nat_alt)
  moreover have "ucast (ascii c) = (of_nat (unat (ascii c)) :: u64)" by simp
  ultimately have "ucast (ascii c) - 48 = (of_nat (of_char c - 48) :: u64)" by (simp add: unat_ascii of_nat_diff)
  with assms show ?thesis by (simp add: do_value_start_def Let_def add_digit_def)
qed

lemma field_loop_length:
  assumes "is_length (c # n)" "header_state s = h_C" "index s = 0"
  shows "field_loop s p (n @ CHR '':'' # rest) =
    Some (s\<lparr>index := 13, header_state := h_content_length\<rparr>, p + 13, CHR '':'' # rest)"
proof -
  have colon: "TOKEN (CHR '':'') = nul" by code_simp
  have same: "s\<lparr>index := i, header_state := h, index := j, header_state := k\<rparr> = s\<lparr>index := j, header_state := k\<rparr>"
    for i h j k by (cases s) simp
  from assms(1) show ?thesis
    unfolding is_length_def
    by (auto simp: map_eq_Cons_conv field_char_def match_name_def char_at_def Let_def colon assms(2,3) same)
qed

lemma field_line:
  assumes "state s = s_header_field_start" "plain_name (c # n) \<or> is_length (c # n)" "http_errno s = CHPE_OK"
    "room l (length n + 2)" "field_mark l = None" "drop (pos l) data = (c # n) @ CHR '':'' # rest"
  shows "\<exists>i h. exec_loop E data s l (c # n @ CHR '':'' # rest) =
      exec_loop E data
        (on_header_field (c # n) (s\<lparr>index := i, header_state := h, state := s_header_value_discard_ws\<rparr>))
        (advance (length n + 2) l) rest \<and>
    name_inv (map TOKEN (c # n)) h i \<and> (is_length (c # n) \<longrightarrow> h = h_content_length)"
proof -
  let ?s1 = "s\<lparr>index := 0, state := s_header_field, header_state := first_state c\<rparr>"
  let ?l1 = "advance 1 (l\<lparr>field_mark := Some (pos l)\<rparr>)"
  have token: "TOKEN c \<noteq> nul" using name_tokens(2) [OF assms(2)] by simp
  have "TOKEN cr = nul" "TOKEN lf = nul" by code_simp+
  then have start: "c \<noteq> cr" "c \<noteq> lf" using token by auto
  have rooms: "room l (Suc (length n + 1))" "room ?l1 (Suc (length n))"
    "\<not> max_header_size < lread ?l1 + 1 + of_nat (length n)"
    using assms(4) room_lread(2) [of l 1 "Suc (length n)"] room_lread(3) [of l "length n + 2" 0]
    by (simp_all add: room_def add.assoc)
  have first: "exec_loop E data s l (c # n @ CHR '':'' # rest) = exec_loop E data ?s1 ?l1 (n @ CHR '':'' # rest)"
  proof (rule switch_step [OF _ rooms(1)])
    show "switch E data s (l\<lparr>lread := lread l + 1\<rparr>) c (n @ CHR '':'' # rest) =
        Break ?s1 ((l\<lparr>field_mark := Some (pos l)\<rparr>)\<lparr>lread := lread l + 1\<rparr>) (n @ CHR '':'' # rest)"
      using assms(1,5) start token
      by (simp add: switch_def do_field_start_def first_state_def set_mark_def)
  qed (simp_all add: assms(1) parsing_header_def)
  obtain i h where loop:
    "field_loop ?s1 (pos l + 1) (n @ CHR '':'' # rest) =
       Some (?s1\<lparr>index := i, header_state := h\<rparr>, pos l + 1 + length n, CHR '':'' # rest)"
    "name_inv (map TOKEN (c # n)) h i" "is_length (c # n) \<longrightarrow> h = h_content_length"
  proof (cases "is_length (c # n)")
    case True
    then have "header_state ?s1 = h_C" "length n = 13" "map TOKEN (c # n) = ''content-length''"
      by (auto simp: is_length_def first_state_def map_eq_Cons_conv)
    with that [of h_content_length 13] field_loop_length [OF True, of ?s1 "pos l + 1" rest] show ?thesis
      by simp
  next
    case False
    with that field_loop_line [OF assms(2), of ?s1 "pos l + 1" rest] show ?thesis by auto
  qed
  let ?s2 = "on_header_field (c # n) (s\<lparr>index := i, header_state := h, state := s_header_value_discard_ws\<rparr>)"
  have same: "?s1\<lparr>index := i, header_state := h, state := s_header_value_discard_ws\<rparr> =
      s\<lparr>index := i, header_state := h, state := s_header_value_discard_ws\<rparr>" by (cases s) simp
  have field_text: "marked_text data (pos l) (pos l + 1 + length n) = c # n"
    using marked_text_at [OF assms(6)] by simp
  let ?l2 = "?l1\<lparr>lread := lread ?l1 + 1, pos := pos l + 1 + length n, lread := lread ?l1 + 1 + of_nat (length n), field_mark := None\<rparr>"
  obtain ch cs where cs: "n @ CHR '':'' # rest = ch # cs" by (cases "n @ CHR '':'' # rest") auto
  have switch: "switch E data ?s1 (?l1\<lparr>lread := lread ?l1 + 1\<rparr>) ch cs = Break ?s2 ?l2 rest"
    using loop(1) rooms(3) field_text assms(3) unfolding switch_def
    by (simp add: cs [symmetric] do_field_def COUNT_HEADER_SIZE_def data_callback_def notify_def Let_def same)
  have "exec_loop E data ?s1 ?l1 (ch # cs) = exec_loop E data ?s2 (?l2\<lparr>pos := pos ?l2 + 1\<rparr>) rest"
    by (rule header_step [OF _ rooms(2) reexecute_break [OF switch]]) (simp add: parsing_header_def)
  moreover have "?l2\<lparr>pos := pos ?l2 + 1\<rparr> = advance (length n + 2) l"
    using assms(5) by (cases l) (simp add: advance_def)
  ultimately show ?thesis using first cs loop(2,3) by auto
qed

text \<open>From the blank behind the colon to the line feed.\<close>

lemma value_line:
  assumes "state s = s_header_value_discard_ws" "text_ok v" "http_errno s = CHPE_OK" "\<not> lenient_http_headers s"
    "name_inv w (header_state s) i"
    "if w = ''content-length''
     then header_state s = h_content_length \<and> list_all IS_NUM v \<and> length_value v < 10 ^ 18 \<and>
       flags s AND F_CONTENTLENGTH = 0
     else w \<notin> {''connection'', ''proxy-connection'', ''upgrade'', ''transfer-encoding''}"
    "room l (length v + 3)" "value_mark l = None" "drop (pos l) data = CHR '' '' # v @ cr # lf # rest"
  shows "exec_loop E data s l (CHR '' '' # v @ cr # lf # rest) =
    exec_loop E data
      (let s = on_header_value v (s\<lparr>index := 0\<rparr>) in
       if w = ''content-length''
       then s\<lparr>header_state := h_content_length_num, flags := flags s OR F_CONTENTLENGTH,
              content_length := of_nat (length_value v), state := s_header_value_lws\<rparr>
       else s\<lparr>header_state := h_general, state := s_header_value_lws\<rparr>)
      (advance (length v + 3) l) rest"
proof -
  obtain c cs where v: "v = c # cs" using assms(2) by (cases v) (simp_all add: text_ok_def)
  have c: "c \<noteq> CHR '' ''" "c \<noteq> tab" "c \<noteq> cr" "c \<noteq> lf" using assms(2) v by (simp_all add: text_ok_def)
  define h where "h = (if w = ''content-length'' then h_content_length_num else h_general)"
  define s1 where "s1 = (if w = ''content-length''
    then s\<lparr>state := s_header_value, index := 0, flags := flags s OR F_CONTENTLENGTH,
           content_length := of_nat (add_digit 0 c), header_state := h_content_length_num\<rparr>
    else s\<lparr>state := s_header_value, index := 0, header_state := h_general\<rparr>)"
  define s2 where "s2 = (if w = ''content-length'' then s1\<lparr>content_length := of_nat (length_value v)\<rparr> else s1)"
  define s3 where "s3 = on_header_value v (s2\<lparr>state := s_header_almost_done, header_state := h\<rparr>)"
  let ?l1 = "advance 1 l"
  let ?l2 = "advance 1 (?l1\<lparr>value_mark := Some (pos l + 1)\<rparr>)"
  let ?l3 = "advance (length v + 2) l"
  have rooms: "room l (Suc (length v + 2))" "room ?l1 (Suc (length v + 1))" "room ?l2 (Suc (length cs + 1))"
    "room ?l3 (Suc 0)" "\<not> max_header_size < lread ?l2 + 1 + of_nat (length cs)"
    using assms(7) v room_lread(2) [of l 1 "Suc (length v + 1)"] room_lread(2) [of l 2 "Suc (length cs + 1)"]
      room_lread(2) [of l "length v + 2" "Suc 0"] room_lread(3) [of l "length v + 2" 1]
    by (simp_all add: room_def add.assoc)
  have 1: "exec_loop E data s l (CHR '' '' # v @ cr # lf # rest) = exec_loop E data s ?l1 (c # cs @ cr # lf # rest)"
    using switch_step [OF _ rooms(1), of s E data "CHR '' ''" "v @ cr # lf # rest" s l] assms(1) v
    by (simp add: parsing_header_def switch_def do_discard_ws_def)
  have start: "do_value_start s l' c r = Break s1 (l'\<lparr>value_mark := set_mark (pos l') (value_mark l')\<rparr>) r" for l' r
  proof (cases "w = ''content-length''")
    case True
    then show ?thesis using assms(6) v value_start_length [of s c l' r] by (simp add: s1_def)
  next
    case False
    then show ?thesis using assms(6) value_start_plain [OF assms(5), of l' c r] by (simp add: s1_def)
  qed
  have 2: "exec_loop E data s ?l1 (c # cs @ cr # lf # rest) = exec_loop E data s1 ?l2 (cs @ cr # lf # rest)"
  proof (rule switch_step [OF _ rooms(2)])
    show "switch E data s (?l1\<lparr>lread := lread ?l1 + 1\<rparr>) c (cs @ cr # lf # rest) =
        Break s1 ((?l1\<lparr>value_mark := Some (pos l + 1)\<rparr>)\<lparr>lread := lread ?l1 + 1\<rparr>) (cs @ cr # lf # rest)"
      using assms(1,8) c start by (simp add: switch_def do_discard_ws_def set_mark_def)
  qed (simp_all add: assms(1) parsing_header_def)
  have plain: "list_all (\<lambda>c. IS_HEADER_CHAR c \<and> c \<noteq> cr \<and> c \<noteq> lf) cs" using assms(2) v by (simp add: text_ok_def)
  have loop: "value_loop h s1 p (cs @ cr # lf # rest) = Value_line h s2 (p + length cs) cr (lf # rest)" for p
  proof (cases "w = ''content-length''")
    case True
    then have digits: "list_all IS_NUM cs" "foldl add_digit (add_digit 0 c) cs < 10 ^ 18"
      using assms(6) v by (simp_all add: length_value_def)
    have "add_digit 0 c < 10 ^ 18" using digits(2) foldl_add_digit [of "add_digit 0 c" cs] by simp
    then have "unat (of_nat (add_digit 0 c) :: u64) = add_digit 0 c" by (simp add: unat_of_nat)
    then show ?thesis
      using value_loop_digits [OF digits(1), of s1 p "lf # rest"] digits(2) assms(4) True v
      by (simp add: s1_def s2_def h_def length_value_def)
  next
    case False
    with value_loop_general [OF plain] show ?thesis by (simp add: s1_def s2_def h_def)
  qed
  have value_text: "marked_text data (pos l + 1) (pos l + 1 + length v) = v"
    using marked_text_at [of "pos l + 1" data v "cr # lf # rest"] assms(9)
    by (simp add: drop_Suc [symmetric] flip: drop_drop) (metis drop_Suc_Cons drop0 drop_drop plus_1_eq_Suc)
  obtain ch r where r: "cs @ cr # lf # rest = ch # r" by (cases "cs @ cr # lf # rest") auto
  let ?l2' = "?l2\<lparr>lread := lread ?l2 + 1, pos := pos l + 2 + length cs, value_mark := None,
    lread := lread ?l2 + 1 + of_nat (length cs)\<rparr>"
  have h1: "header_state s1 = h" "state s1 = s_header_value" "http_errno s2 = CHPE_OK"
    using assms(3) by (simp_all add: s1_def s2_def h_def)
  have same: "s3\<lparr>header_state := h\<rparr> = s3"
    by (cases s2) (simp add: s3_def on_header_value_def)
  have errno: "http_errno s3 = CHPE_OK" using h1(3) by (simp add: s3_def)
  have s3: "on_header_value (c # cs) (s2\<lparr>state := s_header_almost_done, header_state := h\<rparr>) = s3"
    by (simp add: s3_def v)
  have switch: "switch E data s1 (?l2\<lparr>lread := lread ?l2 + 1\<rparr>) ch r = Break s3 ?l2' (lf # rest)"
    using loop [of "pos l + 2"] rooms(5) value_text errno same v h1 unfolding switch_def
    by (simp add: r [symmetric] do_value_def COUNT_HEADER_SIZE_def data_callback_def notify_def Let_def s3)
  have "exec_loop E data s1 ?l2 (ch # r) = exec_loop E data s3 (?l2'\<lparr>pos := pos ?l2' + 1\<rparr>) (lf # rest)"
    by (rule header_step [OF _ rooms(3) reexecute_break [OF switch]]) (simp add: h1(2) parsing_header_def)
  moreover have "?l2'\<lparr>pos := pos ?l2' + 1\<rparr> = ?l3"
    using assms(8) v by (cases l) (simp add: advance_def)
  ultimately have 3: "exec_loop E data s1 ?l2 (cs @ cr # lf # rest) = exec_loop E data s3 ?l3 (lf # rest)"
    using r by simp
  have 4: "exec_loop E data s3 ?l3 (lf # rest) =
      exec_loop E data (s3\<lparr>state := s_header_value_lws\<rparr>) (advance 1 ?l3) rest"
    by (rule switch_step [OF _ rooms(4)]) (simp_all add: s3_def parsing_header_def switch_def expect_lf_def)
  have "s3\<lparr>state := s_header_value_lws\<rparr> =
      (let s = on_header_value v (s\<lparr>index := 0\<rparr>) in
       if w = ''content-length''
       then s\<lparr>header_state := h_content_length_num, flags := flags s OR F_CONTENTLENGTH,
              content_length := of_nat (length_value v), state := s_header_value_lws\<rparr>
       else s\<lparr>header_state := h_general, state := s_header_value_lws\<rparr>)"
    by (cases s) (simp add: s3_def s2_def s1_def h_def on_header_value_def Let_def)
  with 1 2 3 4 show ?thesis by (simp add: numeral_3_eq_3)
qed

lemma line_read:
  assumes "state s = s_header_field_start" "http_header_ok (n, v)" "is_length n \<Longrightarrow> flags s AND F_CONTENTLENGTH = 0"
    "http_errno s = CHPE_OK" "\<not> lenient_http_headers s" "room l (length (header_line (n, v)))"
    "field_mark l = None" "value_mark l = None" "drop (pos l) data = header_line (n, v) @ rest"
  shows "exec_loop E data s l (header_line (n, v) @ rest) =
    exec_loop E data (after_line (n, v) s) (advance (length (header_line (n, v))) l) rest"
proof -
  have name: "plain_name n \<or> is_length n" using assms(2) by (auto simp: http_header_ok_def split: if_splits)
  obtain c m where n: "n = c # m" using name_tokens(1) [OF name] by (cases n) auto
  let ?rest = "CHR '' '' # v @ cr # lf # rest"
  have line: "header_line (n, v) @ rest = c # m @ CHR '':'' # ?rest" by (simp add: header_line_def n)
  have room1: "room l (length m + 2)" and room2: "room (advance (length m + 2) l) (length v + 3)"
    using assms(6) room_lread(2) [of l "length m + 2" "length v + 3"]
    by (simp_all add: room_def header_line_def n)
  obtain i h where field: "exec_loop E data s l (c # m @ CHR '':'' # ?rest) =
      exec_loop E data
        (on_header_field n (s\<lparr>index := i, header_state := h, state := s_header_value_discard_ws\<rparr>))
        (advance (length m + 2) l) ?rest"
    "name_inv (map TOKEN n) h i" "is_length n \<longrightarrow> h = h_content_length"
    using field_line [of s c m l data ?rest E] assms(1,4,7,9) name room1 line by (auto simp: n)
  let ?s = "on_header_field n (s\<lparr>index := i, header_state := h, state := s_header_value_discard_ws\<rparr>)"
  have kept: "flags ?s = flags s" "header_state ?s = h" "lenient_http_headers ?s = lenient_http_headers s"
    by (simp_all add: on_header_field_def)
  have data: "drop (pos (advance (length m + 2) l)) data = ?rest"
  proof -
    have "drop (pos l + (length m + 2)) data = drop (length m + 2) (c # m @ CHR '':'' # ?rest)"
      using assms(9) line by (metis add.commute drop_drop)
    then show ?thesis by simp
  qed
  have "exec_loop E data ?s (advance (length m + 2) l) ?rest =
      exec_loop E data (after_line (n, v) s) (advance (length v + 3) (advance (length m + 2) l)) rest"
  proof (subst value_line [where w = "map TOKEN n" and i = i])
    show "if map TOKEN n = ''content-length''
      then header_state ?s = h_content_length \<and> list_all IS_NUM v \<and> length_value v < 10 ^ 18 \<and>
        flags ?s AND F_CONTENTLENGTH = 0
      else map TOKEN n \<notin> {''connection'', ''proxy-connection'', ''upgrade'', ''transfer-encoding''}"
      using assms(2,3) field(3) kept by (auto simp: http_header_ok_def is_length_def plain_name_def)
    show "exec_loop E data
        (let s = on_header_value v (?s\<lparr>index := 0\<rparr>) in
         if map TOKEN n = ''content-length''
         then s\<lparr>header_state := h_content_length_num, flags := flags s OR F_CONTENTLENGTH,
                content_length := of_nat (length_value v), state := s_header_value_lws\<rparr>
         else s\<lparr>header_state := h_general, state := s_header_value_lws\<rparr>)
        (advance (length v + 3) (advance (length m + 2) l)) rest =
      exec_loop E data (after_line (n, v) s) (advance (length v + 3) (advance (length m + 2) l)) rest"
      by (cases s) (simp add: after_line_def is_length_def on_header_field_def on_header_value_def Let_def)
  qed (use assms(2,4,5,7,8) room2 data field(2) kept in \<open>simp_all add: http_header_ok_def\<close>)
  with field(1) line show ?thesis by (simp add: header_line_def n numeral_eq_Suc)
qed

text \<open>The line feed behind a value is followed by a further header or by the end of the header.\<close>

definition line_start :: "'c HTTPParser \<Rightarrow> bool" where
  "line_start s \<longleftrightarrow>
     state s = s_header_field_start \<or>
     state s = s_header_value_lws \<and> header_state s \<in> {h_general, h_content_length_num}"

lemma line_start_read:
  assumes "line_start s" "ch \<noteq> CHR '' ''" "ch \<noteq> tab" "room l (Suc k)"
  shows "exec_loop E data s l (ch # rest) = exec_loop E data (s\<lparr>state := s_header_field_start\<rparr>) l (ch # rest)"
proof (cases "state s = s_header_field_start")
  case False
  have "\<not> max_header_size < lread l + 1" using room_lread(3) [of l 1 k] assms(4) by simp
  moreover have "s\<lparr>flags := flags s, state := s_header_field_start\<rparr> = s\<lparr>state := s_header_field_start\<rparr>"
    by (cases s) simp
  then have "switch E data s l' ch rest = Reexecute (s\<lparr>state := s_header_field_start\<rparr>) l' (ch # rest)" for l'
    using assms(1-3) False by (auto simp: line_start_def switch_def do_value_lws_def Let_def)
  ultimately show ?thesis
    using assms(1) reexecute_step [of E data s "count_char s l" ch rest "s\<lparr>state := s_header_field_start\<rparr>"]
    by (auto simp: exec_loop.simps(2) count_char_def overflows_def parsing_header_def line_start_def)
qed simp

definition header_text :: "(string \<times> string) list \<Rightarrow> string" where
  "header_text hs = concat (map header_line hs)"

text \<open>The headers so far: those of the request and the one that is still in the parser.\<close>

definition heads :: "'c HTTPParser \<Rightarrow> (string \<times> string) list" where
  "heads s =
     req_headers (req s) @ (if header_field s = [] then [] else [(header_field s, header_value s)])"

definition heads_ok :: "'c HTTPParser \<Rightarrow> bool" where
  "heads_ok s \<longleftrightarrow> header_building_state s = 0 \<and> (header_field s = [] \<longleftrightarrow> header_value s = [])"

lemma http_header_ok_parts: "http_header_ok (n, v) \<Longrightarrow> n \<noteq> [] \<and> v \<noteq> []"
  using name_tokens(1) [of n] by (auto simp: http_header_ok_def text_ok_def split: if_splits)

lemma after_line_heads:
  assumes "heads_ok s" "http_header_ok (n, v)"
  shows "heads (after_line (n, v) s) = heads s @ [(n, v)]" "heads_ok (after_line (n, v) s)"
  using assms http_header_ok_parts [OF assms(2)]
  by (auto simp: heads_def heads_ok_def after_line_def on_header_field_def on_header_value_def Let_def)

lemma after_line_fields [simp]:
  "http_errno (after_line h s) = http_errno s" "lenient_http_headers (after_line h s) = lenient_http_headers s"
  "allow_chunked_length (after_line h s) = allow_chunked_length s"
  "uses_transfer_encoding (after_line h s) = uses_transfer_encoding s"
  "http_major (after_line h s) = http_major s" "http_minor (after_line h s) = http_minor s"
  "p_method (after_line h s) = p_method s" "conn (after_line h s) = conn s"
  "message_complete (after_line h s) = message_complete s"
  "(req (after_line h s))\<lparr>req_headers := x\<rparr> = (req s)\<lparr>req_headers := x\<rparr>"
  "after_line h (s\<lparr>state := st\<rparr>) = after_line h s"
  "flags (after_line h s) = (if is_length (fst h) then flags s OR F_CONTENTLENGTH else flags s)"
  "content_length (after_line h s) =
     (if is_length (fst h) then of_nat (length_value (snd h)) else content_length s)"
  by (simp_all add: after_line_def on_header_field_def on_header_value_def Let_def)

lemma after_line_start: "line_start (after_line h s)"
  by (simp add: line_start_def after_line_def Let_def)

definition after_lines :: "(string \<times> string) list \<Rightarrow> 'c HTTPParser \<Rightarrow> 'c HTTPParser" where
  "after_lines hs s = fold after_line hs s"

definition lengths :: "(string \<times> string) list \<Rightarrow> (string \<times> string) list" where
  "lengths hs = filter (\<lambda>h. is_length (fst h)) hs"

lemma after_lines_fields [simp]:
  "http_errno (after_lines hs s) = http_errno s"
  "lenient_http_headers (after_lines hs s) = lenient_http_headers s"
  "allow_chunked_length (after_lines hs s) = allow_chunked_length s"
  "uses_transfer_encoding (after_lines hs s) = uses_transfer_encoding s"
  "http_major (after_lines hs s) = http_major s" "http_minor (after_lines hs s) = http_minor s"
  "p_method (after_lines hs s) = p_method s" "conn (after_lines hs s) = conn s"
  "message_complete (after_lines hs s) = message_complete s"
  "(req (after_lines hs s))\<lparr>req_headers := x\<rparr> = (req s)\<lparr>req_headers := x\<rparr>"
  unfolding after_lines_def by (induction hs arbitrary: s) simp_all

lemma after_lines_heads:
  "heads_ok s \<Longrightarrow> list_all http_header_ok hs \<Longrightarrow>
   heads (after_lines hs s) = heads s @ hs \<and> heads_ok (after_lines hs s)"
  unfolding after_lines_def
proof (induction hs arbitrary: s)
  case (Cons h hs)
  obtain n v where h: "h = (n, v)" by (cases h)
  with Cons.IH [of "after_line h s"] after_line_heads [of s n v] Cons.prems show ?case by simp
qed simp

lemma after_lines_length:
  "flags (after_lines hs s) = (if lengths hs = [] then flags s else flags s OR F_CONTENTLENGTH)"
  "content_length (after_lines hs s) =
     (if lengths hs = [] then content_length s else of_nat (length_value (snd (last (lengths hs)))))"
  unfolding after_lines_def lengths_def by (induction hs arbitrary: s) (simp_all add: or.assoc)

lemma after_lines_start: "line_start s \<Longrightarrow> line_start (after_lines hs s)"
  unfolding after_lines_def by (induction hs arbitrary: s) (simp_all add: after_line_start)

lemma lines_read:
  "line_start s \<Longrightarrow> list_all http_header_ok hs \<Longrightarrow>
   length (lengths hs) + (if flags s AND F_CONTENTLENGTH = 0 then 0 else 1) \<le> 1 \<Longrightarrow>
   http_errno s = CHPE_OK \<Longrightarrow> \<not> lenient_http_headers s \<Longrightarrow> room l (length (header_text hs)) \<Longrightarrow>
   field_mark l = None \<Longrightarrow> value_mark l = None \<Longrightarrow> drop (pos l) data = header_text hs @ rest \<Longrightarrow>
   exec_loop E data s l (header_text hs @ rest) =
   exec_loop E data (after_lines hs s) (advance (length (header_text hs)) l) rest"
proof (induction hs arbitrary: s l)
  case Nil
  then show ?case by (simp add: header_text_def after_lines_def)
next
  case (Cons h hs)
  obtain n v where h: "h = (n, v)" by (cases h)
  let ?s = "s\<lparr>state := s_header_field_start\<rparr>" and ?n = "length (header_line h)"
  have ok: "http_header_ok (n, v)" using Cons.prems(2) h by simp
  obtain c m where n: "n = c # m" using http_header_ok_parts [OF ok] by (cases n) auto
  have token: "TOKEN c \<noteq> nul"
    using name_tokens(2) [of n] ok n by (auto simp: http_header_ok_def split: if_splits)
  have "TOKEN (CHR '' '') = nul" "TOKEN tab = nul" by code_simp+
  then have blank: "c \<noteq> CHR '' ''" "c \<noteq> tab" using token by auto
  have line: "header_text (h # hs) @ rest = header_line h @ header_text hs @ rest"
    by (simp add: header_text_def)
  have rooms: "room l ?n" "room (advance ?n l) (length (header_text hs))" "room l (Suc 0)"
    using Cons.prems(6) room_lread(2) [of l ?n "length (header_text hs)"]
    by (simp_all add: room_def header_text_def h header_line_def)
  have "exec_loop E data s l (header_line h @ header_text hs @ rest) =
      exec_loop E data ?s l (header_line h @ header_text hs @ rest)"
    using line_start_read [OF Cons.prems(1) blank rooms(3)] by (simp add: h header_line_def n)
  also have "\<dots> = exec_loop E data (after_line h ?s) (advance ?n l) (header_text hs @ rest)"
    unfolding h
  proof (rule line_read)
    show "flags ?s AND F_CONTENTLENGTH = 0" if "is_length n"
      using Cons.prems(3) that by (simp add: lengths_def h split: if_splits)
  qed (use Cons.prems ok rooms(1) line h in simp_all)
  also have "\<dots> = exec_loop E data (after_lines hs (after_line h s)) (advance (length (header_text hs)) (advance ?n l)) rest"
  proof (subst Cons.IH)
    have bit: "(f OR F_CONTENTLENGTH) AND F_CONTENTLENGTH \<noteq> 0" for f :: u8
      by (simp add: F_CONTENTLENGTH_def bit_eq_iff) (auto simp: bit_simps intro!: exI [of _ 6])
    show "length (lengths hs) + (if flags (after_line h ?s) AND F_CONTENTLENGTH = 0 then 0 else 1) \<le> 1"
      using Cons.prems(3) by (simp add: lengths_def split: if_splits)
    have "drop (pos l + ?n) data = header_text hs @ rest"
      using Cons.prems(9) line by (metis add.commute append_eq_conv_conj drop_drop)
    then show "drop (pos (advance ?n l)) data = header_text hs @ rest" by simp
  qed (use Cons.prems rooms(2) in \<open>simp_all add: after_line_start\<close>)
  finally show ?case using line by (simp add: header_text_def after_lines_def)
qed

end
