(* ===== verification/Crow_Http_Request.thy ===== *)
theory Crow_Http_Request
  imports Crow_Http_Header
begin

unbundle bit_operations_syntax

text \<open>
  The parser on whole requests: what is handed to the connection is exactly what the client sent, one
  request after the other.  Then what goes wrong between requests and pieces.
\<close>

subsection \<open>The end of the header and the body\<close>

text \<open>No flag but that of a content length.\<close>

definition plain_flags :: "'c HTTPParser \<Rightarrow> bool" where
  "plain_flags s \<longleftrightarrow> flags s = 0 \<or> flags s = F_CONTENTLENGTH"

definition at_body :: "'c env \<Rightarrow> 'c HTTPParser \<Rightarrow> 'c HTTPParser" where
  "at_body E s = (on_headers_complete E (s\<lparr>state := s_headers_done, upgrade := False\<rparr>))\<lparr>nread := 0\<rparr>"

definition behind_body :: "'c env \<Rightarrow> string \<Rightarrow> 'c HTTPParser \<Rightarrow> 'c HTTPParser" where
  "behind_body E body s =
     (if body = [] then at_body E s
      else on_body body ((at_body E s)\<lparr>content_length := 0, state := s_message_done\<rparr>))"

lemma at_body_fields [simp]:
  "http_errno (at_body E s) = http_errno s" "content_length (at_body E s) = content_length s"
  "state (at_body E s) = s_headers_done"
  by (simp_all add: at_body_def on_headers_complete_def set_connection_parameters_def Let_def)

lemma message_complete_errno [simp]: "http_errno (on_message_complete E s) = http_errno s"
  by (simp add: on_message_complete_def Let_def clear_def split: prod.split)

lemma blank_line_read:
  assumes "line_start s" "plain_flags s" "\<not> uses_transfer_encoding s" "p_method s \<noteq> 5"
    "http_errno s = CHPE_OK" "room l 2"
    "if body = [] then content_length s = 0 \<or> content_length s = ULLONG_MAX
     else content_length s \<noteq> 0 \<and> content_length s \<noteq> ULLONG_MAX"
  shows "\<exists>l'. pos l' = pos l + 1 \<and> lread l' = 0 \<and> marks l' = marks l \<and> body_mark l' = body_mark l \<and>
    exec_loop E data s l (cr # lf # body) =
    (if body = [] then exec_loop E data (on_message_complete E (at_body E s)) (l'\<lparr>pos := pos l + 2\<rparr>) []
     else exec_loop E data ((at_body E s)\<lparr>state := s_body_identity\<rparr>) (l'\<lparr>pos := pos l + 2\<rparr>) body)"
proof -
  let ?s1 = "s\<lparr>state := s_headers_almost_done\<rparr>" and ?l1 = "advance 1 l"
  let ?l2 = "?l1\<lparr>lread := lread ?l1 + 1\<rparr>"
  have rooms: "room l (Suc 1)" "room ?l1 (Suc 0)" using assms(6) room_lread(2) [of l 1 1] by (simp_all add: room_def)
  have bits: "flags s AND F_TRAILING = 0" "flags s AND F_UPGRADE = 0" "flags s AND F_SKIPBODY = 0"
    "flags s AND F_CHUNKED = 0"
    using assms(2) by (auto simp: plain_flags_def flag_numbers)
  have first: "exec_loop E data s l (cr # lf # body) = exec_loop E data ?s1 ?l1 (lf # body)"
  proof -
    have "exec_loop E data s l (cr # lf # body) =
        exec_loop E data (s\<lparr>state := s_header_field_start\<rparr>) l (cr # lf # body)"
      by (rule line_start_read [OF assms(1) _ _ rooms(1)]) simp_all
    also have "\<dots> = exec_loop E data ?s1 ?l1 (lf # body)"
      by (rule switch_step [OF _ rooms(1)]) (simp_all add: parsing_header_def switch_def do_field_start_def)
    finally show ?thesis .
  qed
  let ?s2 = "on_headers_complete E (s\<lparr>state := s_headers_done, upgrade := False\<rparr>)"
  have kept: "http_errno ?s2 = CHPE_OK" "state ?s2 = s_headers_done" "flags ?s2 = flags s" "upgrade ?s2 = False"
    "uses_transfer_encoding ?s2 = False" "content_length ?s2 = content_length s"
    using assms(3,5) by (simp_all add: on_headers_complete_def set_connection_parameters_def Let_def)
  have almost: "switch E data ?s1 ?l2 lf body = Reexecute ?s2 ?l2 (lf # body)"
    using bits assms(3,4) kept(1) by (simp add: switch_def do_headers_almost_done_def Let_def)
  let ?l3 = "?l2\<lparr>lread := 0\<rparr>"
  let ?s3 = "if body = [] then on_message_complete E (at_body E s) else (at_body E s)\<lparr>state := s_body_identity\<rparr>"
  have finished: "switch E data ?s2 ?l2 lf body = Break ?s3 ?l3 body"
  proof (cases "body = []")
    case True
    then show ?thesis
      using bits assms(5,7) kept by (auto simp: switch_def do_headers_done_def Let_def notify_def at_body_def)
  next
    case False
    then show ?thesis
      using bits assms(5,7) kept by (simp add: switch_def do_headers_done_def Let_def at_body_def)
  qed
  have re: "reexecute 5 E data ?s1 ?l2 (lf # body) = Some (Break ?s3 ?l3 body)"
    using reexecute_step [OF almost] reexecute_break [OF finished] by simp
  have second: "exec_loop E data ?s1 ?l1 (lf # body) = exec_loop E data ?s3 (?l3\<lparr>pos := pos ?l3 + 1\<rparr>) body"
    by (rule header_step [OF _ rooms(2) re]) (simp add: parsing_header_def)
  have "?l3\<lparr>pos := pos ?l3 + 1\<rparr> = (?l3\<lparr>pos := pos l + 1\<rparr>)\<lparr>pos := pos l + 2\<rparr>" by simp
  with first second show ?thesis
    by (intro exI [of _ "?l3\<lparr>pos := pos l + 1\<rparr>"]) (simp add: marks_def)
qed

lemma no_marks: "marks l = 0 \<Longrightarrow> field_mark l = None \<and> value_mark l = None \<and> url_mark l = None \<and> body_mark l = None"
  by (simp add: marks_def split: if_splits)

lemma at_end_plain:
  assumes "marks l = 0" "lread l = 0"
  shows "at_end E data s l = Returned (length data) (s\<lparr>nread := 0\<rparr>)"
  using no_marks [OF assms(1)] assms by (simp add: at_end_def data_callback_def leave_def)

lemma body_read:
  assumes "state s = s_body_identity" "http_errno s = CHPE_OK" "content_length s = of_nat (length body)"
    "body \<noteq> []" "length body < 10 ^ 18" "body_mark l = None" "drop (pos l) data = body"
  shows "exec_loop E data s l body =
    exec_loop E data (on_message_complete E (on_body body (s\<lparr>content_length := 0, state := s_message_done\<rparr>)))
      (l\<lparr>pos := pos l + length body\<rparr>) []"
proof -
  obtain c cs where body: "body = c # cs" using assms(4) by (cases body) auto
  have len: "unat (content_length s) = length body" using assms(3,5) by (simp add: unat_of_nat)
  then have nonzero: "content_length s \<noteq> 0" using assms(4) by auto
  have not_max: "content_length s \<noteq> ULLONG_MAX" using len assms(5) unat_ULLONG_MAX by auto
  let ?s1 = "on_body body (s\<lparr>content_length := 0, state := s_message_done\<rparr>)"
  let ?l1 = "l\<lparr>body_mark := None, pos := pos l + length cs\<rparr>"
  have "marked_text data (pos l) (pos l + length body) = body"
    using marked_text_at [of "pos l" data body "[]"] assms(7) by simp
  then have body_text: "marked_text data (pos l) (Suc (pos l + length cs)) = body" by (simp add: body)
  have count: "count_char s l = l" "\<not> overflows s l"
    using assms(1) by (simp_all add: count_char_def overflows_def parsing_header_def)
  have swap: "l\<lparr>body_mark := Some (pos l), pos := p, body_mark := None\<rparr> = l\<lparr>body_mark := None, pos := p\<rparr>" for p
    by (cases l) simp
  have zero: "content_length s - of_nat (Suc (length cs)) = 0" using assms(3) body by simp
  have same: "l\<lparr>body_mark := None, pos := p\<rparr> = l\<lparr>pos := p\<rparr>" for p using assms(6) by (cases l) simp
  have 1: "switch E data s l c cs = Reexecute ?s1 ?l1 (drop (length cs) (c # cs))"
    using assms(1,2,6) len nonzero not_max body_text zero
    by (simp add: switch_def do_body_identity_def Let_def body set_mark_def data_callback_def notify_def swap)
  obtain d where d: "drop (length cs) (c # cs) = [d]"
    by (cases "drop (length cs) (c # cs)") (auto dest: arg_cong [where f = length])
  have 2: "switch E data ?s1 ?l1 d [] = Break (on_message_complete E ?s1) ?l1 []"
    using assms(2) by (simp add: switch_def notify_def)
  have "reexecute 5 E data s l (c # cs) = Some (Break (on_message_complete E ?s1) ?l1 [])"
    using 1 2 d by (simp add: numeral_eq_Suc)
  then have "exec_loop E data s l (c # cs) =
      exec_loop E data (on_message_complete E ?s1) (?l1\<lparr>pos := pos ?l1 + 1\<rparr>) []"
    using count by (simp add: exec_loop.simps(2))
  moreover have "?l1\<lparr>pos := pos ?l1 + 1\<rparr> = l\<lparr>pos := pos l + length body\<rparr>" by (simp add: same body)
  ultimately show ?thesis by (simp add: body)
qed

lemma end_read:
  assumes "line_start s" "plain_flags s" "\<not> uses_transfer_encoding s" "p_method s \<noteq> 5"
    "http_errno s = CHPE_OK" "room l 2" "length body < 10 ^ 18" "marks l = 0" "drop (pos l) data = cr # lf # body"
    "if body = [] then content_length s = 0 \<or> content_length s = ULLONG_MAX
     else content_length s = of_nat (length body)"
  shows "exec_loop E data s l (cr # lf # body) =
    Returned (length data) ((on_message_complete E (behind_body E body s))\<lparr>nread := 0\<rparr>)"
proof -
  have "unat (of_nat (length body) :: u64) = length body" using assms(7) by (simp add: unat_of_nat)
  then have "body \<noteq> [] \<Longrightarrow> (of_nat (length body) :: u64) \<noteq> 0 \<and> (of_nat (length body) :: u64) \<noteq> ULLONG_MAX"
    using assms(7) unat_ULLONG_MAX by auto
  then have "if body = [] then content_length s = 0 \<or> content_length s = ULLONG_MAX
     else content_length s \<noteq> 0 \<and> content_length s \<noteq> ULLONG_MAX" using assms(10) by auto
  from blank_line_read [OF assms(1-6) this, of E data] obtain l' where l':
    "pos l' = pos l + 1" "lread l' = 0" "marks l' = marks l" "body_mark l' = body_mark l"
    "exec_loop E data s l (cr # lf # body) =
    (if body = [] then exec_loop E data (on_message_complete E (at_body E s)) (l'\<lparr>pos := pos l + 2\<rparr>) []
     else exec_loop E data ((at_body E s)\<lparr>state := s_body_identity\<rparr>) (l'\<lparr>pos := pos l + 2\<rparr>) body)" by blast
  have "marks (l'\<lparr>pos := p\<rparr>) = 0" for p using l'(3) assms(8) by (simp add: marks_def)
  note finished = at_end_plain [OF this]
  show ?thesis
  proof (cases "body = []")
    case True
    then show ?thesis using l' finished by (simp add: behind_body_def)
  next
    case False
    let ?s = "(at_body E s)\<lparr>state := s_body_identity\<rparr>" and ?l = "l'\<lparr>pos := pos l + 2\<rparr>"
    have "drop (pos l + 2) data = body"
      using assms(9) by (metis drop_drop add.commute drop_Suc_Cons drop0 numeral_2_eq_2)
    then have "exec_loop E data ?s ?l body =
        exec_loop E data (on_message_complete E (on_body body (?s\<lparr>content_length := 0, state := s_message_done\<rparr>)))
          (?l\<lparr>pos := pos ?l + length body\<rparr>) []"
      using False assms(5,7,10) no_marks [OF assms(8)] l'(4) by (intro body_read) simp_all
    moreover have "?s\<lparr>content_length := 0, state := s_message_done\<rparr> =
        (at_body E s)\<lparr>content_length := 0, state := s_message_done\<rparr>" by simp
    ultimately show ?thesis using False l'(2,5) finished by (simp add: behind_body_def)
  qed
qed

subsection \<open>A whole request\<close>

definition request_text :: "nat \<Rightarrow> string \<Rightarrow> (string \<times> string) list \<Rightarrow> string \<Rightarrow> string" where
  "request_text m t hs body =
     method_name m @ CHR '' '' # t @ CHR '' '' # ''HTTP/1.1'' @ cr # lf # header_text hs @ cr # lf # body"

text \<open>
  The requests in question: every method but \<open>CONNECT\<close>, a path with or without a query, headers
  that have no meaning to the parser and at most one content length, which is that of the body.
\<close>

definition body_fits :: "(string \<times> string) list \<Rightarrow> string \<Rightarrow> bool" where
  "body_fits hs body \<longleftrightarrow>
     (case lengths hs of [] \<Rightarrow> body = [] | [h] \<Rightarrow> length_value (snd h) = length body | _ \<Rightarrow> False)"

definition request_ok :: "nat \<Rightarrow> string \<Rightarrow> (string \<times> string) list \<Rightarrow> string \<Rightarrow> bool" where
  "request_ok m t hs body \<longleftrightarrow>
     m < 34 \<and> m \<noteq> 5 \<and> target_ok t \<and> list_all http_header_ok hs \<and> body_fits hs body \<and>
     length (method_name m) + length t + length (header_text hs) + 14 \<le> 80 * 1024"

definition the_request :: "nat \<Rightarrow> string \<Rightarrow> (string \<times> string) list \<Rightarrow> string \<Rightarrow> request" where
  "the_request m t hs body =
     \<lparr>req_method = m, raw_url = t, req_url = path_of t, req_headers = hs, req_body = body,
      http_ver_major = 1, http_ver_minor = 1, keep_alive = True, close_connection = False,
      req_upgrade = False\<rparr>"

definition url_request :: "nat \<Rightarrow> string \<Rightarrow> request" where
  "url_request m t = new_request\<lparr>req_method := m, raw_url := t, req_url := path_of t\<rparr>"

text \<open>The parser between two requests.\<close>

definition fresh :: "'c HTTPParser \<Rightarrow> bool" where
  "fresh s \<longleftrightarrow>
     state s = s_start_req \<and> http_errno s = CHPE_OK \<and> nread s = 0 \<and> \<not> message_complete s \<and>
     \<not> lenient_http_headers s \<and> req s = new_request \<and> header_field s = [] \<and> header_value s = [] \<and>
     header_building_state s = 0 \<and> qs_point s = 0"

lemma new_parser_fresh: "fresh (new_parser c)"
  by (simp add: fresh_def new_parser_def)

lemma with_method_fields [simp]:
  "state (with_method m s) = s_req_spaces_before_url" "p_method (with_method m s) = m"
  "http_errno (with_method m s) = http_errno s" "lenient_http_headers (with_method m s) = lenient_http_headers s"
  "uses_transfer_encoding (with_method m s) = False" "flags (with_method m s) = 0"
  "content_length (with_method m s) = ULLONG_MAX" "qs_point (with_method m s) = qs_point s"
  "req (with_method m s) = (req s)\<lparr>req_method := m\<rparr>" "header_field (with_method m s) = header_field s"
  "header_value (with_method m s) = header_value s" "conn (with_method m s) = conn s"
  "header_building_state (with_method m s) = header_building_state s"
  "message_complete (with_method m s) = message_complete s"
  by (simp_all add: with_method_def named_def started_def)

text \<open>The parser behind the callback of the URL.\<close>

definition url_called :: "'c env \<Rightarrow> nat \<Rightarrow> string \<Rightarrow> 'c HTTPParser \<Rightarrow> 'c HTTPParser" where
  "url_called E m t s = on_url E t (at_url t (with_method m s))"

lemma url_taken:
  assumes "fresh s" "target_ok t" "length t < 10 ^ 18"
  shows "url_called E m t s =
    (let (answered, c) = handle_url E (url_request m t) (conn s);
         s1 = (at_url t (with_method m s))\<lparr>req := url_request m t, conn := c\<rparr>
     in if answered then clear (s1\<lparr>http_errno := CHPE_INVALID_EOF_STATE\<rparr>) else s1)"
proof -
  have "target_ok t \<Longrightarrow> path_of t \<noteq> []" by (auto simp: target_ok_def path_of_def split: list.splits)
  moreover have "length (path_of t) \<le> length t" by (simp add: path_of_def length_takeWhile_le)
  ultimately have "unat (of_nat (length (path_of t)) :: u64) = length (path_of t)" "path_of t \<noteq> []"
    using assms(2,3) by (simp_all add: unat_of_nat)
  then have "(of_nat (length (path_of t)) :: u64) \<noteq> 0" by (metis length_0_conv unsigned_0)
  moreover have "take (length (path_of t)) t = path_of t" by (simp add: path_of_def takeWhile_eq_take [symmetric])
  moreover have "CHR ''?'' \<notin> set t \<Longrightarrow> path_of t = t" by (auto simp: path_of_def takeWhile_eq_all_conv)
  ultimately have url: "(if qs_point (at_url t (with_method m s)) \<noteq> 0
      then take (unat (qs_point (at_url t (with_method m s)))) t else t) = path_of t"
    using assms(1) \<open>unat _ = _\<close> by (simp add: at_url_def fresh_def)
  have req: "req (at_url t (with_method m s)) = new_request\<lparr>req_method := m\<rparr>"
    "conn (at_url t (with_method m s)) = conn s"
    using assms(1) by (simp_all add: at_url_def fresh_def)
  have raw: "raw_url (new_request\<lparr>req_method := m\<rparr>) = []" by (simp add: new_request_def)
  show ?thesis
    using url
    by (cases "qs_point (at_url t (with_method m s)) = 0")
      (simp_all add: url_called_def on_url_def Let_def req raw url_request_def split: prod.split)
qed

lemma request_line_read:
  assumes "fresh s" "m < 34" "m \<noteq> 5" "target_ok t" "length (method_name m) + length t + 12 \<le> 80 * 1024"
    "data = method_name m @ CHR '' '' # t @ CHR '' '' # ''HTTP/1.1'' @ cr # lf # rest"
  shows "\<exists>l. pos l = length (method_name m) + length t + 12 \<and> lread l = of_nat (pos l) \<and> marks l = 0 \<and>
    exec_loop E data s (start_locals s) data =
    (if http_errno (url_called E m t s) \<noteq> CHPE_OK
     then Returned (length (method_name m) + length t + 2) (url_called E m t s)
     else exec_loop E data (with_version (url_called E m t s)) l rest)"
proof -
  let ?l = "start_locals s" and ?n = "length (method_name m)"
  let ?s1 = "with_method m s" and ?s2 = "url_called E m t s"
  have start: "?l = \<lparr>pos = 0, lread = 0, field_mark = None, value_mark = None, url_mark = None,
      url_start_mark = None, body_mark = None\<rparr>"
    using assms(1) by (simp add: start_locals_def fresh_def)
  have room: "room (advance i ?l) k" if "i + k \<le> 80 * 1024" for i k
    using that room_lread(2) [of ?l i k] by (simp add: room_def max_header start)
  have "exec_loop E data s ?l data =
      exec_loop E data ?s1 (advance (?n + 1) ?l) (t @ CHR '' '' # ''HTTP/1.1'' @ cr # lf # rest)"
    using method_read [of m s ?l E data] assms room [of 0 "?n + 1"] by (simp add: fresh_def)
  also have "\<dots> = (let s1 = on_url E t (at_url t ?s1) in
     if http_errno s1 \<noteq> CHPE_OK then Returned (pos (advance (?n + 1) ?l) + length t + 1) s1
     else exec_loop E data s1
       ((advance (length t + 1) (advance (?n + 1) ?l))\<lparr>url_start_mark := Some (pos (advance (?n + 1) ?l))\<rparr>)
       (''HTTP/1.1'' @ cr # lf # rest))"
  proof (rule target_read)
    show "drop (pos (advance (?n + 1) ?l)) data = t @ CHR '' '' # ''HTTP/1.1'' @ cr # lf # rest"
      using assms(6) by (simp add: start)
    show "room (advance (?n + 1) ?l) (length t + 1)" using assms(5) by (intro room) simp
  qed (use assms(3,4) in \<open>simp_all add: start\<close>)
  finally have line: "exec_loop E data s ?l data =
    (if http_errno ?s2 \<noteq> CHPE_OK then Returned (?n + length t + 2) ?s2
     else exec_loop E data ?s2 ((advance (?n + length t + 2) ?l)\<lparr>url_start_mark := Some (?n + 1)\<rparr>)
       (''HTTP/1.1'' @ cr # lf # rest))"
    by (simp add: url_called_def Let_def start advance_def)
  let ?l2 = "(advance (?n + length t + 2) ?l)\<lparr>url_start_mark := Some (?n + 1)\<rparr>"
  have "http_errno ?s2 = CHPE_OK \<Longrightarrow> state ?s2 = s_req_http_start"
    by (auto simp: url_called_def on_url_def clear_def at_url_def Let_def split: prod.splits if_splits)
  moreover have "room ?l2 10" using room [of "?n + length t + 2" 10] assms(5) by (simp add: room_def)
  ultimately have "http_errno ?s2 = CHPE_OK \<Longrightarrow>
      exec_loop E data ?s2 ?l2 (''HTTP/1.1'' @ cr # lf # rest) =
      exec_loop E data (with_version ?s2) (advance 10 ?l2) rest"
    by (rule version_read)
  with line show ?thesis
    by (intro exI [of _ "advance 10 ?l2"]) (simp add: start marks_def advance_def)
qed

text \<open>The parser at the end of the request, before \<open>on_message_complete\<close>.\<close>

definition header_request :: "nat \<Rightarrow> string \<Rightarrow> (string \<times> string) list \<Rightarrow> request" where
  "header_request m t hs = the_request m t hs []"

definition completed :: "'c env \<Rightarrow> nat \<Rightarrow> string \<Rightarrow> (string \<times> string) list \<Rightarrow> string \<Rightarrow> 'c HTTPParser \<Rightarrow> 'c HTTPParser" where
  "completed E m t hs body s =
     behind_body E body (after_lines hs (with_version (url_called E m t s)))"

lemma lengths_cases:
  assumes "body_fits hs body"
  shows "length (lengths hs) \<le> 1" "lengths hs = [] \<Longrightarrow> body = []"
    "lengths hs \<noteq> [] \<Longrightarrow> length_value (snd (last (lengths hs))) = length body"
  using assms by (auto simp: body_fits_def split: list.splits)

lemma request_read:
  assumes "fresh s" "request_ok m t hs body" "handle_url E (url_request m t) (conn s) = (False, c)"
  shows "feed E (request_text m t hs body) s =
    Some (True, (on_message_complete E (completed E m t hs body s))\<lparr>nread := 0\<rparr>)"
proof -
  let ?data = "request_text m t hs body"
  have ok: "m < 34" "m \<noteq> 5" "target_ok t" "list_all http_header_ok hs" "body_fits hs body"
    "length (method_name m) + length t + length (header_text hs) + 14 \<le> 80 * 1024"
    using assms(2) by (simp_all add: request_ok_def)
  note fits = lengths_cases [OF ok(5)]
  let ?s1 = "url_called E m t s"
  let ?s2 = "with_version ?s1"
  have s1: "?s1 = (at_url t (with_method m s))\<lparr>req := url_request m t, conn := c\<rparr>"
    using url_taken [OF assms(1) ok(3), of E m] ok(6) assms(3) by simp
  have line: "line_start ?s2" "http_errno ?s2 = CHPE_OK" "\<not> lenient_http_headers ?s2" "flags ?s2 = 0"
    "\<not> uses_transfer_encoding ?s2" "p_method ?s2 = m" "content_length ?s2 = ULLONG_MAX" "http_errno ?s1 = CHPE_OK"
    using assms(1) by (simp_all add: s1 with_version_def line_start_def at_url_def fresh_def)
  have body: "length body < 10 ^ 18"
  proof (cases "lengths hs")
    case (Cons h hs')
    then have "last (lengths hs) \<in> set (lengths hs)" by (intro last_in_set) simp
    then have "http_header_ok (last (lengths hs))" "is_length (fst (last (lengths hs)))"
      using ok(4) by (auto simp: lengths_def list_all_iff)
    then show ?thesis using fits(3) Cons by (simp add: http_header_ok_def)
  qed (use fits(2) in simp)
  obtain l where l: "pos l = length (method_name m) + length t + 12" "lread l = of_nat (pos l)" "marks l = 0"
    "exec_loop E ?data s (start_locals s) ?data = exec_loop E ?data ?s2 l (header_text hs @ cr # lf # body)"
    using request_line_read [OF assms(1) ok(1-3), of ?data "header_text hs @ cr # lf # body" E] ok(6) line(8)
    by (auto simp: request_text_def)
  have "pos l < 2 ^ 32" using l(1) ok(6) by simp
  then have lread: "unat (lread l) = pos l" unfolding l(2) by (simp add: unat_of_nat)
  have room: "room l (length (header_text hs))" "room (advance (length (header_text hs)) l) 2"
  proof -
    have "room l (length (header_text hs) + 2)" using lread l(1) ok(6) by (simp add: room_def max_header)
    then show "room l (length (header_text hs))" "room (advance (length (header_text hs)) l) 2"
      using room_lread(2) room_mono by fastforce+
  qed
  have data: "drop (pos l) ?data = header_text hs @ cr # lf # body"
    "drop (pos (advance (length (header_text hs)) l)) ?data = cr # lf # body"
  proof -
    let ?pre = "method_name m @ CHR '' '' # t @ CHR '' '' # ''HTTP/1.1'' @ [cr, lf]"
    have pre: "pos l = length ?pre" "?data = ?pre @ header_text hs @ cr # lf # body"
      by (simp_all add: l(1) request_text_def)
    show "drop (pos l) ?data = header_text hs @ cr # lf # body"
      "drop (pos (advance (length (header_text hs)) l)) ?data = cr # lf # body"
      unfolding advance_simps pre by (simp_all only: drop_append, simp_all)
  qed
  have "exec_loop E ?data ?s2 l (header_text hs @ cr # lf # body) =
      exec_loop E ?data (after_lines hs ?s2) (advance (length (header_text hs)) l) (cr # lf # body)"
    using line ok(4) fits(1) room(1) no_marks [OF l(3)] data(1) by (intro lines_read) simp_all
  also have "\<dots> = Returned (length ?data) ((on_message_complete E (completed E m t hs body s))\<lparr>nread := 0\<rparr>)"
    unfolding completed_def
  proof (rule end_read)
    show "if body = [] then content_length (after_lines hs ?s2) = 0 \<or> content_length (after_lines hs ?s2) = ULLONG_MAX
      else content_length (after_lines hs ?s2) = of_nat (length body)"
      using fits line(7) by (auto simp: after_lines_length)
    show "marks (advance (length (header_text hs)) l) = 0" using l(3) by (simp add: marks_def)
    show "plain_flags (after_lines hs ?s2)" using line(4) by (simp add: plain_flags_def after_lines_length)
  qed (use line ok(2) room(2) data(2) body after_lines_start in simp_all)
  finally have run: "exec_loop E ?data s (start_locals s) ?data =
      Returned (length ?data) ((on_message_complete E (completed E m t hs body s))\<lparr>nread := 0\<rparr>)" using l(4) by simp
  have "http_errno (completed E m t hs body s) = CHPE_OK"
    using line(2) by (simp add: completed_def behind_body_def)
  with run show ?thesis
    using assms(1) by (simp add: feed_def http_parser_execute_def fresh_def request_text_def)
qed

lemma completed_request:
  assumes "fresh s" "request_ok m t hs body" "handle_url E (url_request m t) (conn s) = (False, c)"
  defines "s' \<equiv> completed E m t hs body s"
  shows "req s' = the_request m t hs body" "conn s' = handle_header E (header_request m t hs) c"
    "http_errno s' = CHPE_OK" "\<not> message_complete s'" "\<not> lenient_http_headers s'"
proof -
  have ok: "target_ok t" "list_all http_header_ok hs" "length t < 10 ^ 18"
    using assms(2) by (simp_all add: request_ok_def)
  let ?s2 = "with_version (url_called E m t s)"
  let ?s3 = "after_lines hs ?s2"
  have s1: "url_called E m t s = (at_url t (with_method m s))\<lparr>req := url_request m t, conn := c\<rparr>"
    using url_taken [OF assms(1) ok(1,3), of E m] assms(3) by simp
  have s2: "heads ?s2 = []" "heads_ok ?s2" "http_major ?s2 = 1" "http_minor ?s2 = 1" "conn ?s2 = c"
    "req ?s2 = url_request m t" "http_errno ?s2 = CHPE_OK" "\<not> message_complete ?s2"
    "\<not> lenient_http_headers ?s2" "flags ?s2 = 0"
    using assms(1)
    by (simp_all add: s1 heads_def heads_ok_def with_version_def at_url_def fresh_def url_request_def new_request_def)
  have heads: "heads ?s3 = hs" using after_lines_heads [OF s2(2) ok(2)] s2(1) by simp
  have flags: "flags ?s3 AND F_CONNECTION_KEEP_ALIVE = 0" "flags ?s3 AND F_CONNECTION_CLOSE = 0"
    using s2(10) by (simp_all add: after_lines_length flag_numbers)
  have set: "(req ?s3)\<lparr>req_headers := x\<rparr> = (url_request m t)\<lparr>req_headers := x\<rparr>" for x
    using after_lines_fields(10) [where hs = hs and s = ?s2 and x = x] s2(6) by simp
  have same: "(req ?s3)\<lparr>req_headers := req_headers (req ?s3)\<rparr> = req ?s3"
    by (simp del: after_lines_fields)
  have all: "(if header_field ?s3 \<noteq> []
      then (req ?s3)\<lparr>req_headers := req_headers (req ?s3) @ [(header_field ?s3, header_value ?s3)]\<rparr>
      else req ?s3) = (url_request m t)\<lparr>req_headers := hs\<rparr>"
    using set [of "req_headers (req ?s3)"] set [of hs] same heads
    by (cases "header_field ?s3 = []") (simp_all add: heads_def del: after_lines_fields)
  have body: "req (at_body E ?s3) = header_request m t hs"
    "conn (at_body E ?s3) = handle_header E (header_request m t hs) c"
    "message_complete (at_body E ?s3) = message_complete ?s3"
    "lenient_http_headers (at_body E ?s3) = lenient_http_headers ?s3"
    using all flags s2(3-5)
    by (cases "header_field ?s3 = []"; simp add: at_body_def on_headers_complete_def
        set_connection_parameters_def Let_def header_request_def the_request_def url_request_def new_request_def)+
  show "req s' = the_request m t hs body" "conn s' = handle_header E (header_request m t hs) c"
    "http_errno s' = CHPE_OK" "\<not> message_complete s'" "\<not> lenient_http_headers s'"
    using body s2(7-9)
    by (cases "body = []"; simp add: s'_def completed_def behind_body_def on_body_def header_request_def the_request_def)+
qed

text \<open>
  A well-formed request that arrives in one piece is handed to the connection exactly: it is
  asked about the URL, it sees the headers, and it is given the method, the path without the query,
  all headers in their order and the body.  When it has written the response the parser is as it was
  before the request.
\<close>

theorem request_delivered:
  assumes "fresh s" "request_ok m t hs body" "handle_url E (url_request m t) (conn s) = (False, c)"
    "handle_message E (the_request m t hs body) (handle_header E (header_request m t hs) c) = (written, c')"
  shows "\<exists>s'. feed E (request_text m t hs body) s = Some (True, s') \<and> conn s' = c' \<and>
    (if written then fresh s' else message_complete s')"
proof -
  note completed = completed_request [OF assms(1-3)]
  let ?s = "(on_message_complete E (completed E m t hs body s))\<lparr>nread := 0\<rparr>"
  have "conn ?s = c' \<and> (if written then fresh ?s else message_complete ?s)"
    using completed assms(4) by (simp add: on_message_complete_def Let_def clear_def fresh_def)
  with request_read [OF assms(1-3)] show ?thesis by blast
qed

subsection \<open>A conversation\<close>

type_synonym message = "nat \<times> string \<times> (string \<times> string) list \<times> string"

definition client_text :: "message \<Rightarrow> string" where
  "client_text r = (case r of (m, t, hs, body) \<Rightarrow> request_text m t hs body)"

definition client_ok :: "message \<Rightarrow> bool" where
  "client_ok r \<longleftrightarrow> (case r of (m, t, hs, body) \<Rightarrow> request_ok m t hs body)"

text \<open>The connection on its own: what its methods do with one request after the other.\<close>

definition serve_one :: "'c env \<Rightarrow> message \<Rightarrow> 'c \<Rightarrow> 'c option" where
  "serve_one E r c =
     (case r of (m, t, hs, body) \<Rightarrow>
        (case handle_url E (url_request m t) c of
           (True, c) \<Rightarrow> None
         | (False, c) \<Rightarrow>
             (case handle_message E (the_request m t hs body) (handle_header E (header_request m t hs) c) of
                (False, c) \<Rightarrow> None | (True, c) \<Rightarrow> Some c)))"

fun serve_messages :: "'c env \<Rightarrow> message list \<Rightarrow> 'c \<Rightarrow> 'c option" where
  "serve_messages E [] c = Some c"
| "serve_messages E (r # rs) c =
     (case serve_one E r c of None \<Rightarrow> None | Some c \<Rightarrow> serve_messages E rs c)"

lemma message_fed:
  assumes "fresh s" "client_ok r" "serve_one E r (conn s) = Some c"
  shows "\<exists>s'. feed E (client_text r) s = Some (True, s') \<and> conn s' = c \<and> fresh s'"
proof -
  obtain m t hs body where r: "r = (m, t, hs, body)" by (cases r)
  obtain c1 where url: "handle_url E (url_request m t) (conn s) = (False, c1)"
    and handled: "handle_message E (the_request m t hs body) (handle_header E (header_request m t hs) c1) = (True, c)"
    using assms(3) by (auto simp: serve_one_def r split: prod.splits bool.splits)
  have ok: "request_ok m t hs body" using assms(2) by (simp add: client_ok_def r)
  note completed = completed_request [OF assms(1) ok url]
  let ?s = "(on_message_complete E (completed E m t hs body s))\<lparr>nread := 0\<rparr>"
  have "conn ?s = c \<and> fresh ?s"
    using completed handled by (simp add: on_message_complete_def Let_def clear_def fresh_def)
  with request_read [OF assms(1) ok url] show ?thesis by (auto simp: client_text_def r)
qed

text \<open>
  C37. A connection that answers every request at once is given exactly the requests of the client,
  in their order, when each arrives in a piece of its own.
\<close>

theorem requests_delivered:
  assumes "list_all client_ok rs" "serve_messages E rs c = Some c'"
  shows "\<exists>s'. feed_all E (map client_text rs) (new_parser c) = Some s' \<and> conn s' = c' \<and> fresh s'"
proof -
  have "\<exists>s'. feed_all E (map client_text rs) s = Some s' \<and> conn s' = c' \<and> fresh s'"
    if "fresh s" "serve_messages E rs (conn s) = Some c'" for s :: "'a HTTPParser"
    using that assms(1)
  proof (induction rs arbitrary: s)
    case (Cons r rs)
    obtain c1 where c1: "serve_one E r (conn s) = Some c1" "serve_messages E rs c1 = Some c'"
      using Cons.prems(2) by (auto split: option.splits)
    obtain s1 where s1: "feed E (client_text r) s = Some (True, s1)" "conn s1 = c1" "fresh s1"
      using message_fed [OF Cons.prems(1) _ c1(1)] Cons.prems(3) by auto
    with Cons.IH [of s1] c1(2) Cons.prems(3) show ?case by simp
  qed simp
  moreover have "conn (new_parser c) = c" by (simp add: new_parser_def)
  ultimately show ?thesis using new_parser_fresh assms(2) by metis
qed

definition sample_message :: message where
  "sample_message =
     (Patch, ''/configure?x=1'', [(''Host'', ''a''), (''content-LENGTH'', ''2''), (''Accept'', ''*/*'')], ''{}'')"

lemma sample_message_ok: "client_ok sample_message"
proof -
  have names: "\<not> is_length ''Host''" "is_length ''content-LENGTH''" "\<not> is_length ''Accept''"
    "plain_name ''Host''" "plain_name ''Accept''"
    by code_simp+
  have contents: "text_ok ''a''" "text_ok ''2''" "text_ok ''*/*''" "list_all IS_NUM ''2''" "length_value ''2'' = 2"
    by code_simp+
  have target: "target_ok ''/configure?x=1''" by code_simp
  have "http_header_ok (''Host'', ''a'')" "http_header_ok (''content-LENGTH'', ''2'')" "http_header_ok (''Accept'', ''*/*'')"
    using names contents by (simp_all only: http_header_ok_def fst_conv snd_conv if_True if_False) simp_all
  moreover have "body_fits [(''Host'', ''a''), (''content-LENGTH'', ''2''), (''Accept'', ''*/*'')] ''{}''"
    using names contents by (simp add: body_fits_def lengths_def)
  moreover have "method_name Patch = ''PATCH''" by code_simp
  ultimately show ?thesis
    using target
    by (simp add: sample_message_def client_ok_def request_ok_def Patch_def header_text_def header_line_def)
qed

theorem requests_delivered_witness:
  "\<exists>s'. feed_all recorder (map client_text [sample_message, sample_message]) (new_parser []) = Some s' \<and>
     map req_body (conn s') = [''{}'', ''{}''] \<and> fresh s'"
proof -
  obtain m t hs b where s: "sample_message = (m, t, hs, b)" "b = ''{}''" by (simp add: sample_message_def)
  have "serve_messages recorder [sample_message, sample_message] [] =
      Some [the_request m t hs b, the_request m t hs b]"
    by (simp add: s serve_one_def recorder_def)
  from requests_delivered [OF _ this] sample_message_ok s show ?thesis
    by (auto simp: the_request_def)
qed

subsection \<open>What goes wrong between requests\<close>

text \<open>Two requests that arrive in one piece; the second has a query.\<close>

definition two_requests :: string where
  "two_requests =
     ''GET /a HTTP/1.1'' @ [cr, lf, cr, lf] @ ''GET /b?x=1 HTTP/1.1'' @ [cr, lf, cr, lf]"

text \<open>
  \<open>url_start_mark\<close> is set at the first URL of a piece and never again.  Of a second request in the same
  piece the path is therefore cut at the wrong place.  In this example it is not cut at all, so that
  the query is part of the path that is routed; in a piece of its own the same request has the path \<open>/b\<close>.
\<close>

theorem pipelined_query_not_cut:
  "map_option (\<lambda>(ok, s). (ok, map req_url (conn s))) (feed recorder two_requests (new_parser [])) =
     Some (True, [''/a'', ''/b?x=1'']) \<and>
   map_option (\<lambda>s. map req_url (conn s))
     (feed_all recorder [take 19 two_requests, drop 19 two_requests] (new_parser [])) =
     Some [''/a'', ''/b'']"
  by code_simp

text \<open>A connection that knows one path.\<close>

definition one_path :: "string \<Rightarrow> request list env" where
  "one_path path = recorder\<lparr>handle_url := (\<lambda>r c. (req_url r \<noteq> path, c))\<rparr>"

text \<open>
  A URL that arrives in two pieces is looked up already when its first piece ends.  In this example
  the path \<open>/configure\<close> is known and \<open>/conf\<close> is not: cut there the connection fails, although the same
  request in one piece is served.
\<close>

theorem split_url_rejected:
  "map_option fst (feed (one_path ''/configure'') (''GET /configure HTTP/1.1'' @ [cr, lf, cr, lf]) (new_parser [])) =
     Some True \<and>
   map_option fst (feed (one_path ''/configure'') ''GET /conf'' (new_parser [])) = Some False"
  by code_simp

text \<open>
  Smaller deviations: a header without a value is lost when another follows, a header whose name only
  begins with \<open>Transfer-Encoding\<close> makes the request invalid, and a byte from 128 on counts as the
  digit 0 of a chunk's size.
\<close>

lemma parser_deviations:
  "map_option (\<lambda>(ok, s). map req_headers (conn s))
     (feed recorder (''GET / HTTP/1.1'' @ [cr, lf] @ ''X:'' @ [cr, lf] @ ''Y: 1'' @ [cr, lf, cr, lf]) (new_parser [])) =
     Some [[(''Y'', ''1'')]]"
  "map_option (\<lambda>(ok, s). (ok, http_errno s))
     (feed recorder (''GET / HTTP/1.1'' @ [cr, lf] @ ''Transfer-Encoding-X: 1'' @ [cr, lf, cr, lf]) (new_parser [])) =
     Some (False, CHPE_INVALID_TRANSFER_ENCODING)"
  "map_option (\<lambda>(ok, s). map req_body (conn s))
     (feed recorder
       (''GET / HTTP/1.1'' @ [cr, lf] @ ''Transfer-Encoding: chunked'' @ [cr, lf, cr, lf, CHR 0x80, CHR ''1'', cr, lf]
        @ ''x'' @ [cr, lf] @ ''0'' @ [cr, lf, cr, lf]) (new_parser [])) =
     Some [''x'']"
  by code_simp+

end
