(* ===== verification/Crow_Query.thy ===== *)
theory Crow_Query
  imports Prelude "HOL-Library.Sublist"
begin

text \<open>
  The query string of a URL (\<open>qs_*\<close> and \<open>class query_string\<close> in
  \<open>api/include/external/crow_all.h\<close>).  The URL is a buffer that ends with NUL and is cut and decoded in place;
  a pointer is a position in it.  Reading behind the buffer is undefined, \<open>None\<close>.
\<close>

abbreviation (input) NUL :: char where "NUL \<equiv> CHR 0x00"

subsection \<open>The code\<close>

text \<open>The macros on characters; a character is compared as a number between 0 and 255.\<close>

definition between :: "char \<Rightarrow> char \<Rightarrow> char \<Rightarrow> bool" where
  "between a b x = (of_char a \<le> (of_char x :: nat) \<and> of_char x \<le> (of_char b :: nat))"

definition QS_ISHEX :: "char \<Rightarrow> bool" where
  "QS_ISHEX x = (between (CHR ''0'') (CHR ''9'') x \<or> between (CHR ''A'') (CHR ''F'') x \<or>
     between (CHR ''a'') (CHR ''f'') x)"

definition QS_HEX2DEC :: "char \<Rightarrow> nat" where
  "QS_HEX2DEC x =
     (if between (CHR ''0'') (CHR ''9'') x then of_char x - 48
      else if between (CHR ''A'') (CHR ''F'') x then of_char x - 55
      else if between (CHR ''a'') (CHR ''f'') x then of_char x - 87
      else 0)"

definition QS_ISQSCHR :: "char \<Rightarrow> bool" where
  "QS_ISQSCHR x = (x \<noteq> CHR ''='' \<and> x \<noteq> CHR ''#'' \<and> x \<noteq> CHR ''&'' \<and> x \<noteq> NUL)"

definition hex_char :: "char \<Rightarrow> char \<Rightarrow> char" where
  "hex_char a b = char_of (QS_HEX2DEC a * 16 + QS_HEX2DEC b)"

text \<open>The length of the part of the string at \<open>p\<close> without the characters of \<open>stop\<close>.\<close>

definition strcspn :: "string \<Rightarrow> nat \<Rightarrow> char set \<Rightarrow> nat" where
  "strcspn b p stop = length (takeWhile (\<lambda>c. c \<noteq> NUL \<and> c \<notin> stop) (drop p b))"

text \<open>
  \<open>qs_decode\<close> at \<open>p\<close>: \<open>i\<close> characters are written, \<open>j\<close> are read; \<open>None\<close> when it reads behind the buffer.
\<close>

function qs_decode :: "string \<Rightarrow> nat \<Rightarrow> nat \<Rightarrow> nat \<Rightarrow> (nat \<times> string) option" where
  "qs_decode b p i j =
     (if length b \<le> p + j then None
      else
        (let c = b ! (p + j) in
         if \<not> QS_ISQSCHR c then Some (i, b[p + i := NUL])
         else if c = CHR ''+'' then qs_decode (b[p + i := CHR '' '']) p (i + 1) (j + 1)
         else if c = CHR ''%'' then
           (if length b \<le> p + j + 1 then None
            else if \<not> QS_ISHEX (b ! (p + j + 1)) then Some (i, b[p + i := NUL])
            else if length b \<le> p + j + 2 then None
            else if \<not> QS_ISHEX (b ! (p + j + 2)) then Some (i, b[p + i := NUL])
            else qs_decode (b[p + i := hex_char (b ! (p + j + 1)) (b ! (p + j + 2))]) p (i + 1) (j + 3))
         else qs_decode (b[p + i := c]) p (i + 1) (j + 1)))"
  by pat_completeness auto
termination by (relation "measure (\<lambda>(b, p, i, j). length b - (p + j))") auto

declare qs_decode.simps [simp del]

text \<open>The beginnings of the pairs; the number of slots is what is left of \<open>qs_kv_size\<close>.\<close>

fun qs_split :: "nat \<Rightarrow> string \<Rightarrow> nat \<Rightarrow> nat list" where
  "qs_split 0 b p = []"
| "qs_split (Suc n) b p =
     (let j = strcspn b p {CHR ''&''} in
      if b ! (p + j) = NUL then [p] else p # qs_split n b (p + j + 1))"

fun qs_values :: "string \<Rightarrow> nat list \<Rightarrow> string option" where
  "qs_values b [] = Some b"
| "qs_values b (p # ps) =
     (let q = p + strcspn b p {CHR ''='', CHR ''&'', CHR ''#''} in
      if b ! q = CHR ''&'' \<or> b ! q = NUL then qs_values (b[q := NUL]) ps
      else
        (case qs_decode b (q + 1) 0 0 of
           None \<Rightarrow> None
         | Some (_, b) \<Rightarrow> qs_values b ps))"

definition qs_parse :: "string \<Rightarrow> nat \<Rightarrow> bool \<Rightarrow> (nat list \<times> string) option" where
  "qs_parse b size_kv parse_url =
     (let p = (if parse_url then strcspn b 0 {CHR ''?'', CHR ''#''} else 0) in
      if parse_url \<and> b ! p = NUL then Some ([], b)
      else
        (let p = (if parse_url then p + 1 else p); kv = qs_split size_kv b p
         in map_option (Pair kv) (qs_values b kv)))"

text \<open>
  The comparison of a key with the key of a pair, both decoded on the way.  Strings here end
  with their NUL; reading behind it in the buffer of the key, or behind the buffer of the pairs, is \<open>None\<close>.
\<close>

definition qs_char :: "string \<Rightarrow> (char \<times> string) option" where
  "qs_char s =
     (case s of
        [] \<Rightarrow> None
      | u # s \<Rightarrow>
          (let u = (if QS_ISQSCHR u then u else NUL); u = (if u = CHR ''+'' then CHR '' '' else u)
           in if u = CHR ''%'' then
                (case s of
                   unyb # lnyb # s \<Rightarrow>
                     Some (if QS_ISHEX unyb \<and> QS_ISHEX lnyb then hex_char unyb lnyb else NUL, s)
                 | _ \<Rightarrow> None)
              else Some (u, s)))"

fun qs_strncmp :: "string \<Rightarrow> string \<Rightarrow> nat \<Rightarrow> int option" where
  "qs_strncmp s qs 0 =
     (case qs of [] \<Rightarrow> None | c # _ \<Rightarrow> Some (if QS_ISQSCHR c then - 1 else 0))"
| "qs_strncmp s qs (Suc n) =
     (case (qs_char s, qs_char qs) of
        (Some (u1, s), Some (u2, qs)) \<Rightarrow>
          if u1 \<noteq> u2 then Some (of_char u1 - of_char u2)
          else if u1 = NUL then Some 0
          else qs_strncmp s qs n
      | _ \<Rightarrow> None)"

fun qs_k2v :: "string \<Rightarrow> string \<Rightarrow> nat list \<Rightarrow> nat \<Rightarrow> nat option option" where
  "qs_k2v key b [] nr = Some None"
| "qs_k2v key b (p # ps) nr =
     (case qs_strncmp (key @ [NUL]) (drop p b) (length key) of
        None \<Rightarrow> None
      | Some r \<Rightarrow>
          if r = 0 then
            (let skip = strcspn b p {CHR ''=''}; skip = (if b ! (p + skip) = CHR ''='' then skip + 1 else skip)
             in if nr = 0 then Some (Some (p + skip)) else qs_k2v key b ps (nr - 1))
          else qs_k2v key b ps nr)"

text \<open>The string at a position, and the one handed over by \<open>c_str()\<close>.\<close>

definition c_str :: "string \<Rightarrow> string" where
  "c_str s = takeWhile (\<lambda>c. c \<noteq> NUL) s"

definition cstr :: "string \<Rightarrow> nat \<Rightarrow> string" where
  "cstr b p = takeWhile (\<lambda>c. c \<noteq> NUL) (drop p b)"

text \<open>A pair \<open>name[key]=value\<close>; \<open>nr\<close> may become negative.\<close>

fun qs_dict_name2kv :: "string \<Rightarrow> string \<Rightarrow> nat list \<Rightarrow> int \<Rightarrow> (string \<times> string) option" where
  "qs_dict_name2kv name b [] nr = None"
| "qs_dict_name2kv name b (p # ps) nr =
     (if prefix name (cstr b p) then
        (let skip_to_eq = strcspn b p {CHR ''=''};
             skip_to_eq = (if b ! (p + skip_to_eq) = CHR ''='' then skip_to_eq + 1 else skip_to_eq);
             brace_open = strcspn b p {CHR ''[''};
             brace_open = (if b ! (p + brace_open) = CHR ''['' then brace_open + 1 else brace_open);
             brace_close = strcspn b p {CHR '']''}
         in if brace_open \<le> brace_close \<and> 0 < brace_open \<and> 0 < brace_close \<and> nr = 0 then
              Some (take (brace_close - brace_open) (drop (p + brace_open) b), cstr b (p + skip_to_eq))
            else qs_dict_name2kv name b ps (nr - 1))
      else qs_dict_name2kv name b ps nr)"

subsection \<open>The class\<close>

record query_string =
  url_buffer :: string
  key_value_pairs :: "nat list"

definition MAX_KEY_VALUE_PAIRS_COUNT :: nat where
  "MAX_KEY_VALUE_PAIRS_COUNT = 256"

definition make_query_string :: "string \<Rightarrow> bool \<Rightarrow> query_string option" where
  "make_query_string params url =
     (if params = [] then Some \<lparr>url_buffer = [NUL], key_value_pairs = []\<rparr>
      else map_option (\<lambda>(kv, b). \<lparr>url_buffer = b, key_value_pairs = kv\<rparr>)
        (qs_parse (params @ [NUL]) MAX_KEY_VALUE_PAIRS_COUNT url))"

definition query_clear :: "query_string \<Rightarrow> query_string" where
  "query_clear q = q\<lparr>url_buffer := [NUL], key_value_pairs := []\<rparr>"

definition query_get :: "query_string \<Rightarrow> string \<Rightarrow> nat option option" where
  "query_get q name = qs_k2v (c_str name) (url_buffer q) (key_value_pairs q) 0"

text \<open>The first pair whose string begins with the given text is erased.\<close>

fun erase_first :: "(nat \<Rightarrow> bool) \<Rightarrow> nat list \<Rightarrow> nat list" where
  "erase_first P [] = []"
| "erase_first P (p # ps) = (if P p then ps else p # erase_first P ps)"

definition query_pop :: "query_string \<Rightarrow> string \<Rightarrow> (nat option \<times> query_string) option" where
  "query_pop q name =
     map_option
       (\<lambda>ret. (ret,
          if ret \<noteq> None then
            q\<lparr>key_value_pairs := erase_first (\<lambda>p. prefix (name @ ''='') (cstr (url_buffer q) p)) (key_value_pairs q)\<rparr>
          else q))
       (query_get q name)"

text \<open>The values of all pairs of a key, by asking for the first, the second and so on.\<close>

function list_from :: "string \<Rightarrow> query_string \<Rightarrow> nat \<Rightarrow> nat list option" where
  "list_from key q count =
     (if length (key_value_pairs q) < count then None
      else
        (case qs_k2v key (url_buffer q) (key_value_pairs q) count of
           None \<Rightarrow> None
         | Some None \<Rightarrow> Some []
         | Some (Some v) \<Rightarrow> map_option ((#) v) (list_from key q (count + 1))))"
  by pat_completeness auto
termination by (relation "measure (\<lambda>(key, q, count). Suc (length (key_value_pairs q)) - count)") auto

declare list_from.simps [simp del]

definition query_get_list :: "query_string \<Rightarrow> string \<Rightarrow> bool \<Rightarrow> nat list option" where
  "query_get_list q name use_brackets = list_from (c_str (name @ (if use_brackets then ''[]'' else []))) q 0"

definition query_pop_list :: "query_string \<Rightarrow> string \<Rightarrow> bool \<Rightarrow> (nat list \<times> query_string) option" where
  "query_pop_list q name use_brackets =
     map_option
       (\<lambda>ret. (ret,
          if ret \<noteq> [] then
            q\<lparr>key_value_pairs := filter (\<lambda>p. \<not> prefix (name @ (if use_brackets then ''[]='' else ''=''))
                (cstr (url_buffer q) p)) (key_value_pairs q)\<rparr>
          else q))
       (query_get_list q name use_brackets)"

function dict_from :: "string \<Rightarrow> query_string \<Rightarrow> nat \<Rightarrow> (string \<rightharpoonup> string) \<Rightarrow> (string \<rightharpoonup> string)" where
  "dict_from name q count m =
     (if length (key_value_pairs q) < count then m
      else
        (case qs_dict_name2kv name (url_buffer q) (key_value_pairs q) (int count) of
           None \<Rightarrow> m
         | Some (k, v) \<Rightarrow> dict_from name q (count + 1) (if m k = None then m(k \<mapsto> v) else m)))"
  by pat_completeness auto
termination by (relation "measure (\<lambda>(name, q, count, m). Suc (length (key_value_pairs q)) - count)") auto

declare dict_from.simps [simp del]

definition query_get_dict :: "query_string \<Rightarrow> string \<Rightarrow> (string \<rightharpoonup> string)" where
  "query_get_dict q name = dict_from (c_str name) q 0 Map.empty"

definition query_pop_dict :: "query_string \<Rightarrow> string \<Rightarrow> (string \<rightharpoonup> string) \<times> query_string" where
  "query_pop_dict q name =
     (let ret = query_get_dict q name
      in (ret,
          if ret \<noteq> Map.empty then
            q\<lparr>key_value_pairs := filter (\<lambda>p. \<not> prefix (name @ ''['') (cstr (url_buffer q) p)) (key_value_pairs q)\<rparr>
          else q))"

definition query_keys :: "query_string \<Rightarrow> string list" where
  "query_keys q = map (\<lambda>p. takeWhile (\<lambda>c. c \<noteq> CHR ''='') (cstr (url_buffer q) p)) (key_value_pairs q)"

subsection \<open>Decoding in place\<close>

text \<open>The value a text stands for, up to the first character that ends it.\<close>

fun qs_value :: "string \<Rightarrow> string" where
  "qs_value [] = []"
| "qs_value (c # s) =
     (if \<not> QS_ISQSCHR c then []
      else if c = CHR ''+'' then CHR '' '' # qs_value s
      else if c = CHR ''%'' then
        (case s of
           a # b # s \<Rightarrow> if QS_ISHEX a \<and> QS_ISHEX b then hex_char a b # qs_value s else []
         | _ \<Rightarrow> [])
      else c # qs_value s)"

lemma hex_qschr: "QS_ISHEX c \<Longrightarrow> QS_ISQSCHR c"
  by (auto simp: QS_ISHEX_def QS_ISQSCHR_def between_def)

lemma update_after:
  "length xs = n \<Longrightarrow> ys \<noteq> [] \<Longrightarrow> (xs @ ys @ zs)[n := x] = xs @ x # tl ys @ zs"
  by (cases ys) auto

lemma qs_decode_step:
  assumes "length b = n" "p + j < n" "c = b ! (p + j)"
  shows "\<not> QS_ISQSCHR c \<Longrightarrow> qs_decode b p i j = Some (i, b[p + i := NUL])"
    and "QS_ISQSCHR c \<Longrightarrow> c = CHR ''+'' \<Longrightarrow> qs_decode b p i j = qs_decode (b[p + i := CHR '' '']) p (i + 1) (j + 1)"
    and "QS_ISQSCHR c \<Longrightarrow> c = CHR ''%'' \<Longrightarrow> p + j + 1 < n \<Longrightarrow> (QS_ISHEX (b ! (p + j + 1)) \<Longrightarrow> p + j + 2 < n) \<Longrightarrow>
      qs_decode b p i j =
      (if \<not> QS_ISHEX (b ! (p + j + 1)) \<or> \<not> QS_ISHEX (b ! (p + j + 2)) then Some (i, b[p + i := NUL])
       else qs_decode (b[p + i := hex_char (b ! (p + j + 1)) (b ! (p + j + 2))]) p (i + 1) (j + 3))"
    and "QS_ISQSCHR c \<Longrightarrow> c \<noteq> CHR ''+'' \<Longrightarrow> c \<noteq> CHR ''%'' \<Longrightarrow>
      qs_decode b p i j = qs_decode (b[p + i := c]) p (i + 1) (j + 1)"
  using assms by (simp_all add: qs_decode.simps [of b p i j] Let_def not_le) auto

text \<open>
  The text \<open>t\<close> is behind what is written already (\<open>w\<close>) and the gap this has left (\<open>g\<close>); what follows the
  character \<open>z\<close> that ends it is not touched.
\<close>

lemma decode_in_place:
  assumes "list_all QS_ISQSCHR t" "\<not> QS_ISQSCHR z"
  shows "\<exists>g'. qs_decode (pre @ w @ g @ t @ z # post) (length pre) (length w) (length w + length g) =
      Some (length w + length (qs_value t), pre @ w @ qs_value t @ NUL # g' @ post) \<and>
    length (qs_value t) + length g' = length g + length t"
  using assms(1)
proof (induction t arbitrary: w g rule: length_induct)
  case (1 t)
  let ?b = "pre @ w @ g @ t @ z # post"
  let ?p = "length pre" and ?i = "length w" and ?j = "length w + length g"
  have upd: "?b[?p + ?i := x] = pre @ (w @ [x]) @ tl (g @ u) @ v @ z # post" if "t = u @ v" "u \<noteq> []" for x u v
    using update_after [of "pre @ w" "?p + ?i" "g @ u" "v @ z # post" x] that by simp
  have cut: "?b[?p + ?i := x] = pre @ w @ x # tl (g @ t @ [z]) @ post" for x
    using update_after [of "pre @ w" "?p + ?i" "g @ t @ [z]" post x] by simp
  have stop: "\<exists>g'. Some (?i, ?b[?p + ?i := NUL]) = Some (?i + length ([]::string), pre @ w @ [] @ NUL # g' @ post) \<and>
      length ([]::string) + length g' = length g + length t"
    by (intro exI [of _ "tl (g @ t @ [z])"]) (simp add: cut)
  have less: "?p + ?j < length ?b" by simp
  note step = qs_decode_step [OF refl less refl]
  show ?case
  proof (cases t)
    case Nil
    have "?b ! (?p + ?j) = z" by (simp add: nth_append Nil)
    then show ?thesis using step(1) [of ?i] assms(2) stop Nil by simp
  next
    case (Cons c s)
    have c: "?b ! (?p + ?j) = c" by (simp add: nth_append Cons)
    have q: "QS_ISQSCHR c" "list_all QS_ISQSCHR s" using "1.prems" Cons by simp_all
    have rec: "\<exists>g'. qs_decode (?b[?p + ?i := x]) ?p (?i + 1) (?j + length u) =
        Some (?i + length (x # qs_value v), pre @ w @ (x # qs_value v) @ NUL # g' @ post) \<and>
        length (x # qs_value v) + length g' = length g + length t"
      if "t = u @ v" "u \<noteq> []" for x u v
    proof -
      have len: "length (w @ [x]) + length (tl (g @ u)) = ?j + length u" using that(2) by (cases u) auto
      have "length v < length t" "list_all QS_ISQSCHR v" using that "1.prems" by auto
      then obtain g' where "qs_decode (pre @ (w @ [x]) @ tl (g @ u) @ v @ z # post) ?p (length (w @ [x]))
          (length (w @ [x]) + length (tl (g @ u))) =
          Some (length (w @ [x]) + length (qs_value v), pre @ (w @ [x]) @ qs_value v @ NUL # g' @ post)"
        "length (qs_value v) + length g' = length (tl (g @ u)) + length v"
        using "1.IH" by meson
      then show ?thesis unfolding upd [OF that] len using len that(2)
        by (intro exI [of _ g']) (use that(1) len in auto)
    qed
    show ?thesis
    proof (cases "c = CHR ''+''")
      case True
      then show ?thesis using step(2) [of ?i] c q rec [of "[c]" s "CHR '' ''"] Cons by simp
    next
      case plus: False
      show ?thesis
      proof (cases "c = CHR ''%''")
        case False
        then show ?thesis using step(4) [of ?i] c q plus rec [of "[c]" s c] Cons by simp
      next
        case True
        have two: "?p + ?j + 1 < length ?b" "QS_ISHEX (?b ! (?p + ?j + 1)) \<Longrightarrow> ?p + ?j + 2 < length ?b"
          using assms(2) hex_qschr by (auto simp: Cons nth_append neq_Nil_conv intro!: gr0I)
        show ?thesis
        proof (cases "\<exists>a b v. s = a # b # v \<and> QS_ISHEX a \<and> QS_ISHEX b")
          case hex: True
          then obtain a b v where s: "s = a # b # v" "QS_ISHEX a" "QS_ISHEX b" by blast
          have ab: "?b ! (?p + ?j + 1) = a" "?b ! (?p + ?j + 2) = b" by (simp_all add: nth_append Cons s(1))
          show ?thesis
            using step(3) [of ?i, OF _ _ two] c q True ab s rec [of "[c, a, b]" v "hex_char a b"] Cons by (simp add: numeral_3_eq_3)
        next
          case no: False
          then have "qs_value t = []" using True Cons by (auto split: list.splits)
          have "\<not> QS_ISHEX (?b ! (?p + ?j + 1)) \<or> \<not> QS_ISHEX (?b ! (?p + ?j + 2))"
          proof (cases s)
            case Nil
            then show ?thesis using assms(2) hex_qschr by (auto simp: nth_append Cons)
          next
            case s: (Cons a s2)
            then show ?thesis using no assms(2) hex_qschr by (cases s2) (auto simp: nth_append Cons)
          qed
          then show ?thesis using step(3) [of ?i, OF _ _ two] c q True stop \<open>qs_value t = []\<close> by simp
        qed
      qed
    qed
  qed
qed


subsection \<open>Cutting and decoding the pairs\<close>

fun join_amp :: "string list \<Rightarrow> string" where
  "join_amp [] = []"
| "join_amp [x] = x"
| "join_amp (x # y # xs) = x @ CHR ''&'' # join_amp (y # xs)"

text \<open>A pair as its text: what follows the first \<open>=\<close> or \<open>#\<close> is decoded.\<close>

definition is_sep :: "char \<Rightarrow> bool" where
  "is_sep c = (c = CHR ''='' \<or> c = CHR ''#'')"

definition kv_of :: "string \<Rightarrow> string" where
  "kv_of s =
     (case dropWhile (\<lambda>c. \<not> is_sep c) s of
        [] \<Rightarrow> s
      | c # v \<Rightarrow> takeWhile (\<lambda>c. \<not> is_sep c) s @ c # qs_value v)"

definition segment :: "string \<Rightarrow> bool" where
  "segment s = (NUL \<notin> set s \<and> CHR ''&'' \<notin> set s)"

fun starts :: "nat \<Rightarrow> string list \<Rightarrow> nat list" where
  "starts p [] = []"
| "starts p (s # ss) = p # starts (p + length s + 1) ss"

lemma strcspn_here:
  assumes "drop p b = u @ c # v" "\<forall>x\<in>set u. x \<noteq> NUL \<and> x \<notin> A" "c = NUL \<or> c \<in> A"
  shows "strcspn b p A = length u" "b ! (p + length u) = c"
proof -
  show "strcspn b p A = length u" using assms by (auto simp: strcspn_def)
  have "b ! (p + length u) = (u @ c # v) ! length u"
    using assms(1) by (metis drop_eq_Nil length_append_singleton nth_drop append_is_Nil_conv list.distinct(1) nle_le)
  then show "b ! (p + length u) = c" by simp
qed

lemma join_amp_cases:
  "ss \<noteq> [] \<Longrightarrow> join_amp (s # ss) @ r = s @ CHR ''&'' # join_amp ss @ r"
  by (cases ss) simp_all

lemma qs_split_starts:
  assumes "ss \<noteq> []" "list_all segment ss"
  shows "qs_split n (pre @ join_amp ss @ [NUL]) (length pre) = take n (starts (length pre) ss)"
  using assms
proof (induction ss arbitrary: pre n)
  case (Cons s ss)
  have seg: "\<forall>x\<in>set s. x \<noteq> NUL \<and> x \<notin> {CHR ''&''}" using Cons.prems(2) by (auto simp: segment_def)
  show ?case
  proof (cases n)
    case (Suc m)
    show ?thesis
    proof (cases "ss = []")
      case True
      have "drop (length pre) (pre @ join_amp (s # ss) @ [NUL]) = s @ NUL # []" by (simp add: True)
      from strcspn_here [OF this seg] show ?thesis using Suc True by (simp add: Let_def)
    next
      case False
      let ?b = "pre @ join_amp (s # ss) @ [NUL]"
      have b: "?b = (pre @ s @ [CHR ''&'']) @ join_amp ss @ [NUL]"
        using join_amp_cases [OF False, of s "[NUL]"] by simp
      have "drop (length pre) ?b = s @ CHR ''&'' # join_amp ss @ [NUL]" by (simp add: b)
      note here = strcspn_here [OF this seg]
      have "qs_split m ?b (length pre + length s + 1) = take m (starts (length pre + length s + 1) ss)"
        using Cons.IH [of m "pre @ s @ [CHR ''&'']"] Cons.prems False by (simp add: b)
      then show ?thesis using Suc here by (simp add: Let_def)
    qed
  qed simp
qed simp

lemma qs_value_qschr: "qs_value v = qs_value (takeWhile QS_ISQSCHR v)"
proof (induction v rule: qs_value.induct)
  case (2 c s)
  show ?case
  proof (cases "c = CHR ''%'' \<and> QS_ISQSCHR c")
    case True
    show ?thesis
    proof (cases "\<exists>a b v. s = a # b # v \<and> QS_ISHEX a \<and> QS_ISHEX b")
      case hex: True
      then obtain a b v where s: "s = a # b # v" "QS_ISHEX a" "QS_ISHEX b" by blast
      have "qs_value v = qs_value (takeWhile QS_ISQSCHR v)"
        using "2.IH"(2) [OF _ _ _ s(1) refl] s True by auto
      then show ?thesis using True s hex_qschr by simp
    next
      case False
      then have "qs_value (c # s) = []" using True by (auto split: list.splits)
      moreover have "\<not> (QS_ISHEX a \<and> QS_ISHEX b)" if "takeWhile QS_ISQSCHR s = a # b # v" for a b v
        using False that by (metis append_Cons takeWhile_dropWhile_id)
      then have "qs_value (takeWhile QS_ISQSCHR (c # s)) = []"
        using True by (auto split: list.splits)
      ultimately show ?thesis by simp
    qed
  next
    case False
    then show ?thesis using 2 by auto
  qed
qed simp

definition NUL_cell :: "string \<Rightarrow> string \<Rightarrow> bool" where
  "NUL_cell s1 s = (length s1 = length s + 1 \<and> NUL \<in> set s1 \<and> c_str s1 = c_str (kv_of s))"

lemma c_str_append: "NUL \<notin> set u \<Longrightarrow> c_str (u @ v) = u @ c_str v"
  by (induction u) (auto simp: c_str_def)

lemma c_str_cut: "NUL \<in> set u \<Longrightarrow> c_str (u @ v) = c_str u"
  by (induction u) (auto simp: c_str_def)

lemma c_str_id: "NUL \<notin> set s \<Longrightarrow> c_str s = s"
  using c_str_append [of s "[]"] by (simp add: c_str_def)

lemma c_str_NUL: "c_str (u @ NUL # v) = c_str u"
  by (induction u) (auto simp: c_str_def)

lemma qs_values_first:
  assumes "segment s" "z = NUL \<or> z = CHR ''&''"
  shows "\<exists>s1. NUL_cell s1 s \<and> (\<forall>ps. qs_values (pre @ s @ z # rest) (length pre # ps) = qs_values (pre @ s1 @ rest) ps)"
proof -
  let ?b = "pre @ s @ z # rest"
  let ?k = "takeWhile (\<lambda>c. \<not> is_sep c) s"
  have k: "\<forall>x\<in>set ?k. x \<noteq> NUL \<and> x \<notin> {CHR ''='', CHR ''&'', CHR ''#''}"
    using assms(1) by (auto simp: segment_def is_sep_def dest: set_takeWhileD)
  show ?thesis
  proof (cases "dropWhile (\<lambda>c. \<not> is_sep c) s")
    case Nil
    then have s: "?k = s" by (metis append_Nil2 takeWhile_dropWhile_id)
    have "drop (length pre) ?b = ?k @ z # rest" by (simp add: s)
    note here = strcspn_here [OF this k]
    have "?b[length pre + length s := NUL] = pre @ (s @ [NUL]) @ rest"
      using update_after [of "pre @ s" _ "[z]" rest NUL] by simp
    moreover have "NUL_cell (s @ [NUL]) s"
      using assms(1) by (simp add: NUL_cell_def kv_of_def Nil c_str_append c_str_id segment_def) (simp add: c_str_def)
    ultimately show ?thesis using here assms(2) s by (intro exI [of _ "s @ [NUL]"]) (auto simp: Let_def)
  next
    case (Cons c v)
    then have s: "s = ?k @ c # v" by (metis takeWhile_dropWhile_id)
    have c: "is_sep c" using Cons by (metis dropWhile_eq_Cons_conv)
    let ?t = "takeWhile QS_ISQSCHR v"
    obtain y u where y: "v @ [z] = ?t @ y # u" "\<not> QS_ISQSCHR y"
    proof (cases "dropWhile QS_ISQSCHR v")
      case Nil
      then have "v @ [z] = ?t @ z # []" by (metis append_Nil2 takeWhile_dropWhile_id)
      moreover have "\<not> QS_ISQSCHR z" using assms(2) by (auto simp: QS_ISQSCHR_def)
      ultimately show thesis by (rule that)
    next
      case Cons': (Cons y u)
      then have "v @ [z] = ?t @ y # (u @ [z])" by (metis append.assoc append_Cons takeWhile_dropWhile_id)
      moreover have "\<not> QS_ISQSCHR y" using Cons' by (metis dropWhile_eq_Cons_conv)
      ultimately show thesis by (rule that)
    qed
    have "s @ [z] = ?k @ c # ?t @ y # u" using s y(1) by (metis append.assoc append_Cons)
    then have b: "?b = (pre @ ?k @ [c]) @ [] @ [] @ ?t @ y # u @ rest" by simp
    have len: "length s = length ?k + 1 + length ?t + length u"
      using arg_cong [OF \<open>s @ [z] = ?k @ c # ?t @ y # u\<close>, of length] by simp
    have "list_all QS_ISQSCHR ?t" by (auto simp: list_all_iff dest: set_takeWhileD)
    from decode_in_place [OF this y(2), of "pre @ ?k @ [c]" "[]" "[]" "u @ rest"] obtain g' where
      g': "qs_decode ?b (length (pre @ ?k @ [c])) 0 0 =
          Some (length (qs_value ?t), (pre @ ?k @ [c]) @ qs_value ?t @ NUL # g' @ u @ rest)"
        "length (qs_value ?t) + length g' = length ?t"
      unfolding b by auto
    let ?s1 = "?k @ c # qs_value ?t @ NUL # g' @ u"
    have "kv_of s = ?k @ c # qs_value ?t" using qs_value_qschr [of v] by (simp add: kv_of_def Cons)
    then have cell: "NUL_cell ?s1 s"
      using g'(2) len c_str_NUL [of "?k @ c # qs_value ?t" "g' @ u"]
      by (simp add: NUL_cell_def)
    have "drop (length pre) ?b = ?k @ c # (?t @ y # u @ rest)" by (simp add: b)
    moreover have "c = NUL \<or> c \<in> {CHR ''='', CHR ''&'', CHR ''#''}" using c by (auto simp: is_sep_def)
    ultimately have here: "strcspn ?b (length pre) {CHR ''='', CHR ''&'', CHR ''#''} = length ?k"
      "?b ! (length pre + length ?k) = c"
      using strcspn_here k by metis+
    have "c \<noteq> CHR ''&'' \<and> c \<noteq> NUL" using c by (auto simp: is_sep_def)
    then have "qs_values ?b (length pre # ps) = qs_values (pre @ ?s1 @ rest) ps" for ps
      using here g'(1) by (simp add: Let_def)
    with cell show ?thesis by blast
  qed
qed

lemma qs_values_pairs:
  assumes "ss \<noteq> []" "list_all segment ss"
  shows "\<exists>post. qs_values (pre @ join_amp ss @ [NUL]) (take n (starts (length pre) ss)) = Some (pre @ post) \<and>
    map (cstr (pre @ post)) (take n (starts (length pre) ss)) = map (\<lambda>s. c_str (kv_of s)) (take n ss) \<and>
    length post = length (join_amp ss) + 1 \<and>
    list_all (\<lambda>p. NUL \<in> set (drop p (pre @ post))) (take n (starts (length pre) ss))"
  using assms
proof (induction ss arbitrary: pre n)
  case (Cons s ss)
  show ?case
  proof (cases n)
    case (Suc m)
    have cell: "map (cstr (pre @ s1 @ post)) [length pre] = map (\<lambda>s. c_str (kv_of s)) [s]" if "NUL_cell s1 s" for s1 post
      using that c_str_cut [of s1 post] by (simp add: NUL_cell_def cstr_def c_str_def)
    show ?thesis
    proof (cases "ss = []")
      case True
      obtain s1 where s1: "NUL_cell s1 s" "\<And>ps. qs_values (pre @ s @ [NUL]) (length pre # ps) = qs_values (pre @ s1) ps"
        using qs_values_first [of s NUL pre "[]"] Cons.prems(2) by auto
      then show ?thesis using Suc True cell [OF s1(1), of "[]"]
        by (intro exI [of _ s1]) (simp add: NUL_cell_def)
    next
      case False
      obtain s1 where s1: "NUL_cell s1 s"
        "\<And>ps. qs_values (pre @ s @ CHR ''&'' # join_amp ss @ [NUL]) (length pre # ps) = qs_values (pre @ s1 @ join_amp ss @ [NUL]) ps"
        using qs_values_first [of s "CHR ''&''" pre "join_amp ss @ [NUL]"] Cons.prems(2) by auto
      have len: "length (pre @ s1) = length pre + length s + 1" using s1(1) by (simp add: NUL_cell_def)
      obtain post where post: "qs_values ((pre @ s1) @ join_amp ss @ [NUL]) (take m (starts (length (pre @ s1)) ss)) = Some ((pre @ s1) @ post)"
        "map (cstr ((pre @ s1) @ post)) (take m (starts (length (pre @ s1)) ss)) = map (\<lambda>s. c_str (kv_of s)) (take m ss)"
        "length post = length (join_amp ss) + 1"
        "list_all (\<lambda>p. NUL \<in> set (drop p ((pre @ s1) @ post))) (take m (starts (length (pre @ s1)) ss))"
        using Cons.IH [of "pre @ s1" m] False Cons.prems by auto
      have "join_amp (s # ss) @ [NUL] = s @ CHR ''&'' # join_amp ss @ [NUL]"
        by (rule join_amp_cases [OF False])
      moreover have "length (join_amp (s # ss)) = length s + 1 + length (join_amp ss)"
        using arg_cong [OF join_amp_cases [OF False, of s "[]"], of length] by simp
      ultimately show ?thesis
        using Suc s1 post cell [OF s1(1), of post]
        by (intro exI [of _ "s1 @ post"]) (simp add: len NUL_cell_def)
    qed
  next
    case 0
    then show ?thesis by (intro exI [of _ "join_amp (s # ss) @ [NUL]"]) simp
  qed
qed simp

lemma parse_aux:
  assumes "ss \<noteq> []" "list_all segment ss" "list_all (\<lambda>c. c \<noteq> NUL \<and> c \<noteq> CHR ''?'' \<and> c \<noteq> CHR ''#'') path"
  shows "\<exists>kv b. qs_parse (path @ CHR ''?'' # join_amp ss @ [NUL]) n True = Some (kv, b) \<and>
    map (cstr b) kv = map (\<lambda>s. c_str (kv_of s)) (take n ss) \<and>
    length b = length (path @ CHR ''?'' # join_amp ss @ [NUL]) \<and> list_all (\<lambda>p. NUL \<in> set (drop p b)) kv"
proof -
  let ?b = "path @ CHR ''?'' # join_amp ss @ [NUL]"
  have path: "\<forall>x\<in>set path. x \<noteq> NUL \<and> x \<notin> {CHR ''?'', CHR ''#''}" using assms(3) by (auto simp: list_all_iff)
  have here: "strcspn ?b 0 {CHR ''?'', CHR ''#''} = length path" "?b ! (0 + length path) = CHR ''?''"
    using strcspn_here [OF _ path, of 0 ?b "CHR ''?''"] by auto
  let ?pre = "path @ [CHR ''?'']"
  have split: "qs_split n ?b (length path + 1) = take n (starts (length ?pre) ss)"
    using qs_split_starts [OF assms(1,2), of n ?pre] by simp
  obtain post where post: "qs_values ?b (take n (starts (length ?pre) ss)) = Some (?pre @ post)"
    "map (cstr (?pre @ post)) (take n (starts (length ?pre) ss)) = map (\<lambda>s. c_str (kv_of s)) (take n ss)"
    "length post = length (join_amp ss) + 1"
    "list_all (\<lambda>p. NUL \<in> set (drop p (?pre @ post))) (take n (starts (length ?pre) ss))"
    using qs_values_pairs [OF assms(1,2), of ?pre n] by auto
  have "qs_parse ?b n True = Some (take n (starts (length ?pre) ss), ?pre @ post)"
    using here post(1) split by (simp add: qs_parse_def Let_def)
  then show ?thesis using post(2-4) by auto
qed

subsection \<open>Encoded pairs\<close>

text \<open>The percent-encoding of RFC 3986: all but the unreserved characters as two hexadecimal digits.\<close>

definition unreserved :: "char \<Rightarrow> bool" where
  "unreserved c = (c \<in> set ''ABCDEFGHIJKLMNOPQRSTUVWXYZabcdefghijklmnopqrstuvwxyz0123456789-._~'')"

definition hex_digit :: "nat \<Rightarrow> char" where
  "hex_digit n = ''0123456789ABCDEF'' ! n"

definition url_char :: "char \<Rightarrow> string" where
  "url_char c =
     (if unreserved c then [c]
      else [CHR ''%'', hex_digit (of_char c div 16), hex_digit (of_char c mod 16)])"

definition url_encode :: "string \<Rightarrow> string" where
  "url_encode s = concat (map url_char s)"

definition url_pair :: "string \<times> string \<Rightarrow> string" where
  "url_pair kv = url_encode (fst kv) @ CHR ''='' # url_encode (snd kv)"

lemma hex_digits:
  "list_all (\<lambda>n. QS_ISHEX (hex_digit n) \<and> QS_HEX2DEC (hex_digit n) = n) [0..<16]"
  by code_simp

lemma hex_char_digits: "hex_char (hex_digit (of_char c div 16)) (hex_digit (of_char c mod 16)) = c"
  "QS_ISHEX (hex_digit (of_char c div 16))" "QS_ISHEX (hex_digit (of_char c mod 16))"
proof -
  define n where "n = (of_char c :: nat)"
  have "n < 256" by (simp add: n_def)
  then have "n div 16 \<in> set [0..<16]" "n mod 16 \<in> set [0..<16]" by auto
  with hex_digits have h: "QS_ISHEX (hex_digit (n div 16)) \<and> QS_HEX2DEC (hex_digit (n div 16)) = n div 16"
    "QS_ISHEX (hex_digit (n mod 16)) \<and> QS_HEX2DEC (hex_digit (n mod 16)) = n mod 16"
    unfolding list_all_iff by blast+
  then have "hex_char (hex_digit (n div 16)) (hex_digit (n mod 16)) = char_of n" by (simp add: hex_char_def)
  then show "hex_char (hex_digit (of_char c div 16)) (hex_digit (of_char c mod 16)) = c" by (simp add: n_def)
  show "QS_ISHEX (hex_digit (of_char c div 16))" "QS_ISHEX (hex_digit (of_char c mod 16))"
    using h by (simp_all add: n_def)
qed

lemma unreserved_not:
  assumes "unreserved c"
  shows "QS_ISQSCHR c" "c \<noteq> CHR ''+''" "c \<noteq> CHR ''%''" "c \<noteq> NUL"
  using assms by (auto simp: unreserved_def QS_ISQSCHR_def)

lemma percent_qschr: "QS_ISQSCHR (CHR ''%'')"
  by (simp add: QS_ISQSCHR_def)

lemma url_char_value: "qs_value (url_char c @ s) = c # qs_value s"
  by (simp add: url_char_def unreserved_not hex_char_digits percent_qschr)

lemma url_char_read: "qs_char (url_char c @ s) = Some (c, s)"
  by (simp add: qs_char_def url_char_def unreserved_not hex_char_digits percent_qschr)

lemma url_char_qschr: "list_all QS_ISQSCHR (url_char c)" "url_char c \<noteq> []"
  by (simp_all add: url_char_def unreserved_not hex_qschr hex_char_digits percent_qschr)

lemma url_encode_Cons: "url_encode (c # s) = url_char c @ url_encode s"
  by (simp add: url_encode_def)

lemma url_encode_value: "qs_value (url_encode s) = s"
  by (induction s) (simp_all add: url_encode_Cons url_char_value, simp add: url_encode_def)

lemma url_encode_qschr: "list_all QS_ISQSCHR (url_encode s)"
  by (induction s) (simp_all add: url_encode_Cons url_char_qschr, simp add: url_encode_def)

lemma qschr_not: "QS_ISQSCHR c \<Longrightarrow> c \<noteq> NUL \<and> c \<noteq> CHR ''&'' \<and> c \<noteq> CHR ''='' \<and> c \<noteq> CHR ''#''"
  by (simp add: QS_ISQSCHR_def)

lemma url_encode_chars: "c \<in> set (url_encode s) \<Longrightarrow> c \<noteq> NUL \<and> c \<noteq> CHR ''&'' \<and> c \<noteq> CHR ''='' \<and> c \<noteq> CHR ''#''"
  using url_encode_qschr [of s] qschr_not by (simp add: list_all_iff)

lemma segment_pair: "segment (url_pair kv)"
  using url_encode_chars [of NUL "fst kv"] url_encode_chars [of "CHR ''&''" "fst kv"]
    url_encode_chars [of NUL "snd kv"] url_encode_chars [of "CHR ''&''" "snd kv"]
  by (auto simp: segment_def url_pair_def)

lemma kv_of_pair: "kv_of (url_pair kv) = url_encode (fst kv) @ CHR ''='' # snd kv"
proof -
  have "\<forall>c\<in>set (url_encode (fst kv)). \<not> is_sep c" using url_encode_chars by (auto simp: is_sep_def)
  then have "dropWhile (\<lambda>c. \<not> is_sep c) (url_pair kv) = CHR ''='' # url_encode (snd kv)"
    "takeWhile (\<lambda>c. \<not> is_sep c) (url_pair kv) = url_encode (fst kv)"
    by (simp_all add: url_pair_def is_sep_def dropWhile_append takeWhile_append)
  then show ?thesis by (simp add: kv_of_def url_encode_value)
qed

text \<open>Comparing a plain key with an encoded one.\<close>

definition plain_key :: "string \<Rightarrow> bool" where
  "plain_key s = list_all (\<lambda>c. QS_ISQSCHR c \<and> c \<noteq> CHR ''+'' \<and> c \<noteq> CHR ''%'') s"

lemma strncmp_pair:
  assumes "plain_key name" "NUL \<notin> set k"
  shows "\<exists>r. qs_strncmp (name @ [NUL]) (url_encode k @ CHR ''='' # x) (length name) = Some r \<and> (r = 0 \<longleftrightarrow> name = k)"
  using assms
proof (induction name arbitrary: k)
  case Nil
  show ?case
  proof (cases k)
    case Nil
    then show ?thesis by (simp add: url_encode_def QS_ISQSCHR_def)
  next
    case (Cons c s)
    then obtain d u where "url_encode k = d # u" "QS_ISQSCHR d"
      using url_char_qschr [of c] by (cases "url_char c") (auto simp: url_encode_Cons)
    then show ?thesis using Cons by simp
  qed
next
  case (Cons a name)
  have a: "QS_ISQSCHR a" "a \<noteq> CHR ''+''" "a \<noteq> CHR ''%''" "a \<noteq> NUL"
    using Cons.prems(1) by (auto simp: plain_key_def QS_ISQSCHR_def)
  have read: "qs_char ((a # name) @ [NUL]) = Some (a, name @ [NUL])" using a by (simp add: qs_char_def)
  show ?case
  proof (cases k)
    case Nil
    have "of_char a \<noteq> (0 :: int)" 
      using a(4) of_char_eq_iff [of a NUL, where ?'a = int] by auto
    then show ?thesis using Nil a(4) read
      by (simp add: url_encode_def qs_char_def QS_ISQSCHR_def)
  next
    case (Cons c s)
    have "qs_char (url_encode k @ CHR ''='' # x) = Some (c, url_encode s @ CHR ''='' # x)"
      by (simp add: Cons url_encode_Cons url_char_read)
    moreover have "\<exists>r. qs_strncmp (name @ [NUL]) (url_encode s @ CHR ''='' # x) (length name) = Some r \<and> (r = 0 \<longleftrightarrow> name = s)"
      using Cons.prems Cons by (intro Cons.IH) (auto simp: plain_key_def)
    ultimately show ?thesis using read a(4) Cons by (cases "a = c") simp_all
  qed
qed


text \<open>
  The memory behind a pair after parsing, and the values of a key in a list of pairs at their
  positions.
\<close>

definition pair_at :: "string \<Rightarrow> nat \<Rightarrow> string \<times> string \<Rightarrow> bool" where
  "pair_at b p kv = (NUL \<notin> set (fst kv) \<and> NUL \<notin> set (snd kv) \<and>
     (\<exists>rest. drop p b = url_encode (fst kv) @ CHR ''='' # snd kv @ NUL # rest))"

lemma cstr_pair:
  assumes "cstr b p = url_encode (fst kv) @ CHR ''='' # snd kv" "NUL \<notin> set (fst kv)" "NUL \<notin> set (snd kv)"
    and "NUL \<in> set (drop p b)"
  shows "pair_at b p kv"
proof -
  obtain rest where "dropWhile (\<lambda>c. c \<noteq> NUL) (drop p b) = NUL # rest"
  proof (cases "dropWhile (\<lambda>c. c \<noteq> NUL) (drop p b)")
    case Nil
    then show thesis using assms(4) by (simp only: dropWhile_eq_Nil_conv) blast
  next
    case (Cons c rest)
    then have "c = NUL" by (simp add: dropWhile_eq_Cons_conv)
    with Cons show thesis by (intro that) simp
  qed
  then have "drop p b = cstr b p @ NUL # rest" unfolding cstr_def by (metis takeWhile_dropWhile_id)
  then show ?thesis using assms by (simp add: pair_at_def)
qed

lemma value_at:
  assumes "pair_at b p kv"
  shows "strcspn b p {CHR ''=''} = length (url_encode (fst kv))" "b ! (p + length (url_encode (fst kv))) = CHR ''=''"
    "cstr b (p + length (url_encode (fst kv)) + 1) = snd kv"
proof -
  obtain rest where d: "drop p b = url_encode (fst kv) @ CHR ''='' # snd kv @ NUL # rest" "NUL \<notin> set (snd kv)"
    using assms by (auto simp: pair_at_def)
  have k: "\<forall>x\<in>set (url_encode (fst kv)). x \<noteq> NUL \<and> x \<notin> {CHR ''=''}" using url_encode_chars by blast
  show "strcspn b p {CHR ''=''} = length (url_encode (fst kv))" "b ! (p + length (url_encode (fst kv))) = CHR ''=''"
    using strcspn_here [OF d(1) k] by simp_all
  have "drop (p + length (url_encode (fst kv)) + 1) b = drop (length (url_encode (fst kv)) + 1) (drop p b)"
    by (simp add: add.commute add.left_commute)
  also have "\<dots> = snd kv @ NUL # rest" by (simp add: d(1))
  finally show "cstr b (p + length (url_encode (fst kv)) + 1) = snd kv"
    using d(2) by (simp add: cstr_def takeWhile_append)
qed

definition values_of :: "string \<Rightarrow> (string \<times> string) list \<Rightarrow> string list" where
  "values_of name kvs = map snd (filter (\<lambda>kv. fst kv = name) kvs)"

lemma k2v_values:
  assumes "list_all2 (pair_at b) ps kvs" "plain_key name"
  shows "\<exists>r. qs_k2v name b ps nr = Some r \<and>
    (if nr < length (values_of name kvs) then \<exists>p. r = Some p \<and> cstr b p = values_of name kvs ! nr else r = None)"
  using assms(1)
proof (induction ps kvs arbitrary: nr rule: list_all2_induct)
  case (Cons p ps kv kvs)
  obtain rest where d: "drop p b = url_encode (fst kv) @ CHR ''='' # snd kv @ NUL # rest" "NUL \<notin> set (fst kv)"
    using Cons.hyps(1) by (auto simp: pair_at_def)
  obtain r where r: "qs_strncmp (name @ [NUL]) (drop p b) (length name) = Some r" "r = 0 \<longleftrightarrow> name = fst kv"
    using strncmp_pair [OF assms(2) d(2)] unfolding d(1) by blast
  note val = value_at [OF Cons.hyps(1)]
  show ?case
  proof (cases "name = fst kv")
    case False
    then have "values_of name (kv # kvs) = values_of name kvs" by (auto simp: values_of_def)
    moreover have "qs_k2v name b (p # ps) nr = qs_k2v name b ps nr" using r False by simp
    ultimately show ?thesis using Cons.IH [of nr] by (simp only:)
  next
    case True
    then have vals: "values_of name (kv # kvs) = snd kv # values_of name kvs" by (auto simp: values_of_def)
    show ?thesis
    proof (cases nr)
      case 0
      then show ?thesis using r True val by (simp add: Let_def vals [unfolded True])
    next
      case (Suc m)
      then have "qs_k2v name b (p # ps) nr = qs_k2v name b ps m" using r True val by (simp add: Let_def)
      then show ?thesis using Cons.IH [of m] Suc
        by (simp only: vals length_Cons nth_Cons_Suc Suc_less_eq)
    qed
  qed
qed (simp add: values_of_def)

definition no_NUL :: "string \<times> string \<Rightarrow> bool" where
  "no_NUL kv = (NUL \<notin> set (fst kv) \<and> NUL \<notin> set (snd kv))"

text \<open>The URL of a path and pairs, and what the constructor makes of it.\<close>

definition url_of :: "string \<Rightarrow> (string \<times> string) list \<Rightarrow> string" where
  "url_of path kvs = path @ CHR ''?'' # join_amp (map url_pair kvs)"

definition path_ok :: "string \<Rightarrow> bool" where
  "path_ok path = list_all (\<lambda>c. c \<noteq> NUL \<and> c \<noteq> CHR ''?'' \<and> c \<noteq> CHR ''#'') path"

lemma make_query_aux:
  assumes "path_ok path" "kvs \<noteq> []" "list_all no_NUL kvs"
  obtains q where "make_query_string (url_of path kvs) True = Some q"
    "list_all2 (pair_at (url_buffer q)) (key_value_pairs q) (take MAX_KEY_VALUE_PAIRS_COUNT kvs)"
proof -
  let ?n = MAX_KEY_VALUE_PAIRS_COUNT
  let ?ss = "map url_pair kvs"
  have "list_all segment ?ss" by (simp add: list_all_iff segment_pair)
  with parse_aux [of ?ss path ?n] assms(1,2) obtain kv b where
    parse: "qs_parse (path @ CHR ''?'' # join_amp ?ss @ [NUL]) ?n True = Some (kv, b)"
    and strings: "map (cstr b) kv = map (\<lambda>s. c_str (kv_of s)) (take ?n ?ss)"
    and nul: "list_all (\<lambda>p. NUL \<in> set (drop p b)) kv"
    by (auto simp: path_ok_def)
  have clean: "NUL \<notin> set (kv_of (url_pair x))" if "x \<in> set kvs" for x
    using that assms(3) url_encode_chars [of NUL "fst x"] by (auto simp: kv_of_pair list_all_iff no_NUL_def)
  have n: "length kv = length (take ?n kvs)" using arg_cong [OF strings, of length] by simp
  have "list_all2 (pair_at b) kv (take ?n kvs)"
  proof (rule list_all2_all_nthI [OF n])
    fix i
    assume i: "i < length kv"
    let ?x = "take ?n kvs ! i"
    have x: "?x \<in> set kvs" using i n by (metis in_set_takeD nth_mem)
    have "cstr b (kv ! i) = c_str (kv_of (url_pair ?x))"
      using arg_cong [OF strings, of "\<lambda>l. l ! i"] i n by (simp add: take_map)
    also have "\<dots> = url_encode (fst ?x) @ CHR ''='' # snd ?x" using clean [OF x] by (simp add: c_str_id kv_of_pair)
    finally show "pair_at b (kv ! i) ?x"
      using x assms(3) nul i by (intro cstr_pair) (auto simp: list_all_iff no_NUL_def)
  qed
  moreover have "url_of path kvs \<noteq> []" by (simp add: url_of_def)
  ultimately show thesis
    using parse by (intro that [of "\<lparr>url_buffer = b, key_value_pairs = kv\<rparr>"])
      (simp_all add: make_query_string_def url_of_def)
qed

lemma plain_c_str: "plain_key name \<Longrightarrow> c_str name = name"
  by (rule c_str_id) (auto simp: plain_key_def list_all_iff QS_ISQSCHR_def)

lemma nth_map_of: "values_of name kvs = [] \<longleftrightarrow> map_of kvs name = None"
  "values_of name kvs \<noteq> [] \<Longrightarrow> map_of kvs name = Some (hd (values_of name kvs))"
  by (induction kvs) (auto simp: values_of_def)

lemma get_aux:
  assumes "list_all2 (pair_at (url_buffer q)) (key_value_pairs q) kvs" "plain_key name"
  shows "\<exists>r. query_get q name = Some r \<and>
    (case map_of kvs name of None \<Rightarrow> r = None | Some v \<Rightarrow> \<exists>p. r = Some p \<and> cstr (url_buffer q) p = v)"
proof -
  obtain r where r: "qs_k2v name (url_buffer q) (key_value_pairs q) 0 = Some r"
    "if 0 < length (values_of name kvs) then \<exists>p. r = Some p \<and> cstr (url_buffer q) p = values_of name kvs ! 0 else r = None"
    using k2v_values [OF assms, of 0] by blast
  have "query_get q name = Some r" using r(1) assms(2) by (simp add: query_get_def plain_c_str)
  moreover have "case map_of kvs name of None \<Rightarrow> r = None | Some v \<Rightarrow> \<exists>p. r = Some p \<and> cstr (url_buffer q) p = v"
  proof (cases "values_of name kvs")
    case Nil
    then show ?thesis using r(2) nth_map_of(1) [of name kvs] by simp
  next
    case (Cons v vs)
    then show ?thesis using r(2) nth_map_of(2) [of name kvs] by simp
  qed
  ultimately show ?thesis by blast
qed

lemma list_from_values:
  assumes "list_all2 (pair_at (url_buffer q)) (key_value_pairs q) kvs" "plain_key name"
    and "n \<le> length (values_of name kvs)"
  shows "\<exists>ps. list_from name q n = Some ps \<and> map (cstr (url_buffer q)) ps = drop n (values_of name kvs)"
  using assms(3)
proof (induction "length (values_of name kvs) - n" arbitrary: n)
  case 0
  have len: "length (values_of name kvs) \<le> length (key_value_pairs q)"
    using list_all2_lengthD [OF assms(1)] by (simp add: values_of_def)
  then show ?case using 0 k2v_values [OF assms(1,2), of n]
    by (auto simp: list_from.simps [of name q n])
next
  case (Suc k)
  have len: "length (values_of name kvs) \<le> length (key_value_pairs q)"
    using list_all2_lengthD [OF assms(1)] by (simp add: values_of_def)
  have n: "n < length (values_of name kvs)" using Suc(2) by simp
  have "k = length (values_of name kvs) - (n + 1)" "n + 1 \<le> length (values_of name kvs)" using Suc(2) n by simp_all
  from Suc(1) [OF this] obtain ps where ps: "list_from name q (n + 1) = Some ps"
    "map (cstr (url_buffer q)) ps = drop (n + 1) (values_of name kvs)"
    by blast
  obtain p where "qs_k2v name (url_buffer q) (key_value_pairs q) n = Some (Some p)"
    "cstr (url_buffer q) p = values_of name kvs ! n"
    using k2v_values [OF assms(1,2), of n] n by auto
  then show ?case using ps n len
    by (intro exI [of _ "p # ps"]) (simp add: list_from.simps [of name q n] Cons_nth_drop_Suc)
qed

text \<open>\<open>pop\<close> of a key that needs no encoding.\<close>

definition clean_key :: "string \<Rightarrow> bool" where
  "clean_key s = list_all unreserved s"

lemma clean_encode: "clean_key s \<Longrightarrow> url_encode s = s"
  by (induction s) (simp_all add: clean_key_def url_encode_def url_char_def)

lemma clean_plain: "clean_key s \<Longrightarrow> plain_key s"
  by (auto simp: clean_key_def plain_key_def list_all_iff unreserved_not)

fun remove_first :: "string \<Rightarrow> (string \<times> string) list \<Rightarrow> (string \<times> string) list" where
  "remove_first k [] = []"
| "remove_first k (kv # kvs) = (if fst kv = k then kvs else kv # remove_first k kvs)"

lemma pair_cstr: "pair_at b p kv \<Longrightarrow> cstr b p = url_encode (fst kv) @ CHR ''='' # snd kv"
  using url_encode_chars [of NUL "fst kv"] by (auto simp: pair_at_def cstr_def takeWhile_append)

lemma prefix_key:
  assumes "pair_at b p kv" "clean_key name" "clean_key (fst kv)"
  shows "prefix (name @ ''='') (cstr b p) \<longleftrightarrow> fst kv = name"
proof
  assume "prefix (name @ ''='') (cstr b p)"
  then obtain u where u: "fst kv @ CHR ''='' # snd kv = name @ CHR ''='' # u"
    by (auto simp: prefix_def pair_cstr [OF assms(1)] clean_encode [OF assms(3)])
  have "\<not> unreserved (CHR ''='')" by (simp add: unreserved_def)
  then have "CHR ''='' \<notin> set (fst kv)" "CHR ''='' \<notin> set name"
    using assms(2,3) by (auto simp: clean_key_def list_all_iff)
  then have "takeWhile (\<lambda>c. c \<noteq> CHR ''='') (fst kv @ CHR ''='' # snd kv) = fst kv"
    "takeWhile (\<lambda>c. c \<noteq> CHR ''='') (name @ CHR ''='' # u) = name"
    by (auto simp: takeWhile_append)
  then show "fst kv = name" by (simp only: u)
qed (simp add: prefix_def pair_cstr [OF assms(1)] clean_encode [OF assms(2)])

lemma erase_pairs:
  assumes "list_all2 (pair_at b) ps kvs" "clean_key name" "list_all (\<lambda>kv. clean_key (fst kv)) kvs"
  shows "list_all2 (pair_at b) (erase_first (\<lambda>p. prefix (name @ ''='') (cstr b p)) ps) (remove_first name kvs)"
  using assms(1,3) by (induction rule: list_all2_induct) (auto simp: prefix_key [OF _ assms(2)])

lemma erase_none: "map_of kvs name = None \<Longrightarrow> remove_first name kvs = kvs"
  by (induction kvs) (auto split: if_splits)


subsection \<open>The contract of the query string\<close>

text \<open>A query string that answers as a list of pairs does.\<close>

definition finds :: "query_string \<Rightarrow> (string \<times> string) list \<Rightarrow> bool" where
  "finds q kvs = (\<forall>name. plain_key name \<longrightarrow>
     (\<exists>r. query_get q name = Some r \<and>
       (case map_of kvs name of None \<Rightarrow> r = None | Some v \<Rightarrow> \<exists>p. r = Some p \<and> cstr (url_buffer q) p = v)))"

text \<open>
  C31. Cutting and decoding in place: for a URL of any segments between \<open>&\<close>, parsing stays inside the
  buffer, and the pairs it leaves there are the segments, each decoded on its own, as many as there are slots.
\<close>

theorem qs_parse_in_place:
  assumes "ss \<noteq> []" "list_all segment ss" "path_ok path"
  shows "\<exists>kv b. qs_parse (path @ CHR ''?'' # join_amp ss @ [NUL]) n True = Some (kv, b) \<and>
    length b = length (path @ CHR ''?'' # join_amp ss @ [NUL]) \<and>
    map (cstr b) kv = map (\<lambda>s. c_str (kv_of s)) (take n ss)"
  using parse_aux [OF assms(1,2), of path n] assms(3) by (auto simp: path_ok_def)

text \<open>
  C32. Asking an encoded URL for a plain key gives what was encoded: of at most 256 pairs, with any keys
  and values without NUL, \<open>get\<close> finds the value of the first pair with the key asked for, and nothing if
  there is none.  The key asked for must be plain, that is free of \<open>+\<close>, \<open>%\<close>, \<open>=\<close>, \<open>&\<close>, \<open>#\<close> and NUL,
  because \<open>qs_strncmp\<close> decodes it as well: \<open>query_asked_key_decoded\<close> shows what happens otherwise.
\<close>

theorem query_get_finds_value:
  assumes "path_ok path" "kvs \<noteq> []" "list_all no_NUL kvs" "length kvs \<le> 256" "plain_key name"
  shows "\<exists>q r. make_query_string (url_of path kvs) True = Some q \<and> query_get q name = Some r \<and>
    (case map_of kvs name of None \<Rightarrow> r = None | Some v \<Rightarrow> \<exists>p. r = Some p \<and> cstr (url_buffer q) p = v)"
proof -
  obtain q where q: "make_query_string (url_of path kvs) True = Some q"
    "list_all2 (pair_at (url_buffer q)) (key_value_pairs q) kvs"
    using make_query_aux [OF assms(1-3)] assms(4) by (auto simp: MAX_KEY_VALUE_PAIRS_COUNT_def)
  from get_aux [OF q(2) assms(5)] q(1) show ?thesis by blast
qed

text \<open>\<open>get_list\<close> gives all values of the key, in the order of the URL.\<close>

theorem query_get_list_all:
  assumes "path_ok path" "kvs \<noteq> []" "list_all no_NUL kvs" "length kvs \<le> 256" "plain_key name"
  shows "\<exists>q ps. make_query_string (url_of path kvs) True = Some q \<and> query_get_list q name False = Some ps \<and>
    map (cstr (url_buffer q)) ps = map snd (filter (\<lambda>kv. fst kv = name) kvs)"
proof -
  obtain q where q: "make_query_string (url_of path kvs) True = Some q"
    "list_all2 (pair_at (url_buffer q)) (key_value_pairs q) kvs"
    using make_query_aux [OF assms(1-3)] assms(4) by (auto simp: MAX_KEY_VALUE_PAIRS_COUNT_def)
  from list_from_values [OF q(2) assms(5), of 0] q(1) assms(5) show ?thesis
    by (auto simp: query_get_list_def plain_c_str values_of_def)
qed

text \<open>
  \<open>pop\<close> gives the value of the first pair with the key and removes exactly this pair, when no key needs
  encoding: asking again finds the next one.
\<close>

theorem query_pop_removes_first:
  assumes "path_ok path" "kvs \<noteq> []" "list_all no_NUL kvs" "length kvs \<le> 256"
    and "clean_key name" "list_all (\<lambda>kv. clean_key (fst kv)) kvs"
  shows "\<exists>q q' r. make_query_string (url_of path kvs) True = Some q \<and> query_pop q name = Some (r, q') \<and>
    (case map_of kvs name of None \<Rightarrow> r = None | Some v \<Rightarrow> \<exists>p. r = Some p \<and> cstr (url_buffer q) p = v) \<and>
    finds q' (remove_first name kvs)"
proof -
  obtain q where q: "make_query_string (url_of path kvs) True = Some q"
    "list_all2 (pair_at (url_buffer q)) (key_value_pairs q) kvs"
    using make_query_aux [OF assms(1-3)] assms(4) by (auto simp: MAX_KEY_VALUE_PAIRS_COUNT_def)
  obtain r where r: "query_get q name = Some r"
    "case map_of kvs name of None \<Rightarrow> r = None | Some v \<Rightarrow> \<exists>p. r = Some p \<and> cstr (url_buffer q) p = v"
    using get_aux [OF q(2) clean_plain [OF assms(5)]] by blast
  obtain q' where pop: "query_pop q name = Some (r, q')" and same: "url_buffer q' = url_buffer q"
    and pairs: "key_value_pairs q' = (if r \<noteq> None then
      erase_first (\<lambda>p. prefix (name @ ''='') (cstr (url_buffer q) p)) (key_value_pairs q) else key_value_pairs q)"
  proof
    show "query_pop q name = Some (r, if r \<noteq> None then
        q\<lparr>key_value_pairs := erase_first (\<lambda>p. prefix (name @ ''='') (cstr (url_buffer q) p)) (key_value_pairs q)\<rparr> else q)"
      using r(1) by (simp add: query_pop_def)
  qed simp_all
  have "list_all2 (pair_at (url_buffer q')) (key_value_pairs q') (remove_first name kvs)"
  proof (cases "map_of kvs name")
    case None
    then show ?thesis using r(2) pairs same q(2) by (simp add: erase_none)
  next
    case (Some v)
    then have "r \<noteq> None" using r(2) by auto
    then show ?thesis using pairs same erase_pairs [OF q(2) assms(5,6)] by simp
  qed
  then have "finds q' (remove_first name kvs)" using get_aux unfolding finds_def by blast
  with q(1) r(2) pop show ?thesis by blast
qed

text \<open>
  A value ends at a further \<open>=\<close> or \<open>#\<close>: of the text behind the first \<open>=\<close> only the part before is the value,
  so what a client sends unencoded, like the padding of base64, is lost.
\<close>

theorem query_value_cut:
  assumes "path_ok path" "clean_key k" "clean_key v" "c = CHR ''='' \<or> c = CHR ''#''" "segment w"
  shows "\<exists>q p. make_query_string (path @ CHR ''?'' # k @ CHR ''='' # v @ c # w) True = Some q \<and>
    query_get q k = Some (Some p) \<and> cstr (url_buffer q) p = v"
proof -
  let ?s = "k @ CHR ''='' # v @ c # w"
  have chars: "list_all (\<lambda>x. QS_ISQSCHR x) k" "list_all (\<lambda>x. QS_ISQSCHR x) v"
    using assms(2,3) by (auto simp: clean_key_def list_all_iff unreserved_not)
  then have not: "NUL \<notin> set k" "CHR ''&'' \<notin> set k" "NUL \<notin> set v" "CHR ''&'' \<notin> set v" "\<forall>x\<in>set k. \<not> is_sep x"
    by (auto simp: list_all_iff QS_ISQSCHR_def is_sep_def)
  have seg: "list_all segment [?s]" using not assms(4,5) by (auto simp: segment_def)
  have "\<not> QS_ISQSCHR c" using assms(4) by (auto simp: QS_ISQSCHR_def)
  then have "takeWhile QS_ISQSCHR (v @ c # w) = v" using chars(2) by (simp add: list_all_iff takeWhile_append)
  then have "qs_value (v @ c # w) = v"
    using qs_value_qschr [of "v @ c # w"] url_encode_value [of v] clean_encode [OF assms(3)] by simp
  moreover have "takeWhile (\<lambda>c. \<not> is_sep c) ?s = k" "dropWhile (\<lambda>c. \<not> is_sep c) ?s = CHR ''='' # v @ c # w"
    using not(5) by (simp_all add: is_sep_def takeWhile_append dropWhile_append)
  ultimately have kv: "kv_of ?s = k @ CHR ''='' # v" by (simp add: kv_of_def)
  obtain ps b where parse: "qs_parse (path @ CHR ''?'' # join_amp [?s] @ [NUL]) 256 True = Some (ps, b)"
    and strings: "map (cstr b) ps = map (\<lambda>s. c_str (kv_of s)) (take 256 [?s])"
    and nul: "list_all (\<lambda>p. NUL \<in> set (drop p b)) ps"
    using parse_aux [OF _ seg, of path 256] assms(1) by (auto simp: path_ok_def)
  then obtain p where p: "ps = [p]" by auto
  have "cstr b p = url_encode (fst (k, v)) @ CHR ''='' # snd (k, v)"
    using strings not clean_encode [OF assms(2)] by (simp add: p kv c_str_id)
  then have "pair_at b p (k, v)" using nul not by (intro cstr_pair) (simp_all add: p)
  then have pairs: "list_all2 (pair_at b) ps [(k, v)]" by (simp add: p)
  let ?q = "\<lparr>url_buffer = b, key_value_pairs = ps\<rparr>"
  have "\<exists>r. query_get ?q k = Some r \<and> (\<exists>p. r = Some p \<and> cstr b p = v)"
    using get_aux [of ?q "[(k, v)]" k] pairs clean_plain [OF assms(2)] by simp
  then show ?thesis using parse by (auto simp: make_query_string_def MAX_KEY_VALUE_PAIRS_COUNT_def)
qed

text \<open>
  Examples of keys that are not plain: the comparison decodes the key asked for too, so \<open>a+b\<close> is not
  found although it was encoded, and \<open>a=c\<close>, which was not, is found with the value of \<open>a\<close>.
\<close>

theorem query_asked_key_decoded:
  "map_option (\<lambda>q. query_get q ''a+b'') (make_query_string (url_of ''/x'' [(''a+b'', ''1'')]) True) =
     Some (Some None)"
  "map_option (\<lambda>q. map_option (map_option (cstr (url_buffer q))) (query_get q ''a=c''))
     (make_query_string (url_of ''/x'' [(''a'', ''1'')]) True) = Some (Some (Some ''1''))"
  by code_simp+

text \<open>
  A percent sign at the very end of the query makes the comparison of a longer key read behind the
  buffer; a dictionary is found under a prefix of its name.
\<close>

theorem query_get_reads_behind:
  "make_query_string ''/x?a%'' True = Some \<lparr>url_buffer = ''/x?a%'' @ [NUL], key_value_pairs = [3]\<rparr> \<and>
   query_get \<lparr>url_buffer = ''/x?a%'' @ [NUL], key_value_pairs = [3]\<rparr> ''abc'' = None"
  by code_simp

theorem query_dict_prefix:
  "map_option (\<lambda>q. query_get_dict q ''a'' ''c'') (make_query_string ''/x?ab[c]=1'' True) = Some (Some ''1'')"
  by code_simp

text \<open>The contract at concrete queries.\<close>

abbreviation (input) sample_kvs :: "(string \<times> string) list" where
  "sample_kvs \<equiv> [(''a'', ''x y''), (''b'', ''1''), (''a'', [])]"

lemma sample_pairs:
  "path_ok ''/p''" "list_all no_NUL sample_kvs" "plain_key ''a''" "clean_key ''a''"
  "list_all (\<lambda>kv. clean_key (fst kv)) sample_kvs"
  by (simp_all add: path_ok_def no_NUL_def plain_key_def clean_key_def unreserved_def QS_ISQSCHR_def)

theorem qs_parse_in_place_witness:
  "\<exists>kv b. qs_parse (''/p'' @ CHR ''?'' # join_amp [''a=%41'', ''b''] @ [NUL]) 256 True = Some (kv, b) \<and>
    length b = length (''/p'' @ CHR ''?'' # join_amp [''a=%41'', ''b''] @ [NUL]) \<and> map (cstr b) kv = [''a=A'', ''b'']"
proof -
  have vals: "map (\<lambda>s. c_str (kv_of s)) (take 256 [''a=%41'', ''b'']) = [''a=A'', ''b'']" by code_simp
  have "list_all segment [''a=%41'', ''b'']" "path_ok ''/p''" by (simp_all add: segment_def path_ok_def)
  from qs_parse_in_place [OF _ this, of 256] show ?thesis unfolding vals by simp
qed

theorem query_get_finds_value_witness:
  "\<exists>q p. make_query_string (url_of ''/p'' sample_kvs) True = Some q \<and>
    query_get q ''a'' = Some (Some p) \<and> cstr (url_buffer q) p = ''x y''"
  using query_get_finds_value [OF sample_pairs(1) _ sample_pairs(2) _ sample_pairs(3)] by auto

theorem query_get_list_all_witness:
  "\<exists>q ps. make_query_string (url_of ''/p'' sample_kvs) True = Some q \<and>
    query_get_list q ''a'' False = Some ps \<and> map (cstr (url_buffer q)) ps = [''x y'', []]"
  using query_get_list_all [OF sample_pairs(1) _ sample_pairs(2) _ sample_pairs(3)] by simp

theorem query_pop_removes_first_witness:
  "\<exists>q q' r. make_query_string (url_of ''/p'' sample_kvs) True = Some q \<and>
    query_pop q ''a'' = Some (r, q') \<and> finds q' [(''b'', ''1''), (''a'', [])]"
  using query_pop_removes_first [OF sample_pairs(1) _ sample_pairs(2) _ sample_pairs(4,5)] by auto

theorem query_value_cut_witness:
  "\<exists>q p. make_query_string (''/p'' @ CHR ''?'' # ''t'' @ CHR ''='' # ''abc'' @ CHR ''='' # []) True = Some q \<and>
    query_get q ''t'' = Some (Some p) \<and> cstr (url_buffer q) p = ''abc''"
  by (rule query_value_cut) (simp_all add: path_ok_def clean_key_def unreserved_def segment_def)

end
