(* ===== verification/Crow_Json.thy ===== *)
theory Crow_Json
  imports Prelude "HOL-Library.List_Lexorder" "HOL-Library.Sublist"
begin

text \<open>
  The JSON reader of the HTTP library (\<open>crow::json\<close> in \<open>api/include/external/crow_all.h\<close>): escaping,
  the recursive parser behind \<open>load\<close>, and what can be asked of a value.  A pointer into the text is
  what is left of it; the terminating NUL is what \<open>cur\<close> reads at the end.  The parser overwrites
  the text only behind its pointer, so its values can own their pieces of it.  The elements and
  members read so far are a list that grows without a bound; the array that the program grows for
  them is \<open>emplace_back\<close> in \<open>Crow_Json_Value\<close>, proved correct up to \<open>2^30\<close> elements.  An error
  value is \<open>Bad\<close>; exceptions are \<open>Inl\<close> of their message.
\<close>

subsection \<open>Characters\<close>

text \<open>A \<open>char\<close> as the signed number it is.\<close>

definition schar :: "char \<Rightarrow> int" where
  "schar c = (if of_char c < (128 :: int) then of_char c else of_char c - 256)"

abbreviation (input) NUL :: char where "NUL \<equiv> CHR 0x00"
abbreviation (input) quote :: char where "quote \<equiv> CHR 0x22"
abbreviation (input) backslash :: char where "backslash \<equiv> CHR 0x5C"

definition to_hex :: "int \<Rightarrow> char" where
  "to_hex c = (let c = c AND 15 in if c < 10 then char_of (48 + c) else char_of (97 + c - 10))"

definition escape_char :: "char \<Rightarrow> string" where
  "escape_char c =
     (if c = quote then [backslash, quote]
      else if c = backslash then [backslash, backslash]
      else if c = CHR 0x0A then [backslash, CHR ''n'']
      else if c = CHR 0x08 then [backslash, CHR ''b'']
      else if c = CHR 0x0C then [backslash, CHR ''f'']
      else if c = CHR 0x0D then [backslash, CHR ''r'']
      else if c = CHR 0x09 then [backslash, CHR ''t'']
      else if 0 \<le> schar c \<and> schar c < 32 then
        [backslash, CHR ''u'', CHR ''0'', CHR ''0'', to_hex (schar c div 16), to_hex (schar c mod 16)]
      else [c])"

definition escape :: "string \<Rightarrow> string" where
  "escape str = concat (map escape_char str)"

subsection \<open>Values\<close>

datatype type_t = TNull | TFalse | TTrue | TNumber | TString | TList | TObject | TFunction

fun get_type_str :: "type_t \<Rightarrow> string" where
  "get_type_str TNumber = ''Number''"
| "get_type_str TFalse = ''False''"
| "get_type_str TTrue = ''True''"
| "get_type_str TList = ''List''"
| "get_type_str TString = ''String''"
| "get_type_str TObject = ''Object''"
| "get_type_str TFunction = ''Function''"
| "get_type_str TNull = ''Unknown''"

text \<open>
  A number is its text, a string its text between the quotes with the mark whether it has escapes,
  an object its members in the order of the text.
\<close>

datatype rvalue =
    JNull | JFalse | JTrue
  | JNumber string
  | JString bool string
  | JList "rvalue list"
  | JObject "(string \<times> rvalue) list"

fun t_of :: "rvalue \<Rightarrow> type_t" where
  "t_of JNull = TNull"
| "t_of JFalse = TFalse"
| "t_of JTrue = TTrue"
| "t_of (JNumber _) = TNumber"
| "t_of (JString _ _) = TString"
| "t_of (JList _) = TList"
| "t_of (JObject _) = TObject"

text \<open>
  \<open>unescape\<close> moves a reading pointer and a writing pointer; \<open>None\<close> is reading on behind the end.
\<close>

definition from_hex :: "char \<Rightarrow> int" where
  "from_hex c =
     (if schar (CHR ''a'') \<le> schar c then schar c - schar (CHR ''a'') + 10
      else if schar (CHR ''A'') \<le> schar c then schar c - schar (CHR ''A'') + 10
      else schar c - schar (CHR ''0''))"

definition char_of_u32 :: "u32 \<Rightarrow> char" where
  "char_of_u32 w = char_of (unat w)"

definition utf8_code :: "u32 \<Rightarrow> string" where
  "utf8_code code =
     (if 0x800 \<le> code then
        [char_of_u32 (0xE0 OR drop_bit 12 code), char_of_u32 (0x80 OR (drop_bit 6 code AND 0x3F)),
         char_of_u32 (0x80 OR (code AND 0x3F))]
      else if 0x80 \<le> code then
        [char_of_u32 (0xC0 OR drop_bit 6 code), char_of_u32 (0x80 OR (code AND 0x3F))]
      else [char_of_u32 code])"

definition hex_code :: "char \<Rightarrow> char \<Rightarrow> char \<Rightarrow> char \<Rightarrow> u32" where
  "hex_code h1 h2 h3 h4 =
     word_of_int (from_hex h1 * 2 ^ 12 + from_hex h2 * 2 ^ 8 + from_hex h3 * 2 ^ 4 + from_hex h4)"

definition escaped_char :: "char \<Rightarrow> string" where
  "escaped_char d =
     (if d = quote \<or> d = backslash \<or> d = CHR ''/'' then [d]
      else if d = CHR ''b'' then [CHR 0x08]
      else if d = CHR ''f'' then [CHR 0x0C]
      else if d = CHR ''n'' then [CHR 0x0A]
      else if d = CHR ''r'' then [CHR 0x0D]
      else if d = CHR ''t'' then [CHR 0x09]
      else [])"

fun unescape :: "string \<Rightarrow> string option" where
  "unescape [] = Some []"
| "unescape (c # s) =
     (if c = backslash then
        (case s of
           [] \<Rightarrow> None
         | d # s \<Rightarrow>
             if d = CHR ''u'' then
               (case s of
                  h1 # h2 # h3 # h4 # s \<Rightarrow>
                    map_option (\<lambda>r. utf8_code (hex_code h1 h2 h3 h4) @ r) (unescape s)
                | _ \<Rightarrow> None)
             else map_option (\<lambda>r. escaped_char d @ r) (unescape s))
      else map_option ((#) c) (unescape s))"

text \<open>The string value: unescaped when the parser has seen an escape.\<close>

fun rvalue_s :: "rvalue \<Rightarrow> string + string option" where
  "rvalue_s (JString esc raw) = Inr (if esc then unescape raw else Some raw)"
| "rvalue_s _ = Inl ''value is not string''"

subsection \<open>The parser\<close>

datatype 'a parsed = Parsed 'a string | Bad | OutOfFuel

definition cur :: "string \<Rightarrow> char" where
  "cur s = (case s of [] \<Rightarrow> NUL | c # _ \<Rightarrow> c)"

definition ws_skip :: "string \<Rightarrow> string" where
  "ws_skip s =
     dropWhile (\<lambda>c. c = CHR '' '' \<or> c = CHR 0x09 \<or> c = CHR 0x0D \<or> c = CHR 0x0A) s"

definition hex_check :: "char \<Rightarrow> bool" where
  "hex_check c =
     (schar (CHR ''0'') \<le> schar c \<and> schar c \<le> schar (CHR ''9'') \<or>
      schar (CHR ''a'') \<le> schar c \<and> schar c \<le> schar (CHR ''f'') \<or>
      schar (CHR ''A'') \<le> schar c \<and> schar c \<le> schar (CHR ''F''))"

text \<open>Behind the opening quote: the mark, the text up to the closing quote, what follows it.\<close>

definition behind :: "string \<Rightarrow> (bool \<times> string \<times> string) option \<Rightarrow> (bool \<times> string \<times> string) option" where
  "behind p r = map_option (\<lambda>(esc, raw, rest). (esc, p @ raw, rest)) r"

fun string_body :: "bool \<Rightarrow> string \<Rightarrow> (bool \<times> string \<times> string) option" where
  "string_body esc [] = None"
| "string_body esc (c # s) =
     (if c \<noteq> quote \<and> c \<noteq> backslash \<and> c \<noteq> NUL then behind [c] (string_body esc s)
      else if c = quote then Some (esc, [], s)
      else if c = backslash then
        (case s of
           [] \<Rightarrow> None
         | d # s \<Rightarrow>
             if d = CHR ''u'' then
               (case s of
                  h1 # h2 # h3 # h4 # s \<Rightarrow>
                    if hex_check h1 \<and> hex_check h2 \<and> hex_check h3 \<and> hex_check h4 then
                      behind [c, d, h1, h2, h3, h4] (string_body True s)
                    else None
                | _ \<Rightarrow> None)
             else if d \<in> {quote, backslash, CHR ''/'', CHR ''b'', CHR ''f'', CHR ''n'', CHR ''r'', CHR ''t''} then
               behind [c, d] (string_body True s)
             else None)
      else None)"

definition decode_string :: "string \<Rightarrow> (rvalue \<times> string) option" where
  "decode_string s =
     (if cur s \<noteq> quote then None
      else map_option (\<lambda>(esc, raw, rest). (JString esc raw, rest)) (string_body False (tl s)))"

datatype NumberParsingState =
    Minus | AfterMinus | ZeroFirst | Digits | DigitsAfterPoints | E | DigitsAfterE | Invalid

definition number_states :: "NumberParsingState list" where
  "number_states = [Minus, AfterMinus, ZeroFirst, Digits, DigitsAfterPoints, E, DigitsAfterE, Invalid]"

fun state_index :: "NumberParsingState \<Rightarrow> nat" where
  "state_index Minus = 0"
| "state_index AfterMinus = 1"
| "state_index ZeroFirst = 2"
| "state_index Digits = 3"
| "state_index DigitsAfterPoints = 4"
| "state_index E = 5"
| "state_index DigitsAfterE = 6"
| "state_index Invalid = 7"

definition number_step :: "nat list \<Rightarrow> NumberParsingState \<Rightarrow> NumberParsingState" where
  "number_step table state = number_states ! (table ! state_index state)"

definition is_digit :: "char \<Rightarrow> bool" where
  "is_digit c = (schar (CHR ''0'') \<le> schar c \<and> schar c \<le> schar (CHR ''9''))"

definition number_accepted :: "NumberParsingState \<Rightarrow> bool" where
  "number_accepted state =
     (state = ZeroFirst \<or> state = Digits \<or> state = DigitsAfterPoints \<or> state = DigitsAfterE)"

text \<open>The text of the number from here, and what follows it.\<close>

function number_loop :: "NumberParsingState \<Rightarrow> string \<Rightarrow> (string \<times> string) option" where
  "number_loop state s =
     (if state = Invalid then None
      else
        (case s of
           [] \<Rightarrow> if number_accepted state then Some ([], []) else None
         | c # r \<Rightarrow>
             let go = (\<lambda>table. map_option (map_prod ((#) c) id) (number_loop (number_step table state) r)) in
             if c = CHR ''0'' then go [2, 2, 7, 3, 4, 6, 6]
             else if is_digit c then
               map_option (map_prod (\<lambda>text. c # takeWhile is_digit r @ text) id)
                 (number_loop (number_step [3, 3, 7, 3, 4, 6, 6] state) (dropWhile is_digit r))
             else if c = CHR ''.'' then go [7, 7, 4, 4, 7, 7, 7]
             else if c = CHR ''-'' then go [1, 7, 7, 7, 7, 6, 7]
             else if c = CHR ''+'' then go [7, 7, 7, 7, 7, 6, 7]
             else if c = CHR ''e'' \<or> c = CHR ''E'' then go [7, 7, 7, 5, 5, 7, 7]
             else if number_accepted state then Some ([], c # r)
             else None))"
  by pat_completeness auto
termination
  by (relation "measure (\<lambda>(state, s). length s)") (auto simp: less_Suc_eq_le length_dropWhile_le)

declare number_loop.simps [simp del]

definition decode_number :: "string \<Rightarrow> (rvalue \<times> string) option" where
  "decode_number s = map_option (map_prod JNumber id) (number_loop Minus s)"

definition max_depth :: nat where
  "max_depth = 10000"

definition parsed_of :: "(rvalue \<times> string) option \<Rightarrow> rvalue parsed" where
  "parsed_of r = (case r of None \<Rightarrow> Bad | Some (v, rest) \<Rightarrow> Parsed v rest)"

text \<open>The cases of \<open>decode_value\<close> without nesting.\<close>

definition decode_scalar :: "string \<Rightarrow> rvalue parsed" where
  "decode_scalar s =
     (if cur s = quote then parsed_of (decode_string s)
      else if cur s = CHR ''t'' then
        (if prefix ''rue'' (tl s) then Parsed JTrue (drop 4 s) else Bad)
      else if cur s = CHR ''f'' then
        (if prefix ''alse'' (tl s) then Parsed JFalse (drop 5 s) else Bad)
      else if cur s = CHR ''n'' then
        (if prefix ''ull'' (tl s) then Parsed JNull (drop 4 s) else Bad)
      else parsed_of (decode_number s))"

function (sequential) decode_value :: "nat \<Rightarrow> nat \<Rightarrow> string \<Rightarrow> rvalue parsed"
  and decode_list :: "nat \<Rightarrow> nat \<Rightarrow> string \<Rightarrow> rvalue parsed"
  and decode_elements :: "nat \<Rightarrow> nat \<Rightarrow> rvalue list \<Rightarrow> string \<Rightarrow> rvalue parsed"
  and decode_object :: "nat \<Rightarrow> nat \<Rightarrow> string \<Rightarrow> rvalue parsed"
  and decode_members :: "nat \<Rightarrow> nat \<Rightarrow> (string \<times> rvalue) list \<Rightarrow> string \<Rightarrow> rvalue parsed"
where
  "decode_value 0 depth s = OutOfFuel"
| "decode_value (Suc n) depth s =
     (if cur s = CHR ''['' then decode_list n (depth + 1) s
      else if cur s = CHR ''{'' then decode_object n (depth + 1) s
      else decode_scalar s)"
| "decode_list 0 depth s = OutOfFuel"
| "decode_list (Suc n) depth s =
     (if cur s \<noteq> CHR ''['' \<or> max_depth < depth then Bad
      else
        (let s = ws_skip (tl s) in
         if cur s = CHR '']'' then Parsed (JList []) (tl s) else decode_elements n depth [] s))"
| "decode_elements 0 depth ret s = OutOfFuel"
| "decode_elements (Suc n) depth ret s =
     (case decode_value n (depth + 1) s of
        Parsed v s \<Rightarrow>
          (let s = ws_skip s; ret = ret @ [v] in
           if cur s = CHR '']'' then Parsed (JList ret) (tl s)
           else if cur s \<noteq> CHR '','' then Bad
           else decode_elements n depth ret (ws_skip (tl s)))
      | r \<Rightarrow> r)"
| "decode_object 0 depth s = OutOfFuel"
| "decode_object (Suc n) depth s =
     (if cur s \<noteq> CHR ''{'' \<or> max_depth < depth then Bad
      else
        (let s = ws_skip (tl s) in
         if cur s = CHR ''}'' then Parsed (JObject []) (tl s) else decode_members n depth [] s))"
| "decode_members 0 depth ret s = OutOfFuel"
| "decode_members (Suc n) depth ret s =
     (case decode_string s of
        None \<Rightarrow> Bad
      | Some (t, s) \<Rightarrow>
          (let s = ws_skip s in
           if cur s \<noteq> CHR '':'' then Bad
           else
             (case rvalue_s t of
                Inr (Some key) \<Rightarrow>
                  (case decode_value n (depth + 1) (ws_skip (tl s)) of
                     Parsed v s \<Rightarrow>
                       (let s = ws_skip s; ret = ret @ [(key, v)] in
                        if cur s = CHR ''}'' then Parsed (JObject ret) (tl s)
                        else if cur s \<noteq> CHR '','' then Bad
                        else decode_members n depth ret (ws_skip (tl s)))
                   | r \<Rightarrow> r)
              | _ \<Rightarrow> Bad)))"
  by pat_completeness simp_all
termination by size_change

text \<open>
  \<open>parse\<close> with fuel; \<open>json_load\<close> gives it enough for every text.
\<close>

definition parse :: "nat \<Rightarrow> string \<Rightarrow> rvalue parsed" where
  "parse fuel s =
     (case decode_value fuel 0 (ws_skip s) of
        Parsed v rest \<Rightarrow>
          (let rest = ws_skip rest in if cur rest \<noteq> NUL then Bad else Parsed v rest)
      | r \<Rightarrow> r)"

definition json_load :: "string \<Rightarrow> rvalue option" where
  "json_load s = (case parse (3 * length s + 1) s of Parsed v _ \<Rightarrow> Some v | _ \<Rightarrow> None)"

subsection \<open>Strings\<close>

lemma behind_simps [simp]:
  "behind p None = None" "behind p (Some (esc, raw, rest)) = Some (esc, p @ raw, rest)"
  by (simp_all add: behind_def)

text \<open>What \<open>escape_char\<close> writes: the character itself, a two-character escape, or six characters.\<close>

lemma control_chars:
  "list_all (\<lambda>c. list_all hex_check [CHR ''0'', CHR ''0'', to_hex (schar c div 16), to_hex (schar c mod 16)] \<and>
     utf8_code (hex_code (CHR ''0'') (CHR ''0'') (to_hex (schar c div 16)) (to_hex (schar c mod 16))) = [c])
   (map char_of [0..<32::nat])"
  by code_simp

lemma schar_control: "0 \<le> schar c \<Longrightarrow> schar c < 32 \<Longrightarrow> c \<in> set (map char_of [0..<32::nat])"
proof -
  assume "0 \<le> schar c" "schar c < 32"
  moreover have "of_char c < (256::nat)" by (rule nat_of_char_less_256)
  then have "of_char c < (256::int)" by (metis of_nat_less_iff of_nat_numeral of_nat_of_char)
  ultimately have "of_char c < (32::int)" by (simp add: schar_def split: if_splits)
  then have "of_char c < (32::nat)" by (metis of_nat_less_iff of_nat_numeral of_nat_of_char)
  moreover have "c = char_of (of_char c :: nat)" by simp
  ultimately show ?thesis by (metis atLeastLessThan_iff image_eqI set_map set_upt zero_le)
qed

text \<open>The characters with an escape of two characters.\<close>

definition short_escapes :: "char list" where
  "short_escapes = [quote, backslash, CHR 0x0A, CHR 0x08, CHR 0x0C, CHR 0x0D, CHR 0x09]"

lemma escape_char_pair:
  assumes "c \<in> set short_escapes"
  obtains d where "escape_char c = [backslash, d]" "escaped_char d = [c]" "d \<noteq> CHR ''u''"
    "d \<in> {quote, backslash, CHR ''/'', CHR ''b'', CHR ''f'', CHR ''n'', CHR ''r'', CHR ''t''}"
  using assms
  by (auto simp: short_escapes_def escape_char_def escaped_char_def intro!: that [of "last (escape_char c)"])

lemma escape_char_other:
  assumes "c \<notin> set short_escapes"
  shows "0 \<le> schar c \<Longrightarrow> schar c < 32 \<Longrightarrow> escape_char c =
      [backslash, CHR ''u'', CHR ''0'', CHR ''0'', to_hex (schar c div 16), to_hex (schar c mod 16)]"
    and "\<not> (0 \<le> schar c \<and> schar c < 32) \<Longrightarrow> escape_char c = [c]"
  using assms by (simp_all add: short_escapes_def escape_char_def)

lemma char_cases:
  obtains (plain) "escape_char c = [c]" "c \<noteq> quote" "c \<noteq> backslash" "c \<noteq> NUL"
  | (pair) d where "escape_char c = [backslash, d]" "escaped_char d = [c]" "d \<noteq> CHR ''u''"
      "d \<in> {quote, backslash, CHR ''/'', CHR ''b'', CHR ''f'', CHR ''n'', CHR ''r'', CHR ''t''}"
  | (code) h1 h2 h3 h4 where "escape_char c = [backslash, CHR ''u'', h1, h2, h3, h4]"
      "list_all hex_check [h1, h2, h3, h4]" "utf8_code (hex_code h1 h2 h3 h4) = [c]"
proof -
  consider "c \<in> set short_escapes" | "c \<notin> set short_escapes" "0 \<le> schar c \<and> schar c < 32"
    | "c \<notin> set short_escapes" "\<not> (0 \<le> schar c \<and> schar c < 32)" by blast
  then show thesis
  proof cases
    case 1
    then show thesis by (rule escape_char_pair) (rule pair)
  next
    case 2
    then have "c \<in> set (map char_of [0..<32::nat])" by (simp only: schar_control)
    with control_chars have
      "list_all hex_check [CHR ''0'', CHR ''0'', to_hex (schar c div 16), to_hex (schar c mod 16)]"
      "utf8_code (hex_code (CHR ''0'') (CHR ''0'') (to_hex (schar c div 16)) (to_hex (schar c mod 16))) = [c]"
      unfolding list_all_iff [of _ "map char_of [0..<32::nat]"] by blast+
    with escape_char_other(1) [OF 2(1)] 2(2) show thesis by (intro code) simp_all
  next
    case 3
    have "c \<noteq> NUL" using 3(2) by (auto simp: schar_def)
    with escape_char_other(2) [OF 3] 3(1) show thesis
      by (intro plain) (auto simp: short_escapes_def)
  qed
qed

lemma escape_Cons: "escape (c # s) = escape_char c @ escape s"
  by (simp add: escape_def)

lemma body_plain:
  "c \<noteq> quote \<Longrightarrow> c \<noteq> backslash \<Longrightarrow> c \<noteq> NUL \<Longrightarrow> string_body esc (c # s) = behind [c] (string_body esc s)"
  by simp

lemma body_pair:
  "d \<in> {quote, backslash, CHR ''/'', CHR ''b'', CHR ''f'', CHR ''n'', CHR ''r'', CHR ''t''} \<Longrightarrow>
   string_body esc (backslash # d # s) = behind [backslash, d] (string_body True s)"
  by auto

lemma body_code:
  "list_all hex_check [h1, h2, h3, h4] \<Longrightarrow>
   string_body esc (backslash # CHR ''u'' # h1 # h2 # h3 # h4 # s) =
     behind [backslash, CHR ''u'', h1, h2, h3, h4] (string_body True s)"
  by simp

lemma unescape_steps:
  "c \<noteq> backslash \<Longrightarrow> unescape (c # s) = map_option ((#) c) (unescape s)"
  "d \<noteq> CHR ''u'' \<Longrightarrow> unescape (backslash # d # s) = map_option (\<lambda>r. escaped_char d @ r) (unescape s)"
  "unescape (backslash # CHR ''u'' # h1 # h2 # h3 # h4 # s) =
     map_option (\<lambda>r. utf8_code (hex_code h1 h2 h3 h4) @ r) (unescape s)"
  by simp_all

declare string_body.simps [simp del] unescape.simps [simp del]

lemma string_body_end [simp]: "string_body esc (quote # s) = Some (esc, [], s)"
  by (simp add: string_body.simps)

lemma unescape_Nil [simp]: "unescape [] = Some []"
  by (simp add: unescape.simps)

lemma unescape_escape: "unescape (escape s) = Some s"
proof (induction s)
  case (Cons c s)
  show ?case
    by (cases rule: char_cases [of c]) (simp_all add: escape_Cons unescape_steps Cons.IH)
qed (simp add: escape_def)

lemma escape_body:
  "\<exists>esc'. string_body esc (escape s @ quote # r) = Some (esc', escape s, r) \<and> (esc \<longrightarrow> esc') \<and>
     (esc' \<or> escape s = s)"
proof (induction s arbitrary: esc)
  case (Cons c s)
  show ?case
  proof (cases rule: char_cases [of c])
    case plain
    then show ?thesis using Cons.IH [of esc] by (auto simp: escape_Cons body_plain)
  next
    case (pair d)
    then show ?thesis using Cons.IH [of True] by (auto simp: escape_Cons body_pair)
  next
    case code
    then show ?thesis using Cons.IH [of True] by (auto simp: escape_Cons body_code)
  qed
qed (simp add: escape_def)

lemma cur_Cons [simp]: "cur (c # s) = c"
  by (simp add: cur_def)

lemma cur_Nil [simp]: "cur [] = NUL"
  by (simp add: cur_def)

text \<open>A quoted, escaped string is read as that string.\<close>

lemma decode_escaped:
  obtains esc where "decode_string (quote # escape s @ quote # r) = Some (JString esc (escape s), r)"
    "rvalue_s (JString esc (escape s)) = Inr (Some s)"
proof -
  obtain esc where "string_body False (escape s @ quote # r) = Some (esc, escape s, r)"
    "esc \<or> escape s = s"
    using escape_body [of False s r] by blast
  then show thesis by (intro that [of esc]) (auto simp: decode_string_def unescape_escape)
qed

text \<open>Where a string ends.\<close>

lemma body_shape:
  "string_body esc s = Some (esc', raw, rest) \<Longrightarrow>
   s = raw @ quote # rest \<and> (\<not> esc' \<longrightarrow> \<not> esc \<and> backslash \<notin> set raw) \<and>
   (esc' \<longrightarrow> esc \<or> backslash \<in> set raw) \<and> (quote \<in> set raw \<longrightarrow> backslash \<in> set raw)"
proof (induction esc s arbitrary: esc' raw rest rule: string_body.induct)
  case (2 esc c s)
  note prems = "2.prems" [unfolded string_body.simps]
  consider "c \<noteq> quote" "c \<noteq> backslash" "c \<noteq> NUL" | "c = quote" | "c = backslash" | "c = NUL" by blast
  then show ?case
  proof cases
    case 1
    then obtain raw' where r: "string_body esc s = Some (esc', raw', rest)" "raw = c # raw'"
      using prems by (auto simp: behind_def)
    from "2.IH"(1) [OF _ r(1)] 1 r(2) show ?thesis by auto
  next
    case 2
    then show ?thesis using prems by auto
  next
    case 3
    then obtain d s' where s: "s = d # s'" using prems by (auto split: list.splits)
    show ?thesis
    proof (cases "d = CHR ''u''")
      case True
      then obtain h1 h2 h3 h4 s2 raw' where r: "s' = h1 # h2 # h3 # h4 # s2"
        "hex_check h1 \<and> hex_check h2 \<and> hex_check h3 \<and> hex_check h4"
        "string_body True s2 = Some (esc', raw', rest)" "raw = [c, d, h1, h2, h3, h4] @ raw'"
        using prems 3 s by (auto simp: behind_def split: list.splits if_splits)
      have "s2 = raw' @ quote # rest \<and> esc'"
        using "2.IH"(2) [OF _ _ 3 s True r(1) refl refl refl r(2,3)] 3 by auto
      then show ?thesis using r s 3 by auto
    next
      case False
      then obtain raw' where r:
        "d \<in> {quote, backslash, CHR ''/'', CHR ''b'', CHR ''f'', CHR ''n'', CHR ''r'', CHR ''t''}"
        "string_body True s' = Some (esc', raw', rest)" "raw = [c, d] @ raw'"
        using prems 3 s by (auto simp: behind_def split: if_splits)
      have "s' = raw' @ quote # rest \<and> esc'"
        using "2.IH"(3) [OF _ _ 3 s False r(1,2)] 3 by auto
      then show ?thesis using r s 3 by auto
    qed
  next
    case 4
    then show ?thesis using prems by simp
  qed
qed (simp add: string_body.simps)

lemma body_length: "string_body esc s = Some (esc', raw, rest) \<Longrightarrow> length s = length raw + length rest + 1"
  using body_shape [of esc s esc' raw rest] by simp

text \<open>Whatever the parser accepts as a string can be unescaped in place.\<close>

lemma length_utf8: "length (utf8_code w) \<le> 3"
  by (simp add: utf8_code_def)

lemma length_escaped: "length (escaped_char d) \<le> 1"
  by (simp add: escaped_char_def)

lemma body_unescapes:
  "string_body esc s = Some (esc', raw, rest) \<Longrightarrow>
   (\<exists>k. unescape raw = Some k \<and> length k \<le> length raw) \<and> length raw + length rest < length s"
proof (induction esc s arbitrary: esc' raw rest rule: string_body.induct)
  case (2 esc c s)
  note prems = "2.prems" [unfolded string_body.simps]
  consider "c \<noteq> quote" "c \<noteq> backslash" "c \<noteq> NUL" | "c = quote" | "c = backslash"
    | "c = NUL" by blast
  then show ?case
  proof cases
    case 1
    then obtain raw' where r: "string_body esc s = Some (esc', raw', rest)" "raw = c # raw'"
      using prems by (auto simp: behind_def)
    from "2.IH"(1) [OF _ r(1)] 1 r(2) show ?thesis by (auto simp: unescape_steps)
  next
    case 2
    then show ?thesis using prems by auto
  next
    case 3
    then obtain d s' where s: "s = d # s'" using prems by (auto split: list.splits)
    show ?thesis
    proof (cases "d = CHR ''u''")
      case True
      then obtain h1 h2 h3 h4 s2 raw' where r: "s' = h1 # h2 # h3 # h4 # s2"
        "hex_check h1 \<and> hex_check h2 \<and> hex_check h3 \<and> hex_check h4"
        "string_body True s2 = Some (esc', raw', rest)" "raw = [c, d, h1, h2, h3, h4] @ raw'"
        using prems 3 s by (auto simp: behind_def split: list.splits if_splits)
      have "(\<exists>k. unescape raw' = Some k \<and> length k \<le> length raw') \<and> length raw' + length rest < length s2"
        using "2.IH"(2) [OF _ _ 3 s True r(1) refl refl refl r(2,3)] 3 by auto
      then show ?thesis using r s 3 True length_utf8 [of "hex_code h1 h2 h3 h4"]
        by (auto simp: unescape_steps)
    next
      case False
      then obtain raw' where r:
        "d \<in> {quote, backslash, CHR ''/'', CHR ''b'', CHR ''f'', CHR ''n'', CHR ''r'', CHR ''t''}"
        "string_body True s' = Some (esc', raw', rest)" "raw = [c, d] @ raw'"
        using prems 3 s by (auto simp: behind_def split: if_splits)
      have "(\<exists>k. unescape raw' = Some k \<and> length k \<le> length raw') \<and> length raw' + length rest < length s'"
        using "2.IH"(3) [OF _ _ 3 s False r(1,2)] 3 by auto
      then show ?thesis using r s 3 False length_escaped [of d] by (auto simp: unescape_steps)
    qed
  next
    case 4
    then show ?thesis using prems by simp
  qed
qed (simp add: string_body.simps)

subsection \<open>Numbers\<close>

definition number_chars :: "char list" where
  "number_chars = ''0123456789.-+eE''"

text \<open>The state after one more character, read singly.\<close>

definition number_delta :: "NumberParsingState \<Rightarrow> char \<Rightarrow> NumberParsingState" where
  "number_delta st c =
     (if st = Invalid then Invalid
      else if c = CHR ''0'' then number_step [2, 2, 7, 3, 4, 6, 6] st
      else if is_digit c then number_step [3, 3, 7, 3, 4, 6, 6] st
      else if c = CHR ''.'' then number_step [7, 7, 4, 4, 7, 7, 7] st
      else if c = CHR ''-'' then number_step [1, 7, 7, 7, 7, 6, 7] st
      else if c = CHR ''+'' then number_step [7, 7, 7, 7, 7, 6, 7] st
      else if c = CHR ''e'' \<or> c = CHR ''E'' then number_step [7, 7, 7, 5, 5, 7, 7] st
      else Invalid)"

lemma is_digit_char: "is_digit c \<longleftrightarrow> c \<in> set ''0123456789''"
proof -
  have digits: "map char_of [48..<58::nat] = ''0123456789''" by code_simp
  have s: "schar (CHR ''0'') = 48" "schar (CHR ''9'') = 57" by code_simp+
  define n where "n = (of_char c :: nat)"
  have "(of_char c :: int) = int n" "n < 256" by (metis n_def of_nat_of_char) (simp add: n_def)
  then have "is_digit c \<longleftrightarrow> n \<in> {48..<58::nat}"
    unfolding is_digit_def s schar_def by auto
  also have "\<dots> \<longleftrightarrow> c \<in> char_of ` {48..<58::nat}"
  proof
    assume "n \<in> {48..<58}"
    then show "c \<in> char_of ` {48..<58::nat}" by (intro image_eqI [of _ _ n]) (simp_all add: n_def)
  qed (use n_def in auto)
  also have "\<dots> \<longleftrightarrow> c \<in> set (map char_of [48..<58::nat])" by (simp only: set_map set_upt)
  finally show ?thesis by (simp only: digits)
qed

lemma number_chars_digit: "c \<in> set number_chars \<longleftrightarrow> is_digit c \<or> c \<in> set ''.-+eE''"
  by (auto simp: number_chars_def is_digit_char)

lemma no_number_char:
  assumes "c \<notin> set number_chars"
  shows "\<not> is_digit c" "c \<noteq> CHR ''0''" "c \<noteq> CHR ''.''" "c \<noteq> CHR ''-''" "c \<noteq> CHR ''+''"
    "c \<noteq> CHR ''e''" "c \<noteq> CHR ''E''"
  using assms by (simp_all add: number_chars_def is_digit_char)

lemma digit_chars:
  "is_digit (CHR ''0'')" "\<not> is_digit (CHR ''.'')" "\<not> is_digit (CHR ''-'')" "\<not> is_digit (CHR ''+'')"
  "\<not> is_digit (CHR ''e'')" "\<not> is_digit (CHR ''E'')"
  by (simp_all add: is_digit_char)

lemma number_delta_digit:
  "is_digit c \<Longrightarrow> number_delta st c =
     (case st of Minus \<Rightarrow> if c = CHR ''0'' then ZeroFirst else Digits
        | AfterMinus \<Rightarrow> if c = CHR ''0'' then ZeroFirst else Digits
        | ZeroFirst \<Rightarrow> Invalid | Digits \<Rightarrow> Digits | DigitsAfterPoints \<Rightarrow> DigitsAfterPoints
        | E \<Rightarrow> DigitsAfterE | DigitsAfterE \<Rightarrow> DigitsAfterE | Invalid \<Rightarrow> Invalid)"
  by (cases st) (simp_all add: number_delta_def number_step_def number_states_def)

lemma number_delta_other:
  "number_delta st (CHR ''.'') = (if st = ZeroFirst \<or> st = Digits then DigitsAfterPoints else Invalid)"
  "number_delta st (CHR ''-'') = (if st = Minus then AfterMinus else if st = E then DigitsAfterE else Invalid)"
  "number_delta st (CHR ''+'') = (if st = E then DigitsAfterE else Invalid)"
  "c = CHR ''e'' \<or> c = CHR ''E'' \<Longrightarrow>
     number_delta st c = (if st = Digits \<or> st = DigitsAfterPoints then E else Invalid)"
  "c \<notin> set number_chars \<Longrightarrow> number_delta st c = Invalid"
      apply (cases st; simp add: number_delta_def number_step_def number_states_def digit_chars)
     apply (cases st; simp add: number_delta_def number_step_def number_states_def digit_chars)
    apply (cases st; simp add: number_delta_def number_step_def number_states_def digit_chars)
   apply (cases st; auto simp: number_delta_def number_step_def number_states_def digit_chars)
  apply (simp add: number_delta_def no_number_char)
  done

lemma number_loop_Invalid: "number_loop Invalid s = None"
  by (simp add: number_loop.simps)

text \<open>Skipping further digits does not matter in a state that reads digits.\<close>

lemma number_loop_digits:
  assumes "st = Digits \<or> st = DigitsAfterPoints \<or> st = DigitsAfterE \<or> st = Invalid"
  shows "number_loop st r =
    map_option (map_prod (\<lambda>text. takeWhile is_digit r @ text) id) (number_loop st (dropWhile is_digit r))"
proof (induction r)
  case Nil
  show ?case by (cases "number_loop st []") auto
next
  case (Cons d r)
  have zero: "number_step [2, 2, 7, 3, 4, 6, 6] st = st" if "st \<noteq> Invalid"
    using assms that by (auto simp: number_step_def number_states_def)
  have nonzero: "number_step [3, 3, 7, 3, 4, 6, 6] st = st" if "st \<noteq> Invalid"
    using assms that by (auto simp: number_step_def number_states_def)
  consider "st = Invalid" | "st \<noteq> Invalid" "\<not> is_digit d" | "st \<noteq> Invalid" "d = CHR ''0''"
    | "st \<noteq> Invalid" "is_digit d" "d \<noteq> CHR ''0''" by blast
  then show ?case
  proof cases
    case 1
    then show ?thesis by (simp add: number_loop_Invalid)
  next
    case 2
    then show ?thesis by (cases "number_loop st (d # r)") (auto simp: map_prod_def)
  next
    case 3
    have "number_loop st (d # r) = map_option (map_prod ((#) d) id) (number_loop st r)"
      using 3 zero by (subst number_loop.simps) (simp add: Let_def)
    then show ?thesis using 3 Cons.IH
      by (simp add: digit_chars option.map_comp comp_def prod.map_comp id_def)
  next
    case 4
    have "number_loop st (d # r) = map_option (map_prod (\<lambda>text. d # takeWhile is_digit r @ text) id)
        (number_loop st (dropWhile is_digit r))"
      using 4 nonzero by (subst number_loop.simps) (simp add: Let_def)
    then show ?thesis using 4 by (simp add: id_def)
  qed
qed

lemma number_loop_Cons:
  assumes "st \<noteq> Invalid" "c \<in> set number_chars"
  shows "number_loop st (c # r) = map_option (map_prod ((#) c) id) (number_loop (number_delta st c) r)"
proof (cases "is_digit c \<and> c \<noteq> CHR ''0''")
  case True
  let ?st = "number_step [3, 3, 7, 3, 4, 6, 6] st"
  have "?st = Digits \<or> ?st = DigitsAfterPoints \<or> ?st = DigitsAfterE \<or> ?st = Invalid"
    by (cases st) (use assms(1) in \<open>simp_all add: number_step_def number_states_def\<close>)
  from number_loop_digits [OF this, of r] show ?thesis
    using True assms by (subst number_loop.simps)
      (simp add: Let_def number_delta_def option.map_comp comp_def prod.map_comp id_def)
next
  case False
  have "c = CHR ''0'' \<or> c = CHR ''.'' \<or> c = CHR ''-'' \<or> c = CHR ''+'' \<or> c = CHR ''e'' \<or> c = CHR ''E''"
    using False assms(2) by (auto simp: number_chars_digit)
  then show ?thesis using assms(1)
    by (subst number_loop.simps) (auto simp: Let_def number_delta_def digit_chars)
qed

lemma number_loop_stop:
  assumes "st \<noteq> Invalid" "s = [] \<or> hd s \<notin> set number_chars"
  shows "number_loop st s = (if number_accepted st then Some ([], s) else None)"
proof (cases s)
  case Nil
  then show ?thesis using assms by (simp add: number_loop.simps)
next
  case (Cons c r)
  then have "c \<notin> set number_chars" using assms by simp
  then show ?thesis using assms(1) Cons by (subst number_loop.simps) (simp add: Let_def no_number_char)
qed

lemma foldl_Invalid: "foldl number_delta Invalid t = Invalid"
  by (induction t) (simp_all add: number_delta_def)

lemma number_loop_iff:
  "number_loop st s = Some (t, r) \<longleftrightarrow>
   s = t @ r \<and> number_accepted (foldl number_delta st t) \<and> (r = [] \<or> hd r \<notin> set number_chars)"
proof (induction s arbitrary: st t)
  case Nil
  show ?case by (cases "st = Invalid")
      (auto simp: number_loop_Invalid number_loop_stop number_accepted_def)
next
  case (Cons c s)
  consider "st = Invalid" | "st \<noteq> Invalid" "c \<notin> set number_chars" | "st \<noteq> Invalid" "c \<in> set number_chars"
    by blast
  then show ?case
  proof cases
    case 1
    then show ?thesis by (auto simp: number_loop_Invalid foldl_Invalid number_accepted_def)
  next
    case 2
    then show ?thesis
      by (cases t) (auto simp: number_loop_stop number_delta_other foldl_Invalid number_accepted_def)
  next
    case 3
    show ?thesis
    proof (cases t)
      case Nil
      then show ?thesis using 3 by (auto simp: number_loop_Cons)
    next
      case (Cons a t')
      then show ?thesis using 3 Cons.IH [of "number_delta st c" t'] by (auto simp: number_loop_Cons)
    qed
  qed
qed

text \<open>The accepted texts as a grammar.\<close>

definition exponent_text :: "string \<Rightarrow> bool" where
  "exponent_text u =
     (u = [] \<or>
      (hd u = CHR ''e'' \<or> hd u = CHR ''E'') \<and> tl u \<noteq> [] \<and>
      (is_digit (hd (tl u)) \<or> hd (tl u) = CHR ''+'' \<or> hd (tl u) = CHR ''-'') \<and> list_all is_digit (tl (tl u)))"

definition point_text :: "string \<Rightarrow> bool" where
  "point_text u = (u \<noteq> [] \<and> hd u = CHR ''.'' \<and> exponent_text (dropWhile is_digit (tl u)))"

definition unsigned_text :: "string \<Rightarrow> bool" where
  "unsigned_text u =
     (u \<noteq> [] \<and>
      (if hd u = CHR ''0'' then tl u = [] \<or> point_text (tl u)
       else is_digit (hd u) \<and>
         (let v = dropWhile is_digit u in point_text v \<or> exponent_text v)))"

definition number_text :: "string \<Rightarrow> bool" where
  "number_text u = unsigned_text (if u \<noteq> [] \<and> hd u = CHR ''-'' then tl u else u)"

lemma number_char_cases:
  obtains (digit) "is_digit c" "c \<noteq> CHR ''.''" "c \<noteq> CHR ''-''" "c \<noteq> CHR ''+''" "c \<noteq> CHR ''e''" "c \<noteq> CHR ''E''"
  | (point) "c = CHR ''.''" | (minus) "c = CHR ''-''" | (plus) "c = CHR ''+''"
  | (exp_lower) "c = CHR ''e''" | (exp_upper) "c = CHR ''E''"
  | (other) "c \<notin> set number_chars"
  using digit_chars by (cases "c \<in> set number_chars") (auto simp: number_chars_digit)

lemma accepts_Invalid: "\<not> number_accepted (foldl number_delta Invalid u)"
  by (simp add: foldl_Invalid number_accepted_def)

lemma accepts_Nil:
  "number_accepted (foldl number_delta st []) \<longleftrightarrow>
   st = ZeroFirst \<or> st = Digits \<or> st = DigitsAfterPoints \<or> st = DigitsAfterE"
  by (simp add: number_accepted_def)

lemmas delta_simps = number_delta_digit number_delta_other accepts_Invalid accepts_Nil digit_chars no_number_char

lemma accepts_after_E:
  "number_accepted (foldl number_delta DigitsAfterE u) \<longleftrightarrow> list_all is_digit u"
proof (induction u)
  case (Cons c u)
  show ?case
    by (cases c rule: number_char_cases) (use Cons in \<open>simp_all add: delta_simps\<close>)
qed (simp add: number_accepted_def)

lemma accepts_E:
  "number_accepted (foldl number_delta E u) \<longleftrightarrow>
   u \<noteq> [] \<and> (is_digit (hd u) \<or> hd u = CHR ''+'' \<or> hd u = CHR ''-'') \<and> list_all is_digit (tl u)"
proof (cases u)
  case (Cons c v)
  then show ?thesis
    by (cases c rule: number_char_cases) (simp_all add: delta_simps accepts_after_E no_number_char)
qed (simp add: number_accepted_def)

lemma exponent_Cons:
  "exponent_text (c # u) \<longleftrightarrow> (c = CHR ''e'' \<or> c = CHR ''E'') \<and> number_accepted (foldl number_delta E u)"
  by (simp add: exponent_text_def accepts_E)

lemma exponent_Nil [simp]: "exponent_text []"
  by (simp add: exponent_text_def)

lemma accepts_points:
  "number_accepted (foldl number_delta DigitsAfterPoints u) \<longleftrightarrow> exponent_text (dropWhile is_digit u)"
proof (induction u)
  case (Cons c u)
  show ?case
    by (cases c rule: number_char_cases)
      (use Cons in \<open>simp_all add: delta_simps exponent_Cons no_number_char\<close>)
qed (simp add: number_accepted_def)

lemma point_Cons:
  "point_text (c # u) \<longleftrightarrow> c = CHR ''.'' \<and> number_accepted (foldl number_delta DigitsAfterPoints u)"
  by (simp add: point_text_def accepts_points)

lemma point_Nil [simp]: "\<not> point_text []"
  by (simp add: point_text_def)

lemma accepts_Digits:
  "number_accepted (foldl number_delta Digits u) \<longleftrightarrow>
   point_text (dropWhile is_digit u) \<or> exponent_text (dropWhile is_digit u)"
proof (induction u)
  case (Cons c u)
  show ?case
    by (cases c rule: number_char_cases)
      (use Cons in \<open>simp_all add: delta_simps exponent_Cons point_Cons no_number_char\<close>)
qed (simp add: number_accepted_def)

lemma accepts_ZeroFirst:
  "number_accepted (foldl number_delta ZeroFirst u) \<longleftrightarrow> u = [] \<or> point_text u"
proof (cases u)
  case (Cons c v)
  show ?thesis unfolding Cons
    by (cases c rule: number_char_cases) (simp_all add: delta_simps point_Cons no_number_char)
qed (simp add: number_accepted_def)

lemma accepts_unsigned:
  assumes "st = Minus \<and> (u = [] \<or> hd u \<noteq> CHR ''-'') \<or> st = AfterMinus"
  shows "number_accepted (foldl number_delta st u) \<longleftrightarrow> unsigned_text u"
proof (cases u)
  case Nil
  then show ?thesis using assms by (auto simp: number_accepted_def unsigned_text_def)
next
  case (Cons c v)
  have st: "st = Minus \<or> st = AfterMinus" using assms by blast
  show ?thesis
  proof (cases "is_digit c")
    case True
    have "number_delta st c = (if c = CHR ''0'' then ZeroFirst else Digits)"
      using st number_delta_digit [OF True, of st] by auto
    then show ?thesis using True
      by (simp add: Cons unsigned_text_def accepts_ZeroFirst accepts_Digits Let_def)
  next
    case False
    then have "number_delta st c = Invalid"
      using st assms Cons by (cases c rule: number_char_cases) (auto simp: number_delta_other)
    moreover have "c \<noteq> CHR ''0''" using False digit_chars by blast
    ultimately show ?thesis using False by (simp add: Cons unsigned_text_def accepts_Invalid)
  qed
qed

lemma number_text_accepted: "number_accepted (foldl number_delta Minus t) \<longleftrightarrow> number_text t"
proof (cases "t \<noteq> [] \<and> hd t = CHR ''-''")
  case True
  then obtain u where "t = CHR ''-'' # u" by (cases t) auto
  then show ?thesis by (simp add: number_delta_other accepts_unsigned number_text_def)
next
  case False
  then show ?thesis using accepts_unsigned [of Minus t] by (auto simp: number_text_def)
qed

text \<open>What may follow a number.\<close>

definition ends :: "string \<Rightarrow> bool" where
  "ends r = (r = [] \<or> hd r \<notin> set number_chars)"

lemma decode_number_iff:
  "decode_number s = Some (v, r) \<longleftrightarrow> (\<exists>t. v = JNumber t \<and> s = t @ r \<and> number_text t \<and> ends r)"
  by (auto simp: decode_number_def number_loop_iff number_text_accepted ends_def)

subsection \<open>What the parser accepts, and that it ends\<close>

text \<open>
  A well-formed value of at most \<open>n\<close> levels: numbers are number texts, every string can be
  unescaped.
\<close>

fun json_ok :: "nat \<Rightarrow> rvalue \<Rightarrow> bool" where
  "json_ok n (JNumber text) = number_text text"
| "json_ok n (JString esc raw) = (rvalue_s (JString esc raw) \<noteq> Inr None)"
| "json_ok 0 (JList vs) = False"
| "json_ok (Suc n) (JList vs) = list_all (json_ok n) vs"
| "json_ok 0 (JObject ms) = False"
| "json_ok (Suc n) (JObject ms) = list_all (\<lambda>m. json_ok n (snd m)) ms"
| "json_ok n JNull = True"
| "json_ok n JFalse = True"
| "json_ok n JTrue = True"

definition parsed_ok :: "nat \<Rightarrow> string \<Rightarrow> rvalue parsed \<Rightarrow> bool" where
  "parsed_ok k s res = (\<forall>v r. res = Parsed v r \<longrightarrow> length r < length s \<and> json_ok k v)"

lemma parsed_ok_simps [simp]:
  "parsed_ok k s Bad" "parsed_ok k s OutOfFuel"
  "parsed_ok k s (Parsed v r) \<longleftrightarrow> length r < length s \<and> json_ok k v"
  by (simp_all add: parsed_ok_def)

lemma parsed_ok_shorter: "parsed_ok k s res \<Longrightarrow> length s \<le> length s' \<Longrightarrow> parsed_ok k s' res"
  by (auto simp: parsed_ok_def)

lemma length_ws_skip: "length (ws_skip s) \<le> length s"
  by (simp add: ws_skip_def length_dropWhile_le)

lemma cur_tl: "cur s = c \<Longrightarrow> c \<noteq> NUL \<Longrightarrow> s = c # tl s"
  by (cases s) simp_all

lemma decode_string_ok:
  assumes "decode_string s = Some (v, r)"
  shows "length r < length s" "\<exists>k. rvalue_s v = Inr (Some k)" "json_ok n v"
proof -
  obtain esc raw where v: "v = JString esc raw" "string_body False (tl s) = Some (esc, raw, r)"
    using assms by (auto simp: decode_string_def split: if_splits)
  from body_unescapes [OF v(2)] obtain k where k: "unescape raw = Some k" "length r < length (tl s)"
    by auto
  show "length r < length s" using k(2) by simp
  show "\<exists>k. rvalue_s v = Inr (Some k)" using k(1) v(1) by simp
  then show "json_ok n v" using v(1) by auto
qed

lemma number_text_Nil: "\<not> number_text []"
  by (simp add: number_text_def unsigned_text_def)

lemma decode_scalar_ok: "parsed_ok k s (decode_scalar s)" "decode_scalar s \<noteq> OutOfFuel"
proof -
  have literal: "s = c # tl s \<Longrightarrow> length (drop (Suc n) s) < length s" for c n
    by (cases s) simp_all
  have number: "parsed_ok k s (parsed_of (decode_number s))"
    by (auto simp: parsed_of_def decode_number_iff split: option.splits)
        (metis number_text_Nil append_Nil length_greater_0_conv)+
  have str: "parsed_ok k s (parsed_of (decode_string s))"
    using decode_string_ok by (auto simp: parsed_of_def split: option.splits)
  show "parsed_ok k s (decode_scalar s)"
    using number str literal [of _ 3] literal [of _ 4] cur_tl [of s]
    by (auto simp: decode_scalar_def numeral_eq_Suc split: if_splits)
  show "decode_scalar s \<noteq> OutOfFuel"
    by (auto simp: decode_scalar_def parsed_of_def split: option.splits)
qed

definition levels :: "nat \<Rightarrow> nat" where
  "levels depth = (max_depth + 1 - depth) div 2"

lemma levels_step: "depth + 1 \<le> max_depth \<Longrightarrow> levels depth = Suc (levels (depth + 2))"
  by (simp add: levels_def max_depth_def)

definition nested_ok :: "nat \<Rightarrow> string \<Rightarrow> rvalue parsed \<Rightarrow> bool" where
  "nested_ok depth s res = (parsed_ok (Suc (levels (depth + 1))) s res \<and>
     (\<forall>v r. res = Parsed v r \<longrightarrow> depth \<le> max_depth))"

lemma nested_ok_simps [simp]:
  "nested_ok d s Bad" "nested_ok d s OutOfFuel"
  "nested_ok d s (Parsed v r) \<longleftrightarrow>
     d \<le> max_depth \<and> length r < length s \<and> json_ok (Suc (levels (d + 1))) v"
  by (auto simp: nested_ok_def)

lemma nested_ok_value: "nested_ok (depth + 1) s res \<Longrightarrow> parsed_ok (levels depth) s res"
  using levels_step [of depth] by (cases res) auto

lemma nested_ok_shorter: "nested_ok d s res \<Longrightarrow> length s \<le> length s' \<Longrightarrow> nested_ok d s' res"
  by (cases res) auto

lemma length_after: "cur s = c \<Longrightarrow> c \<noteq> NUL \<Longrightarrow> length (ws_skip (tl s)) < length s"
  using length_ws_skip [of "tl s"] by (cases s) auto

lemma length_tl_ws: "length (tl (ws_skip s)) \<le> length s"
  using length_ws_skip [of s] by simp

lemma decode_ok:
  "parsed_ok (levels depth) s (decode_value n depth s)"
  "nested_ok depth s (decode_list n depth s)"
  "list_all (json_ok (levels (depth + 1))) vs \<Longrightarrow> depth \<le> max_depth \<Longrightarrow>
     nested_ok depth s (decode_elements n depth vs s)"
  "nested_ok depth s (decode_object n depth s)"
  "list_all (\<lambda>m. json_ok (levels (depth + 1)) (snd m)) ms \<Longrightarrow> depth \<le> max_depth \<Longrightarrow>
     nested_ok depth s (decode_members n depth ms s)"
proof (induction n depth s and n depth s and n depth vs s and n depth s and n depth ms s
    rule: decode_value_decode_list_decode_elements_decode_object_decode_members.induct)
  case (2 n depth s)
  then show ?case
    using decode_scalar_ok(1) nested_ok_value [of depth s] by (simp only: decode_value.simps split: if_splits) auto
next
  case (4 n depth s)
  have IH: "cur s = CHR ''['' \<Longrightarrow> \<not> max_depth < depth \<Longrightarrow> cur (ws_skip (tl s)) \<noteq> CHR '']'' \<Longrightarrow>
      nested_ok depth (ws_skip (tl s)) (decode_elements n depth [] (ws_skip (tl s)))"
    using "4.IH" by simp
  show ?case
    using IH length_after [of s "CHR ''[''"] nested_ok_shorter [of depth "ws_skip (tl s)" _ s]
    by (auto simp: Let_def)
next
  case (6 n depth vs s)
  show ?case
  proof (cases "decode_value n (depth + 1) s")
    case (Parsed v r)
    have v: "length r < length s" "json_ok (levels (depth + 1)) v"
      using "6.IH"(1) Parsed by simp_all
    have "nested_ok depth (ws_skip (tl (ws_skip r))) (decode_elements n depth (vs @ [v]) (ws_skip (tl (ws_skip r))))"
      if "cur (ws_skip r) = CHR '',''"
      using "6.IH"(2) [OF Parsed refl refl] that "6.prems" v by simp
    moreover have "length (ws_skip (tl (ws_skip r))) \<le> length s"
      using v(1) length_tl_ws [of r] length_ws_skip [of "tl (ws_skip r)"] by simp
    ultimately show ?thesis
      using Parsed v "6.prems" length_tl_ws [of r] nested_ok_shorter
      by (auto simp: Let_def)
  qed simp_all
next
  case (8 n depth s)
  have IH: "cur s = CHR ''{'' \<Longrightarrow> \<not> max_depth < depth \<Longrightarrow> cur (ws_skip (tl s)) \<noteq> CHR ''}'' \<Longrightarrow>
      nested_ok depth (ws_skip (tl s)) (decode_members n depth [] (ws_skip (tl s)))"
    using "8.IH" by simp
  show ?case
    using IH length_after [of s "CHR ''{''"] nested_ok_shorter [of depth "ws_skip (tl s)" _ s]
    by (auto simp: Let_def)
next
  case (10 n depth ms s)
  show ?case
  proof (cases "decode_string s")
    case (Some tr)
    obtain t s1 where t: "decode_string s = Some (t, s1)" using Some by (cases tr) simp
    obtain key where key: "rvalue_s t = Inr (Some key)" "length s1 < length s"
      using decode_string_ok [OF t] by blast
    let ?s2 = "ws_skip (tl (ws_skip s1))"
    have s2: "length ?s2 < length s"
      using key(2) length_tl_ws [of s1] length_ws_skip [of "tl (ws_skip s1)"] by simp
    show ?thesis
    proof (cases "cur (ws_skip s1) = CHR '':''")
      case colon: True
      show ?thesis
      proof (cases "decode_value n (depth + 1) ?s2")
        case (Parsed v r)
        have v: "length r < length ?s2" "json_ok (levels (depth + 1)) v"
          using "10.IH"(1) [OF Some _ refl _ key(1) refl] t Parsed colon Some by simp_all
        have "nested_ok depth (ws_skip (tl (ws_skip r))) (decode_members n depth (ms @ [(key, v)]) (ws_skip (tl (ws_skip r))))"
          if "cur (ws_skip r) = CHR '',''"
          using "10.IH"(2) [OF Some _ refl _ key(1) refl Parsed refl refl] t that "10.prems" v colon Some by simp
        moreover have "length (ws_skip (tl (ws_skip r))) \<le> length s"
          using v(1) s2 length_tl_ws [of r] length_ws_skip [of "tl (ws_skip r)"] by simp
        ultimately show ?thesis
          using Parsed v t key s2 colon "10.prems" length_tl_ws [of r] nested_ok_shorter
          by (auto simp: Let_def)
      qed (use t key colon in simp_all)
    qed (use t in simp)
  qed simp
qed simp_all

text \<open>Fuel: three units per character are enough, and more of it changes nothing.\<close>

lemma value_shorter: "decode_value n depth s = Parsed v r \<Longrightarrow> length r < length s"
  using decode_ok(1) [of depth s n] by simp

lemma decode_enough:
  "3 * length s + 1 \<le> n \<Longrightarrow> decode_value n depth s \<noteq> OutOfFuel"
  "3 * length s \<le> n \<Longrightarrow> 0 < n \<Longrightarrow> decode_list n depth s \<noteq> OutOfFuel"
  "3 * length s + 2 \<le> n \<Longrightarrow> decode_elements n depth vs s \<noteq> OutOfFuel"
  "3 * length s \<le> n \<Longrightarrow> 0 < n \<Longrightarrow> decode_object n depth s \<noteq> OutOfFuel"
  "3 * length s + 2 \<le> n \<Longrightarrow> decode_members n depth ms s \<noteq> OutOfFuel"
proof (induction n depth s and n depth s and n depth vs s and n depth s and n depth ms s
    rule: decode_value_decode_list_decode_elements_decode_object_decode_members.induct)
  case (2 n depth s)
  have "0 < n" if "cur s = CHR ''['' \<or> cur s = CHR ''{''" using that "2.prems" by (cases s) auto
  then show ?case using 2 decode_scalar_ok(2) by auto
next
  case (4 n depth s)
  show ?case
    using 4 length_after [of s "CHR ''[''"] by (auto simp: Let_def)
next
  case (6 n depth vs s)
  have dv: "decode_value n (depth + 1) s \<noteq> OutOfFuel" using 6 by simp
  show ?case
  proof (cases "decode_value n (depth + 1) s")
    case (Parsed v r)
    have "length (ws_skip (tl (ws_skip r))) < length s"
      using value_shorter [OF Parsed] length_tl_ws [of r] length_ws_skip [of "tl (ws_skip r)"] by simp
    then have "decode_elements n depth (vs @ [v]) (ws_skip (tl (ws_skip r))) \<noteq> OutOfFuel"
      if "cur (ws_skip r) = CHR '',''"
      using "6.IH"(2) [OF Parsed refl refl] that "6.prems" by simp
    then show ?thesis using Parsed by (simp add: Let_def)
  qed (use dv in simp_all)
next
  case (8 n depth s)
  show ?case
    using 8 length_after [of s "CHR ''{''"] by (auto simp: Let_def)
next
  case (10 n depth ms s)
  show ?case
  proof (cases "decode_string s")
    case (Some tr)
    obtain t s1 where t: "decode_string s = Some (t, s1)" using Some by (cases tr) simp
    obtain key where key: "rvalue_s t = Inr (Some key)" "length s1 < length s"
      using decode_string_ok [OF t] by blast
    let ?s2 = "ws_skip (tl (ws_skip s1))"
    have s2: "length ?s2 < length s"
      using key(2) length_tl_ws [of s1] length_ws_skip [of "tl (ws_skip s1)"] by simp
    show ?thesis
    proof (cases "cur (ws_skip s1) = CHR '':''")
      case colon: True
      have dv: "decode_value n (depth + 1) ?s2 \<noteq> OutOfFuel"
        using "10.IH"(1) [OF Some _ refl _ key(1) refl] t colon Some s2 "10.prems" by simp
      show ?thesis
      proof (cases "decode_value n (depth + 1) ?s2")
        case (Parsed v r)
        have "length (ws_skip (tl (ws_skip r))) < length s"
          using value_shorter [OF Parsed] s2 length_tl_ws [of r] length_ws_skip [of "tl (ws_skip r)"] by simp
        then have "decode_members n depth (ms @ [(key, v)]) (ws_skip (tl (ws_skip r))) \<noteq> OutOfFuel"
          if "cur (ws_skip r) = CHR '',''"
          using "10.IH"(2) [OF Some _ refl _ key(1) refl Parsed refl refl] t that "10.prems" colon Some by simp
        then show ?thesis using Parsed t key colon by (simp add: Let_def)
      qed (use t key colon dv in simp_all)
    qed (use t in simp)
  qed simp
qed simp_all

lemma decode_more:
  "decode_value n depth s \<noteq> OutOfFuel \<Longrightarrow> decode_value (n + k) depth s = decode_value n depth s"
  "decode_list n depth s \<noteq> OutOfFuel \<Longrightarrow> decode_list (n + k) depth s = decode_list n depth s"
  "decode_elements n depth vs s \<noteq> OutOfFuel \<Longrightarrow> decode_elements (n + k) depth vs s = decode_elements n depth vs s"
  "decode_object n depth s \<noteq> OutOfFuel \<Longrightarrow> decode_object (n + k) depth s = decode_object n depth s"
  "decode_members n depth ms s \<noteq> OutOfFuel \<Longrightarrow> decode_members (n + k) depth ms s = decode_members n depth ms s"
proof (induction n depth s and n depth s and n depth vs s and n depth s and n depth ms s
    rule: decode_value_decode_list_decode_elements_decode_object_decode_members.induct)
  case (2 n depth s)
  then show ?case by auto
next
  case (4 n depth s)
  then show ?case by (auto simp: Let_def split: if_splits)
next
  case (6 n depth vs s)
  have "decode_value n (depth + 1) s \<noteq> OutOfFuel"
    using "6.prems" by (auto split: parsed.splits)
  then show ?case
    using 6 by (cases "decode_value n (depth + 1) s") (auto simp: Let_def split: if_splits)
next
  case (8 n depth s)
  then show ?case by (auto simp: Let_def split: if_splits)
next
  case (10 n depth ms s)
  show ?case
  proof (cases "decode_string s")
    case (Some tr)
    obtain t s1 where t: "decode_string s = Some (t, s1)" using Some by (cases tr) simp
    obtain key where key: "rvalue_s t = Inr (Some key)" using decode_string_ok [OF t] by blast
    let ?s2 = "ws_skip (tl (ws_skip s1))"
    show ?thesis
    proof (cases "cur (ws_skip s1) = CHR '':''")
      case colon: True
      have "decode_value n (depth + 1) ?s2 \<noteq> OutOfFuel"
        using "10.prems" t key colon by (auto split: parsed.splits)
      then have more: "decode_value (n + k) (depth + 1) ?s2 = decode_value n (depth + 1) ?s2"
        using "10.IH"(1) [OF Some _ refl _ key(1) refl] t colon Some by simp
      show ?thesis
      proof (cases "decode_value n (depth + 1) ?s2")
        case (Parsed v r)
        then have "cur (ws_skip r) = CHR '','' \<Longrightarrow>
            decode_members n depth (ms @ [(key, v)]) (ws_skip (tl (ws_skip r))) \<noteq> OutOfFuel"
          using "10.prems" t key colon by (auto simp: Let_def)
        then have "cur (ws_skip r) = CHR '','' \<Longrightarrow>
            decode_members (n + k) depth (ms @ [(key, v)]) (ws_skip (tl (ws_skip r))) =
            decode_members n depth (ms @ [(key, v)]) (ws_skip (tl (ws_skip r)))"
          using "10.IH"(2) [OF Some _ refl _ key(1) refl Parsed refl refl] t colon Some by simp
        then show ?thesis using Parsed t key colon more by (simp add: Let_def)
      qed (use t key colon more in simp_all)
    qed (use t in simp)
  qed simp
qed simp_all

lemma parse_enough: "parse (3 * length s + 1 + k) s \<noteq> OutOfFuel"
proof -
  have "decode_value (3 * length s + 1 + k) 0 (ws_skip s) \<noteq> OutOfFuel"
    using length_ws_skip [of s] by (intro decode_enough(1)) simp
  then show ?thesis
    by (cases "decode_value (3 * length s + 1 + k) 0 (ws_skip s)") (simp_all add: parse_def Let_def del: decode_value.simps)
qed

lemma parse_more:
  assumes "parse n s \<noteq> OutOfFuel"
  shows "parse (n + k) s = parse n s"
proof -
  have "decode_value n 0 (ws_skip s) \<noteq> OutOfFuel"
    using assms by (auto simp: parse_def simp del: decode_value.simps)
  then show ?thesis by (simp add: parse_def decode_more del: decode_value.simps)
qed

lemma parse_load:
  "json_load s = Some v \<longleftrightarrow> (\<exists>r. parse (3 * length s + 1 + k) s = Parsed v r)"
proof -
  have "parse (3 * length s + 1 + k) s = parse (3 * length s + 1) s"
    using parse_enough [of s 0] by (intro parse_more) simp
  then show ?thesis by (simp add: json_load_def split: parsed.splits)
qed

lemma load_ok_aux: "json_load s = Some v \<Longrightarrow> json_ok 5000 v"
  using decode_ok(1) [of 0 "ws_skip s" "3 * length s + 1"]
  by (auto simp: json_load_def parse_def Let_def levels_def max_depth_def simp del: decode_value.simps
      split: parsed.splits if_splits)


subsection \<open>The contract of the parser\<close>

text \<open>
  A quoted string escaped by \<open>escape\<close> is read by the parser up to its closing quote, and its
  value is the string that was escaped, whatever its bytes are.
\<close>

theorem json_string_roundtrip:
  "\<exists>esc. decode_string (quote # escape s @ quote # r) = Some (JString esc (escape s), r) \<and>
     rvalue_s (JString esc (escape s)) = Inr (Some s)"
  using decode_escaped [of s r] by blast

text \<open>
  A string the parser accepts is unescaped in place: its escapes are complete, so nothing is
  read behind its end, and its value is not longer than its text.
\<close>

theorem json_string_in_place:
  assumes "decode_string s = Some (v, r)"
  shows "\<exists>esc raw k. v = JString esc raw \<and> rvalue_s v = Inr (Some k) \<and> length k \<le> length raw \<and>
    length raw + length r + 2 = length s"
proof -
  obtain esc raw where v: "v = JString esc raw" "string_body False (tl s) = Some (esc, raw, r)" "s = quote # tl s"
    using assms cur_tl [of s quote] by (auto simp: decode_string_def split: if_splits)
  from body_length [OF v(2)] body_unescapes [OF v(2)] v(1) show ?thesis
    by (subst v(3)) auto
qed

text \<open>
  The automaton of \<open>decode_number\<close> accepts exactly the texts of the grammar \<open>number_text\<close>, and
  always the longest one: no character of a number follows.  (The grammar differs from that of
  JSON: a point or the sign of an exponent may end a number, and an exponent may not follow a single zero.)
\<close>

theorem json_number_grammar:
  "decode_number s = Some (v, r) \<longleftrightarrow> (\<exists>t. v = JNumber t \<and> s = t @ r \<and> number_text t \<and> ends r)"
  by (rule decode_number_iff)

text \<open>
  C28. The parser returns on every text: three units of fuel per character and one more are
  enough, and more fuel gives the same result.
\<close>

theorem json_parser_returns:
  "parse (3 * length s + 1 + k) s \<noteq> OutOfFuel \<and>
   (json_load s = Some v \<longleftrightarrow> (\<exists>r. parse (3 * length s + 1 + k) s = Parsed v r))"
  using parse_enough parse_load by blast

text \<open>
  C30. Every value the parser returns is well formed: its numbers are in the grammar, its strings can be
  unescaped, and it has at most 5000 levels, half of \<open>max_depth\<close>, because the depth is counted
  twice per level.
\<close>

theorem json_values_well_formed:
  assumes "json_load s = Some v"
  shows "json_ok 5000 v"
  using assms by (rule load_ok_aux)

text \<open>The deviations of the number grammar, on concrete texts.\<close>

theorem json_number_deviations:
  "json_load ''0e5'' = None" "json_load ''1.'' = Some (JNumber ''1.'')" "json_load ''1e+'' = Some (JNumber ''1e+'')"
  by code_simp+

theorem json_string_in_place_witness:
  "\<exists>esc raw k. JString True [CHR ''a'', backslash, CHR ''n''] = JString esc raw \<and>
    rvalue_s (JString True [CHR ''a'', backslash, CHR ''n'']) = Inr (Some k) \<and> length k \<le> length raw \<and>
    length raw + length '',1'' + 2 = length (quote # CHR ''a'' # backslash # CHR ''n'' # quote # '',1'')"
proof (rule json_string_in_place)
  show "decode_string (quote # CHR ''a'' # backslash # CHR ''n'' # quote # '',1'') =
      Some (JString True [CHR ''a'', backslash, CHR ''n''], '',1'')"
    by code_simp
qed

theorem json_values_well_formed_witness: "json_ok 5000 (JList [JNumber ''1'', JList []])"
proof (rule json_values_well_formed)
  show "json_load ''[1, []]'' = Some (JList [JNumber ''1'', JList []])" by code_simp
qed

end
