(* ===== verification/Crow_Json_Value.thy ===== *)
theory Crow_Json_Value
  imports Crow_Json
begin

text \<open>
  What the users of a JSON value ask it (\<open>rvalue\<close> in \<open>api/include/external/crow_all.h\<close>): its numbers,
  its members, and its printing by \<open>operator<<\<close>.  As in \<open>Crow_Json\<close>, \<open>Inl\<close> is an exception's
  message; \<open>None\<close> is what C++ leaves undefined.
\<close>

subsection \<open>Decimal numbers of the standard library\<close>

text \<open>\<open>std::to_string\<close>, and the reading of an integer from a stream in the C locale.\<close>

fun decimal_text :: "nat \<Rightarrow> string" where
  "decimal_text n =
     (if n < 10 then [char_of (48 + n)] else decimal_text (n div 10) @ [char_of (48 + n mod 10)])"

declare decimal_text.simps [simp del]

definition int_text :: "int \<Rightarrow> string" where
  "int_text i = (if i < 0 then CHR ''-'' # decimal_text (nat (- i)) else decimal_text (nat i))"

definition decimal_value :: "string \<Rightarrow> nat" where
  "decimal_value s = foldl (\<lambda>n c. 10 * n + (of_char c - 48)) 0 s"

text \<open>The sign and the digits at the start of a text, leading white space skipped.\<close>

definition is_space :: "char \<Rightarrow> bool" where
  "is_space c = (c \<in> {CHR '' '', CHR 0x09, CHR 0x0A, CHR 0x0B, CHR 0x0C, CHR 0x0D})"

definition stream_sign :: "string \<Rightarrow> bool \<times> string" where
  "stream_sign s =
     (let s = dropWhile is_space s
      in if s \<noteq> [] \<and> hd s = CHR ''-'' then (True, tl s)
         else if s \<noteq> [] \<and> hd s = CHR ''+'' then (False, tl s)
         else (False, s))"

definition stream_int64 :: "string \<Rightarrow> int" where
  "stream_int64 s =
     (let (neg, s) = stream_sign s;
          v = int (decimal_value (takeWhile is_digit s));
          v = (if neg then - v else v)
      in max (- (2 ^ 63)) (min (2 ^ 63 - 1) v))"

definition stream_uint64 :: "string \<Rightarrow> int" where
  "stream_uint64 s =
     (let (neg, s) = stream_sign s; v = int (decimal_value (takeWhile is_digit s))
      in if 2 ^ 64 \<le> v then 2 ^ 64 - 1 else if neg then (- v) mod 2 ^ 64 else v)"

subsection \<open>The code\<close>

datatype num_type =
  Signed_integer | Unsigned_integer | Floating_point | NumNull | Double_precision_floating_point

definition determine_num_type :: "rvalue \<Rightarrow> num_type" where
  "determine_num_type v =
     (case v of
        JNumber text \<Rightarrow>
          (let has_minus = CHR ''-'' \<in> set text;
               has_e = CHR ''e'' \<in> set text \<or> CHR ''E'' \<in> set text;
               has_dec_sep = CHR ''.'' \<in> set text
           in if has_dec_sep \<or> has_e then Floating_point
              else if has_minus then Signed_integer else Unsigned_integer)
      | _ \<Rightarrow> NumNull)"

definition rvalue_i :: "rvalue \<Rightarrow> string + int" where
  "rvalue_i v =
     (case v of
        JNumber text \<Rightarrow> Inr (stream_int64 text)
      | JString _ raw \<Rightarrow> Inr (stream_int64 raw)
      | _ \<Rightarrow> Inl (''expected number, got: '' @ get_type_str (t_of v)))"

definition rvalue_u :: "rvalue \<Rightarrow> string + int" where
  "rvalue_u v =
     (case v of
        JNumber text \<Rightarrow> Inr (stream_uint64 text)
      | JString _ raw \<Rightarrow> Inr (stream_uint64 raw)
      | _ \<Rightarrow> Inl (''expected number, got: '' @ get_type_str (t_of v)))"

definition rvalue_b :: "rvalue \<Rightarrow> string + bool" where
  "rvalue_b v =
     (if t_of v \<noteq> TTrue \<and> t_of v \<noteq> TFalse then Inl ''value is not boolean'' else Inr (t_of v = TTrue))"

text \<open>
  Members are found by sorting them by key and a binary search; keys are compared as sequences of
  signed characters.  Of members with the same key the library may find any, here it is the first.
\<close>

definition key_order :: "string \<Rightarrow> int list" where
  "key_order k = map schar k"

definition sorted_members :: "(string \<times> rvalue) list \<Rightarrow> (string \<times> rvalue) list" where
  "sorted_members ms = sort_key (\<lambda>m. key_order (fst m)) ms"

definition lower_bound :: "string \<Rightarrow> (string \<times> rvalue) list \<Rightarrow> (string \<times> rvalue) list" where
  "lower_bound str ms = dropWhile (\<lambda>m. key_order (fst m) < key_order str) ms"

definition rvalue_has :: "rvalue \<Rightarrow> string \<Rightarrow> string + bool option" where
  "rvalue_has v str =
     (case v of
        JObject ms \<Rightarrow>
          (let it = lower_bound str (sorted_members ms) in Inr (Some (it \<noteq> [] \<and> fst (hd it) = str)))
      | JList _ \<Rightarrow> Inr None
      | _ \<Rightarrow> Inl ''value is not a container'')"

definition rvalue_at :: "rvalue \<Rightarrow> string \<Rightarrow> string + rvalue" where
  "rvalue_at v str =
     (case v of
        JObject ms \<Rightarrow>
          (let it = lower_bound str (sorted_members ms)
           in if it \<noteq> [] \<and> fst (hd it) = str then Inr (snd (hd it))
              else Inl (''cannot find key: '' @ str))
      | _ \<Rightarrow> Inl ''value is not an object'')"

definition rvalue_index :: "rvalue \<Rightarrow> int \<Rightarrow> string + rvalue" where
  "rvalue_index v i =
     (case v of
        JList vs \<Rightarrow> if int (length vs) \<le> i \<or> i < 0 then Inl ''list out of bound'' else Inr (vs ! nat i)
      | _ \<Rightarrow> Inl ''value is not a list'')"

definition rvalue_size :: "rvalue \<Rightarrow> string + nat option" where
  "rvalue_size v =
     (case v of
        JString esc raw \<Rightarrow> Inr (map_option length (if esc then unescape raw else Some raw))
      | JList vs \<Rightarrow> Inr (Some (length vs))
      | JObject ms \<Rightarrow> Inr (Some (length ms))
      | _ \<Rightarrow> Inl ''value is not a container'')"

definition rvalue_keys :: "rvalue \<Rightarrow> string + string list" where
  "rvalue_keys v = (case v of JObject ms \<Rightarrow> Inr (map fst ms) | _ \<Rightarrow> Inl ''value is not an object'')"

text \<open>
  Printing; \<open>sd\<close> is the standard library's reading of a floating-point text and printing of it.
\<close>

fun commas :: "string list \<Rightarrow> string" where
  "commas [] = []"
| "commas [x] = x"
| "commas (x # y # xs) = x @ CHR '','' # commas (y # xs)"

fun print_value :: "(string \<Rightarrow> string) \<Rightarrow> rvalue \<Rightarrow> string option" where
  "print_value sd JNull = Some ''null''"
| "print_value sd JFalse = Some ''false''"
| "print_value sd JTrue = Some ''true''"
| "print_value sd (JNumber text) =
     (case determine_num_type (JNumber text) of
        Signed_integer \<Rightarrow> Some (int_text (stream_int64 text))
      | Unsigned_integer \<Rightarrow> Some (int_text (stream_uint64 text))
      | _ \<Rightarrow> Some (sd text))"
| "print_value sd (JString esc raw) =
     map_option (\<lambda>s. quote # s @ [quote]) (if esc then unescape raw else Some raw)"
| "print_value sd (JList vs) =
     map_option (\<lambda>ts. CHR ''['' # commas ts @ [CHR '']'']) (those (map (print_value sd) vs))"
| "print_value sd (JObject ms) =
     map_option (\<lambda>ts. CHR ''{'' # commas ts @ [CHR ''}''])
       (those (map (\<lambda>m. map_option (\<lambda>text. quote # escape (fst m) @ [quote, CHR '':''] @ text)
          (print_value sd (snd m))) ms))"

text \<open>
  The array behind a list or an object: when its slots are used up it is moved to one of twice its
  size, at most 60000 slots more and at least 4.  \<open>None\<close> is writing behind the slots.  The parser
  collects its elements and members in plain lists, see \<open>Crow_Json\<close>; the array that holds them in the
  program is treated here on its own.
\<close>

record 'a rvalue_array =
  l_items :: "'a list"
  slots :: nat
  lremain :: u16

definition new_size :: "u32 \<Rightarrow> u32" where
  "new_size lsize =
     (let new_size = lsize + lsize;
          new_size = (if 60000 < new_size - lsize then lsize + 60000 else new_size)
      in if sint new_size < 4 then 4 else new_size)"

definition emplace_back :: "'a \<Rightarrow> 'a rvalue_array \<Rightarrow> 'a rvalue_array option" where
  "emplace_back v r =
     (let lsize = (of_nat (length (l_items r)) :: u32);
          r = (if lremain r = 0
               then r\<lparr>slots := unat (new_size lsize), lremain := ucast (new_size lsize - lsize)\<rparr>
               else r)
      in if slots r \<le> unat lsize then None
         else Some (r\<lparr>l_items := l_items r @ [v], lremain := lremain r - 1\<rparr>))"

subsection \<open>Decimal texts\<close>

lemma digit_char:
  fixes n :: nat
  assumes "n < 10"
  shows "of_char (char_of (48 + n) :: char) = 48 + n" "is_digit (char_of (48 + n))"
proof -
  show "of_char (char_of (48 + n) :: char) = 48 + n" using assms by simp
  have "n \<in> set [0..<10]" using assms by simp
  moreover have "list_all (\<lambda>n. is_digit (char_of (48 + n))) [0..<10::nat]" by code_simp
  ultimately show "is_digit (char_of (48 + n))" by (simp only: list_all_iff)
qed

lemma decimal_digits: "list_all is_digit (decimal_text n) \<and> decimal_text n \<noteq> []"
proof (induction n rule: decimal_text.induct)
  case (1 n)
  show ?case
    using 1 digit_char(2) [of n] digit_char(2) [of "n mod 10"] by (simp add: decimal_text.simps [of n])
qed

lemma decimal_value_text: "decimal_value (decimal_text n) = n"
proof (induction n rule: decimal_text.induct)
  case (1 n)
  show ?case
  proof (cases "n < 10")
    case True
    then show ?thesis by (simp add: decimal_text.simps [of n] decimal_value_def digit_char)
  next
    case False
    then show ?thesis
      using 1 digit_char(1) [of "n mod 10"]
      by (simp add: decimal_text.simps [of n] decimal_value_def)
  qed
qed

lemma zero_char_digit: "CHR ''0'' = char_of (48 + 0 :: nat)"
  by code_simp

lemma decimal_leading:
  "0 < n \<Longrightarrow> hd (decimal_text n) \<noteq> CHR ''0''"
proof (induction n rule: decimal_text.induct)
  case (1 n)
  show ?case
  proof (cases "n < 10")
    case True
    have "char_of (48 + n) \<noteq> CHR ''0''"
    proof
      assume "char_of (48 + n) = CHR ''0''"
      then have "of_char (char_of (48 + n) :: char) = (of_char (CHR ''0'') :: nat)" by (simp only:)
      then show False using digit_char(1) [OF True] 1(2) by simp
    qed
    then show ?thesis using True by (simp add: decimal_text.simps [of n])
  next
    case False
    then show ?thesis using 1 decimal_digits [of "n div 10"] by (simp add: decimal_text.simps [of n])
  qed
qed

lemma digits_unsigned: "list_all is_digit ds \<Longrightarrow> ds \<noteq> [] \<Longrightarrow> hd ds \<noteq> CHR ''0'' \<or> tl ds = [] \<Longrightarrow> unsigned_text ds"
proof -
  assume ds: "list_all is_digit ds" "ds \<noteq> []" "hd ds \<noteq> CHR ''0'' \<or> tl ds = []"
  have "exponent_text (dropWhile is_digit ds)"
    using ds(1) by (metis dropWhile_eq_Nil_conv list_all_iff exponent_Nil)
  moreover have "is_digit (hd ds)" using ds by (cases ds) simp_all
  ultimately show ?thesis using ds(2,3) by (auto simp: unsigned_text_def Let_def)
qed

lemma decimal_zero: "decimal_text 0 = ''0''"
  by (simp add: decimal_text.simps zero_char_digit)

lemma decimal_unsigned: "unsigned_text (decimal_text n)"
  using decimal_digits [of n] decimal_leading [of n] by (cases n) (auto simp: decimal_zero intro: digits_unsigned)

lemma digit_other: "list_all is_digit ds \<Longrightarrow> \<not> is_digit c \<Longrightarrow> c \<notin> set ds"
  by (auto simp: list_all_iff)

lemma decimal_other: "\<not> is_digit c \<Longrightarrow> c \<notin> set (decimal_text n)"
  using decimal_digits digit_other by blast

lemma decimal_Nil [simp]: "decimal_text n \<noteq> []"
  using decimal_digits by blast

lemma decimal_hd: "is_digit (hd (decimal_text n))"
  using decimal_digits [of n] by (cases "decimal_text n") simp_all

lemma number_text_int: "number_text (int_text i)"
  using decimal_hd [of "nat i"] by (auto simp: number_text_def int_text_def decimal_unsigned digit_chars)

lemma no_space_digit: "is_digit c \<Longrightarrow> \<not> is_space c"
  by (auto simp: is_space_def is_digit_char)

lemma stream_sign_decimal: "stream_sign (decimal_text n) = (False, decimal_text n)"
proof -
  have "\<not> is_space (hd (decimal_text n))" by (simp add: decimal_hd no_space_digit)
  then have "dropWhile is_space (decimal_text n) = decimal_text n" by (cases "decimal_text n") simp_all
  moreover have "hd (decimal_text n) \<noteq> CHR ''-''" "hd (decimal_text n) \<noteq> CHR ''+''"
    using decimal_hd [of n] digit_chars by metis+
  ultimately show ?thesis by (simp add: stream_sign_def)
qed

lemma take_digits: "takeWhile is_digit (decimal_text n) = decimal_text n"
  using decimal_digits [of n] by (simp add: takeWhile_eq_all_conv list_all_iff)

lemma stream_int_text:
  "- (2 ^ 63) \<le> i \<Longrightarrow> i < 2 ^ 63 \<Longrightarrow> stream_int64 (int_text i) = i"
proof -
  assume i: "- (2 ^ 63) \<le> i" "i < 2 ^ 63"
  have "stream_sign (int_text i) = (i < 0, decimal_text (nat \<bar>i\<bar>))"
    by (auto simp: int_text_def stream_sign_decimal) (simp add: stream_sign_def is_space_def)
  then show ?thesis using i
    by (simp add: stream_int64_def take_digits decimal_value_text Let_def)
qed

lemma stream_uint_text: "0 \<le> i \<Longrightarrow> i < 2 ^ 64 \<Longrightarrow> stream_uint64 (int_text i) = i"
  by (simp add: stream_uint64_def int_text_def stream_sign_decimal take_digits decimal_value_text Let_def)
    arith

lemma num_type_int: "determine_num_type (JNumber (int_text i)) = (if i < 0 then Signed_integer else Unsigned_integer)"
  using decimal_other digit_chars
  by (simp add: determine_num_type_def int_text_def)

lemma print_int:
  "- (2 ^ 63) \<le> i \<Longrightarrow> i < 2 ^ 64 \<Longrightarrow> print_value sd (JNumber (int_text i)) = Some (int_text i)"
  by (simp add: num_type_int stream_int_text stream_uint_text)

subsection \<open>Printing and reading again\<close>

text \<open>
  The values \<open>operator<<\<close> prints as they are: at most \<open>n\<close> levels, integers in the range of 64 bits in
  their usual decimal form and no floats, strings without quotes, backslashes and NUL that were not
  written with an escape.
\<close>

definition plain_string :: "string \<Rightarrow> bool" where
  "plain_string s = (quote \<notin> set s \<and> backslash \<notin> set s \<and> NUL \<notin> set s)"

fun json_plain :: "nat \<Rightarrow> rvalue \<Rightarrow> bool" where
  "json_plain n (JNumber text) = (\<exists>i. text = int_text i \<and> - (2 ^ 63) \<le> i \<and> i < 2 ^ 64)"
| "json_plain n (JString esc raw) = (\<not> esc \<and> plain_string raw)"
| "json_plain 0 (JList vs) = False"
| "json_plain (Suc n) (JList vs) = list_all (json_plain n) vs"
| "json_plain 0 (JObject ms) = False"
| "json_plain (Suc n) (JObject ms) = list_all (\<lambda>m. json_plain n (snd m)) ms"
| "json_plain n JNull = True"
| "json_plain n JFalse = True"
| "json_plain n JTrue = True"

fun print_plain :: "rvalue \<Rightarrow> string" where
  "print_plain JNull = ''null''"
| "print_plain JFalse = ''false''"
| "print_plain JTrue = ''true''"
| "print_plain (JNumber text) = text"
| "print_plain (JString esc raw) = quote # raw @ [quote]"
| "print_plain (JList vs) = CHR ''['' # commas (map print_plain vs) @ [CHR '']'']"
| "print_plain (JObject ms) = CHR ''{'' #
     commas (map (\<lambda>m. quote # escape (fst m) @ [quote, CHR '':''] @ print_plain (snd m)) ms) @ [CHR ''}'']"

lemma those_map_Some: "list_all (\<lambda>x. f x = Some (g x)) xs \<Longrightarrow> those (map f xs) = Some (map g xs)"
  by (induction xs) simp_all

lemma print_value_plain: "json_plain n v \<Longrightarrow> print_value sd v = Some (print_plain v)"
proof (induction n v rule: json_plain.induct)
  case (1 n u)
  then show ?case using print_int by auto
next
  case (4 n vs)
  then have "those (map (print_value sd) vs) = Some (map print_plain vs)"
    by (intro those_map_Some) (simp add: list_all_iff)
  then show ?case by simp
next
  case (6 n ms)
  then have "those (map (\<lambda>m. map_option (\<lambda>text. quote # escape (fst m) @ [quote, CHR '':''] @ text)
      (print_value sd (snd m))) ms) =
    Some (map (\<lambda>m. quote # escape (fst m) @ [quote, CHR '':''] @ print_plain (snd m)) ms)"
    by (intro those_map_Some) (auto simp: list_all_iff)
  then show ?case by simp
qed auto

text \<open>Reading a printed value that is followed by a character that ends it.\<close>

lemma body_plain_string:
  "plain_string s \<Longrightarrow> string_body esc (s @ quote # r) = Some (esc, s, r)"
  by (induction s) (auto simp: plain_string_def body_plain)

lemma ws_skip_start: "s = [] \<or> cur s \<notin> {CHR '' '', CHR 0x09, CHR 0x0D, CHR 0x0A} \<Longrightarrow> ws_skip s = s"
  by (cases s) (auto simp: ws_skip_def)

text \<open>The first character of a printed value.\<close>

lemma cur_append: "s \<noteq> [] \<Longrightarrow> cur (s @ r) = hd s"
  by (cases s) simp_all

lemma int_text_Nil [simp]: "int_text i \<noteq> []"
  by (simp add: int_text_def)

lemma int_text_hd: "is_digit (hd (int_text i)) \<or> hd (int_text i) = CHR ''-''"
  using decimal_hd by (simp add: int_text_def)

lemma decode_int:
  "ends r \<Longrightarrow> decode_scalar (int_text i @ r) = Parsed (JNumber (int_text i)) r"
proof -
  assume "ends r"
  then have "decode_number (int_text i @ r) = Some (JNumber (int_text i), r)"
    by (auto simp: decode_number_iff number_text_int ends_def)
  moreover have "cur (int_text i @ r) \<notin> {quote, CHR ''t'', CHR ''f'', CHR ''n''}"
    using int_text_hd [of i] by (auto simp: cur_append is_digit_char)
  ultimately show ?thesis by (auto simp: decode_scalar_def parsed_of_def)
qed

definition print_start :: "char \<Rightarrow> bool" where
  "print_start c = (c \<notin> {CHR '' '', CHR 0x09, CHR 0x0D, CHR 0x0A, CHR '']'', CHR ''}'', NUL})"

lemma print_hd: "json_plain n v \<Longrightarrow> print_plain v \<noteq> [] \<and> print_start (hd (print_plain v))"
proof (cases v)
  case (JNumber u)
  assume "json_plain n v"
  then obtain i where "u = int_text i" using JNumber by auto
  then show ?thesis using JNumber int_text_hd [of i] by (auto simp: print_start_def is_digit_char)
qed (auto simp: print_start_def)

lemma start_after:
  assumes "s \<noteq> []" "print_start (hd s)"
  shows "ws_skip (s @ r) = s @ r" "cur (s @ r) \<noteq> CHR '']''" "cur (s @ r) \<noteq> CHR ''}''"
  using assms by (auto simp: print_start_def cur_append intro!: ws_skip_start)

lemma decode_plain_scalar:
  assumes "json_plain n v" "t_of v \<noteq> TList" "t_of v \<noteq> TObject" "ends r"
  shows "\<exists>m. decode_value m depth (print_plain v @ r) = Parsed v r"
proof -
  have "decode_scalar (print_plain v @ r) = Parsed v r \<and> cur (print_plain v @ r) \<notin> {CHR ''['', CHR ''{''}"
  proof (cases v)
    case (JNumber u)
    then obtain i where "u = int_text i" using assms(1) by auto
    then show ?thesis using JNumber decode_int [OF assms(4)] int_text_hd [of i]
      by (auto simp: cur_append is_digit_char)
  next
    case (JString esc raw)
    then show ?thesis using assms(1)
      by (simp add: decode_scalar_def decode_string_def parsed_of_def body_plain_string)
  qed (use assms in \<open>simp_all add: decode_scalar_def numeral_eq_Suc\<close>)
  then have "decode_value (Suc 0) depth (print_plain v @ r) = Parsed v r" by simp
  then show ?thesis by blast
qed

lemma decode_raise: "decode_value m depth s = Parsed v r \<Longrightarrow> m \<le> n \<Longrightarrow> decode_value n depth s = Parsed v r"
  using decode_more(1) [of m depth s "n - m"] by simp

lemma elements_raise: "decode_elements m depth vs s = Parsed v r \<Longrightarrow> m \<le> n \<Longrightarrow> decode_elements n depth vs s = Parsed v r"
  using decode_more(3) [of m depth vs s "n - m"] by simp

lemma members_raise: "decode_members m depth vs s = Parsed v r \<Longrightarrow> m \<le> n \<Longrightarrow> decode_members n depth vs s = Parsed v r"
  using decode_more(5) [of m depth vs s "n - m"] by simp

lemma ends_simps: "ends (CHR '']'' # r)" "ends (CHR ''}'' # r)" "ends (CHR '','' # r)"
  by (simp_all add: ends_def number_chars_def)

lemma ws_skip_marks: "ws_skip (CHR '']'' # r) = CHR '']'' # r" "ws_skip (CHR ''}'' # r) = CHR ''}'' # r"
  "ws_skip (CHR '','' # r) = CHR '','' # r" "ws_skip (CHR '':'' # r) = CHR '':'' # r" "ws_skip (quote # r) = quote # r"
  by (simp_all add: ws_skip_def)

lemma decode_elements_plain:
  assumes "\<And>v r. v \<in> set (v0 # vs) \<Longrightarrow> ends r \<Longrightarrow> \<exists>m. decode_value m (depth + 1) (print_plain v @ r) = Parsed v r"
    and "\<And>v. v \<in> set (v0 # vs) \<Longrightarrow> print_plain v \<noteq> [] \<and> print_start (hd (print_plain v))"
  shows "\<exists>m. decode_elements m depth ws (commas (map print_plain (v0 # vs)) @ CHR '']'' # r) =
    Parsed (JList (ws @ v0 # vs)) r"
  using assms
proof (induction vs arbitrary: v0 ws)
  case Nil
  obtain m where "decode_value m (depth + 1) (print_plain v0 @ CHR '']'' # r) = Parsed v0 (CHR '']'' # r)"
    using Nil(1) [of v0 "CHR '']'' # r"] by (auto simp: ends_simps)
  then have "decode_elements (Suc m) depth ws (commas (map print_plain [v0]) @ CHR '']'' # r) = Parsed (JList (ws @ [v0])) r"
    by (simp add: ws_skip_marks Let_def)
  then show ?case by blast
next
  case (Cons v1 vs)
  let ?rest = "commas (map print_plain (v1 # vs)) @ CHR '']'' # r"
  obtain m1 where m1: "decode_value m1 (depth + 1) (print_plain v0 @ CHR '','' # ?rest) = Parsed v0 (CHR '','' # ?rest)"
    using Cons.prems(1) [of v0 "CHR '','' # ?rest"] by (auto simp: ends_simps)
  obtain m2 where m2: "decode_elements m2 depth (ws @ [v0]) ?rest = Parsed (JList ((ws @ [v0]) @ v1 # vs)) r"
  proof -
    have "\<exists>m. decode_elements m depth (ws @ [v0]) ?rest = Parsed (JList ((ws @ [v0]) @ v1 # vs)) r"
      by (rule Cons.IH) (rule Cons.prems; simp)+
    then show thesis using that by blast
  qed
  have skip: "ws_skip ?rest = ?rest"
    using Cons.prems(2) [of v1] start_after(1) [of "print_plain v1"] by (cases vs) simp_all
  have "decode_elements (Suc (max m1 m2)) depth ws (print_plain v0 @ CHR '','' # ?rest) =
      Parsed (JList (ws @ v0 # v1 # vs)) r"
    using decode_raise [OF m1, of "max m1 m2"] elements_raise [OF m2, of "max m1 m2"] skip
    by (simp add: ws_skip_marks Let_def del: commas.simps)
  moreover have "commas (map print_plain (v0 # v1 # vs)) @ CHR '']'' # r = print_plain v0 @ CHR '','' # ?rest"
    by simp
  ultimately show ?case by (simp only:) blast
qed

lemma decode_members_plain:
  assumes "\<And>k v r. (k, v) \<in> set (m0 # ms) \<Longrightarrow> ends r \<Longrightarrow> \<exists>m. decode_value m (depth + 1) (print_plain v @ r) = Parsed v r"
    and "\<And>k v. (k, v) \<in> set (m0 # ms) \<Longrightarrow> print_plain v \<noteq> [] \<and> print_start (hd (print_plain v))"
  shows "\<exists>m. decode_members m depth ws
      (commas (map (\<lambda>m. quote # escape (fst m) @ [quote, CHR '':''] @ print_plain (snd m)) (m0 # ms)) @ CHR ''}'' # r) =
    Parsed (JObject (ws @ m0 # ms)) r"
  using assms
proof (induction ms arbitrary: m0 ws)
  case Nil
  obtain k v where m0: "m0 = (k, v)" by (cases m0)
  obtain m where m: "decode_value m (depth + 1) (print_plain v @ CHR ''}'' # r) = Parsed v (CHR ''}'' # r)"
    using Nil(1) [of k v "CHR ''}'' # r"] by (auto simp: ends_simps m0)
  have start: "ws_skip (print_plain v @ CHR ''}'' # r) = print_plain v @ CHR ''}'' # r"
    using Nil(2) [of k v] start_after(1) by (simp add: m0)
  show ?case
  proof (rule decode_escaped [of k "CHR '':'' # print_plain v @ CHR ''}'' # r"])
    fix esc
    assume "decode_string (quote # escape k @ quote # CHR '':'' # print_plain v @ CHR ''}'' # r) =
        Some (JString esc (escape k), CHR '':'' # print_plain v @ CHR ''}'' # r)"
      "rvalue_s (JString esc (escape k)) = Inr (Some k)"
    then have "decode_members (Suc m) depth ws (quote # escape k @ quote # CHR '':'' # print_plain v @ CHR ''}'' # r) =
        Parsed (JObject (ws @ [m0])) r"
      using m start by (simp add: ws_skip_marks Let_def m0)
    moreover have "commas (map (\<lambda>m. quote # escape (fst m) @ [quote, CHR '':''] @ print_plain (snd m)) [m0]) @ CHR ''}'' # r =
        quote # escape k @ quote # CHR '':'' # print_plain v @ CHR ''}'' # r" by (simp add: m0)
    ultimately show ?thesis by (simp only:) blast
  qed
next
  case (Cons m1 ms)
  obtain k v where m0: "m0 = (k, v)" by (cases m0)
  let ?f = "\<lambda>m. quote # escape (fst m) @ [quote, CHR '':''] @ print_plain (snd m)"
  let ?rest = "commas (map ?f (m1 # ms)) @ CHR ''}'' # r"
  obtain n1 where n1: "decode_value n1 (depth + 1) (print_plain v @ CHR '','' # ?rest) = Parsed v (CHR '','' # ?rest)"
    using Cons.prems(1) [of k v "CHR '','' # ?rest"] by (auto simp: ends_simps m0)
  obtain n2 where n2: "decode_members n2 depth (ws @ [m0]) ?rest = Parsed (JObject ((ws @ [m0]) @ m1 # ms)) r"
  proof -
    have "\<exists>n. decode_members n depth (ws @ [m0]) ?rest = Parsed (JObject ((ws @ [m0]) @ m1 # ms)) r"
    proof (rule Cons.IH)
      fix k v r
      assume "(k, v) \<in> set (m1 # ms)"
      then have "(k, v) \<in> set (m0 # m1 # ms)" by simp
      from Cons.prems(1) [OF this]
      show "ends r \<Longrightarrow> \<exists>m. decode_value m (depth + 1) (print_plain v @ r) = Parsed v r" .
    next
      fix k v
      assume "(k, v) \<in> set (m1 # ms)"
      then have "(k, v) \<in> set (m0 # m1 # ms)" by simp
      from Cons.prems(2) [OF this]
      show "print_plain v \<noteq> [] \<and> print_start (hd (print_plain v))" .
    qed
    then show thesis using that by blast
  qed
  have skip: "ws_skip ?rest = ?rest" by (cases ms) (simp_all add: ws_skip_marks)
  have start: "ws_skip (print_plain v @ CHR '','' # ?rest) = print_plain v @ CHR '','' # ?rest"
    using Cons.prems(2) [of k v] start_after(1) by (simp add: m0)
  show ?case
  proof (rule decode_escaped [of k "CHR '':'' # print_plain v @ CHR '','' # ?rest"])
    fix esc
    assume "decode_string (quote # escape k @ quote # CHR '':'' # print_plain v @ CHR '','' # ?rest) =
        Some (JString esc (escape k), CHR '':'' # print_plain v @ CHR '','' # ?rest)"
      "rvalue_s (JString esc (escape k)) = Inr (Some k)"
    then have "decode_members (Suc (max n1 n2)) depth ws (quote # escape k @ quote # CHR '':'' # print_plain v @ CHR '','' # ?rest) =
        Parsed (JObject (ws @ m0 # m1 # ms)) r"
      using decode_raise [OF n1, of "max n1 n2"] members_raise [OF n2, of "max n1 n2"] start skip
      by (simp add: ws_skip_marks Let_def m0 del: commas.simps)
    moreover have "commas (map ?f (m0 # m1 # ms)) @ CHR ''}'' # r =
        quote # escape k @ quote # CHR '':'' # print_plain v @ CHR '','' # ?rest" by (simp add: m0)
    ultimately show ?thesis by (simp only:) blast
  qed
qed

lemma commas_start:
  assumes "x \<noteq> []" "print_start (hd x)"
  shows "ws_skip (commas (x # xs) @ r) = commas (x # xs) @ r" "cur (commas (x # xs) @ r) \<noteq> CHR '']''"
    "cur (commas (x # xs) @ r) \<noteq> CHR ''}''"
  using assms start_after by (cases xs; simp)+

lemma decode_plain:
  "json_plain k v \<Longrightarrow> 2 * k + depth \<le> max_depth + 1 \<Longrightarrow> ends r \<Longrightarrow>
   \<exists>m. decode_value m depth (print_plain v @ r) = Parsed v r"
proof (induction k v arbitrary: depth r rule: json_plain.induct)
  case (4 n vs)
  have depth: "depth + 1 \<le> max_depth" "2 * n + (depth + 1 + 1) \<le> max_depth + 1" using "4.prems"(2) by simp_all
  show ?case
  proof (cases vs)
    case Nil
    then have "decode_value (Suc (Suc 0)) depth (print_plain (JList vs) @ r) = Parsed (JList vs) r"
      using depth(1) by (simp add: ws_skip_marks Let_def)
    then show ?thesis by blast
  next
    case (Cons v0 ws)
    let ?t = "commas (map print_plain vs) @ CHR '']'' # r"
    have hds: "\<And>v. v \<in> set vs \<Longrightarrow> print_plain v \<noteq> [] \<and> print_start (hd (print_plain v))"
      using "4.prems"(1) print_hd by (auto simp: list_all_iff)
    have vals: "\<exists>m. decode_value m (depth + 1 + 1) (print_plain v @ r) = Parsed v r"
      if "v \<in> set vs" "ends r" for v r
      using "4.IH" [of v "depth + 1 + 1" r] that "4.prems"(1) depth(2) by (simp add: list_all_iff)
    obtain m where m: "decode_elements m (depth + 1) [] ?t = Parsed (JList vs) r"
      using decode_elements_plain [of v0 ws "depth + 1" "[]" r] vals hds unfolding Cons by auto
    have "decode_value (Suc (Suc m)) depth (print_plain (JList vs) @ r) = Parsed (JList vs) r"
      using m depth(1) commas_start [of "print_plain v0" "map print_plain ws" "CHR '']'' # r"] hds [of v0]
      by (simp add: Cons Let_def)
    then show ?thesis by blast
  qed
next
  case (6 n ms)
  have depth: "depth + 1 \<le> max_depth" "2 * n + (depth + 1 + 1) \<le> max_depth + 1" using "6.prems"(2) by simp_all
  let ?f = "\<lambda>m. quote # escape (fst m) @ [quote, CHR '':''] @ print_plain (snd m)"
  show ?case
  proof (cases ms)
    case Nil
    then have "decode_value (Suc (Suc 0)) depth (print_plain (JObject ms) @ r) = Parsed (JObject ms) r"
      using depth(1) by (simp add: ws_skip_marks Let_def)
    then show ?thesis by blast
  next
    case (Cons m0 ws)
    let ?t = "commas (map ?f ms) @ CHR ''}'' # r"
    have hds: "\<And>k v. (k, v) \<in> set ms \<Longrightarrow> print_plain v \<noteq> [] \<and> print_start (hd (print_plain v))"
      using "6.prems"(1) print_hd by (auto simp: list_all_iff)
    have vals: "\<exists>m. decode_value m (depth + 1 + 1) (print_plain v @ r) = Parsed v r"
      if "(k, v) \<in> set ms" "ends r" for k v r
      using "6.IH" [of "(k, v)" "depth + 1 + 1" r] that "6.prems"(1) depth(2) by (force simp: list_all_iff)
    obtain m where m: "decode_members m (depth + 1) [] ?t = Parsed (JObject ms) r"
      using decode_members_plain [of m0 ws "depth + 1" "[]" r] vals hds unfolding Cons by auto
    have "?f m0 \<noteq> []" "print_start (hd (?f m0))" by (simp_all add: print_start_def)
    from commas_start [OF this, of "map ?f ws" "CHR ''}'' # r"]
    have "decode_value (Suc (Suc m)) depth (print_plain (JObject ms) @ r) = Parsed (JObject ms) r"
      using m depth(1) by (simp add: Cons Let_def del: commas.simps)
    then show ?thesis by blast
  qed
next
  case (1 n u)
  show ?case by (rule decode_plain_scalar [OF "1.prems"(1) _ _ "1.prems"(3)]) simp_all
next
  case (2 n esc raw)
  show ?case by (rule decode_plain_scalar [OF "2.prems"(1) _ _ "2.prems"(3)]) simp_all
next
  case (7 n)
  show ?case by (rule decode_plain_scalar [OF "7.prems"(1) _ _ "7.prems"(3)]) simp_all
next
  case (8 n)
  show ?case by (rule decode_plain_scalar [OF "8.prems"(1) _ _ "8.prems"(3)]) simp_all
next
  case (9 n)
  show ?case by (rule decode_plain_scalar [OF "9.prems"(1) _ _ "9.prems"(3)]) simp_all
qed simp_all

lemma ws_skip_Nil [simp]: "ws_skip [] = []"
  by (simp add: ws_skip_def)

lemma load_plain_aux:
  assumes "json_plain 5000 v"
  shows "print_value sd v = Some (print_plain v)" "json_load (print_plain v) = Some v"
proof -
  show "print_value sd v = Some (print_plain v)" using assms by (rule print_value_plain)
  let ?s = "print_plain v"
  obtain m where m: "decode_value m 0 ?s = Parsed v []"
    using decode_plain [OF assms, of 0 "[]"] by (auto simp: max_depth_def ends_def)
  have "ws_skip ?s = ?s" using start_after(1) [of ?s "[]"] print_hd [OF assms] by simp
  with m have p: "parse m ?s = Parsed v []" by (simp add: parse_def Let_def)
  have "parse (3 * length ?s + 1 + m) ?s = Parsed v []"
    using parse_more [of m ?s "3 * length ?s + 1"] p by (simp add: add.commute)
  then show "json_load ?s = Some v" using parse_load by blast
qed


subsection \<open>Members\<close>

lemma schar_inj: "schar c = schar d \<Longrightarrow> c = d"
proof -
  assume eq: "schar c = schar d"
  define m n where "m = (of_char c :: nat)" and "n = (of_char d :: nat)"
  have "(of_char c :: int) = int m" "(of_char d :: int) = int n" "m < 256" "n < 256"
    by (metis m_def of_nat_of_char) (metis n_def of_nat_of_char, simp_all add: m_def n_def)
  with eq have "m = n" by (simp add: schar_def split: if_splits)
  then show "c = d" by (simp add: m_def n_def)
qed

lemma key_order_inj: "key_order k = key_order l \<longleftrightarrow> k = l"
  unfolding key_order_def by (metis inj_onI map_inj_on schar_inj)

lemma lower_bound_filter:
  "sorted (map f xs) \<Longrightarrow> dropWhile (\<lambda>x. f x < k) xs = filter (\<lambda>x. k \<le> f x) xs"
  for f :: "'a \<Rightarrow> 'b::linorder"
proof (induction xs)
  case (Cons x xs)
  show ?case
  proof (cases "f x < k")
    case False
    then have "filter (\<lambda>x. k \<le> f x) (x # xs) = x # xs"
      using Cons.prems by (intro filter_True) auto
    then show ?thesis using False by simp
  qed (use Cons in auto)
qed simp

lemma member_found:
  assumes "it = lower_bound k (sorted_members ms)"
  shows "it \<noteq> [] \<and> fst (hd it) = k \<longleftrightarrow> k \<in> fst ` set ms" "it \<noteq> [] \<Longrightarrow> hd it \<in> set ms"
proof -
  let ?f = "\<lambda>m. key_order (fst m)"
  have sorted: "sorted (map ?f (sorted_members ms))" by (simp add: sorted_members_def)
  have it: "it = filter (\<lambda>m. key_order k \<le> ?f m) (sorted_members ms)"
    using assms lower_bound_filter [OF sorted] by (simp add: lower_bound_def)
  have set: "set it \<subseteq> set ms" by (auto simp: it sorted_members_def)
  then show hd: "it \<noteq> [] \<Longrightarrow> hd it \<in> set ms" by auto
  show "it \<noteq> [] \<and> fst (hd it) = k \<longleftrightarrow> k \<in> fst ` set ms"
  proof
    assume "k \<in> fst ` set ms"
    then obtain m where m: "m \<in> set ms" "fst m = k" by auto
    then have in_it: "m \<in> set it" by (simp add: it sorted_members_def)
    have "sorted (map ?f it)" unfolding it by (rule sorted_filter) (rule sorted)
    then have "?f (hd it) \<le> ?f m" using in_it by (cases it) auto
    moreover have "hd it \<in> set it" using in_it by (cases it) auto
    then have "key_order k \<le> ?f (hd it)" by (simp add: it)
    ultimately have "fst (hd it) = k" using m(2) by (simp add: key_order_inj)
    then show "it \<noteq> [] \<and> fst (hd it) = k" using in_it by auto
  qed (use hd in force)
qed

lemma lookup_aux:
  "rvalue_has (JObject ms) k = Inr (Some (k \<in> fst ` set ms))"
  "distinct (map fst ms) \<Longrightarrow> rvalue_at (JObject ms) k =
     (case map_of ms k of None \<Rightarrow> Inl (''cannot find key: '' @ k) | Some v \<Rightarrow> Inr v)"
proof -
  let ?it = "lower_bound k (sorted_members ms)"
  show "rvalue_has (JObject ms) k = Inr (Some (k \<in> fst ` set ms))"
    using member_found(1) [of ?it k ms] by (simp add: rvalue_has_def Let_def)
  assume d: "distinct (map fst ms)"
  show "rvalue_at (JObject ms) k =
     (case map_of ms k of None \<Rightarrow> Inl (''cannot find key: '' @ k) | Some v \<Rightarrow> Inr v)"
  proof (cases "map_of ms k")
    case None
    then have "k \<notin> fst ` set ms" by (simp add: map_of_eq_None_iff)
    then have "\<not> (?it \<noteq> [] \<and> fst (hd ?it) = k)" using member_found(1) [of ?it k ms] by blast
    then show ?thesis unfolding None by (auto simp: rvalue_at_def Let_def)
  next
    case (Some v)
    then have "(k, v) \<in> set ms" by (rule map_of_SomeD)
    then have "k \<in> fst ` set ms" by force
    then have it: "?it \<noteq> []" "fst (hd ?it) = k" using member_found(1) [of ?it k ms] by blast+
    then have "(k, snd (hd ?it)) \<in> set ms" using member_found(2) [of ?it k ms] by (metis prod.collapse)
    then have "snd (hd ?it) = v" using Some d by (simp add: map_of_eq_Some_iff)
    then show ?thesis using Some it by (simp add: rvalue_at_def Let_def)
  qed
qed

subsection \<open>Strings printed without escaping\<close>

lemma unescape_length:
  "unescape raw = Some k \<Longrightarrow> length k \<le> length raw \<and> (backslash \<in> set raw \<longrightarrow> length k < length raw)"
proof (induction raw arbitrary: k rule: unescape.induct)
  case (2 c s)
  note prems = "2.prems" [unfolded unescape.simps]
  show ?case
  proof (cases "c = backslash")
    case False
    then obtain k' where "unescape s = Some k'" "k = c # k'" using prems by auto
    then show ?thesis using "2.IH"(3) [OF False, of k'] False by auto
  next
    case True
    then obtain d s' where s: "s = d # s'" using prems by (auto split: list.splits)
    show ?thesis
    proof (cases "d = CHR ''u''")
      case d: True
      then obtain h1 h2 h3 h4 s2 k' where r: "s' = h1 # h2 # h3 # h4 # s2" "unescape s2 = Some k'"
        "k = utf8_code (hex_code h1 h2 h3 h4) @ k'"
        using prems True s by (auto split: list.splits)
      then show ?thesis using "2.IH"(1) [OF True s d r(1) refl refl refl, of k'] s length_utf8 [of "hex_code h1 h2 h3 h4"] by auto
    next
      case d: False
      then obtain k' where r: "unescape s' = Some k'" "k = escaped_char d @ k'"
        using prems True s by auto
      then show ?thesis using "2.IH"(2) [OF True s d, of k'] s length_escaped [of d] by auto
    qed
  qed
qed simp

lemma unescaped_aux:
  assumes "quote \<in> set s \<or> backslash \<in> set s" "rvalue_s v = Inr (Some s)"
    and "print_value sd v = Some u" "json_load u = Some v'"
  shows "rvalue_s v' \<noteq> Inr (Some s)"
proof
  assume v': "rvalue_s v' = Inr (Some s)"
  obtain esc raw where "v = JString esc raw" using assms(2) by (cases v) auto
  then have printed: "u = quote # s @ [quote]" using assms(2,3) by auto
  obtain n r where "parse (Suc n) u = Parsed v' r" using assms(4) parse_load [of u v' 0] by auto
  then obtain r where "decode_scalar u = Parsed v' r"
    by (auto simp: printed ws_skip_marks parse_def Let_def split: parsed.splits if_splits)
  then obtain esc raw where body: "v' = JString esc raw" "string_body False (s @ [quote]) = Some (esc, raw, r)"
    by (auto simp: printed decode_scalar_def parsed_of_def decode_string_def split: option.splits)
  from body_shape [OF body(2)] have shape: "s @ [quote] = raw @ quote # r"
    "\<not> esc \<longrightarrow> backslash \<notin> set raw" "quote \<in> set raw \<longrightarrow> backslash \<in> set raw" "esc \<longrightarrow> backslash \<in> set raw"
    by auto
  have len: "length raw \<le> length s" using arg_cong [OF shape(1), of length] by simp
  show False
  proof (cases esc)
    case True
    then have "unescape raw = Some s" using v' body(1) by simp
    from unescape_length [OF this] show False using len shape(4) True by auto
  next
    case False
    then have "raw = s" using v' body(1) by simp
    then show False using shape(2,3) False assms(1) by auto
  qed
qed

subsection \<open>The growing array\<close>

definition array_ok :: "'a rvalue_array \<Rightarrow> bool" where
  "array_ok r = (length (l_items r) + unat (lremain r) = slots r)"

lemma sint_small:
  fixes x :: u32
  assumes "unat x < 2 ^ 31"
  shows "sint x = int (unat x)"
proof -
  have "int (unat x) < 2 ^ 31" using assms by (metis of_nat_less_iff of_nat_numeral of_nat_power)
  moreover have "- (2 ^ 31) \<le> int (unat x)"
    by (rule order_trans [of _ 0]) (simp, rule of_nat_0_le_iff)
  ultimately have "signed_take_bit 31 (int (unat x)) = int (unat x)"
    by (intro signed_take_bit_int_eq_self)
  then show ?thesis unfolding sint_uint uint_nat by simp
qed

lemma new_size_value:
  assumes "n < 2 ^ 30"
  shows "unat (new_size (of_nat n)) = max 4 (n + min n 60000)"
    "unat (new_size (of_nat n) - of_nat n) = max 4 (n + min n 60000) - n"
proof -
  let ?w = "of_nat n :: u32"
  have w: "unat ?w = n" using assms by (simp add: unat_of_nat_small)
  have double: "unat (?w + ?w) = n + n" and more: "unat (?w + 60000) = n + 60000"
    using assms by (simp_all add: unat_word_ariths w)
  have large: "60000 < ?w \<longleftrightarrow> 60000 < n" by (simp add: word_less_nat_alt w)
  have "sint (?w + ?w) = int (n + n)" "sint (?w + 60000) = int (n + 60000)"
    using assms double more by (subst sint_small; simp)+
  then show size: "unat (new_size (of_nat n)) = max 4 (n + min n 60000)"
    using double more by (auto simp: new_size_def Let_def large)
  have "?w \<le> new_size ?w" using size by (simp add: word_le_nat_alt w)
  then show "unat (new_size (of_nat n) - of_nat n) = max 4 (n + min n 60000) - n"
    by (simp add: unat_sub size w)
qed

lemma emplace_aux:
  assumes "array_ok r" "length (l_items r) < 2 ^ 30"
  shows "\<exists>r'. emplace_back v r = Some r' \<and> l_items r' = l_items r @ [v] \<and> array_ok r'"
proof -
  let ?n = "length (l_items r)"
  let ?w = "of_nat ?n :: u32"
  have w: "unat ?w = ?n" using assms(2) by (simp add: unat_of_nat_small)
  have dec: "unat (x - 1) = unat x - 1" if "x \<noteq> 0" for x :: u16
    using that by (simp add: unat_minus_one)
  show ?thesis
  proof (cases "lremain r = 0")
    case False
    then have pos: "0 < unat (lremain r)" by (simp add: unat_gt_0)
    then show ?thesis using assms(1) False
      by (simp add: emplace_back_def Let_def w array_ok_def dec)
  next
    case True
    let ?k = "new_size ?w - ?w"
    have "?n < max 4 (?n + min ?n 60000)" "max 4 (?n + min ?n 60000) - ?n \<le> 60000" by auto
    with new_size_value [OF assms(2)] have k: "unat ?k = unat (new_size ?w) - ?n" "?n < unat (new_size ?w)"
      "unat ?k \<le> 60000" "0 < unat ?k" by simp_all
    have r: "unat (ucast ?k :: u16) = unat ?k"
      using k(3) by (simp add: unsigned_ucast_eq take_bit_nat_eq_self)
    then have "(ucast ?k :: u16) \<noteq> 0" using k(4) by (metis less_irrefl unat_0)
    then have "unat ((ucast ?k :: u16) - 1) = unat ?k - 1" using dec r by simp
    then show ?thesis using True k
      by (simp add: emplace_back_def Let_def w array_ok_def)
  qed
qed

subsection \<open>The contract of the values\<close>

text \<open>
  C29. Printing and reading again, for the values of \<open>json_plain\<close> only: at most 5000 levels of null,
  booleans, decimal integers in the range of 64 bits (no floats), strings without quotes,
  backslashes and NUL that do not come from an escaped text, lists, and objects with any keys (keys
  are escaped when printed).  Such a value is printed by \<open>operator<<\<close> as a text that \<open>load\<close> reads as
  the same value.  The restriction on strings is needed: see \<open>json_strings_printed_unescaped\<close>.
\<close>

theorem json_print_load_roundtrip:
  assumes "json_plain 5000 v"
  shows "\<exists>u. print_value sd v = Some u \<and> json_load u = Some v"
  using load_plain_aux [OF assms] by blast

text \<open>
  Keys are escaped when printed, but string values are not: a string with a quote or a backslash
  is printed as a text that is never read as that string again.
\<close>

theorem json_strings_printed_unescaped:
  assumes "quote \<in> set s \<or> backslash \<in> set s" "rvalue_s v = Inr (Some s)"
    and "print_value sd v = Some u" "json_load u = Some v'"
  shows "rvalue_s v' \<noteq> Inr (Some s)"
  using assms by (rule unescaped_aux)

text \<open>
  Looking up a member by sorting and binary search answers as the list of members does: it has the keys
  it has, and where no key occurs twice the value is the one of the key.
\<close>

theorem json_members_found:
  "rvalue_has (JObject ms) k = Inr (Some (k \<in> fst ` set ms)) \<and>
   (distinct (map fst ms) \<longrightarrow> rvalue_at (JObject ms) k =
     (case map_of ms k of None \<Rightarrow> Inl (''cannot find key: '' @ k) | Some v \<Rightarrow> Inr v))"
  using lookup_aux by blast

text \<open>
  Adding an element never writes behind the slots of the array, keeps the elements, and
  keeps the 16-bit count of free slots exact, up to \<open>2^30\<close> elements.
\<close>

theorem emplace_back_in_bounds:
  assumes "array_ok r" "length (l_items r) < 2 ^ 30"
  shows "\<exists>r'. emplace_back v r = Some r' \<and> l_items r' = l_items r @ [v] \<and> array_ok r'"
  using assms by (rule emplace_aux)

theorem json_print_load_roundtrip_witness:
  "\<exists>u. print_value (\<lambda>t. t) (JObject [(''a'', JList [JNumber ''-12'', JString False ''x'']), ([quote], JNull)]) = Some u \<and>
     json_load u = Some (JObject [(''a'', JList [JNumber ''-12'', JString False ''x'']), ([quote], JNull)])"
proof (rule json_print_load_roundtrip)
  have "int_text (- 12) = ''-12''" by code_simp
  then have "''-12'' = int_text (- 12) \<and> - (2 ^ 63) \<le> (- 12 :: int) \<and> (- 12 :: int) < 2 ^ 64" by simp
  then have "json_plain n (JNumber ''-12'')" for n unfolding json_plain.simps by (rule exI)
  then show "json_plain 5000 (JObject [(''a'', JList [JNumber ''-12'', JString False ''x'']), ([quote], JNull)])"
    using json_plain.simps(4,6) [of "4999"] json_plain.simps(4) [of "4998"]
    by (simp add: plain_string_def)
qed

theorem json_strings_printed_unescaped_witness:
  "rvalue_s (JString True [backslash, quote]) \<noteq> Inr (Some [backslash, quote])"
proof (rule json_strings_printed_unescaped [of "[backslash, quote]" "JString True [backslash, backslash, backslash, quote]" "\<lambda>t. t"])
  show "print_value (\<lambda>t. t) (JString True [backslash, backslash, backslash, quote]) = Some [quote, backslash, quote, quote]"
    by code_simp
  show "json_load [quote, backslash, quote, quote] = Some (JString True [backslash, quote])" by code_simp
qed code_simp+

theorem json_members_found_witness:
  "rvalue_at (JObject [(''b'', JTrue), (''a'', JNull)]) ''a'' = Inr JNull"
  using json_members_found [of "[(''b'', JTrue), (''a'', JNull)]" "''a''"] by simp

theorem emplace_back_in_bounds_witness:
  "\<exists>r'. emplace_back (7::nat) \<lparr>l_items = [], slots = 0, lremain = 0\<rparr> = Some r' \<and> l_items r' = [] @ [7] \<and> array_ok r'"
  using emplace_back_in_bounds [of "\<lparr>l_items = [], slots = 0, lremain = 0\<rparr>" "7::nat"]
  by (simp add: array_ok_def)

end
