(* ===== verification/Chrony_Service.thy ===== *)
theory Chrony_Service
  imports Crow_Json_Value
begin

text \<open>
  The configuration of the time service over HTTP: \<open>ChronyService::updateConfiguration\<close>
  (\<open>api/src/services/ChronyService.cpp\<close>) rewrites the lines of a chrony file, the route
  \<open>PATCH /configure\<close> (\<open>api/src/controllers/ChronyController.cpp\<close>) calls it with the fields of a JSON object.
  The file is its contents, \<open>None\<close> when it cannot be opened for reading; whether it can be opened for
  writing is an argument.  An error message is \<open>Some\<close>, success is \<open>None\<close>.
\<close>

abbreviation (input) newline :: char where "newline \<equiv> CHR 0x0A"

subsection \<open>The service\<close>

record ChronyConfigDTO =
  server :: "string option"
  polling_interval :: "32 word option"
  minpoll :: "32 word option"
  maxpoll :: "32 word option"

text \<open>\<open>std::getline\<close> until the file ends.\<close>

function getlines :: "string \<Rightarrow> string list" where
  "getlines s =
     (if s = [] then []
      else takeWhile (\<lambda>c. c \<noteq> newline) s # getlines (tl (dropWhile (\<lambda>c. c \<noteq> newline) s)))"
  by pat_completeness auto
termination
proof (relation "measure length", simp)
  fix s :: string
  assume "s \<noteq> []"
  then have "length (tl (dropWhile (\<lambda>c. c \<noteq> newline) s)) < length s"
    using length_dropWhile_le [of "\<lambda>c. c \<noteq> newline" "tl s"] by (cases s) (auto simp: less_Suc_eq_le)
  then show "(tl (dropWhile (\<lambda>c. c \<noteq> newline) s), s) \<in> measure length" by simp
qed

declare getlines.simps [simp del]

definition server_line :: "string \<Rightarrow> string" where
  "server_line v = ''server '' @ v @ '' iburst''"

definition poll_line :: "string \<Rightarrow> 32 word \<Rightarrow> string" where
  "poll_line name v = name @ '' '' @ int_text (sint v)"

definition update_line :: "ChronyConfigDTO \<Rightarrow> string \<Rightarrow> nat list \<Rightarrow> string \<times> nat list" where
  "update_line config line updated =
     (if prefix ''server'' line \<and> server config \<noteq> None then
        (server_line (the (server config)), updated[0 := 1])
      else if prefix ''polling_interval'' line \<and> polling_interval config \<noteq> None then
        (poll_line ''polling_interval'' (the (polling_interval config)), updated[1 := 1])
      else if prefix ''minpoll'' line \<and> minpoll config \<noteq> None then
        (poll_line ''minpoll'' (the (minpoll config)), updated[2 := 1])
      else if prefix ''maxpoll'' line \<and> maxpoll config \<noteq> None then
        (poll_line ''maxpoll'' (the (maxpoll config)), updated[3 := 1])
      else (line, updated))"

fun update_lines :: "ChronyConfigDTO \<Rightarrow> string list \<Rightarrow> nat list \<Rightarrow> string list \<times> nat list" where
  "update_lines config [] updated = ([], updated)"
| "update_lines config (line # lines) updated =
     (let (line, updated) = update_line config line updated;
          (lines, updated) = update_lines config lines updated
      in (line # lines, updated))"

definition add_missing :: "nat list \<Rightarrow> nat \<Rightarrow> string option \<Rightarrow> string list \<Rightarrow> string list" where
  "add_missing updated i line lines =
     (case line of
        Some l \<Rightarrow> if updated ! i = 0 then lines @ [[], l] else lines
      | None \<Rightarrow> lines)"

definition new_lines :: "ChronyConfigDTO \<Rightarrow> string list \<Rightarrow> string list" where
  "new_lines config lines =
     (let (config_lines, updated) = update_lines config lines [0, 0, 0, 0];
          ls = add_missing updated 0 (map_option server_line (server config)) config_lines;
          ls = add_missing updated 1 (map_option (poll_line ''polling_interval'') (polling_interval config)) ls;
          ls = add_missing updated 2 (map_option (poll_line ''minpoll'') (minpoll config)) ls
      in add_missing updated 3 (map_option (poll_line ''maxpoll'') (maxpoll config)) ls)"

definition updateConfiguration ::
  "ChronyConfigDTO \<Rightarrow> bool \<Rightarrow> string option \<Rightarrow> string option \<times> string option" where
  "updateConfiguration config writable file =
     (case file of
        None \<Rightarrow> (Some ''Cant open old config file.'', None)
      | Some contents \<Rightarrow>
          (let config_lines = new_lines config (getlines contents)
           in if \<not> writable then (Some ''Cant open new config file.'', Some contents)
              else (None, Some (concat (map (\<lambda>l. l @ [newline]) config_lines)))))"

subsection \<open>The route\<close>

text \<open>
  A member of the given type, read by \<open>get\<close>; exceptions of the JSON value are passed on.
\<close>

definition dto_field :: "rvalue \<Rightarrow> string \<Rightarrow> type_t \<Rightarrow> (rvalue \<Rightarrow> string + 'a) \<Rightarrow> string + 'a option" where
  "dto_field j name ty get =
     (case rvalue_has j name of
        Inl e \<Rightarrow> Inl e
      | Inr (Some True) \<Rightarrow>
          and_then (rvalue_at j name)
            (\<lambda>v. if t_of v = ty then and_then (get v) (\<lambda>x. Inr (Some x)) else Inr None)
      | Inr _ \<Rightarrow> Inr None)"

definition get_string :: "rvalue \<Rightarrow> string + string" where
  "get_string v = and_then (rvalue_s v) (\<lambda>r. case r of Some s \<Rightarrow> Inr s | None \<Rightarrow> Inl ''undefined'')"

text \<open>The \<open>int64_t\<close> is narrowed to an \<open>int\<close>.\<close>

definition get_int :: "rvalue \<Rightarrow> string + 32 word" where
  "get_int v = and_then (rvalue_i v) (\<lambda>i. Inr (word_of_int i))"

definition read_config :: "rvalue \<Rightarrow> string + ChronyConfigDTO" where
  "read_config j =
     and_then (dto_field j ''server'' TString get_string) (\<lambda>s.
     and_then (dto_field j ''polling_interval'' TNumber get_int) (\<lambda>p.
     and_then (dto_field j ''minpoll'' TNumber get_int) (\<lambda>mi.
     and_then (dto_field j ''maxpoll'' TNumber get_int) (\<lambda>ma.
       Inr \<lparr>server = s, polling_interval = p, minpoll = mi, maxpoll = ma\<rparr>))))"

definition configure :: "string \<Rightarrow> bool \<Rightarrow> string option \<Rightarrow> string + (nat \<times> string) \<times> string option" where
  "configure body writable file =
     (case json_load body of
        None \<Rightarrow> Inr ((400, ''Invalid JSON''), file)
      | Some j \<Rightarrow>
          if t_of j \<noteq> TObject then Inr ((400, ''Expected a JSON object''), file)
          else
            and_then (read_config j) (\<lambda>config.
              (case updateConfiguration config writable file of
                 (Some error, file) \<Rightarrow> Inr ((500, ''Failed to update configuration: '' @ error), file)
               | (None, file) \<Rightarrow> Inr ((200, ''Configuration updated successfully''), file))))"

subsection \<open>Lines of a file\<close>

lemma getlines_Nil [simp]: "getlines [] = []"
  by (simp add: getlines.simps)

lemma getlines_line:
  "newline \<notin> set l \<Longrightarrow> getlines (l @ newline # s) = l # getlines s"
proof -
  assume l: "newline \<notin> set l"
  then have "takeWhile (\<lambda>c. c \<noteq> newline) (l @ newline # s) = l"
    "dropWhile (\<lambda>c. c \<noteq> newline) (l @ newline # s) = newline # s"
    by (auto simp: takeWhile_append dropWhile_append)
  then show ?thesis by (simp add: getlines.simps [of "l @ newline # s"])
qed

lemma getlines_lines:
  "list_all (\<lambda>l. newline \<notin> set l) ls \<Longrightarrow> getlines (concat (map (\<lambda>l. l @ [newline]) ls)) = ls"
  by (induction ls) (simp_all add: getlines_line)

lemma lines_newline: "l \<in> set (getlines s) \<Longrightarrow> newline \<notin> set l"
proof (induction s rule: getlines.induct)
  case (1 s)
  show ?case
  proof (cases "s = []")
    case False
    then have "l = takeWhile (\<lambda>c. c \<noteq> newline) s \<or> l \<in> set (getlines (tl (dropWhile (\<lambda>c. c \<noteq> newline) s)))"
      using "1.prems" by (simp add: getlines.simps [of s])
    then show ?thesis using "1.IH" [OF False] by (auto dest: set_takeWhileD)
  qed (use "1.prems" in simp)
qed

subsection \<open>The rewriting as a function of the directives\<close>

text \<open>The configured directives, each with its keyword.\<close>

definition directives :: "ChronyConfigDTO \<Rightarrow> (string \<times> string) list" where
  "directives config =
     (case server config of None \<Rightarrow> [] | Some v \<Rightarrow> [(''server'', server_line v)]) @
     (case polling_interval config of None \<Rightarrow> [] | Some v \<Rightarrow> [(''polling_interval'', poll_line ''polling_interval'' v)]) @
     (case minpoll config of None \<Rightarrow> [] | Some v \<Rightarrow> [(''minpoll'', poll_line ''minpoll'' v)]) @
     (case maxpoll config of None \<Rightarrow> [] | Some v \<Rightarrow> [(''maxpoll'', poll_line ''maxpoll'' v)])"

definition matches :: "string \<Rightarrow> string \<times> string \<Rightarrow> bool" where
  "matches l d = prefix (fst d) l"

definition rewrite :: "(string \<times> string) list \<Rightarrow> string \<Rightarrow> string" where
  "rewrite ds l = (case find (matches l) ds of None \<Rightarrow> l | Some d \<Rightarrow> snd d)"

definition rewrite_lines :: "(string \<times> string) list \<Rightarrow> string list \<Rightarrow> string list" where
  "rewrite_lines ds ls =
     map (rewrite ds) ls @
     concat (map (\<lambda>d. if \<exists>l\<in>set ls. matches l d then [] else [[], snd d]) ds)"

lemma keywords_exclusive:
  "prefix ''server'' l \<Longrightarrow> \<not> prefix ''polling_interval'' l \<and> \<not> prefix ''minpoll'' l \<and> \<not> prefix ''maxpoll'' l"
  "prefix ''polling_interval'' l \<Longrightarrow> \<not> prefix ''server'' l \<and> \<not> prefix ''minpoll'' l \<and> \<not> prefix ''maxpoll'' l"
  "prefix ''minpoll'' l \<Longrightarrow> \<not> prefix ''server'' l \<and> \<not> prefix ''polling_interval'' l \<and> \<not> prefix ''maxpoll'' l"
  "prefix ''maxpoll'' l \<Longrightarrow> \<not> prefix ''server'' l \<and> \<not> prefix ''polling_interval'' l \<and> \<not> prefix ''minpoll'' l"
  by (auto simp: prefix_def)

lemma update_line_eq:
  "update_line c l [a0, a1, a2, a3] =
    (rewrite (directives c) l,
     [if prefix ''server'' l \<and> server c \<noteq> None then 1 else a0,
      if prefix ''polling_interval'' l \<and> polling_interval c \<noteq> None then 1 else a1,
      if prefix ''minpoll'' l \<and> minpoll c \<noteq> None then 1 else a2,
      if prefix ''maxpoll'' l \<and> maxpoll c \<noteq> None then 1 else a3])"
proof -
  define p0 p1 p2 p3 where p: "p0 = prefix ''server'' l" "p1 = prefix ''polling_interval'' l"
    "p2 = prefix ''minpoll'' l" "p3 = prefix ''maxpoll'' l"
  note excl = keywords_exclusive [of l, folded p]
  consider "p0" "\<not> p1" "\<not> p2" "\<not> p3" | "\<not> p0" "p1" "\<not> p2" "\<not> p3" | "\<not> p0" "\<not> p1" "p2" "\<not> p3"
    | "\<not> p0" "\<not> p1" "\<not> p2" "p3" | "\<not> p0" "\<not> p1" "\<not> p2" "\<not> p3"
    using excl by blast
  then show ?thesis
    unfolding update_line_def rewrite_def directives_def p [symmetric]
    by cases
      (cases "server c"; cases "polling_interval c"; cases "minpoll c"; cases "maxpoll c";
        simp add: matches_def p [symmetric] numeral_2_eq_2 numeral_3_eq_3)+
qed

lemma update_lines_eq:
  "update_lines c ls [a0, a1, a2, a3] =
    (map (rewrite (directives c)) ls,
     [if (\<exists>l\<in>set ls. prefix ''server'' l) \<and> server c \<noteq> None then 1 else a0,
      if (\<exists>l\<in>set ls. prefix ''polling_interval'' l) \<and> polling_interval c \<noteq> None then 1 else a1,
      if (\<exists>l\<in>set ls. prefix ''minpoll'' l) \<and> minpoll c \<noteq> None then 1 else a2,
      if (\<exists>l\<in>set ls. prefix ''maxpoll'' l) \<and> maxpoll c \<noteq> None then 1 else a3])"
  by (induction ls arbitrary: a0 a1 a2 a3) (simp_all add: update_line_eq)

lemma new_lines_eq: "new_lines c ls = rewrite_lines (directives c) ls"
  unfolding new_lines_def update_lines_eq rewrite_lines_def
  by (cases "server c"; cases "polling_interval c"; cases "minpoll c"; cases "maxpoll c")
    (simp_all add: Let_def add_missing_def directives_def matches_def numeral_2_eq_2 numeral_3_eq_3)

text \<open>
  Directives that do not interfere: no line matches two of them, each matches its own line, and
  they fit on one line.
\<close>

definition directives_ok :: "(string \<times> string) list \<Rightarrow> bool" where
  "directives_ok ds =
     (distinct ds \<and> (\<forall>d\<in>set ds. matches (snd d) d \<and> newline \<notin> set (snd d) \<and> fst d \<noteq> []) \<and>
      (\<forall>l. \<forall>d\<in>set ds. \<forall>e\<in>set ds. matches l d \<longrightarrow> matches l e \<longrightarrow> d = e))"

lemma rewrite_match:
  assumes "directives_ok ds" "d \<in> set ds" "matches l d"
  shows "rewrite ds l = snd d"
proof -
  have "find (matches l) ds \<noteq> None" using assms(2,3) by (metis find_None_iff)
  then obtain e where e: "find (matches l) ds = Some e" by blast
  then have "e \<in> set ds" "matches l e" by (auto simp: find_Some_iff)
  then have "e = d" using assms by (auto simp: directives_ok_def)
  with e show ?thesis by (simp add: rewrite_def)
qed

lemma rewrite_other: "\<forall>d\<in>set ds. \<not> matches l d \<Longrightarrow> rewrite ds l = l"
  by (auto simp: rewrite_def find_Some_iff split: option.splits)

lemma rewrite_matches:
  assumes "directives_ok ds" "d \<in> set ds"
  shows "matches (rewrite ds l) d \<longleftrightarrow> matches l d"
proof (cases "\<exists>e\<in>set ds. matches l e")
  case True
  then obtain e where e: "e \<in> set ds" "matches l e" by blast
  have "rewrite ds l = snd e" by (rule rewrite_match [OF assms(1) e])
  moreover have "matches (snd e) e" using assms(1) e(1) by (auto simp: directives_ok_def)
  ultimately show ?thesis using assms e unfolding directives_ok_def by metis
qed (simp add: rewrite_other)

lemma rewrite_twice: "directives_ok ds \<Longrightarrow> rewrite ds (rewrite ds l) = rewrite ds l"
  using rewrite_match rewrite_other rewrite_matches by metis

lemma empty_no_match: "directives_ok ds \<Longrightarrow> d \<in> set ds \<Longrightarrow> \<not> matches [] d"
  by (auto simp: directives_ok_def matches_def)

lemma missing_lines:
  assumes "directives_ok ds" "set es \<subseteq> set ds" "distinct es" "d \<in> set ds"
  shows "filter (\<lambda>l. matches l d) (concat (map (\<lambda>d. if P d then [] else [[], snd d]) es)) =
    (if d \<in> set es \<and> \<not> P d then [snd d] else [])"
  using assms(2,3)
proof (induction es)
  case (Cons e es)
  have "matches (snd e) d \<longleftrightarrow> e = d"
    using assms(1,4) Cons.prems by (auto simp: directives_ok_def)
  moreover have "\<not> matches [] d" using assms empty_no_match by blast
  ultimately show ?case using Cons by auto
qed simp

lemma rewritten_directive:
  assumes "directives_ok ds" "d \<in> set ds"
  shows "filter (\<lambda>l. matches l d) (rewrite_lines ds ls) =
    replicate (max 1 (length (filter (\<lambda>l. matches l d) ls))) (snd d)"
proof -
  have "filter (\<lambda>l. matches l d) (map (rewrite ds) ls) = map (rewrite ds) (filter (\<lambda>l. matches l d) ls)"
    by (simp add: filter_map comp_def rewrite_matches [OF assms])
  also have "\<dots> = map (\<lambda>l. snd d) (filter (\<lambda>l. matches l d) ls)"
    using rewrite_match [OF assms] by (intro map_cong) auto
  also have "\<dots> = replicate (length (filter (\<lambda>l. matches l d) ls)) (snd d)" by (rule map_replicate_const)
  finally have "filter (\<lambda>l. matches l d) (rewrite_lines ds ls) =
      replicate (length (filter (\<lambda>l. matches l d) ls)) (snd d) @
      (if \<exists>l\<in>set ls. matches l d then [] else [snd d])"
    using missing_lines [OF assms(1) order_refl _ assms(2), of "\<lambda>d. \<exists>l\<in>set ls. matches l d"] assms
    by (simp add: rewrite_lines_def directives_ok_def)
  moreover have "(\<exists>l\<in>set ls. matches l d) \<longleftrightarrow> length (filter (\<lambda>l. matches l d) ls) \<noteq> 0"
    by (auto simp: filter_empty_conv)
  ultimately show ?thesis by (cases "length (filter (\<lambda>l. matches l d) ls)") simp_all
qed

lemma rewritten_others:
  assumes "directives_ok ds" "\<And>l. other l \<longleftrightarrow> l \<noteq> [] \<and> (\<forall>d\<in>set ds. \<not> matches l d)"
  shows "filter other (rewrite_lines ds ls) = filter other ls"
proof -
  have not_other: "\<not> other []" "d \<in> set ds \<Longrightarrow> \<not> other (snd d)" for d
    using assms by (auto simp: directives_ok_def)
  then have "filter other (concat (map (\<lambda>d. if P d then [] else [[], snd d]) es)) = []" if "set es \<subseteq> set ds" for P es
    using that by (induction es) auto
  from this [of ds] have "filter other (rewrite_lines ds ls) = filter other (map (rewrite ds) ls)"
    by (simp add: rewrite_lines_def)
  also have "\<dots> = filter other ls"
  proof (induction ls)
    case (Cons l ls)
    show ?case
    proof (cases "\<exists>d\<in>set ds. matches l d")
      case True
      then obtain d where d: "d \<in> set ds" "matches l d" by blast
      have "\<not> other (rewrite ds l)" using rewrite_match [OF assms(1) d] not_other(2) [OF d(1)] by simp
      moreover have "\<not> other l" using assms(2) d by blast
      ultimately show ?thesis using Cons by simp
    next
      case False
      then have "rewrite ds l = l" by (intro rewrite_other) blast
      then show ?thesis using Cons by simp
    qed
  qed simp
  finally show ?thesis .
qed

lemma rewritten_twice:
  assumes "directives_ok ds"
  shows "rewrite_lines ds (rewrite_lines ds ls) = rewrite_lines ds ls"
proof -
  have present: "\<exists>l\<in>set (rewrite_lines ds ls). matches l d" if "d \<in> set ds" for d
  proof -
    have "filter (\<lambda>l. matches l d) (rewrite_lines ds ls) \<noteq> []"
      using rewritten_directive [OF assms that, of ls]
      by (metis replicate_empty max_0_1(2) max.cobounded1 not_one_le_zero)
    then show ?thesis by (auto simp: filter_empty_conv)
  qed
  have own: "rewrite ds (snd d) = snd d" if "d \<in> set ds" for d
    using assms that rewrite_match [OF assms that, of "snd d"] by (auto simp: directives_ok_def)
  have empty: "rewrite ds [] = []" using empty_no_match [OF assms] by (intro rewrite_other) blast
  have "map (rewrite ds) (rewrite_lines ds ls) = rewrite_lines ds ls"
    unfolding rewrite_lines_def map_append map_concat map_map comp_def
    by (intro arg_cong2 [of _ _ _ _ append] arg_cong [of _ _ concat] map_cong refl)
      (auto simp: rewrite_twice [OF assms] own empty)
  moreover have "concat (map (\<lambda>d. if \<exists>l\<in>set (rewrite_lines ds ls). matches l d then [] else [[], snd d]) ds) = []"
    using present by (auto simp: concat_eq_Nil_conv)
  ultimately show ?thesis unfolding rewrite_lines_def [of ds "rewrite_lines ds ls"] by simp
qed

subsection \<open>The directives of a configuration\<close>

lemma int_text_line: "newline \<notin> set (int_text i)"
  using decimal_other by (auto simp: int_text_def is_digit_char)

text \<open>No newline in the name of the server.\<close>

definition one_line :: "ChronyConfigDTO \<Rightarrow> bool" where
  "one_line config = (\<forall>v. server config = Some v \<longrightarrow> newline \<notin> set v)"

lemma directives_keys:
  "d \<in> set (directives c) \<Longrightarrow>
   (\<exists>v. server c = Some v \<and> d = (''server'', server_line v)) \<or>
   (\<exists>v. polling_interval c = Some v \<and> d = (''polling_interval'', poll_line ''polling_interval'' v)) \<or>
   (\<exists>v. minpoll c = Some v \<and> d = (''minpoll'', poll_line ''minpoll'' v)) \<or>
   (\<exists>v. maxpoll c = Some v \<and> d = (''maxpoll'', poll_line ''maxpoll'' v))"
  by (cases "server c"; cases "polling_interval c"; cases "minpoll c"; cases "maxpoll c")
    (auto simp: directives_def)

lemma directives_distinct: "distinct (map fst (directives c))"
  by (cases "server c"; cases "polling_interval c"; cases "minpoll c"; cases "maxpoll c")
    (simp_all add: directives_def)

lemma directive_unique:
  assumes "d \<in> set (directives c)" "e \<in> set (directives c)" "matches l d" "matches l e"
  shows "d = e"
proof -
  have key: "fst d = ''server'' \<or> fst d = ''polling_interval'' \<or> fst d = ''minpoll'' \<or> fst d = ''maxpoll''"
    if "d \<in> set (directives c)" for d
    using directives_keys [OF that] by (elim disjE exE conjE) simp_all
  have "fst d = fst e"
    using key [OF assms(1)] key [OF assms(2)] assms(3,4) keywords_exclusive [of l]
    unfolding matches_def by metis
  then show ?thesis using assms(1,2) directives_distinct [of c]
    by (metis eq_key_imp_eq_value prod.collapse)
qed

lemma directives_fine: "one_line c \<Longrightarrow> directives_ok (directives c)"
proof -
  assume one: "one_line c"
  have "matches (snd d) d \<and> newline \<notin> set (snd d) \<and> fst d \<noteq> []" if "d \<in> set (directives c)" for d
    using directives_keys [OF that] one int_text_line
    by (elim disjE exE conjE) (simp_all add: matches_def server_line_def poll_line_def one_line_def)
  moreover have "distinct (directives c)" using directives_distinct [of c] by (simp add: distinct_map)
  moreover have "\<forall>l. \<forall>d\<in>set (directives c). \<forall>e\<in>set (directives c). matches l d \<longrightarrow> matches l e \<longrightarrow> d = e"
    using directive_unique by blast
  ultimately show ?thesis by (simp add: directives_ok_def)
qed

lemma rewritten_lines: 
  assumes "directives_ok ds" "list_all (\<lambda>l. newline \<notin> set l) ls"
  shows "list_all (\<lambda>l. newline \<notin> set l) (rewrite_lines ds ls)"
proof -
  have "newline \<notin> set (rewrite ds l)" if "l \<in> set ls" for l
    using rewrite_match [OF assms(1), of _ l] rewrite_other [of ds l] assms that
    by (cases "\<exists>d\<in>set ds. matches l d") (auto simp: directives_ok_def list_all_iff)
  then show ?thesis using assms(1) by (auto simp: rewrite_lines_def list_all_iff directives_ok_def)
qed

lemma update_aux:
  assumes "one_line c"
  obtains contents' where "updateConfiguration c True (Some contents) = (None, Some contents')"
    "getlines contents' = rewrite_lines (directives c) (getlines contents)"
proof -
  let ?ls = "rewrite_lines (directives c) (getlines contents)"
  have "list_all (\<lambda>l. newline \<notin> set l) ?ls"
    using lines_newline by (intro rewritten_lines directives_fine assms) (auto simp: list_all_iff)
  then have "getlines (concat (map (\<lambda>l. l @ [newline]) ?ls)) = ?ls" by (rule getlines_lines)
  then show thesis by (intro that) (simp_all add: updateConfiguration_def new_lines_eq)
qed

lemma update_contents:
  "updateConfiguration c True (Some contents) =
     (None, Some (concat (map (\<lambda>l. l @ [newline]) (rewrite_lines (directives c) (getlines contents)))))"
  by (simp add: updateConfiguration_def new_lines_eq)

lemma getlines_append_line:
  assumes "newline \<notin> set b"
  shows "b \<in> set (getlines (a @ newline # b @ newline # s))"
proof (induction a rule: length_induct)
  case (1 a)
  show ?case
  proof (cases "newline \<in> set a")
    case False
    then show ?thesis using assms by (simp add: getlines_line)
  next
    case True
    then obtain x y where a: "a = x @ newline # y" "newline \<notin> set x" by (metis split_list_first)
    have "b \<in> set (getlines (y @ newline # b @ newline # s))" using 1 a by simp
    then show ?thesis using a getlines_line [of x] by simp
  qed
qed


lemma injects_aux:
  assumes "server c = Some (a @ newline # b)" "newline \<notin> set b"
    and "updateConfiguration c True (Some contents) = (None, Some contents')"
  shows "b @ '' iburst'' \<in> set (getlines contents')"
proof -
  let ?v = "a @ newline # b"
  let ?ls = "rewrite_lines (directives c) (getlines contents)"
  let ?d = "(''server'', server_line ?v)"
  have head: "\<exists>ds. directives c = ?d # ds" using assms(1) by (simp add: directives_def)
  have "server_line ?v \<in> set ?ls"
  proof (cases "\<exists>l\<in>set (getlines contents). matches l ?d")
    case True
    then obtain l where l: "l \<in> set (getlines contents)" "matches l ?d" by blast
    then have "rewrite (directives c) l = server_line ?v" using head by (auto simp: rewrite_def)
    with l(1) have "server_line ?v \<in> rewrite (directives c) ` set (getlines contents)" by (metis image_eqI)
    then show ?thesis by (simp only: rewrite_lines_def set_append set_map UnI1)
  next
    case False
    obtain ds where "directives c = ?d # ds" using head by blast
    with False show ?thesis by (simp only: rewrite_lines_def list.map concat.simps if_False) simp
  qed
  then obtain xs ys where "?ls = xs @ server_line ?v # ys" by (metis split_list)
  then have contents: "contents' = (concat (map (\<lambda>l. l @ [newline]) xs) @ ''server '' @ a) @ newline #
      (b @ '' iburst'') @ newline # concat (map (\<lambda>l. l @ [newline]) ys)"
    using assms(3) by (simp add: update_contents server_line_def)
  have "newline \<notin> set (b @ '' iburst'')" using assms(2) by simp
  then show ?thesis unfolding contents by (rule getlines_append_line)
qed

subsection \<open>The configuration of a request\<close>

definition number_of :: "rvalue option \<Rightarrow> 32 word option" where
  "number_of v = (case v of Some (JNumber u) \<Rightarrow> Some (word_of_int (stream_int64 u)) | _ \<Rightarrow> None)"

definition config_of :: "(string \<times> rvalue) list \<Rightarrow> ChronyConfigDTO" where
  "config_of ms =
     \<lparr>server = (case map_of ms ''server'' of
         Some (JString esc raw) \<Rightarrow> (if esc then unescape raw else Some raw) | _ \<Rightarrow> None),
      polling_interval = number_of (map_of ms ''polling_interval''),
      minpoll = number_of (map_of ms ''minpoll''), maxpoll = number_of (map_of ms ''maxpoll'')\<rparr>"

lemma field_found:
  assumes "\<And>k v. (k, v) \<in> set ms \<Longrightarrow> t_of v = ty \<Longrightarrow> \<exists>x. get v = Inr x"
  obtains r where "dto_field (JObject ms) name ty get = Inr r"
proof (cases "name \<in> fst ` set ms")
  case True
  let ?it = "lower_bound name (sorted_members ms)"
  have it: "?it \<noteq> []" "fst (hd ?it) = name" "hd ?it \<in> set ms"
    using member_found [of ?it name ms] True by auto
  then have at: "rvalue_at (JObject ms) name = Inr (snd (hd ?it))" by (simp add: rvalue_at_def Let_def)
  have "(fst (hd ?it), snd (hd ?it)) \<in> set ms" using it(3) by simp
  from assms [OF this] show thesis
    using that at True by (cases "t_of (snd (hd ?it)) = ty") (auto simp: dto_field_def lookup_aux(1))
next
  case False
  then show thesis using that by (simp add: dto_field_def lookup_aux(1))
qed

lemma field_unique:
  assumes "distinct (map fst ms)"
  shows "dto_field (JObject ms) name ty get =
    (case map_of ms name of
       Some v \<Rightarrow> if t_of v = ty then and_then (get v) (\<lambda>x. Inr (Some x)) else Inr None
     | None \<Rightarrow> Inr None)"
proof (cases "map_of ms name")
  case None
  then have "name \<notin> fst ` set ms" by (simp add: map_of_eq_None_iff)
  then show ?thesis unfolding None by (simp add: dto_field_def lookup_aux(1))
next
  case (Some v)
  then have "name \<in> fst ` set ms" by (metis domI dom_map_of_conv_image_fst)
  then show ?thesis using Some lookup_aux(2) [OF assms, of name] by (simp add: dto_field_def lookup_aux(1))
qed

lemma get_string_ok: "t_of v = TString \<Longrightarrow> json_ok n v \<Longrightarrow> \<exists>x. get_string v = Inr x"
  by (cases v) (auto simp: get_string_def)

lemma get_int_ok: "t_of v = TNumber \<Longrightarrow> \<exists>x. get_int v = Inr x"
  by (cases v) (auto simp: get_int_def rvalue_i_def)

lemma object_ok: "json_ok (Suc n) (JObject ms) \<Longrightarrow> (k, v) \<in> set ms \<Longrightarrow> json_ok n v"
  by (force simp: list_all_iff)

lemma read_config_total:
  assumes "json_ok (Suc n) (JObject ms)"
  shows "\<exists>c. read_config (JObject ms) = Inr c"
proof -
  obtain s where s: "dto_field (JObject ms) ''server'' TString get_string = Inr s"
    by (rule field_found [of ms TString get_string "''server''"]) (use get_string_ok object_ok [OF assms] in blast)
  have "\<exists>r. dto_field (JObject ms) name TNumber get_int = Inr r" for name
    by (rule field_found [of ms TNumber get_int name]) (use get_int_ok in blast)+
  then obtain p q r where "dto_field (JObject ms) ''polling_interval'' TNumber get_int = Inr p"
    "dto_field (JObject ms) ''minpoll'' TNumber get_int = Inr q"
    "dto_field (JObject ms) ''maxpoll'' TNumber get_int = Inr r" by blast
  with s show ?thesis by (simp add: read_config_def)
qed

lemma number_field:
  "distinct (map fst ms) \<Longrightarrow> dto_field (JObject ms) name TNumber get_int = Inr (number_of (map_of ms name))"
  by (auto simp: field_unique number_of_def get_int_def rvalue_i_def split: option.splits rvalue.splits)

lemma string_field:
  assumes "distinct (map fst ms)" "json_ok (Suc n) (JObject ms)"
  shows "dto_field (JObject ms) name TString get_string =
    Inr (case map_of ms name of Some (JString esc raw) \<Rightarrow> (if esc then unescape raw else Some raw) | _ \<Rightarrow> None)"
proof (cases "map_of ms name")
  case None
  then show ?thesis using assms(1) by (simp add: field_unique)
next
  case (Some v)
  then have "json_ok n v" using object_ok [OF assms(2)] map_of_SomeD by metis
  then show ?thesis using Some assms(1)
    by (cases v) (auto simp: field_unique get_string_def)
qed

lemma read_config_unique:
  assumes "distinct (map fst ms)" "json_ok (Suc n) (JObject ms)"
  shows "read_config (JObject ms) = Inr (config_of ms)"
  by (simp add: read_config_def config_of_def number_field [OF assms(1)] string_field [OF assms])

lemma load_object: "json_load body = Some (JObject ms) \<Longrightarrow> json_ok (Suc 4999) (JObject ms)"
proof -
  assume "json_load body = Some (JObject ms)"
  then have "json_ok 5000 (JObject ms)" by (rule load_ok_aux)
  moreover have "(5000::nat) = Suc 4999" by simp
  ultimately show ?thesis by (simp only:)
qed


lemma configure_object:
  assumes "json_load body = Some (JObject ms)"
  shows "configure body w f = and_then (read_config (JObject ms)) (\<lambda>config.
    (case updateConfiguration config w f of
       (Some error, file) \<Rightarrow> Inr ((500, ''Failed to update configuration: '' @ error), file)
     | (None, file) \<Rightarrow> Inr ((200, ''Configuration updated successfully''), file)))"
  using assms by (simp add: configure_def)

lemma configure_aux:
  assumes "json_load body = Some (JObject ms)" "distinct (map fst ms)"
  shows "configure body w f =
    (case updateConfiguration (config_of ms) w f of
       (Some error, file) \<Rightarrow> Inr ((500, ''Failed to update configuration: '' @ error), file)
     | (None, file) \<Rightarrow> Inr ((200, ''Configuration updated successfully''), file))"
  by (simp add: configure_object [OF assms(1)] read_config_unique [OF assms(2) load_object [OF assms(1)]])

lemma update_fails: "updateConfiguration c w f = (Some e, f') \<Longrightarrow> f' = f"
  by (auto simp: updateConfiguration_def Let_def split: option.splits if_splits)

lemma configure_total_aux:
  "\<exists>code msg f'. configure body w f = Inr ((code, msg), f') \<and>
     (code = 200 \<or> f' = f \<and> (code = 400 \<or> code = 500))"
proof (cases "\<exists>ms. json_load body = Some (JObject ms)")
  case True
  then obtain ms where load: "json_load body = Some (JObject ms)" by blast
  obtain c where c: "read_config (JObject ms) = Inr c"
    using read_config_total load_object [OF load] by blast
  show ?thesis
    by (cases "updateConfiguration c w f"; cases "fst (updateConfiguration c w f)")
      (auto simp: configure_object [OF load] c dest: update_fails)
next
  case False
  then show ?thesis by (auto simp: configure_def split: option.splits elim: t_of.elims)
qed

subsection \<open>The contract of the service\<close>

text \<open>
  C25. A successful update makes the configured directives true: of the lines that begin with a configured
  keyword each is now its directive, there is at least one, and all other lines, apart
  from empty ones, are what they were, in order.
\<close>

theorem chrony_update_effect:
  assumes "one_line config" "updateConfiguration config True (Some contents) = (None, Some contents')"
  shows "(\<forall>d\<in>set (directives config).
      filter (\<lambda>l. matches l d) (getlines contents') =
      replicate (max 1 (length (filter (\<lambda>l. matches l d) (getlines contents)))) (snd d)) \<and>
    filter (\<lambda>l. l \<noteq> [] \<and> (\<forall>d\<in>set (directives config). \<not> matches l d)) (getlines contents') =
    filter (\<lambda>l. l \<noteq> [] \<and> (\<forall>d\<in>set (directives config). \<not> matches l d)) (getlines contents)"
proof -
  note fine = directives_fine [OF assms(1)]
  have lines: "getlines contents' = rewrite_lines (directives config) (getlines contents)"
    using update_aux [OF assms(1), of contents] assms(2) by auto
  show ?thesis unfolding lines
    using rewritten_directive [OF fine] rewritten_others [OF fine refl] by blast
qed

text \<open>Updating the file a second time with the same configuration changes nothing.\<close>

theorem chrony_update_idempotent:
  assumes "one_line config" "updateConfiguration config True (Some contents) = (None, Some contents')"
  shows "updateConfiguration config True (Some contents') = (None, Some contents')"
proof -
  have "getlines contents' = rewrite_lines (directives config) (getlines contents)"
    using update_aux [OF assms(1), of contents] assms(2) by auto
  then show ?thesis using assms(2) rewritten_twice [OF directives_fine [OF assms(1)]]
    by (simp add: update_contents)
qed

text \<open>
  The name of the server is written without a check: a name with a newline puts any
  further directive, followed by \<open>iburst\<close>, into the file.
\<close>

theorem chrony_newline_injects:
  assumes "server config = Some (a @ newline # b)" "newline \<notin> set b"
    and "updateConfiguration config True (Some contents) = (None, Some contents')"
  shows "b @ '' iburst'' \<in> set (getlines contents')"
  using assms by (rule injects_aux)

text \<open>
  C26. The route applies the fields of the request: from an object with distinct keys the configuration has the
  members of the expected type, and the answer reports what the update did.
\<close>

theorem configure_applies_request:
  assumes "json_load body = Some (JObject ms)" "distinct (map fst ms)"
  shows "configure body w f =
    (case updateConfiguration (config_of ms) w f of
       (Some error, file) \<Rightarrow> Inr ((500, ''Failed to update configuration: '' @ error), file)
     | (None, file) \<Rightarrow> Inr ((200, ''Configuration updated successfully''), file))"
  using assms by (rule configure_aux)

text \<open>
  C27. Whatever the body of the request is, the route answers it without an exception, with 200,
  400 or 500, and unless it is 200 the file is untouched.
\<close>

theorem configure_never_throws:
  "\<exists>code msg f'. configure body w f = Inr ((code, msg), f') \<and>
     (code = 200 \<or> f' = f \<and> (code = 400 \<or> code = 500))"
  by (rule configure_total_aux)

text \<open>The contract on a small file.\<close>

definition sample_config :: ChronyConfigDTO where
  "sample_config = \<lparr>server = Some ''a'', polling_interval = None, minpoll = Some 4, maxpoll = None\<rparr>"

lemma sample_config_line: "one_line sample_config"
  by (simp add: one_line_def sample_config_def)

lemma sample_update:
  "updateConfiguration sample_config True (Some (''serverstats'' @ newline # ''x'')) =
    (None, Some (''server a iburst'' @ newline # ''x'' @ newline # newline # ''minpoll 4'' @ [newline]))"
  by code_simp

theorem chrony_update_effect_witness:
  "filter (\<lambda>l. matches l (''server'', ''server a iburst''))
      (getlines (''server a iburst'' @ newline # ''x'' @ newline # newline # ''minpoll 4'' @ [newline])) =
    replicate (max 1 (length (filter (\<lambda>l. matches l (''server'', ''server a iburst'')) (getlines (''serverstats'' @ newline # ''x'')))))
      ''server a iburst''"
proof -
  have "(''server'', ''server a iburst'') \<in> set (directives sample_config)"
    by (simp add: directives_def sample_config_def server_line_def)
  then show ?thesis
    using chrony_update_effect [OF sample_config_line sample_update] by fastforce
qed

theorem chrony_update_idempotent_witness:
  "updateConfiguration sample_config True (Some (''server a iburst'' @ newline # ''x'' @ newline # newline # ''minpoll 4'' @ [newline])) =
    (None, Some (''server a iburst'' @ newline # ''x'' @ newline # newline # ''minpoll 4'' @ [newline]))"
  by (rule chrony_update_idempotent [OF sample_config_line sample_update])

theorem chrony_newline_injects_witness:
  "''allow all'' @ '' iburst'' \<in> set (getlines (newline # ''server a'' @ newline # ''allow all iburst'' @ [newline]))"
proof (rule chrony_newline_injects)
  let ?c = "\<lparr>server = Some (''a'' @ newline # ''allow all''), polling_interval = None, minpoll = None, maxpoll = None\<rparr>"
  show "server ?c = Some (''a'' @ newline # ''allow all'')" by simp
  show "updateConfiguration ?c True (Some []) =
      (None, Some (newline # ''server a'' @ newline # ''allow all iburst'' @ [newline]))"
    by code_simp
qed simp

theorem configure_applies_request_witness:
  "configure (CHR ''{'' # quote # ''minpoll'' @ quote # '':4}'') False (Some []) =
    Inr ((500, ''Failed to update configuration: Cant open new config file.''), Some [])"
proof -
  have "json_load (CHR ''{'' # quote # ''minpoll'' @ quote # '':4}'') = Some (JObject [(''minpoll'', JNumber ''4'')])"
    by code_simp
  from configure_applies_request [OF this, of False "Some []"] show ?thesis
    by (simp add: updateConfiguration_def Let_def)
qed


text \<open>A number that does not fit an \<open>int\<close> is configured modulo \<open>2^32\<close>; a fraction or an exponent is cut off.\<close>

lemma sample_texts: "int_text 10 = ''10''" "int_text 1 = ''1''"
  by code_simp+

lemma sample_numbers:
  "number_of (Some (JNumber ''4294967306'')) = Some 10" "number_of (Some (JNumber ''1e1'')) = Some 1"
  by (simp_all add: number_of_def stream_int64_def stream_sign_def is_space_def decimal_value_def is_digit_char)

theorem configure_truncates:
  "configure (CHR ''{'' # quote # ''minpoll'' @ quote # '':4294967306}'') True (Some []) =
    Inr ((200, ''Configuration updated successfully''), Some (newline # ''minpoll 10'' @ [newline]))"
  "configure (CHR ''{'' # quote # ''minpoll'' @ quote # '':1e1}'') True (Some []) =
    Inr ((200, ''Configuration updated successfully''), Some (newline # ''minpoll 1'' @ [newline]))"
proof -
  have load: "json_load (CHR ''{'' # quote # ''minpoll'' @ quote # '':4294967306}'') = Some (JObject [(''minpoll'', JNumber ''4294967306'')])"
    "json_load (CHR ''{'' # quote # ''minpoll'' @ quote # '':1e1}'') = Some (JObject [(''minpoll'', JNumber ''1e1'')])"
    by code_simp+
  have config: "config_of [(''minpoll'', JNumber ''4294967306'')] = \<lparr>server = None, polling_interval = None, minpoll = Some 10, maxpoll = None\<rparr>"
    "config_of [(''minpoll'', JNumber ''1e1'')] = \<lparr>server = None, polling_interval = None, minpoll = Some 1, maxpoll = None\<rparr>"
    using sample_numbers by (simp_all add: config_of_def number_of_def)
  show "configure (CHR ''{'' # quote # ''minpoll'' @ quote # '':4294967306}'') True (Some []) =
      Inr ((200, ''Configuration updated successfully''), Some (newline # ''minpoll 10'' @ [newline]))"
    using configure_aux [OF load(1), of True "Some []"] unfolding config
    by (simp add: update_contents rewrite_lines_def directives_def poll_line_def sample_texts)
  show "configure (CHR ''{'' # quote # ''minpoll'' @ quote # '':1e1}'') True (Some []) =
      Inr ((200, ''Configuration updated successfully''), Some (newline # ''minpoll 1'' @ [newline]))"
    using configure_aux [OF load(2), of True "Some []"] unfolding config
    by (simp add: update_contents rewrite_lines_def directives_def poll_line_def sample_texts)
qed

end
