(* ===== verification/Crow_Connection.thy ===== *)
theory Crow_Connection
  imports Crow_Http_Request Chrony_Service
begin

unbundle bit_operations_syntax

text \<open>
  A connection of the HTTP server (\<open>Connection\<close> and \<open>response\<close> in \<open>crow_all.h\<close>): the object the
  parser calls back, which asks the router, runs the handler of a rule, writes the response and goes
  on reading.  There is no middleware, and no static files are sent, as in the program.

  The socket is open or closed; a write appends to \<open>sent\<close> as long as it is open, and the error of a
  failing write is only logged by the code.  Timers and reads are started and stopped (\<open>deadline\<close>,
  \<open>reading\<close>); that they fire is an event.  What a handler of the program does is a parameter.

  A \<open>ci_map\<close> is a list of its entries in the order they were added.  The order in which
  \<open>unordered_multimap\<close> lists entries is not specified, nor which of several with the same name it
  finds first; the order of adding is taken for both.
\<close>

subsection \<open>Headers\<close>

definition toupper :: "char \<Rightarrow> char" where
  "toupper c = (if 97 \<le> ascii c \<and> ascii c \<le> 122 then char_of (unat (ascii c) - 32) else c)"

definition string_equals :: "string \<Rightarrow> string \<Rightarrow> bool" where
  "string_equals l r \<longleftrightarrow> length l = length r \<and> list_all2 (\<lambda>a b. toupper a = toupper b) l r"

type_synonym ci_map = "(string \<times> string) list"

definition header_count :: "ci_map \<Rightarrow> string \<Rightarrow> nat" where
  "header_count hs name = length (filter (\<lambda>h. string_equals (fst h) name) hs)"

definition get_header_value :: "ci_map \<Rightarrow> string \<Rightarrow> string" where
  "get_header_value hs name =
     (case filter (\<lambda>h. string_equals (fst h) name) hs of [] \<Rightarrow> [] | h # _ \<Rightarrow> snd h)"

subsection \<open>The response\<close>

record full_response = http_response +
  res_body :: string
  manual_length_header :: bool
  is_completed :: bool

definition new_response :: full_response where
  "new_response =
     \<lparr>code = 200, headers = [], skip_body = False, res_body = [], manual_length_header = False,
      is_completed = False\<rparr>"

definition set_header :: "string \<Rightarrow> string \<Rightarrow> full_response \<Rightarrow> full_response" where
  "set_header name v r =
     r\<lparr>headers := filter (\<lambda>h. \<not> string_equals (fst h) name) (headers r) @ [(name, v)]\<rparr>"

text \<open>\<open>response::clear\<close>, and the assignment of a response, which leave the two flags of a HEAD alone.\<close>

definition clear_response :: "full_response \<Rightarrow> full_response" where
  "clear_response r = r\<lparr>code := 200, headers := [], res_body := [], is_completed := False\<rparr>"

definition assign_response :: "nat \<Rightarrow> ci_map \<Rightarrow> string \<Rightarrow> full_response \<Rightarrow> full_response" where
  "assign_response c hs b r = r\<lparr>code := c, headers := hs, res_body := b, is_completed := False\<rparr>"

text \<open>The status lines, of which \<open>HTTP/1.1\<close> and the line end are left out.\<close>

definition status_texts :: "(nat \<times> string) list" where
  "status_texts =
     [(100, ''100 Continue''), (101, ''101 Switching Protocols''), (200, ''200 OK''), (201, ''201 Created''),
      (202, ''202 Accepted''), (203, ''203 Non-Authoritative Information''), (204, ''204 No Content''),
      (205, ''205 Reset Content''), (206, ''206 Partial Content''), (207, ''207 Multi-Status''),
      (300, ''300 Multiple Choices''), (301, ''301 Moved Permanently''), (302, ''302 Found''),
      (303, ''303 See Other''), (304, ''304 Not Modified''), (307, ''307 Temporary Redirect''),
      (308, ''308 Permanent Redirect''), (400, ''400 Bad Request''), (401, ''401 Unauthorized''),
      (403, ''403 Forbidden''), (404, ''404 Not Found''), (405, ''405 Method Not Allowed''),
      (406, ''406 Not Acceptable''), (407, ''407 Proxy Authentication Required''), (409, ''409 Conflict''),
      (410, ''410 Gone''), (413, ''413 Payload Too Large''), (415, ''415 Unsupported Media Type''),
      (416, ''416 Range Not Satisfiable''), (417, ''417 Expectation Failed''),
      (412, ''412 Precondition Failed''), (414, ''414 Request-URI Too Long''),
      (422, ''422 Unprocessable Entity''), (423, ''423 Locked''), (424, ''424 Failed Dependency''),
      (428, ''428 Precondition Required''), (429, ''429 Too Many Requests''),
      (451, ''451 Unavailable For Legal Reasons''), (500, ''500 Internal Server Error''),
      (501, ''501 Not Implemented''), (502, ''502 Bad Gateway''), (503, ''503 Service Unavailable''),
      (504, ''504 Gateway Timeout''), (506, ''506 Variant Also Negotiates''),
      (507, ''507 Insufficient Storage'')]"

definition status_text :: "nat \<Rightarrow> string" where
  "status_text c = (case map_of status_texts c of Some t \<Rightarrow> t @ [cr, lf] | None \<Rightarrow> [])"

text \<open>\<open>write_header_into_buffer\<close>: the header as it is written, and the response it leaves.\<close>

definition write_header :: "string \<Rightarrow> bool \<Rightarrow> full_response \<Rightarrow> string \<times> full_response" where
  "write_header server_name add_keep_alive r =
     (let r = (if map_of status_texts (code r) = None then r\<lparr>code := 500\<rparr> else r);
          r = (if 400 \<le> code r \<and> res_body r = [] then r\<lparr>res_body := status_text (code r)\<rparr> else r)
      in (''HTTP/1.1 '' @ status_text (code r) @
          concat (map (\<lambda>h. fst h @ '': '' @ snd h @ [cr, lf]) (headers r)) @
          (if \<not> manual_length_header r \<and> header_count (headers r) ''content-length'' = 0
           then ''Content-Length: '' @ int_text (int (length (res_body r))) @ [cr, lf] else []) @
          (if header_count (headers r) ''server'' = 0 \<and> server_name \<noteq> []
           then ''Server: '' @ server_name @ [cr, lf] else []) @
          (if add_keep_alive then ''Connection: Keep-Alive'' @ [cr, lf] else []) @ [cr, lf],
          r))"

subsection \<open>The connection\<close>

text \<open>
  What a handler answers: a response, or an exception, of which \<open>bad_request\<close> has a text.  A catch-all
  handler is given the response so far, and is taken not to end it itself.
\<close>

datatype reply = Reply nat ci_map string | Threw "string option"

record ('h, 'a) service =
  the_router :: "'h router"
  to_double :: "string \<Rightarrow> (u64 \<times> nat) option"
  run_handler :: "'h \<Rightarrow> request \<Rightarrow> routing_params \<Rightarrow> 'a \<Rightarrow> reply \<times> 'a"
  run_catchall :: "'h \<Rightarrow> request \<Rightarrow> full_response \<Rightarrow> 'a \<Rightarrow> reply \<times> 'a"
  server_name :: string
  stream_threshold :: nat
  read_buffer :: u64

text \<open>\<open>threw\<close>: an exception left the connection, and what follows does not happen.\<close>

record 'a connection =
  res :: full_response
  routing_handle_result :: "handle_result option"
  closes :: bool
  need_to_call_after_handlers :: bool
  need_to_start_read_after_complete :: bool
  adds_keep_alive :: bool
  is_open :: bool
  deadline :: bool
  reading :: bool
  threw :: bool
  sent :: "string list"
  app :: 'a

definition new_connection :: "'a \<Rightarrow> 'a connection" where
  "new_connection a =
     \<lparr>res = new_response, routing_handle_result = None, closes = False,
      need_to_call_after_handlers = False, need_to_start_read_after_complete = False,
      adds_keep_alive = False, is_open = True, deadline = False, reading = False, threw = False,
      sent = [], app = a\<rparr>"

definition write_out :: "string \<Rightarrow> 'a connection \<Rightarrow> 'a connection" where
  "write_out txt c = (if is_open c then c\<lparr>sent := sent c @ [txt]\<rparr> else c)"

text \<open>\<open>do_write_sync\<close>; the clearing of the parser is the result of the callbacks below.\<close>

definition do_write_sync :: "string \<Rightarrow> 'a connection \<Rightarrow> 'a connection" where
  "do_write_sync txt c = (let c = write_out txt c in c\<lparr>res := clear_response (res c)\<rparr>)"

definition start_reading :: "'a connection \<Rightarrow> 'a connection" where
  "start_reading c = c\<lparr>deadline := True, reading := True\<rparr>"

text \<open>\<open>response::end\<close> of a response that has no handler.\<close>

definition end_unsent :: "full_response \<Rightarrow> full_response" where
  "end_unsent r =
     (let r = r\<lparr>is_completed := True\<rparr> in
      if skip_body r
      then (set_header ''Content-Length'' (int_text (int (length (res_body r)))) r)
             \<lparr>res_body := [], manual_length_header := True\<rparr>
      else r)"

definition do_write_general :: "nat \<Rightarrow> string \<Rightarrow> 'a connection \<Rightarrow> 'a connection" where
  "do_write_general threshold header c =
     (if length (res_body (res c)) < threshold then
        (let c = do_write_sync (header @ res_body (res c)) c
         in if need_to_start_read_after_complete c
            then start_reading (c\<lparr>need_to_start_read_after_complete := False\<rparr>) else c)
      else
        (let body = res_body (res c);
             c = (write_out header c)\<lparr>deadline := False\<rparr>;
             c = fold do_write_sync (chunks 16384 body) c;
             c = (if closes c then c\<lparr>is_open := False\<rparr> else c)
         in c\<lparr>res := clear_response (if is_completed (res c) then res c else end_unsent (res c))\<rparr>))"

text \<open>
  \<open>complete_request\<close> with \<open>prepare_buffers\<close>.  On a closed socket no header is prepared, and nothing is
  written.
\<close>

definition complete_request :: "('h, 'a) service \<Rightarrow> 'a connection \<Rightarrow> 'a connection" where
  "complete_request S c =
     (let c = c\<lparr>need_to_call_after_handlers := False\<rparr>
      in if is_open c then
           (let (header, r) = write_header (server_name S) (adds_keep_alive c) (res c)
            in do_write_general (stream_threshold S) header (c\<lparr>res := r\<rparr>))
         else do_write_general (stream_threshold S) [] c)"

text \<open>\<open>response::end\<close> with the handler of \<open>Connection::handle\<close>.\<close>

definition end_response :: "('h, 'a) service \<Rightarrow> 'a connection \<Rightarrow> 'a connection" where
  "end_response S c =
     (if is_completed (res c) then c
      else
        (let r = (res c)\<lparr>is_completed := True\<rparr>;
             r = (if skip_body r
                  then (set_header ''Content-Length'' (int_text (int (length (res_body r)))) r)
                         \<lparr>res_body := [], manual_length_header := True\<rparr>
                  else r);
             c = complete_request S (c\<lparr>res := r\<rparr>)
         in c\<lparr>res := (res c)\<lparr>manual_length_header := False, skip_body := False\<rparr>\<rparr>))"

text \<open>The handler of exceptions of the router.\<close>

definition exception_response :: "string option \<Rightarrow> full_response \<Rightarrow> full_response" where
  "exception_response what r =
     (case what of None \<Rightarrow> assign_response 500 [] [] r | Some txt \<Rightarrow> assign_response 400 [] txt r)"

text \<open>\<open>Router::handle\<close>, on the response of the connection.\<close>

definition router_handle :: "('h, 'a) service \<Rightarrow> handle_result \<Rightarrow> request \<Rightarrow> 'a connection \<Rightarrow> 'a connection" where
  "router_handle S found r c =
     (case handle (the_router S) (req_url r) (http_response.truncate (res c)) found of
        Respond r' \<Rightarrow>
          end_response S
            (if catch_all found then c
             else c\<lparr>res := assign_response (code r') (headers r') [] (res c)\<rparr>)
      | Run_catchall h r' \<Rightarrow>
          (case run_catchall S h r (res c) (app c) of
             (Reply cd hs b, a) \<Rightarrow>
               end_response S (c\<lparr>app := a, res := (res c)\<lparr>code := cd, headers := hs, res_body := b\<rparr>\<rparr>)
           | (Threw what, a) \<Rightarrow> end_response S (c\<lparr>app := a, res := exception_response what (res c)\<rparr>))
      | Run_rule rule params r' \<Rightarrow>
          (case rule_handler rule of
             None \<Rightarrow> end_response S (c\<lparr>res := exception_response None (res c)\<rparr>)
           | Some h \<Rightarrow>
               (case run_handler S h r params (app c) of
                  (Reply cd hs b, a) \<Rightarrow> end_response S (c\<lparr>app := a, res := assign_response cd hs b (res c)\<rparr>)
                | (Threw what, a) \<Rightarrow> end_response S (c\<lparr>app := a, res := exception_response what (res c)\<rparr>)))
      | Corrupted \<Rightarrow> c\<lparr>threw := True\<rparr>)"

subsection \<open>What the parser calls\<close>

text \<open>
  \<open>handle_url\<close>.  \<open>handle_initial\<close> sets the flag of a HEAD request and never resets it, since assigning
  a response leaves it alone.  A response that it gives itself it ends, before there is a handler.
\<close>

definition conn_handle_url :: "('h, 'a) service \<Rightarrow> request \<Rightarrow> 'a connection \<Rightarrow> bool \<times> 'a connection" where
  "conn_handle_url S r c =
     (let (found, r') =
            handle_initial (to_double S) (per_methods (the_router S)) (req_method r) (req_url r)
              (http_response.truncate (res c));
          c = c\<lparr>res := (res c)\<lparr>code := code r', headers := headers r',
                    skip_body := skip_body (res c) \<or> skip_body r'\<rparr>,
                routing_handle_result := Some found\<rparr>
      in if found_rule found = 0 \<and> \<not> catch_all found
         then (True, complete_request S
                 (c\<lparr>res := (if InternalMethodCount \<le> req_method r then res c else end_unsent (res c)),
                     need_to_call_after_handlers := True\<rparr>))
         else (False, c))"

definition version_1_1 :: "request \<Rightarrow> bool" where
  "version_1_1 r \<longleftrightarrow> http_ver_major r = 1 \<and> http_ver_minor r = 1"

text \<open>\<open>handle_header\<close>: writing the interim response clears the response, but not the parser.\<close>

definition conn_handle_header :: "request \<Rightarrow> 'a connection \<Rightarrow> 'a connection" where
  "conn_handle_header r c =
     (if version_1_1 r \<and> get_header_value (req_headers r) ''expect'' = ''100-continue''
      then do_write_sync (''HTTP/1.1 100 Continue'' @ [cr, lf, cr, lf]) c else c)"

text \<open>\<open>Router::handle_upgrade\<close> for rules that do not upgrade.\<close>

definition handle_upgrade :: "('h, 'a) service \<Rightarrow> request \<Rightarrow> 'a connection \<Rightarrow> 'a connection" where
  "handle_upgrade S r c =
     (if InternalMethodCount \<le> req_method r then c
      else
        (let pms = per_methods (the_router S);
             rule_of = (\<lambda>i. found_rule (trie_find (to_double S) (req_url r) (trie (pms ! i))));
             found = rule_of (req_method r);
             unsent = (\<lambda>cd hs. c\<lparr>res := end_unsent (assign_response cd hs [] (res c))\<rparr>)
         in
         if found = 0 then
           unsent (if \<exists>i \<in> set [0..<InternalMethodCount]. rule_of i \<noteq> 0 then 405 else 404) []
         else if length (rules (pms ! req_method r)) \<le> found then c\<lparr>threw := True\<rparr>
         else if found = RULE_SPECIAL_REDIRECT_SLASH then unsent 301 [(''Location'', req_url r @ ''/'')]
         else unsent 404 []))"

text \<open>\<open>handle\<close>; the first component tells whether the response was written.\<close>

definition conn_handle :: "('h, 'a) service \<Rightarrow> request \<Rightarrow> 'a connection \<Rightarrow> bool \<times> 'a connection" where
  "conn_handle S r c =
     (let c = c\<lparr>deadline := False, adds_keep_alive := keep_alive r, closes := close_connection r\<rparr>
      in
      if version_1_1 r \<and> header_count (req_headers r) ''host'' = 0 then
        (True, complete_request S
                 (c\<lparr>res := assign_response 400 [] [] (res c), need_to_call_after_handlers := False\<rparr>))
      else if version_1_1 r \<and> req_upgrade r \<and> take 2 (get_header_value (req_headers r) ''upgrade'') \<noteq> ''h2'' then
        (False, handle_upgrade S r (c\<lparr>closes := True\<rparr>))
      else if is_completed (res c) then
        (True, complete_request S (c\<lparr>need_to_call_after_handlers := False\<rparr>))
      else
        (case routing_handle_result c of
           None \<Rightarrow> (False, c\<lparr>threw := True\<rparr>)
         | Some found \<Rightarrow>
             (let c = router_handle S found r (c\<lparr>need_to_call_after_handlers := True\<rparr>);
                  c = (if adds_keep_alive c
                       then c\<lparr>res := set_header ''connection'' ''Keep-Alive'' (res c)\<rparr> else c)
              in (\<not> threw c, c))))"

text \<open>After an exception nothing is called any more.\<close>

definition connection_env :: "('h, 'a) service \<Rightarrow> 'a connection env" where
  "connection_env S =
     \<lparr>handle_url = (\<lambda>r c. if threw c then (False, c) else conn_handle_url S r c),
      handle_header = (\<lambda>r c. if threw c then c else conn_handle_header r c),
      handle_message = (\<lambda>r c. if threw c then (False, c) else conn_handle S r c),
      buffer_address = read_buffer S\<rparr>"

subsection \<open>Reading\<close>

text \<open>What happens to a connection: a read gives some bytes or an error, or the timer fires.\<close>

datatype event = Arrived string | Read_failed | Timer_fired

text \<open>\<open>HTTPParser::done\<close>.\<close>

definition parser_done :: "('h, 'a) service \<Rightarrow> 'a connection HTTPParser \<Rightarrow> 'a connection HTTPParser" where
  "parser_done S s = (case feed (connection_env S) [] s of Some (ok, s) \<Rightarrow> s | None \<Rightarrow> s)"

definition close_socket :: "'a connection \<Rightarrow> 'a connection" where
  "close_socket c = c\<lparr>is_open := False\<rparr>"

definition on_conn :: "('a connection \<Rightarrow> 'a connection) \<Rightarrow> 'a connection HTTPParser \<Rightarrow> 'a connection HTTPParser" where
  "on_conn f s = s\<lparr>conn := f (conn s)\<rparr>"

definition after_read :: "('h, 'a) service \<Rightarrow> bool \<Rightarrow> 'a connection HTTPParser \<Rightarrow> 'a connection HTTPParser" where
  "after_read S error_while_reading s =
     (if error_while_reading then
        on_conn close_socket (parser_done S (on_conn (\<lambda>c. c\<lparr>deadline := False\<rparr>) s))
      else if closes (conn s) then parser_done S (on_conn (\<lambda>c. c\<lparr>deadline := False\<rparr>) s)
      else if \<not> need_to_call_after_handlers (conn s) then on_conn start_reading s
      else on_conn (\<lambda>c. c\<lparr>need_to_start_read_after_complete := True\<rparr>) s)"

text \<open>
  \<open>None\<close> is an aborted program.  An event that cannot happen changes nothing; a read gives at most what
  \<open>buffer_\<close> holds.
\<close>

definition buffer_size :: nat where
  "buffer_size = 4096"

fun conn_step :: "('h, 'a) service \<Rightarrow> event \<Rightarrow> 'a connection HTTPParser \<Rightarrow> 'a connection HTTPParser option" where
  "conn_step S (Arrived data) s =
     (if \<not> reading (conn s) \<or> threw (conn s) \<or> buffer_size < length data then Some s
      else
        (case feed (connection_env S) data (on_conn (\<lambda>c. c\<lparr>reading := False\<rparr>) s) of
           None \<Rightarrow> None
         | Some (ret, s) \<Rightarrow>
             Some (if threw (conn s) then s else after_read S (\<not> (ret \<and> is_open (conn s))) s)))"
| "conn_step S Read_failed s =
     (if \<not> reading (conn s) \<or> threw (conn s) then Some s
      else Some (after_read S True (on_conn (\<lambda>c. c\<lparr>reading := False\<rparr>) s)))"
| "conn_step S Timer_fired s =
     Some (if deadline (conn s) then on_conn (\<lambda>c. c\<lparr>deadline := False, is_open := False\<rparr>) s else s)"

fun conn_run :: "('h, 'a) service \<Rightarrow> event list \<Rightarrow> 'a connection HTTPParser \<Rightarrow> 'a connection HTTPParser option" where
  "conn_run S [] s = Some s"
| "conn_run S (e # es) s = (case conn_step S e s of None \<Rightarrow> None | Some s \<Rightarrow> conn_run S es s)"

text \<open>\<open>Connection::start\<close>.\<close>

definition conn_start :: "'a \<Rightarrow> 'a connection HTTPParser" where
  "conn_start a = on_conn start_reading (clear (new_parser (new_connection a)))"

subsection \<open>Requests that have a rule\<close>

lemma handle_initial_result:
  "fst (handle_initial sd pms m url res1) = fst (handle_initial sd pms m url res2)"
  by (simp add: handle_initial_def Let_def)

lemma serve_rule:
  assumes "serve_request sd rt m url = Run_rule rule p x" "m \<noteq> Head"
  obtains found where "fst (handle_initial sd (per_methods rt) m url r) = found"
    "skip_body (snd (handle_initial sd (per_methods rt) m url r)) = skip_body r"
    "found_rule found \<noteq> 0" "\<not> catch_all found" "\<And>r. handle rt url r found = Run_rule rule p r"
proof -
  obtain found r0 where found: "handle_initial sd (per_methods rt) m url (response 200) = (found, r0)" by fastforce
  have same: "fst (handle_initial sd (per_methods rt) m url r) = found"
    using handle_initial_result [of sd "per_methods rt" m url r "response 200"] found by simp
  have rule: "handle rt url r0 found = Run_rule rule p x" "found_rule found \<noteq> 0 \<or> catch_all found"
    using assms(1) found by (auto simp: serve_request_def split: if_splits)
  have no_catch: "\<not> catch_all found" using rule(1) by (auto simp: handle_def split: option.splits)
  with rule(2) have nonzero: "found_rule found \<noteq> 0" by simp
  have "handle rt url r1 found = Run_rule rule p r1" for r1
    using rule(1) no_catch by (auto simp: handle_def Let_def split: option.splits if_splits)
  moreover have "skip_body (snd (handle_initial sd (per_methods rt) m url r)) = skip_body r"
    using same nonzero assms(2)
    by (auto simp: handle_initial_def Let_def not_found_def split: if_splits)
  ultimately show ?thesis using that same nonzero no_catch by blast
qed

text \<open>The response of a rule, as it is to appear on the wire.\<close>

definition reply_body :: "nat \<Rightarrow> string \<Rightarrow> string" where
  "reply_body cd b = (if 400 \<le> cd \<and> b = [] then status_text cd else b)"

definition reply_text :: "('h, 'a) service \<Rightarrow> nat \<Rightarrow> ci_map \<Rightarrow> string \<Rightarrow> string" where
  "reply_text S cd hs b =
     ''HTTP/1.1 '' @ status_text cd @ header_text hs @
     (if header_count hs ''content-length'' = 0
      then ''Content-Length: '' @ int_text (int (length (reply_body cd b))) @ [cr, lf] else []) @
     (if header_count hs ''server'' = 0 \<and> server_name S \<noteq> []
      then ''Server: '' @ server_name S @ [cr, lf] else []) @
     ''Connection: Keep-Alive'' @ [cr, lf, cr, lf] @ reply_body cd b"

definition rule_answer :: "('h, 'a) service \<Rightarrow> request \<Rightarrow> 'a \<Rightarrow> (string \<times> 'a) option" where
  "rule_answer S r a =
     (case serve_request (to_double S) (the_router S) (req_method r) (req_url r) of
        Run_rule rule params _ \<Rightarrow>
          (case rule_handler rule of
             None \<Rightarrow> None
           | Some h \<Rightarrow>
               (case run_handler S h r params a of
                  (Reply cd hs b, a) \<Rightarrow>
                    (if map_of status_texts cd \<noteq> None \<and> length (reply_body cd b) < stream_threshold S
                     then Some (reply_text S cd hs b, a) else None)
                | (Threw what, a) \<Rightarrow> None))
      | _ \<Rightarrow> None)"

text \<open>The connection between two requests.\<close>

definition idle :: "'a connection \<Rightarrow> bool" where
  "idle c \<longleftrightarrow>
     is_open c \<and> \<not> threw c \<and> \<not> need_to_start_read_after_complete c \<and> \<not> skip_body (res c) \<and>
     \<not> manual_length_header (res c) \<and> \<not> is_completed (res c)"

lemma write_header_reply:
  assumes "map_of status_texts (code r) \<noteq> None" "\<not> manual_length_header r"
  shows "write_header name True r =
    (''HTTP/1.1 '' @ status_text (code r) @ header_text (headers r) @
     (if header_count (headers r) ''content-length'' = 0
      then ''Content-Length: '' @ int_text (int (length (reply_body (code r) (res_body r)))) @ [cr, lf] else []) @
     (if header_count (headers r) ''server'' = 0 \<and> name \<noteq> [] then ''Server: '' @ name @ [cr, lf] else []) @
     ''Connection: Keep-Alive'' @ [cr, lf, cr, lf],
     r\<lparr>res_body := reply_body (code r) (res_body r)\<rparr>)"
proof -
  have lines: "header_text hs = concat (map (\<lambda>h. fst h @ '': '' @ snd h @ [cr, lf]) hs)" for hs
    by (simp add: header_text_def header_line_def cong: map_cong)
  define r1 where "r1 = r\<lparr>res_body := reply_body (code r) (res_body r)\<rparr>"
  have "(if 400 \<le> code r \<and> res_body r = [] then r\<lparr>res_body := status_text (code r)\<rparr> else r) = r1"
    by (simp add: r1_def reply_body_def)
  moreover have "code r1 = code r" "headers r1 = headers r" "\<not> manual_length_header r1"
    "res_body r1 = reply_body (code r) (res_body r)"
    using assms(2) by (simp_all add: r1_def)
  ultimately show ?thesis
    unfolding write_header_def Let_def lines r1_def [symmetric]
    using assms(1) by (simp only: if_False if_True simp_thms append_assoc append.simps)
qed

lemma end_response_reply:
  assumes "is_open c" "adds_keep_alive c" "\<not> need_to_start_read_after_complete c"
    "\<not> skip_body r" "\<not> manual_length_header r" "\<not> is_completed r"
    "map_of status_texts (code r) \<noteq> None" "length (reply_body (code r) (res_body r)) < stream_threshold S"
  defines "c' \<equiv> end_response S (c\<lparr>res := r\<rparr>)"
  shows "sent c' = sent c @ [reply_text S (code r) (headers r) (res_body r)]" "app c' = app c" "is_open c'"
    "threw c' = threw c" "\<not> need_to_start_read_after_complete c'" "\<not> skip_body (res c')"
    "\<not> manual_length_header (res c')" "\<not> is_completed (res c')" "closes c' = closes c" "adds_keep_alive c'"
    "\<not> need_to_call_after_handlers c'" "reading c' = reading c"
  using assms(1-8)
  by (simp_all add: c'_def end_response_def Let_def complete_request_def
      write_header_reply do_write_general_def do_write_sync_def write_out_def clear_response_def reply_text_def)

text \<open>A request that has a rule, up to the response of its handler.\<close>

lemma rule_reached:
  assumes "is_open c" "\<not> threw c" "\<not> is_completed (res c)" "m \<noteq> Head" "header_count hs ''host'' \<noteq> 0"
    "get_header_value hs ''expect'' \<noteq> ''100-continue''"
    "serve_request (to_double S) (the_router S) m (path_of t) = Run_rule rule p x" "rule_handler rule = Some h"
    "run_handler S h (the_request m t hs body) p (app c) = (Reply cd hs' b, a)"
  obtains c2 where "is_open c2" "\<not> threw c2" "adds_keep_alive c2" "\<not> closes c2"
    "need_to_start_read_after_complete c2 = need_to_start_read_after_complete c"
    "skip_body (res c2) = skip_body (res c)" "manual_length_header (res c2) = manual_length_header (res c)"
    "sent c2 = sent c" "app c2 = a" "reading c2 = reading c"
    "\<And>c3. c3 = end_response S (c2\<lparr>res := assign_response cd hs' b (res c2)\<rparr>) \<Longrightarrow> \<not> threw c3 \<Longrightarrow>
       adds_keep_alive c3 \<Longrightarrow>
       serve_one (connection_env S) (m, t, hs, body) c =
         Some (c3\<lparr>res := set_header ''connection'' ''Keep-Alive'' (res c3)\<rparr>)"
proof -
  let ?r = "the_request m t hs body"
  have fields: "req_method ?r = m" "req_url ?r = path_of t" "req_headers ?r = hs" "version_1_1 ?r"
    "keep_alive ?r" "\<not> close_connection ?r" "\<not> req_upgrade ?r"
    by (simp_all add: the_request_def version_1_1_def)
  obtain f where f: "fst (handle_initial (to_double S) (per_methods (the_router S)) m (path_of t)
      (http_response.truncate (res c))) = f"
    "skip_body (snd (handle_initial (to_double S) (per_methods (the_router S)) m (path_of t)
      (http_response.truncate (res c)))) = skip_body (http_response.truncate (res c))"
    "found_rule f \<noteq> 0" "\<not> catch_all f" "\<And>r. handle (the_router S) (path_of t) r f = Run_rule rule p r"
    by (rule serve_rule [OF assms(7,4)]) blast
  obtain r' where initial: "handle_initial (to_double S) (per_methods (the_router S)) m (path_of t)
      (http_response.truncate (res c)) = (f, r')" "skip_body r' = skip_body (res c)"
    using f(1,2) by (metis http_response.select_convs(3) http_response.truncate_def prod.collapse)
  define c1 where "c1 = c\<lparr>res := (res c)\<lparr>code := code r', headers := headers r', skip_body := skip_body (res c)\<rparr>,
    routing_handle_result := Some f\<rparr>"
  have url: "conn_handle_url S (url_request m t) c = (False, c1)"
    using initial f(3) by (simp add: conn_handle_url_def url_request_def Let_def c1_def)
  have c1: "\<not> threw c1" "\<not> is_completed (res c1)" "routing_handle_result c1 = Some f" "app c1 = app c"
    using assms(2,3) by (simp_all add: c1_def)
  have header: "conn_handle_header (header_request m t hs) c1 = c1"
    using assms(6) by (simp add: conn_handle_header_def header_request_def the_request_def)
  define c2 where "c2 = c1\<lparr>deadline := False, adds_keep_alive := True, closes := False,
    need_to_call_after_handlers := True, app := a\<rparr>"
  have "serve_one (connection_env S) (m, t, hs, body) c =
      Some (c3\<lparr>res := set_header ''connection'' ''Keep-Alive'' (res c3)\<rparr>)"
    if "c3 = end_response S (c2\<lparr>res := assign_response cd hs' b (res c2)\<rparr>)" "\<not> threw c3" "adds_keep_alive c3" for c3
  proof -
    have "router_handle S f ?r (c1\<lparr>deadline := False, adds_keep_alive := True, closes := False,
        need_to_call_after_handlers := False, need_to_call_after_handlers := True\<rparr>) = c3"
      using f(5) assms(8,9) fields(2) c1(4) by (simp add: router_handle_def that(1) c2_def)
    then have "conn_handle S ?r c1 = (True, c3\<lparr>res := set_header ''connection'' ''Keep-Alive'' (res c3)\<rparr>)"
      using fields assms(5) c1 that(2,3) by (simp add: conn_handle_def Let_def)
    then show ?thesis
      using assms(2) c1(1) by (simp add: serve_one_def connection_env_def url header)
  qed
  moreover have "is_open c2" "\<not> threw c2" "adds_keep_alive c2" "\<not> closes c2"
    "need_to_start_read_after_complete c2 = need_to_start_read_after_complete c"
    "skip_body (res c2) = skip_body (res c)" "manual_length_header (res c2) = manual_length_header (res c)"
    "sent c2 = sent c" "app c2 = a" "reading c2 = reading c"
    using assms(1,2) by (simp_all add: c2_def c1_def)
  ultimately show ?thesis by (rule that [rotated -1])
qed

lemma rule_served:
  assumes "idle c" "m \<noteq> Head" "header_count hs ''host'' \<noteq> 0"
    "get_header_value hs ''expect'' \<noteq> ''100-continue''"
    "rule_answer S (the_request m t hs body) (app c) = Some (txt, a)"
  obtains c' where "serve_one (connection_env S) (m, t, hs, body) c = Some c'" "idle c'"
    "sent c' = sent c @ [txt]" "app c' = a" "\<not> closes c'" "\<not> need_to_call_after_handlers c'"
    "reading c' = reading c"
proof -
  have fields: "req_method (the_request m t hs body) = m" "req_url (the_request m t hs body) = path_of t"
    by (simp_all add: the_request_def)
  obtain rule p x h cd hs' b where found:
    "serve_request (to_double S) (the_router S) m (path_of t) = Run_rule rule p x" "rule_handler rule = Some h"
    "run_handler S h (the_request m t hs body) p (app c) = (Reply cd hs' b, a)" "map_of status_texts cd \<noteq> None"
    "length (reply_body cd b) < stream_threshold S" "txt = reply_text S cd hs' b"
    using assms(5) fields
    by (auto simp: rule_answer_def split: outcome.splits option.splits prod.splits reply.splits if_splits)
  have idle: "is_open c" "\<not> threw c" "\<not> need_to_start_read_after_complete c" "\<not> skip_body (res c)"
    "\<not> manual_length_header (res c)" "\<not> is_completed (res c)" using assms(1) by (simp_all add: idle_def)
  obtain c2 where c2: "is_open c2" "\<not> threw c2" "adds_keep_alive c2" "\<not> closes c2"
    "need_to_start_read_after_complete c2 = need_to_start_read_after_complete c"
    "skip_body (res c2) = skip_body (res c)" "manual_length_header (res c2) = manual_length_header (res c)"
    "sent c2 = sent c" "app c2 = a" "reading c2 = reading c"
    and served: "\<And>c3. c3 = end_response S (c2\<lparr>res := assign_response cd hs' b (res c2)\<rparr>) \<Longrightarrow> \<not> threw c3 \<Longrightarrow>
       adds_keep_alive c3 \<Longrightarrow>
       serve_one (connection_env S) (m, t, hs, body) c =
         Some (c3\<lparr>res := set_header ''connection'' ''Keep-Alive'' (res c3)\<rparr>)"
    by (rule rule_reached [OF idle(1,2,6) assms(2-4) found(1-3)]) blast
  define c3 where "c3 = end_response S (c2\<lparr>res := assign_response cd hs' b (res c2)\<rparr>)"
  note ended = end_response_reply [of c2 "assign_response cd hs' b (res c2)" S, folded c3_def]
  have ended: "sent c3 = sent c @ [txt]" "app c3 = a" "is_open c3" "\<not> threw c3"
    "\<not> need_to_start_read_after_complete c3" "\<not> skip_body (res c3)" "\<not> manual_length_header (res c3)"
    "\<not> is_completed (res c3)" "\<not> closes c3" "adds_keep_alive c3" "\<not> need_to_call_after_handlers c3"
    "reading c3 = reading c"
    using ended idle c2 found(4-6) by (simp_all add: assign_response_def)
  let ?c4 = "c3\<lparr>res := set_header ''connection'' ''Keep-Alive'' (res c3)\<rparr>"
  have "serve_one (connection_env S) (m, t, hs, body) c = Some ?c4"
    using served [OF c3_def ended(4,10)] .
  moreover have "idle ?c4" using ended by (simp add: idle_def set_header_def)
  ultimately show ?thesis using ended by (intro that [of ?c4]) simp_all
qed

subsection \<open>A conversation\<close>

text \<open>A request that one read can give.\<close>

definition one_read :: "message \<Rightarrow> bool" where
  "one_read r \<longleftrightarrow> client_ok r \<and> length (client_text r) \<le> buffer_size"

text \<open>The responses to a list of requests, and what they leave of the program's state.\<close>

fun answers :: "('h, 'a) service \<Rightarrow> message list \<Rightarrow> 'a \<Rightarrow> (string list \<times> 'a) option" where
  "answers S [] a = Some ([], a)"
| "answers S ((m, t, hs, body) # rs) a =
     (if m = Head \<or> header_count hs ''host'' = 0 \<or> get_header_value hs ''expect'' = ''100-continue'' then None
      else
        (case rule_answer S (the_request m t hs body) a of
           None \<Rightarrow> None
         | Some (txt, a) \<Rightarrow>
             (case answers S rs a of None \<Rightarrow> None | Some (txts, a) \<Rightarrow> Some (txt # txts, a))))"

lemma after_read_goes_on:
  "\<not> closes (conn s) \<Longrightarrow> \<not> need_to_call_after_handlers (conn s) \<Longrightarrow>
   after_read S False s = on_conn start_reading s"
  by (simp add: after_read_def)

lemma fresh_on_conn [simp]: "fresh (on_conn f s) = fresh s" "conn (on_conn f s) = f (conn s)"
  by (simp_all add: fresh_def on_conn_def)

lemma piece_served:
  fixes s :: "'a connection HTTPParser"
  assumes "fresh s" "reading (conn s)" "\<not> threw (conn s)" "one_read r"
    "serve_one (connection_env S) r ((conn s)\<lparr>reading := False\<rparr>) = Some c"
    "is_open c" "\<not> threw c" "\<not> closes c" "\<not> need_to_call_after_handlers c"
  shows "\<exists>s'. conn_step S (Arrived (client_text r)) s = Some s' \<and> conn s' = start_reading c \<and> fresh s'"
proof -
  let ?s = "on_conn (\<lambda>c. c\<lparr>reading := False\<rparr>) s"
  obtain s1 where s1: "feed (connection_env S) (client_text r) ?s = Some (True, s1)" "conn s1 = c" "fresh s1"
    using message_fed [of ?s r "connection_env S" c] assms(1,4,5) by (auto simp: one_read_def)
  have "conn_step S (Arrived (client_text r)) s = Some (on_conn start_reading s1)"
    using s1 assms after_read_goes_on [of s1 S] by (simp add: one_read_def)
  with s1 show ?thesis by simp
qed

lemma start_fresh: "fresh (conn_start a)"
proof -
  have "fresh (clear (new_parser c))" for c :: "'a connection"
    by (simp add: fresh_def clear_def new_parser_def)
  then show ?thesis by (simp add: conn_start_def)
qed

lemma start_conn: "conn (conn_start a) = start_reading (new_connection a)"
  by (simp add: conn_start_def clear_def new_parser_def)

lemma conversation_answered:
  assumes "list_all one_read rs" "answers S rs a = Some (txts, a')"
  shows "\<exists>s. conn_run S (map (\<lambda>r. Arrived (client_text r)) rs) (conn_start a) = Some s \<and>
    sent (conn s) = txts \<and> app (conn s) = a' \<and> reading (conn s) \<and> is_open (conn s)"
proof -
  have "\<exists>s'. conn_run S (map (\<lambda>r. Arrived (client_text r)) rs) s = Some s' \<and>
      sent (conn s') = sent (conn s) @ txts \<and> app (conn s') = a' \<and> reading (conn s') \<and> is_open (conn s')"
    if "fresh s" "idle (conn s)" "reading (conn s)" "answers S rs (app (conn s)) = Some (txts, a')"
    for s :: "'a connection HTTPParser"
    using that assms(1)
  proof (induction rs arbitrary: s txts)
    case (Cons r rs)
    obtain m t hs body where r: "r = (m, t, hs, body)" by (cases r)
    obtain w a1 txts1 where one: "m \<noteq> Head" "header_count hs ''host'' \<noteq> 0"
      "get_header_value hs ''expect'' \<noteq> ''100-continue''"
      "rule_answer S (the_request m t hs body) (app (conn s)) = Some (w, a1)"
      "answers S rs a1 = Some (txts1, a')" "txts = w # txts1"
      using Cons.prems(4) by (auto simp: r split: if_splits option.splits)
    let ?c = "(conn s)\<lparr>reading := False\<rparr>"
    have "idle ?c" "app ?c = app (conn s)" using Cons.prems(2) by (simp_all add: idle_def)
    then obtain c' where c': "serve_one (connection_env S) r ?c = Some c'" "idle c'"
      "sent c' = sent (conn s) @ [w]" "app c' = a1" "\<not> closes c'" "\<not> need_to_call_after_handlers c'"
      using rule_served [of ?c m hs S t body w a1] one(1-4) by (auto simp: r)
    obtain s1 where s1: "conn_step S (Arrived (client_text r)) s = Some s1" "conn s1 = start_reading c'" "fresh s1"
      using piece_served [OF Cons.prems(1,3) _ _ c'(1)] c' Cons.prems(2,5) by (auto simp: idle_def)
    have "idle (conn s1)" "reading (conn s1)" "app (conn s1) = a1" "sent (conn s1) = sent (conn s) @ [w]"
      using s1(2) c' by (simp_all add: idle_def start_reading_def)
    with Cons.IH [of s1 txts1] s1(1,3) one(5,6) Cons.prems(5) show ?case by auto
  qed (simp add: idle_def)
  moreover have "idle (conn (conn_start a))" "reading (conn (conn_start a))"
    "app (conn (conn_start a)) = a" "sent (conn (conn_start a)) = []"
    by (simp_all add: start_conn new_connection_def start_reading_def idle_def new_response_def)
  ultimately show ?thesis using assms(2) start_fresh by (metis append_Nil)
qed

subsection \<open>The program\<close>

text \<open>
  The handlers of \<open>ChronyController\<close> and \<open>OtroController\<close>.  The state is the configuration file, whether
  it can be written, and the lines printed: \<open>restartService\<close> prints one, and restarts nothing.
\<close>

record world =
  chrony_file :: "string option"
  can_write :: bool
  console :: "string list"

fun app_handle :: "app_handler \<Rightarrow> request \<Rightarrow> routing_params \<Rightarrow> world \<Rightarrow> reply \<times> world" where
  "app_handle Configure r p w =
     (case configure (req_body r) (can_write w) (chrony_file w) of
        Inl e \<Rightarrow> (Threw None, w)
      | Inr ((cd, b), f) \<Rightarrow> (Reply cd [] b, w\<lparr>chrony_file := f\<rparr>))"
| "app_handle Restart r p w =
     (Reply 200 [] ''Chrony service restarted successfully'', w\<lparr>console := console w @ [''Reiniciando servicio de Chrony...'']\<rparr>)"
| "app_handle Otro r p w =
     (Reply 200 [] ''Ruta de OtroController'', w\<lparr>console := console w @ [''Hola desde OtroService!'']\<rparr>)"

definition app_service :: "(app_handler, world) service" where
  "app_service =
     \<lparr>the_router = \<lparr>per_methods = app_methods, catchall_rule = None\<rparr>, to_double = no_double,
      run_handler = app_handle, run_catchall = (\<lambda>h r x w. (Reply (code x) (headers x) (res_body x), w)),
      server_name = ''Crow/master'', stream_threshold = 1048576, read_buffer = 4096\<rparr>"

lemma app_service_simps [simp]:
  "the_router app_service = \<lparr>per_methods = app_methods, catchall_rule = None\<rparr>"
  "to_double app_service = no_double" "run_handler app_service = app_handle"
  "stream_threshold app_service = 1048576"
  by (simp_all add: app_service_def)

text \<open>The answers to the bodies of \<open>PATCH /configure\<close>, and the file they leave.\<close>

fun configure_all :: "bool \<Rightarrow> string list \<Rightarrow> string option \<Rightarrow> string list \<times> string option" where
  "configure_all writable [] file = ([], file)"
| "configure_all writable (b # bs) file =
     (case configure b writable file of
        Inl e \<Rightarrow> ([], file)
      | Inr ((cd, msg), file) \<Rightarrow>
          (let (txts, file) = configure_all writable bs file
           in (reply_text app_service cd [] msg # txts, file)))"

lemma configure_texts:
  assumes "configure body w f = Inr ((cd, msg), f')"
  shows "map_of status_texts cd \<noteq> None \<and> reply_body cd msg = msg \<and> length msg < 1000"
proof -
  have short: "e = ''Cant open old config file.'' \<or> e = ''Cant open new config file.''"
    if "updateConfiguration c w f = (Some e, g)" for c e g
    using that by (auto simp: updateConfiguration_def Let_def split: option.splits if_splits)
  let ?answers = "[(400, ''Invalid JSON''), (400, ''Expected a JSON object''),
      (500, ''Failed to update configuration: '' @ ''Cant open old config file.''),
      (500, ''Failed to update configuration: '' @ ''Cant open new config file.''),
      (200, ''Configuration updated successfully'')]"
  have fine: "list_all (\<lambda>(cd, msg). cd \<in> set (map fst status_texts) \<and> reply_body cd msg = msg \<and> length msg < 1000)
      ?answers"
    by code_simp
  have "(cd, msg) \<in> set ?answers"
    using assms by (auto simp: configure_def and_then_def dest!: short split: option.splits if_splits sum.splits prod.splits)
  with fine show ?thesis unfolding list_all_iff map_of_eq_None_iff by fastforce
qed

lemma configure_rule:
  assumes "path_of t = ''/configure''" "configure body (can_write w) (chrony_file w) = Inr ((cd, msg), f)"
  shows "rule_answer app_service (the_request Patch t hs body) w =
    Some (reply_text app_service cd [] msg, w\<lparr>chrony_file := f\<rparr>)"
proof -
  have "case serve_request no_double \<lparr>per_methods = app_methods, catchall_rule = None\<rparr> Patch ''/configure'' of
      Run_rule rule p x \<Rightarrow> rule_handler rule = Some Configure | _ \<Rightarrow> False"
    by code_simp
  then obtain rule p x where "serve_request no_double \<lparr>per_methods = app_methods, catchall_rule = None\<rparr>
      Patch ''/configure'' = Run_rule rule p x" "rule_handler rule = Some Configure"
    by (auto split: outcome.splits)
  then show ?thesis
    using assms configure_texts [OF assms(2)] by (simp add: rule_answer_def the_request_def)
qed

definition configure_request :: "message \<Rightarrow> bool" where
  "configure_request r \<longleftrightarrow>
     (case r of (m, t, hs, body) \<Rightarrow>
        m = Patch \<and> path_of t = ''/configure'' \<and> header_count hs ''host'' \<noteq> 0 \<and>
        get_header_value hs ''expect'' \<noteq> ''100-continue'')"

definition message_body :: "message \<Rightarrow> string" where
  "message_body r = (case r of (m, t, hs, body) \<Rightarrow> body)"

lemma configure_answers:
  "list_all configure_request rs \<Longrightarrow>
   answers app_service rs w =
     (case configure_all (can_write w) (map message_body rs) (chrony_file w) of
        (txts, file) \<Rightarrow> Some (txts, w\<lparr>chrony_file := file\<rparr>))"
proof (induction rs arbitrary: w)
  case (Cons r rs)
  obtain m t hs body where r: "r = (m, t, hs, body)" by (cases r)
  obtain cd msg f where result: "configure body (can_write w) (chrony_file w) = Inr ((cd, msg), f)"
    using configure_total_aux [of body "can_write w" "chrony_file w"] by blast
  have r1: "m = Patch" "path_of t = ''/configure''" "header_count hs ''host'' \<noteq> 0"
    "get_header_value hs ''expect'' \<noteq> ''100-continue''"
    using Cons.prems by (simp_all add: r configure_request_def)
  have "Patch \<noteq> Head" by (simp add: Patch_def Head_def)
  with Cons.IH [of "w\<lparr>chrony_file := f\<rparr>"] Cons.prems r1 configure_rule [OF r1(2) result] show ?case
    by (simp add: r message_body_def result split: prod.split)
qed simp

text \<open>
  C38. The service as a whole, from the bytes received to the bytes sent: a client that sends
  \<open>PATCH /configure\<close> requests over a connection, each arriving in one read of at most 4096 bytes, gets
  one response for each, with the status and the text of the service, the file ends up as the updates
  one after the other make it, and the connection stays open and goes on reading.  The requests are those
  of \<open>client_ok\<close> (a complete request with a length and without the headers that concern the connection
  itself) with a header \<open>Host\<close> and without \<open>Expect: 100-continue\<close>; their bodies are any.
\<close>

theorem configure_requests_answered:
  assumes "list_all one_read rs" "list_all configure_request rs"
  shows "\<exists>s. conn_run app_service (map (\<lambda>r. Arrived (client_text r)) rs) (conn_start w) = Some s \<and>
    (sent (conn s), chrony_file (app (conn s))) =
      configure_all (can_write w) (map message_body rs) (chrony_file w) \<and>
    reading (conn s) \<and> is_open (conn s)"
proof -
  obtain txts f where all: "configure_all (can_write w) (map message_body rs) (chrony_file w) = (txts, f)"
    by fastforce
  then show ?thesis
    using conversation_answered [OF assms(1), of app_service w txts "w\<lparr>chrony_file := f\<rparr>"]
      configure_answers [OF assms(2), of w] by auto
qed

definition sample_world :: world where
  "sample_world = \<lparr>chrony_file = Some ''server a'', can_write = True, console = []\<rparr>"

lemma sample_read: "one_read sample_message" "configure_request sample_message"
proof -
  have "length (client_text sample_message) \<le> buffer_size" by code_simp
  then show "one_read sample_message" using sample_message_ok by (simp add: one_read_def)
  show "configure_request sample_message" by code_simp
qed

theorem configure_requests_answered_witness:
  "\<exists>s. conn_run app_service (map (\<lambda>r. Arrived (client_text r)) [sample_message, sample_message])
      (conn_start sample_world) = Some s \<and>
    sent (conn s) = replicate 2 (reply_text app_service 200 [] ''Configuration updated successfully'') \<and>
    chrony_file (app (conn s)) = Some (''server a'' @ [newline])"
proof -
  have "configure ''{}'' True (Some ''server a'') =
      Inr ((200, ''Configuration updated successfully''), Some (''server a'' @ [newline]))"
    "configure ''{}'' True (Some (''server a'' @ [newline])) =
      Inr ((200, ''Configuration updated successfully''), Some (''server a'' @ [newline]))"
    by code_simp+
  then have "configure_all (can_write sample_world) (map message_body [sample_message, sample_message])
      (chrony_file sample_world) =
    (replicate 2 (reply_text app_service 200 [] ''Configuration updated successfully''),
     Some (''server a'' @ [newline]))"
    by (simp add: sample_world_def sample_message_def message_body_def numeral_2_eq_2)
  with configure_requests_answered [of "[sample_message, sample_message]" sample_world] sample_read
  show ?thesis by auto
qed

end
