(* ===== verification/Crow_Http_Keep.thy ===== *)
theory Crow_Http_Keep
  imports Crow_Http_Safe
begin

unbundle bit_operations_syntax

text \<open>
  The interface between the parser and its connection: what the three methods that the parser calls
  keep of the connection, feeding the parser keeps, whatever the bytes are.
\<close>

locale kept_by_callbacks =
  fixes E :: "'c env" and I :: "'c \<Rightarrow> bool"
  assumes kept_url: "I c \<Longrightarrow> I (snd (handle_url E r c))"
    and kept_header: "I c \<Longrightarrow> I (handle_header E r c)"
    and kept_message: "I c \<Longrightarrow> I (snd (handle_message E r c))"

text \<open>A parser that is not lenient never reads a body up to the end of the input.\<close>

definition held :: "('c \<Rightarrow> bool) \<Rightarrow> 'c HTTPParser \<Rightarrow> bool" where
  "held I s \<longleftrightarrow> I (conn s) \<and> \<not> lenient_http_headers s \<and> state s \<noteq> s_body_identity_eof"

definition flow_held :: "('c \<Rightarrow> bool) \<Rightarrow> 'c flow \<Rightarrow> bool" where
  "flow_held I fl =
     (case fl of
        Break s l rest \<Rightarrow> held I s | Reexecute s l cs \<Rightarrow> held I s | Return n s \<Rightarrow> held I s
      | Fail s l \<Rightarrow> held I s | Assert_failed \<Rightarrow> True)"

lemma held_updates [simp]:
  "held I (s\<lparr>flags := f\<rparr>) = held I s" "held I (s\<lparr>header_state := h\<rparr>) = held I s"
  "held I (s\<lparr>index := i\<rparr>) = held I s" "held I (s\<lparr>uses_transfer_encoding := b\<rparr>) = held I s"
  "held I (s\<lparr>nread := n\<rparr>) = held I s" "held I (s\<lparr>content_length := len\<rparr>) = held I s"
  "held I (s\<lparr>qs_point := q\<rparr>) = held I s" "held I (s\<lparr>http_major := v\<rparr>) = held I s"
  "held I (s\<lparr>http_minor := v\<rparr>) = held I s" "held I (s\<lparr>p_method := m\<rparr>) = held I s"
  "held I (s\<lparr>http_errno := e\<rparr>) = held I s" "held I (s\<lparr>upgrade := b\<rparr>) = held I s"
  "held I (s\<lparr>req := rq\<rparr>) = held I s" "held I (s\<lparr>header_building_state := k\<rparr>) = held I s"
  "held I (s\<lparr>header_field := t\<rparr>) = held I s" "held I (s\<lparr>header_value := t\<rparr>) = held I s"
  "held I (s\<lparr>message_complete := b\<rparr>) = held I s"
  by (simp_all add: held_def)

lemma held_state: "held I s \<Longrightarrow> st \<noteq> s_body_identity_eof \<Longrightarrow> held I (s\<lparr>state := st\<rparr>)"
  by (simp add: held_def)

lemma held_conn: "held I s \<Longrightarrow> I c \<Longrightarrow> held I (s\<lparr>conn := c\<rparr>)"
  by (simp add: held_def)

lemma held_clear: "held I s \<Longrightarrow> held I (clear s)"
  by (simp add: held_def clear_def)

lemma held_parts:
  "held I s \<Longrightarrow> held I (on_method s)" "held I s \<Longrightarrow> held I (on_header_field t s)"
  "held I s \<Longrightarrow> held I (on_header_value t s)" "held I s \<Longrightarrow> held I (on_body t s)"
  "held I s \<Longrightarrow> held I (set_connection_parameters s)"
  by (simp_all add: on_method_def on_header_field_def on_header_value_def on_body_def
      set_connection_parameters_def Let_def)

lemma flow_held_simps [simp]:
  "flow_held I (Break s l rest) = held I s" "flow_held I (Reexecute s l cs) = held I s"
  "flow_held I (Return n s) = held I s" "flow_held I (Fail s l) = held I s"
  "flow_held I (fail e s l) = held I s" "flow_held I (leave n s l) = held I s" "flow_held I Assert_failed"
  by (simp_all add: flow_held_def fail_def leave_def)

lemma flow_held_notify:
  "held I (f s) \<Longrightarrow> flow_held I (k (f s)) \<Longrightarrow> flow_held I (notify f er s k)"
  by (simp add: notify_def Let_def)

lemma flow_held_data:
  "flow_held I (k s) \<Longrightarrow> (\<And>t. held I (f t s)) \<Longrightarrow> (\<And>t. flow_held I (k (f t s))) \<Longrightarrow>
   flow_held I (data_callback f data m q er s k)"
  by (auto simp: data_callback_def intro: flow_held_notify split: option.split)

lemma flow_held_count:
  "held I s \<Longrightarrow> (\<And>l. flow_held I (k l)) \<Longrightarrow> flow_held I (COUNT_HEADER_SIZE v s l k)"
  by (simp add: COUNT_HEADER_SIZE_def Let_def)

lemmas held_intros = flow_held_notify flow_held_data flow_held_count held_state held_parts

lemma url_state_held: "url_state st ch \<noteq> s_body_identity_eof"
  by (cases st) (simp_all add: url_state_def)

lemma field_loop_held:
  "field_loop s p cs = Some (s', p', cs') \<Longrightarrow> held I s \<Longrightarrow> held I s'"
proof (induction s p cs rule: field_loop.induct)
  case (2 s p ch rest)
  have "held I s1" if "field_char s ch = Some s1" for s1
    using that "2.prems"(2)
    by (cases "header_state s") (auto simp: field_char_def match_name_def Let_def split: if_splits)
  with 2 show ?case by (auto split: if_splits option.splits)
qed simp

lemma value_loop_held:
  "held I s \<Longrightarrow>
   (case value_loop h s p cs of
      Value_input h s p \<Rightarrow> held I s | Value_line h s p ch rest \<Rightarrow> held I s
    | Value_token s p \<Rightarrow> held I s | Value_length h s p \<Rightarrow> held I s | Value_stuck \<Rightarrow> True)"
proof (induction h s p cs rule: value_loop.induct)
  case (2 h s p ch rest)
  have "case value_char h s ch of Go h s \<Rightarrow> held I s | Bad_length h s \<Rightarrow> held I s | Stuck \<Rightarrow> True"
    using "2.prems"
    by (cases h) (simp_all add: value_char_def match_value_def length_char_def Let_def held_state)
  with 2 show ?case by (auto split: value_step.splits)
qed simp

lemma field_held:
  assumes "held I s"
  shows "flow_held I (do_field data s l cs)"
proof (cases "field_loop s (pos l) cs")
  case (Some r)
  obtain s' p cs' where r: "r = (s', p, cs')" by (cases r)
  have "held I s'" using field_loop_held Some assms unfolding r by blast
  then show ?thesis
    unfolding do_field_def Some r by (cases cs') (auto intro!: held_intros)
qed (simp add: do_field_def)

lemma value_held: "held I s \<Longrightarrow> flow_held I (do_value data s l cs)"
  using value_loop_held [of I s "header_state s" "pos l" cs] unfolding do_value_def Let_def
  by (cases "value_loop (header_state s) s (pos l) cs") (auto intro!: held_intros)

context kept_by_callbacks
begin

lemma url_held: "held I s \<Longrightarrow> held I (on_url E t s)"
proof -
  assume s: "held I s"
  then have "I (snd (handle_url E r (conn s)))" for r by (intro kept_url) (simp add: held_def)
  with s show ?thesis
    by (auto simp: on_url_def Let_def split: prod.split intro!: held_clear held_conn) (metis snd_conv)+
qed

lemma headers_held: "held I s \<Longrightarrow> held I (on_headers_complete E s)"
  by (auto simp: on_headers_complete_def Let_def intro!: held_conn kept_header held_parts)
    (simp_all add: held_def set_connection_parameters_def Let_def)

lemma message_held: "held I s \<Longrightarrow> held I (on_message_complete E s)"
proof -
  assume s: "held I s"
  then have "I (snd (handle_message E r (conn s)))" for r by (intro kept_message) (simp add: held_def)
  with s show ?thesis
    by (auto simp: on_message_complete_def Let_def split: prod.split intro!: held_clear held_conn) (metis snd_conv)+
qed

lemmas callbacks_held = url_held headers_held message_held

lemma line_held:
  assumes "held I s"
  shows "flow_held I (do_start_req s l ch rest)" "flow_held I (do_method s l ch rest)"
    "flow_held I (do_http_start s l ch rest)" "flow_held I (do_http_version s l ch rest)"
    "flow_held I (do_http_end s l ch rest)" "flow_held I (do_spaces E s l ch rest)"
    "flow_held I (do_schema E s l ch rest)" "flow_held I (do_url E data s l ch rest)"
  using assms unfolding do_start_req_def do_method_def do_http_start_def do_http_version_def do_http_end_def
    do_spaces_def do_schema_def do_url_def parse_url_char_def
  by (auto simp: Let_def url_state_held split: option.split http_state.split intro!: held_intros url_held)

lemma expect_held:
  assumes "held I s" "nxt \<noteq> s_body_identity_eof"
  shows "flow_held I (expect c nxt s l ch rest)" "flow_held I (expect_lf nxt s l ch rest)"
  using assms by (simp_all add: expect_def expect_lf_def held_state)

lemma header_held:
  assumes "held I s"
  shows "flow_held I (do_field_start s l ch rest)" "flow_held I (do_value_start s l ch rest)"
    "flow_held I (do_discard_ws s l ch rest)" "flow_held I (do_value_lws s l ch rest)"
    "flow_held I (do_discard_lws data s l ch rest)"
proof -
  show "flow_held I (do_field_start s l ch rest)" "flow_held I (do_value_lws s l ch rest)"
    using assms by (simp_all add: do_field_start_def do_value_lws_def Let_def held_state)
  show start: "flow_held I (do_value_start s l ch rest)"
    using assms by (cases "header_state s") (simp_all add: do_value_start_def Let_def held_state)
  then show "flow_held I (do_discard_ws s l ch rest)"
    using assms by (simp add: do_discard_ws_def held_state)
  show "flow_held I (do_discard_lws data s l ch rest)"
    using assms by (auto simp: do_discard_lws_def Let_def intro!: held_intros)
qed

lemma end_held:
  assumes "held I s"
  shows "flow_held I (do_headers_almost_done E s l ch rest)" "flow_held I (do_headers_done E s l ch rest)"
    "flow_held I (notify (on_message_complete E) er s (\<lambda>s. Break s l rest))"
proof -
  have complete: "flow_held I (notify (on_message_complete E) er s (\<lambda>s. k s))"
    if "held I s" "\<And>s. held I s \<Longrightarrow> flow_held I (k s)" for er s k
    using that message_held by (auto intro!: flow_held_notify)
  show "flow_held I (notify (on_message_complete E) er s (\<lambda>s. Break s l rest))"
    using assms by (simp add: complete)
  have "held I (on_headers_complete E (s\<lparr>state := s_headers_done, upgrade := u\<rparr>))" for u
    using assms by (intro headers_held) (simp add: held_state)
  then show "flow_held I (do_headers_almost_done E s l ch rest)"
    using assms complete [OF assms] by (simp add: do_headers_almost_done_def Let_def)
  have "\<not> lenient_http_headers s" using assms by (simp add: held_def)
  then show "flow_held I (do_headers_done E s l ch rest)"
    using assms complete by (simp add: do_headers_done_def Let_def held_state)
qed

lemma body_held:
  assumes "held I s"
  shows "flow_held I (do_body_identity data s l cs)" "flow_held I (do_chunk_data s l cs)"
    "flow_held I (do_chunk_size_start s l ch rest)" "flow_held I (do_chunk_size s l ch rest)"
    "flow_held I (do_chunk_parameters s l ch rest)" "flow_held I (do_chunk_size_almost_done s l ch rest)"
    "flow_held I (do_chunk_data_almost_done data s l ch rest)" "flow_held I (do_chunk_data_done s l ch rest)"
  using assms unfolding do_body_identity_def do_chunk_data_def do_chunk_size_start_def do_chunk_size_def
    do_chunk_parameters_def do_chunk_size_almost_done_def do_chunk_data_almost_done_def do_chunk_data_done_def
  by (auto simp: Let_def split: option.split intro!: held_intros)

lemma switch_held:
  assumes "held I s"
  shows "flow_held I (switch E data s l ch rest)"
proof -
  have "state s \<noteq> s_body_identity_eof" using assms by (simp add: held_def)
  then show ?thesis
    using assms line_held [OF assms] header_held [OF assms] end_held [OF assms] body_held [OF assms]
      field_held [OF assms] value_held [OF assms]
    unfolding switch_def by (cases "state s") (simp_all add: expect_held)
qed

lemma reexecute_held: "reexecute n F data s l cs = Some fl \<Longrightarrow> F = E \<Longrightarrow> held I s \<Longrightarrow> flow_held I fl"
proof (induction n F data s l cs rule: reexecute.induct)
  case (3 n F data s l ch rest)
  have switched: "flow_held I (switch F data s l ch rest)" using switch_held "3.prems"(2,3) by simp
  show ?case
  proof (cases "switch F data s l ch rest")
    case (Reexecute s' l' cs')
    with switched "3.prems"(1,2) "3.IH" [OF Reexecute] show ?thesis by simp
  qed (use "3.prems"(1) switched in auto)
qed auto

lemma at_end_held: "held I s \<Longrightarrow> at_end E data s l = Returned n s' \<Longrightarrow> held I s'"
proof -
  assume s: "held I s" and "at_end E data s l = Returned n s'"
  moreover have "flow_held I (data_callback on_header_field data (field_mark l) (pos l) (pos l) s
      (\<lambda>s. data_callback on_header_value data (value_mark l) (pos l) (pos l) s
        (\<lambda>s. data_callback (on_url E) data (url_mark l) (pos l) (pos l) s
          (\<lambda>s. data_callback on_body data (body_mark l) (pos l) (pos l) s
            (\<lambda>s. leave (length data) s l)))))"
    using s by (intro flow_held_data held_parts url_held) (auto intro: held_parts url_held)
  ultimately show ?thesis by (auto simp: at_end_def split: flow.splits if_splits)
qed

lemma exec_loop_held: "exec_loop F data s l cs = Returned n s' \<Longrightarrow> F = E \<Longrightarrow> held I s \<Longrightarrow> held I s'"
proof (induction F data s l cs rule: exec_loop.induct)
  case (1 F data s l)
  then show ?case by (auto intro: at_end_held)
next
  case (2 F data s l ch rest)
  show ?case
  proof (cases "overflows s (count_char s l)")
    case False
    then obtain fl where fl: "reexecute 5 F data s (count_char s l) (ch # rest) = Some fl"
      using "2.prems"(1) by (auto split: option.splits)
    note kept = reexecute_held [OF fl "2.prems"(2,3)]
    show ?thesis
    proof (cases fl)
      case (Break s2 l2 rest2)
      with "2.IH" [OF False fl Break] "2.prems"(1,2) False fl kept show ?thesis by simp
    qed (use "2.prems"(1) False fl kept in \<open>auto simp: at_error_def\<close>)
  qed (use "2.prems" in \<open>auto simp: at_error_def\<close>)
qed

lemma feed_held: "feed E data s = Some (ok, s') \<Longrightarrow> held I s \<Longrightarrow> held I s'"
  by (auto simp: feed_def http_parser_execute_def split: if_splits execute_result.splits
      intro: exec_loop_held [OF _ refl] message_held)

end

end
