(* ===== verification/Crow_Connection_Run.thy ===== *)
theory Crow_Connection_Run
  imports Crow_Connection Crow_Http_Keep
begin

unbundle bit_operations_syntax

text \<open>
  What a connection does beyond the requests that have a rule: the answer to a URL that has none, what
  holds after any sequence of reads, failures and time-outs, and where one request spoils the next.
\<close>

subsection \<open>Requests that have no rule\<close>

lemma code_response: "code (response k) = k"
  by (simp add: response_def)

lemma unknown_found:
  assumes "serve_request sd rt m url = Respond x" "catchall_rule rt = None" "m < InternalMethodCount"
    "m \<noteq> Head" "m \<noteq> Options" "code x \<noteq> 301"
  obtains found where "handle_initial sd (per_methods rt) m url r = (found, r\<lparr>code := code x\<rparr>)"
    "catch_all found" "\<And>r. handle rt url r found = Respond r"
proof -
  obtain found r0 where found: "handle_initial sd (per_methods rt) m url (response 200) = (found, r0)" by fastforce
  have "catch_all found \<and> r0 = x"
    using assms(1,3-6) found
    by (auto simp: serve_request_def handle_def Let_def response_def handle_initial_def
        split: if_splits option.splits)
  moreover have "handle_initial sd (per_methods rt) m url r = (found, r\<lparr>code := code x\<rparr>)" if "catch_all found" "r0 = x"
    using found that assms(3-5) by (auto simp: handle_initial_def Let_def code_response split: if_splits)
  ultimately show ?thesis using that [of found] assms(2) by (auto simp: handle_def)
qed

definition interim_response :: string where
  "interim_response = ''HTTP/1.1 100 Continue'' @ [cr, lf, cr, lf]"

lemma unknown_served:
  assumes "serve_request (to_double S) (the_router S) m (path_of t) = Respond x" "catchall_rule (the_router S) = None"
    "m < InternalMethodCount" "m \<noteq> Head" "m \<noteq> Options" "code x \<noteq> 301" "header_count hs ''host'' \<noteq> 0"
    "map_of status_texts (code x) \<noteq> None" "40 < stream_threshold S"
    "idle c" "headers (res c) = []" "res_body (res c) = []"
  defines "expects \<equiv> get_header_value hs ''expect'' = ''100-continue''"
  shows "\<exists>c'. serve_one (connection_env S) (m, t, hs, body) c = Some c' \<and> idle c' \<and>
    sent c' = sent c @ (if expects then [interim_response, reply_text S 200 [] []] else [reply_text S (code x) [] []]) \<and>
    app c' = app c \<and> \<not> closes c' \<and> \<not> need_to_call_after_handlers c' \<and> reading c' = reading c"
proof -
  let ?r = "the_request m t hs body"
  have fields: "req_method ?r = m" "req_url ?r = path_of t" "req_headers ?r = hs" "version_1_1 ?r"
    "keep_alive ?r" "\<not> close_connection ?r" "\<not> req_upgrade ?r"
    by (simp_all add: the_request_def version_1_1_def)
  obtain f where f: "handle_initial (to_double S) (per_methods (the_router S)) m (path_of t)
      (http_response.truncate (res c)) = (f, (http_response.truncate (res c))\<lparr>code := code x\<rparr>)"
    "catch_all f" "\<And>r. handle (the_router S) (path_of t) r f = Respond r"
    by (rule unknown_found [OF assms(1-6), of "http_response.truncate (res c)"]) blast
  have idle: "is_open c" "\<not> threw c" "\<not> need_to_start_read_after_complete c" "\<not> skip_body (res c)"
    "\<not> manual_length_header (res c)" "\<not> is_completed (res c)" using assms(10) by (simp_all add: idle_def)
  define c1 where "c1 = c\<lparr>res := (res c)\<lparr>code := code x\<rparr>, routing_handle_result := Some f\<rparr>"
  have url: "conn_handle_url S (url_request m t) c = (False, c1)"
    using f idle(4) by (simp add: conn_handle_url_def url_request_def Let_def c1_def http_response.truncate_def)
  define c2 where "c2 = conn_handle_header (header_request m t hs) c1"
  define k where "k = (if expects then 200 else code x)"
  have "version_1_1 (header_request m t hs)" "req_headers (header_request m t hs) = hs"
    by (simp_all add: header_request_def the_request_def version_1_1_def)
  then have c2: "is_open c2" "\<not> threw c2" "\<not> need_to_start_read_after_complete c2" "\<not> skip_body (res c2)"
    "\<not> manual_length_header (res c2)" "\<not> is_completed (res c2)" "routing_handle_result c2 = Some f"
    "sent c2 = sent c @ (if expects then [interim_response] else [])" "app c2 = app c" "reading c2 = reading c"
    "code (res c2) = k" "headers (res c2) = []" "res_body (res c2) = []"
    using idle assms(11,12)
    by (simp_all add: c2_def conn_handle_header_def c1_def expects_def k_def do_write_sync_def write_out_def
        clear_response_def interim_response_def)
  have "map_of status_texts 200 \<noteq> None" by (simp add: status_texts_def)
  then have known: "map_of status_texts k \<noteq> None" using assms(8) by (simp add: k_def)
  have "list_all (\<lambda>(cd, t). length t \<le> 33) status_texts" by code_simp
  then have "length u \<le> 33" if "map_of status_texts k = Some u" for u
    using map_of_SomeD [OF that] by (auto simp: list_all_iff)
  then have "length (reply_body k []) < stream_threshold S"
    using known assms(9) by (cases "map_of status_texts k") (fastforce simp: reply_body_def status_text_def)+
  note small = this
  let ?c3 = "c2\<lparr>deadline := False, adds_keep_alive := True, closes := False,
    need_to_call_after_handlers := True\<rparr>"
  define c4 where "c4 = end_response S (?c3\<lparr>res := res c2\<rparr>)"
  note ended = end_response_reply [of ?c3 "res c2" S, folded c4_def]
  have ended: "sent c4 = sent c2 @ [reply_text S k [] []]" "app c4 = app c" "is_open c4" "\<not> threw c4"
    "\<not> need_to_start_read_after_complete c4" "\<not> skip_body (res c4)" "\<not> manual_length_header (res c4)"
    "\<not> is_completed (res c4)" "\<not> closes c4" "adds_keep_alive c4" "\<not> need_to_call_after_handlers c4"
    "reading c4 = reading c"
    using ended c2 known small by simp_all
  let ?c5 = "c4\<lparr>res := set_header ''connection'' ''Keep-Alive'' (res c4)\<rparr>"
  have "router_handle S f ?r (c2\<lparr>deadline := False, adds_keep_alive := True, closes := False,
      need_to_call_after_handlers := False, need_to_call_after_handlers := True\<rparr>) = c4"
    using f(2,3) fields(2) by (simp add: router_handle_def c4_def)
  then have handled: "conn_handle S ?r c2 = (True, ?c5)"
    using fields assms(7) c2 ended(4,10) by (simp add: conn_handle_def Let_def)
  have "serve_one (connection_env S) (m, t, hs, body) c = Some ?c5"
    using idle(2) c2(2) by (simp add: serve_one_def connection_env_def url c2_def [symmetric] handled)
      (simp add: c1_def c2_def [symmetric] handled idle(2))
  moreover have "idle ?c5" using ended by (simp add: idle_def set_header_def)
  ultimately show ?thesis using ended c2(8) by (simp add: k_def)
qed

text \<open>
  C40. The first request of a connection, when no rule matches its URL or none for its method (which is not
  HEAD or OPTIONS): it is answered with the router's status, 404 or 405, by one response, no handler runs,
  and the connection goes on reading.  With the header \<open>Expect: 100-continue\<close>, however, the interim
  response wipes that status out, and the client is told 200 OK.  The request is one of \<open>client_ok\<close> that
  arrives in one read and has a header \<open>Host\<close>.
\<close>

theorem unknown_url_answered:
  assumes "one_read (m, t, hs, body)" "header_count hs ''host'' \<noteq> 0"
    "serve_request (to_double S) (the_router S) m (path_of t) = Respond x" "catchall_rule (the_router S) = None"
    "m \<noteq> Head" "m \<noteq> Options" "code x = 404 \<or> code x = 405" "40 < stream_threshold S"
  shows "\<exists>s. conn_run S [Arrived (client_text (m, t, hs, body))] (conn_start a) = Some s \<and>
    sent (conn s) =
      (if get_header_value hs ''expect'' = ''100-continue'' then [interim_response, reply_text S 200 [] []]
       else [reply_text S (code x) [] []]) \<and>
    app (conn s) = a \<and> reading (conn s) \<and> is_open (conn s)"
proof -
  let ?c = "(conn (conn_start a))\<lparr>reading := False\<rparr>"
  have c: "idle ?c" "headers (res ?c) = []" "res_body (res ?c) = []" "sent ?c = []" "app ?c = a" "\<not> threw ?c"
    by (simp_all add: start_conn start_reading_def new_connection_def new_response_def idle_def)
  have "m < InternalMethodCount"
    using assms(1) by (auto simp: one_read_def client_ok_def request_ok_def InternalMethodCount_def)
  moreover have "code x \<noteq> 301" "map_of status_texts (code x) \<noteq> None"
    using assms(7) by (auto simp: status_texts_def)
  ultimately obtain c' where c': "serve_one (connection_env S) (m, t, hs, body) ?c = Some c'" "idle c'"
    "sent c' = (if get_header_value hs ''expect'' = ''100-continue'' then [interim_response, reply_text S 200 [] []]
       else [reply_text S (code x) [] []])" "app c' = a" "\<not> closes c'" "\<not> need_to_call_after_handlers c'"
    using unknown_served [OF assms(3,4) _ assms(5,6) _ assms(2) _ assms(8) c(1-3), where body = body] c(4,5) by auto
  have "reading (conn (conn_start a))" "\<not> threw (conn (conn_start a))"
    by (simp_all add: start_conn start_reading_def new_connection_def)
  then obtain s where "conn_step S (Arrived (client_text (m, t, hs, body))) (conn_start a) = Some s"
    "conn s = start_reading c'"
    using piece_served [OF start_fresh _ _ assms(1) c'(1)] c'(2,5,6) by (auto simp: idle_def)
  then show ?thesis using c' by (auto simp: start_reading_def idle_def)
qed


subsection \<open>The life of a connection\<close>

text \<open>
  Between two calls of the parser no response is left to be completed later, no read is left to be started
  then, and a timer runs only if it did before.
\<close>

definition settled :: "bool \<Rightarrow> 'a connection \<Rightarrow> bool" where
  "settled d c \<longleftrightarrow>
     (need_to_call_after_handlers c \<longrightarrow> threw c) \<and> \<not> need_to_start_read_after_complete c \<and>
     (deadline c \<longrightarrow> d \<and> \<not> threw c)"

lemma write_fields [simp]:
  "need_to_call_after_handlers (do_write_sync w c) = need_to_call_after_handlers c"
  "need_to_start_read_after_complete (do_write_sync w c) = need_to_start_read_after_complete c"
  "deadline (do_write_sync w c) = deadline c" "threw (do_write_sync w c) = threw c"
  "need_to_call_after_handlers (write_out w c) = need_to_call_after_handlers c"
  "need_to_start_read_after_complete (write_out w c) = need_to_start_read_after_complete c"
  "deadline (write_out w c) = deadline c" "threw (write_out w c) = threw c"
  by (simp_all add: do_write_sync_def write_out_def Let_def)

lemma write_all_fields [simp]:
  "need_to_call_after_handlers (fold do_write_sync ws c) = need_to_call_after_handlers c"
  "need_to_start_read_after_complete (fold do_write_sync ws c) = need_to_start_read_after_complete c"
  "deadline (fold do_write_sync ws c) = deadline c" "threw (fold do_write_sync ws c) = threw c"
  by (induction ws arbitrary: c) simp_all

lemma completed_fields:
  assumes "\<not> need_to_start_read_after_complete c"
  shows "\<not> need_to_call_after_handlers (complete_request S c)"
    "\<not> need_to_start_read_after_complete (complete_request S c)"
    "deadline (complete_request S c) \<Longrightarrow> deadline c" "threw (complete_request S c) = threw c"
  using assms
  by (auto simp: complete_request_def do_write_general_def Let_def split: prod.splits if_splits)

lemma ended_fields:
  assumes "\<not> need_to_start_read_after_complete c" "\<not> is_completed (res c)"
  shows "\<not> need_to_call_after_handlers (end_response S c)"
    "\<not> need_to_start_read_after_complete (end_response S c)"
    "deadline (end_response S c) \<Longrightarrow> deadline c" "threw (end_response S c) = threw c"
  using assms completed_fields [of "c\<lparr>res := r\<rparr>" S for r]
  by (auto simp: end_response_def Let_def)

lemma exception_open: "\<not> is_completed (exception_response what r)"
  by (simp add: exception_response_def assign_response_def split: option.split)

lemma router_handle_ends:
  assumes ends: "\<And>a r'. \<not> is_completed r' \<Longrightarrow> P (end_response S (c\<lparr>app := a, res := r'\<rparr>))"
    and threw: "P (c\<lparr>threw := True\<rparr>)" and "\<not> is_completed (res c)"
  shows "P (router_handle S found r c)"
proof -
  have same: "c\<lparr>app := app c, res := r'\<rparr> = c\<lparr>res := r'\<rparr>" "c\<lparr>res := res c\<rparr> = c" for r'
    by simp_all
  have here: "P (end_response S (c\<lparr>res := r'\<rparr>))" if "\<not> is_completed r'" for r'
    using ends [OF that, of "app c"] unfolding same .
  have unchanged: "P (end_response S c)" using here [OF assms(3)] unfolding same .
  show ?thesis
  proof (cases "handle (the_router S) (req_url r) (http_response.truncate (res c)) found")
    case (Respond r')
    then show ?thesis
      using unchanged here [of "assign_response (code r') (headers r') [] (res c)"]
      by (simp add: router_handle_def assign_response_def)
  next
    case (Run_catchall h r')
    have "P (case run_catchall S h r (res c) (app c) of
        (Reply cd hs b, a) \<Rightarrow> end_response S (c\<lparr>app := a, res := (res c)\<lparr>code := cd, headers := hs, res_body := b\<rparr>\<rparr>)
      | (Threw what, a) \<Rightarrow> end_response S (c\<lparr>app := a, res := exception_response what (res c)\<rparr>))"
      using assms(3) exception_open by (auto intro!: ends split: prod.split reply.split)
    with Run_catchall show ?thesis by (simp add: router_handle_def)
  next
    case (Run_rule rule p r')
    have "P (case run_handler S h r p (app c) of
        (Reply cd hs b, a) \<Rightarrow> end_response S (c\<lparr>app := a, res := assign_response cd hs b (res c)\<rparr>)
      | (Threw what, a) \<Rightarrow> end_response S (c\<lparr>app := a, res := exception_response what (res c)\<rparr>))" for h
      using exception_open by (auto intro!: ends split: prod.split reply.split) (simp add: assign_response_def)
    with Run_rule here [OF exception_open] show ?thesis by (simp add: router_handle_def split: option.split)
  qed (simp add: router_handle_def threw)
qed

lemma settled_completed:
  assumes "\<not> need_to_start_read_after_complete c" "deadline c \<Longrightarrow> d \<and> \<not> threw c"
  shows "settled d (complete_request S c)"
  using completed_fields [OF assms(1), of S] assms(2) by (auto simp: settled_def)

lemma settled_ended:
  assumes "\<not> need_to_start_read_after_complete c" "deadline c \<Longrightarrow> d \<and> \<not> threw c" "\<not> is_completed (res c)"
  shows "settled d (end_response S c)"
  using ended_fields [OF assms(1,3), of S] assms(2) by (auto simp: settled_def)

lemma settled_res [simp]: "settled d (c\<lparr>res := r\<rparr>) = settled d c"
  by (simp add: settled_def)

lemma settled_url:
  assumes "settled d c" "\<not> threw c"
  shows "settled d (snd (conn_handle_url S r c))"
proof -
  obtain f r' where initial: "handle_initial (to_double S) (per_methods (the_router S)) (req_method r) (req_url r)
      (http_response.truncate (res c)) = (f, r')" by fastforce
  define c1 where "c1 = c\<lparr>res := (res c)\<lparr>code := code r', headers := headers r',
    skip_body := skip_body (res c) \<or> skip_body r'\<rparr>, routing_handle_result := Some f\<rparr>"
  have c1: "settled d c1" "\<not> threw c1" using assms by (simp_all add: c1_def settled_def)
  have "settled d (complete_request S (c1\<lparr>res := x, need_to_call_after_handlers := True\<rparr>))" for x
    using c1 by (intro settled_completed) (auto simp: settled_def)
  with c1(1) show ?thesis
    by (simp add: conn_handle_url_def initial c1_def [symmetric] Let_def)
qed

lemma settled_header:
  "settled d c \<Longrightarrow> settled d (conn_handle_header r c)"
  by (simp add: conn_handle_header_def settled_def)

lemma settled_upgrade:
  "settled d c \<Longrightarrow> \<not> deadline c \<Longrightarrow> settled d (handle_upgrade S r c)"
  by (auto simp: handle_upgrade_def Let_def settled_def)

lemma settled_message:
  assumes "settled d c" "\<not> threw c"
  shows "settled d (snd (conn_handle S r c))"
proof -
  define c1 where "c1 = c\<lparr>deadline := False, adds_keep_alive := keep_alive r, closes := close_connection r\<rparr>"
  have c1: "\<not> need_to_start_read_after_complete c1" "\<not> threw c1" "\<not> need_to_call_after_handlers c1" "\<not> deadline c1"
    "res c1 = res c"
    using assms by (auto simp: settled_def c1_def)
  consider (host) "version_1_1 r \<and> header_count (req_headers r) ''host'' = 0"
    | (upgrade) "\<not> (version_1_1 r \<and> header_count (req_headers r) ''host'' = 0)"
        "version_1_1 r \<and> req_upgrade r \<and> take 2 (get_header_value (req_headers r) ''upgrade'') \<noteq> ''h2''"
    | (handled) "\<not> (version_1_1 r \<and> header_count (req_headers r) ''host'' = 0)"
        "\<not> (version_1_1 r \<and> req_upgrade r \<and> take 2 (get_header_value (req_headers r) ''upgrade'') \<noteq> ''h2'')"
    by blast
  then show ?thesis
  proof cases
    case host
    have "settled d (complete_request S
        (c1\<lparr>res := assign_response 400 [] [] (res c1), need_to_call_after_handlers := False\<rparr>))"
      using c1 by (intro settled_completed) simp_all
    with host show ?thesis by (simp add: conn_handle_def c1_def [symmetric] Let_def)
  next
    case upgrade
    have "settled d (handle_upgrade S r (c1\<lparr>closes := True\<rparr>))"
      using c1 by (intro settled_upgrade) (simp_all add: settled_def)
    with upgrade show ?thesis by (simp add: conn_handle_def c1_def [symmetric] Let_def)
  next
    case handled
    note skip = if_not_P [OF handled(1)] if_not_P [OF handled(2)]
    have done_already: "settled d (complete_request S (c1\<lparr>need_to_call_after_handlers := False\<rparr>))"
      using c1 by (intro settled_completed) simp_all
    have unrouted: "settled d (c1\<lparr>threw := True\<rparr>)" using c1 by (simp add: settled_def)
    have routed: "settled d (router_handle S found r (c1\<lparr>need_to_call_after_handlers := True\<rparr>))"
      if "\<not> is_completed (res c)" for found
      by (rule router_handle_ends) (use c1 that in \<open>auto simp: settled_def [of d "_\<lparr>threw := True\<rparr>"] intro!: settled_ended\<close>)
    show ?thesis
      unfolding conn_handle_def c1_def [symmetric] Let_def skip
      using done_already unrouted routed c1(5) by (simp split: option.split)
  qed
qed


text \<open>
  No request begins or ends a read by itself, and each is answered when its callback returns.
\<close>

interpretation calls: kept_by_callbacks "connection_env S" "settled d" for S d
  by unfold_locales (auto simp: connection_env_def settled_url settled_header settled_message)

lemma nothing_fed:
  assumes "held I s"
  shows "\<exists>ok s'. feed F [] s = Some (ok, s') \<and> conn s' = conn s"
  using assms by (auto simp: feed_def http_parser_execute_def held_def)

lemma on_conn_ok [simp]: "parser_ok (on_conn f s) = parser_ok s"
  by (simp add: parser_ok_def machine_ok_def on_conn_def state_ok_def start_locals_def marks_ok_def)

lemma on_conn_held: "held I s \<Longrightarrow> J (f (conn s)) \<Longrightarrow> held J (on_conn f s)"
  by (simp add: held_def on_conn_def)

lemma held_conn_part: "held I s \<Longrightarrow> I (conn s)"
  by (simp add: held_def)

lemma parser_done_ok:
  assumes "parser_ok s" "held I s"
  shows "parser_ok (parser_done S s) \<and> held I (parser_done S s) \<and> conn (parser_done S s) = conn s"
proof -
  obtain ok s' where s': "feed (connection_env S) [] s = Some (ok, s')" "conn s' = conn s"
    using nothing_fed [OF assms(2)] by blast
  moreover have "held I s'"
    using s' assms(2) by (auto simp: feed_def http_parser_execute_def held_def split: if_splits)
  moreover have "parser_ok s'" using feed_ok [OF assms(1), of "[]" "connection_env S"] s'(1) by simp
  ultimately show ?thesis by (simp add: parser_done_def)
qed

text \<open>
  What holds between two events: the connection waits for input, or it is closed or about to be
  destroyed; and a timer guards a read.
\<close>

definition conn_alive :: "'a connection HTTPParser \<Rightarrow> bool" where
  "conn_alive s \<longleftrightarrow>
     parser_ok s \<and> held (settled True) s \<and> (deadline (conn s) \<longrightarrow> reading (conn s)) \<and>
     (reading (conn s) \<or> \<not> is_open (conn s) \<or> closes (conn s) \<or> threw (conn s))"

lemma after_read_alive:
  assumes "parser_ok s" "held (settled True) s" "\<not> threw (conn s)"
  shows "conn_alive (after_read S e s)"
proof -
  have settled: "settled True (conn s)" using assms(2) by (rule held_conn_part)
  define s1 where "s1 = on_conn (\<lambda>c. c\<lparr>deadline := False\<rparr>) s"
  have s1: "parser_ok s1" "held (settled True) s1"
    using assms settled by (auto simp: s1_def settled_def intro!: on_conn_held)
  note finished = parser_done_ok [OF s1, of S]
  have conn1: "conn s1 = (conn s)\<lparr>deadline := False\<rparr>" by (simp add: s1_def)
  have "conn_alive (on_conn close_socket (parser_done S s1))"
    using finished conn1 settled
    by (auto simp: conn_alive_def close_socket_def settled_def intro!: on_conn_held [of "settled True"])
  moreover have "conn_alive (parser_done S s1)" if "closes (conn s)"
    using finished conn1 that by (simp add: conn_alive_def)
  moreover have "conn_alive (on_conn start_reading s)"
    using assms settled
    by (auto simp: conn_alive_def start_reading_def settled_def intro!: on_conn_held [of "settled True"])
  moreover have "\<not> need_to_call_after_handlers (conn s)" using settled assms(3) by (simp add: settled_def)
  ultimately show ?thesis by (simp add: after_read_def s1_def [symmetric])
qed

definition no_nul :: "event \<Rightarrow> bool" where
  "no_nul e = (case e of Arrived data \<Rightarrow> nul \<notin> set data | _ \<Rightarrow> True)"

lemma step_alive:
  assumes "conn_alive s" "no_nul e"
  shows "\<exists>s'. conn_step S e s = Some s' \<and> conn_alive s'"
proof (cases e)
  case (Arrived data)
  let ?s = "on_conn (\<lambda>c. c\<lparr>reading := False\<rparr>) s"
  have s: "parser_ok ?s" "held (settled True) ?s"
    using assms(1) by (auto simp: conn_alive_def settled_def dest: held_conn_part intro!: on_conn_held [of "settled True"])
  obtain ret s1 where s1: "feed (connection_env S) data ?s = Some (ret, s1)" "parser_ok s1"
    using feed_ok [OF s(1), of data "connection_env S"] assms(2) Arrived by (auto simp: no_nul_def)
  have held: "held (settled True) s1" using calls.feed_held [OF s1(1) s(2)] .
  have "conn_alive s1" if "threw (conn s1)"
    using that held s1(2) held_conn_part [OF held] by (auto simp: conn_alive_def settled_def)
  then show ?thesis
    using Arrived assms(1) s1 after_read_alive [OF s1(2) held, where S = S] by simp
next
  case Read_failed
  let ?s = "on_conn (\<lambda>c. c\<lparr>reading := False\<rparr>) s"
  have "parser_ok ?s" "held (settled True) ?s"
    using assms(1) by (auto simp: conn_alive_def settled_def dest: held_conn_part intro!: on_conn_held [of "settled True"])
  then show ?thesis
    using Read_failed assms(1) after_read_alive [of ?s S True] by simp
next
  case Timer_fired
  have "conn_alive (on_conn (\<lambda>c. c\<lparr>deadline := False, is_open := False\<rparr>) s)"
    using assms(1)
    by (auto simp: conn_alive_def settled_def dest: held_conn_part intro!: on_conn_held [of "settled True"])
  with Timer_fired assms(1) show ?thesis by simp
qed

lemma start_alive: "conn_alive (conn_start a)"
proof -
  have "parser_ok (clear (new_parser c))" "held I (clear (new_parser c)) = I c" for c :: "'a connection" and I
    by (simp_all add: parser_ok_def machine_ok_def state_defs marks_ok_def start_locals_def new_parser_def
        clear_def held_def)
  then show ?thesis
    unfolding conn_start_def conn_alive_def
    by (auto simp: start_reading_def new_connection_def settled_def clear_def new_parser_def
        intro!: on_conn_held [of "\<lambda>c. True"])
qed

text \<open>
  C39. Whatever bytes without a NUL arrive, in whatever pieces, and wherever reads fail and timers fire: no
  assertion ends the program, and the connection never waits for nothing.  It reads, or it is closed, or
  it is to be closed with its last response, unless an exception has left it; and the timer runs only
  beside a read.
\<close>

theorem connection_never_stuck:
  assumes "list_all no_nul es"
  shows "\<exists>s. conn_run S es (conn_start a) = Some s \<and>
    (reading (conn s) \<or> \<not> is_open (conn s) \<or> closes (conn s) \<or> threw (conn s)) \<and>
    (deadline (conn s) \<longrightarrow> reading (conn s))"
proof -
  have "\<exists>s'. conn_run S es s = Some s' \<and> conn_alive s'" if "conn_alive s" for s :: "'a connection HTTPParser"
    using that assms
  proof (induction es arbitrary: s)
    case (Cons e es)
    then obtain s' where "conn_step S e s = Some s'" "conn_alive s'" using step_alive [of s e S] by auto
    with Cons show ?case by simp
  qed simp
  from this [OF start_alive] show ?thesis by (auto simp: conn_alive_def)
qed

theorem connection_never_stuck_witness:
  "\<exists>s. conn_run app_service [Arrived ''GET /otro HT'', Timer_fired, Arrived ''TP/1.1'', Read_failed]
      (conn_start sample_world) = Some s \<and> (deadline (conn s) \<longrightarrow> reading (conn s))"
  using connection_never_stuck [of "[Arrived ''GET /otro HT'', Timer_fired, Arrived ''TP/1.1'', Read_failed]" app_service sample_world]
  by (auto simp: no_nul_def)


subsection \<open>What goes wrong\<close>

text \<open>
  A request that asks for an upgrade is not answered: the router makes up a response, whose \<open>end\<close> has no
  handler to write it.
\<close>

lemma upgrade_unanswered:
  assumes "version_1_1 r" "header_count (req_headers r) ''host'' \<noteq> 0" "req_upgrade r"
    "take 2 (get_header_value (req_headers r) ''upgrade'') \<noteq> ''h2''"
  shows "sent (snd (conn_handle S r c)) = sent c \<and> closes (snd (conn_handle S r c))"
  using assms by (simp add: conn_handle_def handle_upgrade_def Let_def)

definition head_without_host :: message where
  "head_without_host = (Head, ''/otro'', [], [])"

definition plain_get :: message where
  "plain_get = (Get, ''/otro'', [(''Host'', ''a'')], [])"

definition expecting_get :: message where
  "expecting_get = (Get, ''/nope'', [(''Host'', ''a''), (''Expect'', ''100-continue'')], [])"

lemma sample_requests_read:
  "one_read head_without_host" "one_read plain_get" "one_read expecting_get"
proof -
  have headers: "http_header_ok (''Host'', ''a'')" "http_header_ok (''Expect'', ''100-continue'')"
    "\<not> is_length ''Host''" "\<not> is_length ''Expect''" "target_ok ''/otro''" "target_ok ''/nope''"
    by code_simp+
  have sizes: "list_all (\<lambda>r. length (client_text r) \<le> 100) [head_without_host, plain_get, expecting_get]"
    by code_simp
  have names: "method_name Get = ''GET''" "method_name Head = ''HEAD''" by code_simp+
  note defs = one_read_def buffer_size_def client_ok_def request_ok_def body_fits_def lengths_def
    head_without_host_def plain_get_def expecting_get_def header_text_def header_line_def
  show "one_read head_without_host" "one_read plain_get" "one_read expecting_get"
    using headers sizes names by (simp_all add: defs Get_def Head_def)
qed

theorem unknown_url_answered_witness:
  "\<exists>s. conn_run app_service [Arrived (client_text expecting_get)] (conn_start sample_world) = Some s \<and>
    sent (conn s) = [interim_response, reply_text app_service 200 [] []]"
proof -
  have "\<exists>x. serve_request no_double \<lparr>per_methods = app_methods, catchall_rule = None\<rparr> Get ''/nope'' = Respond x \<and> code x = 404"
  proof -
    have "case serve_request no_double \<lparr>per_methods = app_methods, catchall_rule = None\<rparr> Get ''/nope'' of
        Respond x \<Rightarrow> code x = 404 | _ \<Rightarrow> False"
      by code_simp
    then show ?thesis by (auto split: outcome.splits)
  qed
  then obtain x where x: "serve_request no_double \<lparr>per_methods = app_methods, catchall_rule = None\<rparr> Get ''/nope'' = Respond x"
    "code x = 404" by blast
  have request: "path_of ''/nope'' = ''/nope''" "Get \<noteq> Head" "Get \<noteq> Options"
    "header_count [(''Host'', ''a''), (''Expect'', ''100-continue'')] ''host'' \<noteq> 0"
    "get_header_value [(''Host'', ''a''), (''Expect'', ''100-continue'')] ''expect'' = ''100-continue''"
    by code_simp+
  have "\<exists>s. conn_run app_service [Arrived (client_text expecting_get)] (conn_start sample_world) = Some s \<and>
    sent (conn s) =
      (if get_header_value [(''Host'', ''a''), (''Expect'', ''100-continue'')] ''expect'' = ''100-continue''
       then [interim_response, reply_text app_service 200 [] []] else [reply_text app_service (code x) [] []]) \<and>
    app (conn s) = sample_world \<and> reading (conn s) \<and> is_open (conn s)"
    unfolding expecting_get_def
    by (rule unknown_url_answered) (use x request sample_requests_read(3) in \<open>simp_all add: expecting_get_def\<close>)
  then show ?thesis unfolding if_P [OF request(5)] by blast
qed

text \<open>What one request after the other makes of a connection.\<close>

definition carries_on :: "'a connection \<Rightarrow> bool" where
  "carries_on c \<longleftrightarrow> is_open c \<and> \<not> threw c \<and> \<not> closes c \<and> \<not> need_to_call_after_handlers c"

lemma two_pieces:
  assumes "one_read r1" "one_read r2"
    "serve_one (connection_env S) r1 ((start_reading (new_connection a))\<lparr>reading := False\<rparr>) = Some c1" "carries_on c1"
    "serve_one (connection_env S) r2 ((start_reading c1)\<lparr>reading := False\<rparr>) = Some c2" "carries_on c2"
  shows "\<exists>s. conn_run S (map (\<lambda>r. Arrived (client_text r)) [r1, r2]) (conn_start a) = Some s \<and> sent (conn s) = sent c2"
proof -
  have "reading (conn (conn_start a))" "\<not> threw (conn (conn_start a))"
    by (simp_all add: start_conn start_reading_def new_connection_def)
  then obtain s1 where s1: "conn_step S (Arrived (client_text r1)) (conn_start a) = Some s1"
    "conn s1 = start_reading c1" "fresh s1"
    using piece_served [OF start_fresh _ _ assms(1), of a S c1] assms(3,4) by (auto simp: carries_on_def start_conn)
  then obtain s2 where "conn_step S (Arrived (client_text r2)) s1 = Some s2" "conn s2 = start_reading c2"
    using piece_served [OF s1(3) _ _ assms(2), of S c2] assms(4-6)
    by (auto simp: carries_on_def start_reading_def)
  with s1(1) show ?thesis by (simp add: start_reading_def)
qed

lemma head_unread:
  assumes "handle_initial (to_double S) (per_methods (the_router S)) Head (path_of t) (response 200) = (f, r0)"
    "found_rule f \<noteq> 0" "header_count hs ''host'' = 0" "get_header_value hs ''expect'' \<noteq> ''100-continue''"
    "40 < stream_threshold S" "idle c"
  shows "\<exists>c'. serve_one (connection_env S) (Head, t, hs, body) c = Some c' \<and> carries_on c' \<and>
    skip_body (res c') \<and> \<not> manual_length_header (res c') \<and> \<not> is_completed (res c') \<and>
    \<not> need_to_start_read_after_complete c' \<and> sent c' = sent c @ [reply_text S 400 [] []] \<and> app c' = app c"
proof -
  let ?r = "the_request Head t hs body"
  have fields: "req_method ?r = Head" "req_url ?r = path_of t" "req_headers ?r = hs" "version_1_1 ?r"
    "keep_alive ?r" "\<not> close_connection ?r"
    by (simp_all add: the_request_def version_1_1_def)
  have "handle_initial (to_double S) (per_methods (the_router S)) Head (path_of t) x = (f, x\<lparr>skip_body := True\<rparr>)" for x
    using assms(1,2) by (auto simp: handle_initial_def Let_def InternalMethodCount_def Head_def not_found_def split: if_splits)
  note initial = this
  have idle: "is_open c" "\<not> threw c" "\<not> need_to_start_read_after_complete c"
    "\<not> manual_length_header (res c)" "\<not> is_completed (res c)" using assms(6) by (simp_all add: idle_def)
  define c1 where "c1 = c\<lparr>res := (res c)\<lparr>skip_body := True\<rparr>, routing_handle_result := Some f\<rparr>"
  have url: "conn_handle_url S (url_request Head t) c = (False, c1)"
    using initial assms(2)
    by (simp add: conn_handle_url_def url_request_def Let_def c1_def http_response.truncate_def)
  have header: "conn_handle_header (header_request Head t hs) c1 = c1"
    using assms(4) by (simp add: conn_handle_header_def header_request_def the_request_def)
  have "map_of status_texts 400 = Some ''400 Bad Request''" by (simp add: status_texts_def)
  then have known: "map_of status_texts 400 \<noteq> None" "length (reply_body 400 []) < stream_threshold S"
    using assms(5) by (simp_all add: reply_body_def status_text_def)
  define c2 where "c2 = complete_request S (c1\<lparr>deadline := False, adds_keep_alive := True, closes := False,
    res := assign_response 400 [] [] (res c1), need_to_call_after_handlers := False\<rparr>)"
  have c2: "is_open c2" "\<not> threw c2" "\<not> closes c2" "\<not> need_to_call_after_handlers c2" "skip_body (res c2)"
    "\<not> manual_length_header (res c2)" "\<not> is_completed (res c2)" "\<not> need_to_start_read_after_complete c2"
    "sent c2 = sent c @ [reply_text S 400 [] []]" "app c2 = app c"
    using idle known
    by (simp_all add: c2_def c1_def complete_request_def assign_response_def write_header_reply
        do_write_general_def do_write_sync_def write_out_def clear_response_def Let_def reply_text_def)
  have "conn_handle S ?r c1 = (True, c2)"
    using fields assms(3) by (simp add: conn_handle_def Let_def c2_def)
  then have "serve_one (connection_env S) (Head, t, hs, body) c = Some c2"
    using idle(2) by (simp add: serve_one_def connection_env_def url header) (simp add: c1_def)
  then show ?thesis using c2 by (auto simp: carries_on_def)
qed

text \<open>A response whose body is left out although its request asks for it.\<close>

lemma body_skipped:
  assumes "is_open c" "\<not> threw c" "\<not> is_completed (res c)" "\<not> need_to_start_read_after_complete c"
    "skip_body (res c)" "m \<noteq> Head" "header_count hs ''host'' \<noteq> 0"
    "get_header_value hs ''expect'' \<noteq> ''100-continue''"
    "serve_request (to_double S) (the_router S) m (path_of t) = Run_rule rule p x" "rule_handler rule = Some h"
    "run_handler S h (the_request m t hs body) p (app c) = (Reply 200 [] b, a)" "0 < stream_threshold S"
  shows "\<exists>c'. serve_one (connection_env S) (m, t, hs, body) c = Some c' \<and> carries_on c' \<and>
    sent c' = sent c @ [''HTTP/1.1 200 OK'' @ [cr, lf] @ ''Content-Length: '' @ int_text (int (length b)) @ [cr, lf] @
      (if server_name S \<noteq> [] then ''Server: '' @ server_name S @ [cr, lf] else []) @
      ''Connection: Keep-Alive'' @ [cr, lf, cr, lf]]"
proof -
  obtain c2 where c2: "is_open c2" "\<not> threw c2" "adds_keep_alive c2" "\<not> closes c2"
    "need_to_start_read_after_complete c2 = need_to_start_read_after_complete c"
    "skip_body (res c2) = skip_body (res c)" "manual_length_header (res c2) = manual_length_header (res c)"
    "sent c2 = sent c" "app c2 = a" "reading c2 = reading c"
    and served: "\<And>c3. c3 = end_response S (c2\<lparr>res := assign_response 200 [] b (res c2)\<rparr>) \<Longrightarrow> \<not> threw c3 \<Longrightarrow>
       adds_keep_alive c3 \<Longrightarrow>
       serve_one (connection_env S) (m, t, hs, body) c =
         Some (c3\<lparr>res := set_header ''connection'' ''Keep-Alive'' (res c3)\<rparr>)"
    by (rule rule_reached [OF assms(1-3,6-11)]) blast
  define c3 where "c3 = end_response S (c2\<lparr>res := assign_response 200 [] b (res c2)\<rparr>)"
  have counts: "header_count [(''Content-Length'', v)] ''server'' = 0" for v
    by (simp add: header_count_def string_equals_def)
  have status: "map_of status_texts 200 = Some ''200 OK''" by (simp add: status_texts_def)
  have c3: "is_open c3" "\<not> threw c3" "\<not> closes c3" "\<not> need_to_call_after_handlers c3" "adds_keep_alive c3"
    "sent c3 = sent c @ [''HTTP/1.1 200 OK'' @ [cr, lf] @ ''Content-Length: '' @ int_text (int (length b)) @ [cr, lf] @
      (if server_name S \<noteq> [] then ''Server: '' @ server_name S @ [cr, lf] else []) @
      ''Connection: Keep-Alive'' @ [cr, lf, cr, lf]]"
    using c2 assms(4,5,12)
    by (simp_all add: c3_def end_response_def assign_response_def complete_request_def write_header_def set_header_def
        counts status status_text_def do_write_general_def do_write_sync_def write_out_def clear_response_def Let_def)
  from served [OF c3_def c3(2,5)] c3 show ?thesis by (auto simp: carries_on_def)
qed

text \<open>
  An example on the routes of the program: a HEAD request without the header \<open>Host\<close> spoils the next one.  Its 400 is written without
  \<open>end\<close>, which would have reset \<open>skip_body\<close>, so that it has a body although HEAD responses have none, and the
  GET request after it is told of 22 bytes that are never sent, for which its client waits.
\<close>

theorem head_flag_outlives_request:
  "\<exists>s. conn_run app_service (map (\<lambda>r. Arrived (client_text r)) [head_without_host, plain_get]) (conn_start sample_world) =
      Some s \<and>
    sent (conn s) =
      [reply_text app_service 400 [] [],
       ''HTTP/1.1 200 OK'' @ [cr, lf] @ ''Content-Length: 22'' @ [cr, lf] @ ''Server: Crow/master'' @ [cr, lf] @
       ''Connection: Keep-Alive'' @ [cr, lf, cr, lf]]"
proof -
  let ?c = "(start_reading (new_connection sample_world))\<lparr>reading := False\<rparr>"
  have c: "idle ?c" "sent ?c = []"
    by (simp_all add: start_reading_def new_connection_def new_response_def idle_def)
  have "found_rule (fst (handle_initial no_double app_methods Head (path_of ''/otro'') (response 200))) \<noteq> 0"
    by code_simp
  then obtain f r0 where f: "handle_initial no_double app_methods Head (path_of ''/otro'') (response 200) = (f, r0)"
    "found_rule f \<noteq> 0" by (metis prod.collapse)
  have heads: "header_count [] ''host'' = 0" "get_header_value [] ''expect'' \<noteq> ''100-continue''"
    by (simp_all add: header_count_def get_header_value_def)
  obtain c1 where c1: "serve_one (connection_env app_service) head_without_host ?c = Some c1" "carries_on c1"
    "skip_body (res c1)" "\<not> is_completed (res c1)" "\<not> need_to_start_read_after_complete c1"
    "sent c1 = [reply_text app_service 400 [] []]"
    using head_unread [of app_service "''/otro''" f r0 "[]" ?c "[]"] f heads c by (auto simp: head_without_host_def)
  let ?c1 = "(start_reading c1)\<lparr>reading := False\<rparr>"
  have host: "Get \<noteq> Head" "header_count [(''Host'', ''a'')] ''host'' \<noteq> 0"
    "get_header_value [(''Host'', ''a'')] ''expect'' \<noteq> ''100-continue''"
    by code_simp+
  have "case serve_request no_double \<lparr>per_methods = app_methods, catchall_rule = None\<rparr> Get (path_of ''/otro'') of
      Run_rule rule p x \<Rightarrow> rule_handler rule = Some Otro | _ \<Rightarrow> False"
    by code_simp
  then obtain rule p x where rule: "serve_request no_double \<lparr>per_methods = app_methods, catchall_rule = None\<rparr> Get
      (path_of ''/otro'') = Run_rule rule p x" "rule_handler rule = Some Otro"
    by (auto split: outcome.splits)
  have size: "int_text (int (length ''Ruta de OtroController'')) = ''22''" by code_simp
  have name: "server_name app_service = ''Crow/master''" "''Crow/master'' \<noteq> []" by (simp_all add: app_service_def)
  have c1': "is_open ?c1" "\<not> threw ?c1" "\<not> is_completed (res ?c1)" "\<not> need_to_start_read_after_complete ?c1"
    "skip_body (res ?c1)" "sent ?c1 = [reply_text app_service 400 [] []]"
    using c1 by (simp_all add: carries_on_def start_reading_def)
  have app1: "serve_request (to_double app_service) (the_router app_service) Get (path_of ''/otro'') = Run_rule rule p x"
    "\<exists>w. run_handler app_service Otro r p v = (Reply 200 [] ''Ruta de OtroController'', w)"
    "0 < stream_threshold app_service" for r v
    using rule by simp_all
  obtain w where "run_handler app_service Otro (the_request Get ''/otro'' [(''Host'', ''a'')] []) p (app ?c1) =
      (Reply 200 [] ''Ruta de OtroController'', w)"
    using app1(2) by blast
  from body_skipped [OF c1'(1-5) host app1(1) rule(2) this app1(3)]
  obtain c2 where "serve_one (connection_env app_service) plain_get ?c1 = Some c2" "carries_on c2"
    "sent c2 = sent ?c1 @ [''HTTP/1.1 200 OK'' @ [cr, lf] @ ''Content-Length: '' @ ''22'' @ [cr, lf] @
       (''Server: '' @ ''Crow/master'' @ [cr, lf]) @ ''Connection: Keep-Alive'' @ [cr, lf, cr, lf]]"
    unfolding size name(1) if_P [OF name(2)] plain_get_def by blast
  then have c2: "serve_one (connection_env app_service) plain_get ?c1 = Some c2" "carries_on c2"
    "sent c2 = [reply_text app_service 400 [] [],
       ''HTTP/1.1 200 OK'' @ [cr, lf] @ ''Content-Length: 22'' @ [cr, lf] @ ''Server: Crow/master'' @ [cr, lf] @
       ''Connection: Keep-Alive'' @ [cr, lf, cr, lf]]"
    unfolding c1'(6) by simp_all
  from two_pieces [OF sample_requests_read(1,2) c1(1,2) c2(1,2)] c2(3) show ?thesis by (simp only:)
qed

end
