(* ===== verification/Queue_Concurrency.thy ===== *)
theory Queue_Concurrency
  imports Event_Queue
begin

text \<open>
  The ring buffer between two threads.  The queues of the engine are shared without locks and
  without atomic variables: the receiver pushes on the input queue while the processor pops from
  it, the dispatcher pushes on an output queue while its sender pops from it.  Here the bodies of
  \<open>push_event\<close> and \<open>pop_event\<close> (\<open>engine/src/event_queue.c\<close>) are cut into their single reads and
  writes of the shared structure, an event being copied in two parts, and the threads are
  interleaved in any order (each read sees the last write).  With one producer and one consumer
  every execution is linearizable: it has the results of a sequence of calls on the bounded FIFO
  list.  With two producers it is not.
\<close>

subsection \<open>One thread\<close>

text \<open>
  Where a thread stands in a call, with the values it holds in registers.  \<open>q->head == q->tail\<close>
  reads the two fields in either order in C; here the tail comes first.
\<close>

datatype pc =
    Idle
  | Push_Check event_t nat
  | Push_Store event_t nat
  | Push_Payload event_t nat nat
  | Push_Publish event_t nat
  | Pop_Check nat
  | Pop_Copy
  | Pop_Payload nat "event_header_t"
  | Pop_Advance event_t
  | Pop_Publish event_t nat

text \<open>
  The next step of a thread; an idle thread begins the call \<open>op\<close>.  A step that settles the
  result of a call gives the call and its result.
\<close>

fun thread_step ::
  "queue_op \<Rightarrow> pc \<Rightarrow> event_queue_t \<Rightarrow> pc \<times> event_queue_t \<times> (queue_op \<times> queue_result) option"
  where
  "thread_step (Push e) Idle q = (Push_Check e ((head q + 1) mod QUEUE_SIZE), q, None)"
| "thread_step Pop Idle q = (Pop_Check (tail q), q, None)"
| "thread_step op (Push_Check e nh) q =
     (if nh = tail q then (Idle, q, Some (Push e, (- 1, None))) else (Push_Store e nh, q, None))"
| "thread_step op (Push_Store e nh) q =
     (Push_Payload e nh (head q),
      q\<lparr>buffer := (buffer q)[head q := (buffer q ! head q)\<lparr>header := header e\<rparr>]\<rparr>, None)"
| "thread_step op (Push_Payload e nh i) q =
     (Push_Publish e nh, q\<lparr>buffer := (buffer q)[i := (buffer q ! i)\<lparr>payload := payload e\<rparr>]\<rparr>, None)"
| "thread_step op (Push_Publish e nh) q = (Idle, q\<lparr>head := nh\<rparr>, Some (Push e, (0, None)))"
| "thread_step op (Pop_Check t) q =
     (if head q = t then (Idle, q, Some (Pop, (- 1, None))) else (Pop_Copy, q, None))"
| "thread_step op Pop_Copy q = (Pop_Payload (tail q) (header (buffer q ! tail q)), q, None)"
| "thread_step op (Pop_Payload i h) q =
     (Pop_Advance \<lparr>header = h, payload = payload (buffer q ! i)\<rparr>, q, None)"
| "thread_step op (Pop_Advance e) q = (Pop_Publish e ((tail q + 1) mod QUEUE_SIZE), q, None)"
| "thread_step op (Pop_Publish e nt) q = (Idle, q\<lparr>tail := nt\<rparr>, Some (Pop, (0, Some e)))"

lemma event_parts [simp]: "x\<lparr>header := header e, payload := payload e\<rparr> = (e :: event_t)"
  by (cases x, cases e) simp

text \<open>Run alone, the steps of a call are the call.\<close>

fun run_thread ::
  "nat \<Rightarrow> queue_op \<Rightarrow> pc \<Rightarrow> event_queue_t \<Rightarrow> (queue_op \<times> queue_result) option \<times> event_queue_t"
  where
  "run_thread 0 op pc q = (None, q)"
| "run_thread (Suc n) op pc q =
     (case thread_step op pc q of (pc, q, r) \<Rightarrow>
       (case r of None \<Rightarrow> run_thread n op pc q | Some x \<Rightarrow> (Some x, q)))"

lemma run_thread_push:
  assumes "head q < length (buffer q)"
  shows "run_thread 5 (Push e) Idle q = (Some (Push e, (fst (push_event q e), None)), snd (push_event q e))"
  using assms by (simp add: numeral_eq_Suc push_event_def Let_def)

lemma run_thread_pop:
  "run_thread 6 Pop Idle q =
     (Some (Pop, fst (ring_op e0 Pop q)), snd (ring_op e0 Pop q))"
  by (simp add: numeral_eq_Suc pop_event_def)

text \<open>Neither call waits: each step of a running call brings it closer to its return.\<close>

fun steps_left :: "pc \<Rightarrow> nat" where
  "steps_left Idle = 0"
| "steps_left (Push_Check e nh) = 4"
| "steps_left (Push_Store e nh) = 3"
| "steps_left (Push_Payload e nh i) = 2"
| "steps_left (Push_Publish e nh) = 1"
| "steps_left (Pop_Check t) = 5"
| "steps_left Pop_Copy = 4"
| "steps_left (Pop_Payload i h) = 3"
| "steps_left (Pop_Advance e) = 2"
| "steps_left (Pop_Publish e nt) = 1"

lemma thread_step_returns:
  assumes "thread_step op pc q = (pc', q', r)" "pc \<noteq> Idle"
  shows "steps_left pc' < steps_left pc \<and> (pc' = Idle \<longleftrightarrow> r \<noteq> None)"
  using assms by (cases pc) (auto split: if_splits)

subsection \<open>Interleaved threads\<close>

text \<open>
  The shared queue, the position of every thread, and the calls with their results in the order
  in which they took effect.
\<close>

record conc_state =
  shared :: event_queue_t
  pcs :: "nat \<Rightarrow> pc"
  history :: "(queue_op \<times> queue_result) list"

definition conc_init :: "event_queue_t \<Rightarrow> conc_state" where
  "conc_init q = \<lparr>shared = q, pcs = (\<lambda>_. Idle), history = []\<rparr>"

definition conc_step :: "nat \<Rightarrow> queue_op \<Rightarrow> conc_state \<Rightarrow> conc_state" where
  "conc_step i op s =
     (case thread_step op (pcs s i) (shared s) of (pc, q, r) \<Rightarrow>
       \<lparr>shared = q, pcs = (pcs s)(i := pc),
        history = history s @ (case r of None \<Rightarrow> [] | Some x \<Rightarrow> [x])\<rparr>)"

inductive conc_reachable :: "nat set \<Rightarrow> nat set \<Rightarrow> event_queue_t \<Rightarrow> conc_state \<Rightarrow> bool"
  for producers consumers q where
  start: "conc_reachable producers consumers q (conc_init q)"
| produce: "conc_reachable producers consumers q s \<Longrightarrow> i \<in> producers \<Longrightarrow>
    conc_reachable producers consumers q (conc_step i (Push e) s)"
| consume: "conc_reachable producers consumers q s \<Longrightarrow> i \<in> consumers \<Longrightarrow>
    conc_reachable producers consumers q (conc_step i Pop s)"

text \<open>A schedule names the thread of each step and the call it begins when it is idle.\<close>

fun run_schedule :: "(nat \<times> queue_op) list \<Rightarrow> conc_state \<Rightarrow> conc_state" where
  "run_schedule [] s = s"
| "run_schedule ((i, op) # steps) s = run_schedule steps (conc_step i op s)"

definition schedule_ok :: "nat list \<Rightarrow> nat list \<Rightarrow> (nat \<times> queue_op) list \<Rightarrow> bool" where
  "schedule_ok producers consumers steps \<longleftrightarrow>
     list_all (\<lambda>(i, op). case op of Push e \<Rightarrow> i \<in> set producers | Pop \<Rightarrow> i \<in> set consumers) steps"

lemma run_schedule_reachable:
  assumes "conc_reachable (set ps) (set cs) q s" "schedule_ok ps cs steps"
  shows "conc_reachable (set ps) (set cs) q (run_schedule steps s)"
  using assms
proof (induction steps arbitrary: s)
  case (Cons step steps)
  obtain i op where step: "step = (i, op)" by (cases step)
  have "conc_reachable (set ps) (set cs) q (conc_step i op s)"
    using Cons.prems step
    by (cases op) (auto simp: schedule_ok_def intro: conc_reachable.intros)
  with Cons show ?case by (simp add: step schedule_ok_def)
qed simp

subsection \<open>One producer and one consumer\<close>

text \<open>What the registers of the producer and of the consumer say about the queue.\<close>

fun producer_inv :: "event_queue_t \<Rightarrow> pc \<Rightarrow> bool" where
  "producer_inv q Idle = True"
| "producer_inv q (Push_Check e nh) = (nh = Suc (head q) mod QUEUE_SIZE)"
| "producer_inv q (Push_Store e nh) = (nh = Suc (head q) mod QUEUE_SIZE \<and> nh \<noteq> tail q)"
| "producer_inv q (Push_Payload e nh i) =
     (nh = Suc (head q) mod QUEUE_SIZE \<and> nh \<noteq> tail q \<and> i = head q \<and>
      header (buffer q ! i) = header e)"
| "producer_inv q (Push_Publish e nh) =
     (nh = Suc (head q) mod QUEUE_SIZE \<and> nh \<noteq> tail q \<and> buffer q ! head q = e)"
| "producer_inv q _ = False"

fun consumer_inv :: "event_queue_t \<Rightarrow> pc \<Rightarrow> bool" where
  "consumer_inv q Idle = True"
| "consumer_inv q (Pop_Check t) = (t = tail q)"
| "consumer_inv q Pop_Copy = (head q \<noteq> tail q)"
| "consumer_inv q (Pop_Payload i h) =
     (head q \<noteq> tail q \<and> i = tail q \<and> h = header (buffer q ! i))"
| "consumer_inv q (Pop_Advance e) = (head q \<noteq> tail q \<and> e = buffer q ! tail q)"
| "consumer_inv q (Pop_Publish e nt) =
     (head q \<noteq> tail q \<and> e = buffer q ! tail q \<and> nt = Suc (tail q) mod QUEUE_SIZE)"
| "consumer_inv q _ = False"

lemma full_iff:
  "queue_ok q \<Longrightarrow> Suc (head q) mod QUEUE_SIZE \<noteq> tail q \<Longrightarrow> queue_length q < QUEUE_SIZE - 1"
  using queue_full_iff [of q] queue_length_bound [of q] by linarith

lemma queue_content_empty: "queue_content q = [] \<longleftrightarrow> queue_length q = 0"
  by (simp add: queue_content_def)

text \<open>Writing to the free slot changes nothing of what the queue holds.\<close>

lemma queue_ok_update [simp]:
  "queue_ok (q\<lparr>buffer := (buffer q)[i := e]\<rparr>) = queue_ok q"
  by (simp add: queue_ok_def)

lemma queue_length_update [simp]: "queue_length (q\<lparr>buffer := b\<rparr>) = queue_length q"
  by (simp add: queue_length_def)

lemma content_free_slot:
  "queue_ok q \<Longrightarrow> queue_content (q\<lparr>buffer := (buffer q)[head q := e]\<rparr>) = queue_content q"
  using queue_slot_not_head [of q, THEN not_sym] by (auto simp: queue_content_def)

text \<open>Publishing the filled slot is what \<open>push_event\<close> does, moving the tail what \<open>pop_event\<close> does.\<close>

lemma publish_push:
  assumes "queue_ok q" "Suc (head q) mod QUEUE_SIZE \<noteq> tail q" "buffer q ! head q = e"
  shows "q\<lparr>head := Suc (head q) mod QUEUE_SIZE\<rparr> = snd (push_event q e)"
  using assms by (auto simp: push_event_def Let_def)

lemma publish_pop:
  assumes "head q \<noteq> tail q"
  shows "q\<lparr>tail := Suc (tail q) mod QUEUE_SIZE\<rparr> = snd (snd (pop_event q e))"
  using assms by (simp add: pop_event_def)

text \<open>The two indices have one writer each, so the facts about them survive the other's steps.\<close>

lemma fifo_run_append:
  "fifo_run (ops @ ops') es =
     (case fifo_run ops es of (rs, es) \<Rightarrow> (case fifo_run ops' es of (rs', es) \<Rightarrow> (rs @ rs', es)))"
  by (induction ops arbitrary: es) (auto split: prod.splits)

text \<open>The invariant: the queue is well formed and holds what the calls so far leave in a FIFO list.\<close>

definition conc_inv :: "nat \<Rightarrow> nat \<Rightarrow> event_t list \<Rightarrow> conc_state \<Rightarrow> bool" where
  "conc_inv p c es s \<longleftrightarrow>
     queue_ok (shared s) \<and> producer_inv (shared s) (pcs s p) \<and> consumer_inv (shared s) (pcs s c) \<and>
     fifo_run (map fst (history s)) es = (map snd (history s), queue_content (shared s))"

text \<open>A step of the producer: the consumer's facts stay, and the content changes as on the list.\<close>

lemma producer_step:
  assumes ok: "queue_ok q" and prod: "producer_inv q pc" and cons: "consumer_inv q pc'"
    and step: "thread_step (Push e) pc q = (pc1, q1, r)"
  shows "queue_ok q1 \<and> producer_inv q1 pc1 \<and> consumer_inv q1 pc' \<and>
    (case r of None \<Rightarrow> queue_content q1 = queue_content q
     | Some (op, res) \<Rightarrow> fifo_op op (queue_content q) = (res, queue_content q1))"
proof (cases pc)
  case (Push_Store e' nh)
  then show ?thesis
    using assms content_free_slot [OF ok] queue_empty_iff [OF ok]
    by (cases pc') (auto simp: queue_ok_def)
next
  case (Push_Payload e' nh i)
  then show ?thesis
    using assms content_free_slot [OF ok] by (cases pc') (auto simp: queue_ok_def)
next
  case (Push_Publish e' nh)
  have len: "queue_length q < QUEUE_SIZE - 1" using full_iff [OF ok] prod Push_Publish by simp
  have "q1 = snd (push_event q e')"
    using publish_push [OF ok, of e'] prod step Push_Publish by auto
  then have "queue_ok q1 \<and> queue_content q1 = queue_content q @ [e']"
    using push_event_ok [OF ok] push_event_room [OF ok len] by simp
  then show ?thesis
    using assms Push_Publish len by (cases pc') auto
qed (use assms queue_full_iff [OF ok] in auto)

lemma ring_next_inj: "h < n \<Longrightarrow> t < n \<Longrightarrow> Suc h mod n = Suc t mod n \<longleftrightarrow> h = t" for h n t :: nat
  by (auto simp: ring_next split: if_splits)

text \<open>A step of the consumer.\<close>

lemma consumer_step:
  assumes ok: "queue_ok q" and prod: "producer_inv q pc'" and cons: "consumer_inv q pc"
    and step: "thread_step Pop pc q = (pc1, q1, r)"
  shows "queue_ok q1 \<and> producer_inv q1 pc' \<and> consumer_inv q1 pc1 \<and>
    (case r of None \<Rightarrow> queue_content q1 = queue_content q
     | Some (op, res) \<Rightarrow> fifo_op op (queue_content q) = (res, queue_content q1))"
proof (cases pc)
  case (Pop_Check t)
  then show ?thesis
    using assms queue_empty_iff [OF ok]
    by (cases "queue_content q") (auto split: if_splits simp flip: queue_content_empty)
next
  case (Pop_Publish e nt)
  have q1: "q1 = snd (snd (pop_event q e))"
    using publish_pop [of q e] cons step Pop_Publish by auto
  have "queue_content q \<noteq> []"
    using queue_empty_iff [OF ok] cons Pop_Publish by (auto simp: queue_content_empty)
  then obtain x xs where content: "queue_content q = x # xs" by (meson neq_Nil_conv)
  have "queue_ok q1" "queue_content q1 = xs" "e = x"
    using pop_event_ok [OF ok, of e] pop_event_first [OF ok content, of e] cons Pop_Publish
    by (auto simp: q1 pop_event_def)
  moreover have "producer_inv q1 pc'"
    using ok prod cons step Pop_Publish
    by (cases pc') (auto simp: queue_ok_def ring_next_inj)
  ultimately show ?thesis
    using step Pop_Publish content by auto
qed (use assms in auto)

lemma conc_inv_init: "queue_ok q \<Longrightarrow> conc_inv p c (queue_content q) (conc_init q)"
  by (simp add: conc_inv_def conc_init_def)

text \<open>Appending the call that takes effect to the history.\<close>

lemma history_step:
  assumes "fifo_run (map fst h) es = (map snd h, content)"
    and "case r of None \<Rightarrow> content' = content | Some (op, res) \<Rightarrow> fifo_op op content = (res, content')"
  shows "fifo_run (map fst (h @ (case r of None \<Rightarrow> [] | Some x \<Rightarrow> [x]))) es =
    (map snd (h @ (case r of None \<Rightarrow> [] | Some x \<Rightarrow> [x])), content')"
  using assms by (auto simp: fifo_run_append split: option.splits)

lemma conc_inv_produce:
  assumes "p \<noteq> c" "conc_inv p c es s"
  shows "conc_inv p c es (conc_step p (Push e) s)"
proof -
  obtain pc q r where step: "thread_step (Push e) (pcs s p) (shared s) = (pc, q, r)"
    by (metis prod.exhaust)
  from assms(2) producer_step [OF _ _ _ step, of "pcs s c"]
    history_step [of "history s" es "queue_content (shared s)" "queue_content q" r] assms(1)
  show ?thesis by (auto simp: conc_inv_def conc_step_def step)
qed

lemma conc_inv_consume:
  assumes "p \<noteq> c" "conc_inv p c es s"
  shows "conc_inv p c es (conc_step c Pop s)"
proof -
  obtain pc q r where step: "thread_step Pop (pcs s c) (shared s) = (pc, q, r)"
    by (metis prod.exhaust)
  from assms(2) consumer_step [OF _ _ _ step, of "pcs s p"]
    history_step [of "history s" es "queue_content (shared s)" "queue_content q" r] assms(1)
  show ?thesis by (auto simp: conc_inv_def conc_step_def step)
qed

lemma conc_reachable_inv:
  "conc_reachable {p} {c} q s \<Longrightarrow> p \<noteq> c \<Longrightarrow> queue_ok q \<Longrightarrow>
   conc_inv p c (queue_content q) s"
  by (induction rule: conc_reachable.induct)
    (auto intro: conc_inv_init conc_inv_produce conc_inv_consume)

text \<open>
  C3. However the steps of one producer and one consumer of a queue interleave, the calls return
  the codes and the events of a sequential bounded FIFO list, in the order in which they take
  effect, and the queue is well formed and holds what that list holds: no event is lost, torn,
  duplicated or reordered, and a call is refused only when the queue is full or empty.
\<close>

theorem spsc_queue_linearizable:
  assumes "conc_reachable {p} {c} q s" "p \<noteq> c" "queue_ok q"
  shows "queue_ok (shared s) \<and>
    fifo_run (map fst (history s)) (queue_content q) =
      (map snd (history s), queue_content (shared s))"
  using conc_reachable_inv [OF assms] by (simp add: conc_inv_def)

text \<open>A push whose slot is being filled while the consumer finds the queue empty.\<close>

definition overlapping_schedule :: "event_t \<Rightarrow> (nat \<times> queue_op) list" where
  "overlapping_schedule e =
     replicate 3 (0, Push e) @ replicate 2 (1, Pop) @ replicate 2 (0, Push e) @ replicate 6 (1, Pop)"

lemma queue_size_next: "Suc 0 mod QUEUE_SIZE = Suc 0" "0 < QUEUE_SIZE" "QUEUE_SIZE \<noteq> Suc 0"
    "Suc QUEUE_SIZE mod QUEUE_SIZE = Suc 0"
  by (simp_all add: config_defs)

lemma overlapping_run:
  "history (run_schedule (overlapping_schedule e) (conc_init zero_queue)) =
     [(Pop, (- 1, None)), (Push e, (0, None)), (Pop, (0, Some e))]"
  by (simp add: overlapping_schedule_def numeral_eq_Suc conc_step_def conc_init_def zero_queue_def
      queue_size_next)

theorem spsc_queue_linearizable_witness:
  "fifo_run [Pop, Push zero_event, Pop] [] = ([(- 1, None), (0, None), (0, Some zero_event)], [])"
proof -
  define s where "s = run_schedule (overlapping_schedule zero_event) (conc_init zero_queue)"
  have "conc_reachable {0} {1} zero_queue s"
    unfolding s_def
    using run_schedule_reachable [of "[0]" "[1]" zero_queue "conc_init zero_queue"]
    by (simp add: conc_reachable.start schedule_ok_def overlapping_schedule_def list_all_iff)
  from spsc_queue_linearizable [OF this]
  have "fst (fifo_run (map fst (history s)) []) = map snd (history s)" by simp
  then show ?thesis by (simp add: s_def overlapping_run config_defs)
qed

subsection \<open>Two producers\<close>

text \<open>
  With two producers the queue loses events: two calls of \<open>push_event\<close> that overlap can both
  return 0 although the queue then holds only one of the two events, so no order of the calls
  explains the results.
\<close>

theorem two_producers_lose_event:
  "\<exists>s. conc_reachable {0, 1} {} zero_queue s \<and>
    history s = [(Push a, (0, None)), (Push b, (0, None))] \<and> queue_content (shared s) = [b]"
proof -
  define steps :: "(nat \<times> queue_op) list" where
    "steps = replicate 2 (0, Push a) @ replicate 2 (1, Push b) @ replicate 2 (0, Push a) @
       replicate 2 (1, Push b) @ [(0, Push a), (1, Push b)]"
  have "conc_reachable {0, 1} {} zero_queue (run_schedule steps (conc_init zero_queue))"
    using run_schedule_reachable [of "[0, 1]" "[]" zero_queue "conc_init zero_queue" steps]
    by (simp add: conc_reachable.start schedule_ok_def steps_def list_all_iff)
  moreover have "history (run_schedule steps (conc_init zero_queue)) =
      [(Push a, (0, None)), (Push b, (0, None))] \<and>
    queue_content (shared (run_schedule steps (conc_init zero_queue))) = [b]"
    by (simp add: steps_def numeral_eq_Suc conc_step_def conc_init_def zero_queue_def
      queue_size_next queue_content_def queue_length_def)
  ultimately show ?thesis by blast
qed

end
