(* ===== verification/Engine_Main.thy ===== *)
theory Engine_Main
  imports Event_Processor Event_Sender Event_Reciever "HOL-Library.Sublist"
begin

text \<open>
  The engine as a whole: the start-up code of its program (\<open>engine/tests/full_test_v2.c\<close>, which is
  built together with the modules of \<open>engine/src\<close>) and the three threads it starts, the receiver,
  the processor and the sender, sharing the queues.  The rounds of the threads are interleaved in
  any order; that a call on a queue may be taken as one step is what \<open>Queue_Concurrency\<close> shows.
\<close>

subsection \<open>The start-up code\<close>

text \<open>The addresses of the three static queues.\<close>

definition QUEUE_IN :: nat where
  "QUEUE_IN = 0"

definition QUEUE_OUT_NOTIFY :: nat where
  "QUEUE_OUT_NOTIFY = 1"

definition QUEUE_OUT_USER :: nat where
  "QUEUE_OUT_USER = 2"

lemmas queue_defs = QUEUE_IN_def QUEUE_OUT_NOTIFY_def QUEUE_OUT_USER_def

lemma queues_distinct [simp]:
  "QUEUE_OUT_NOTIFY \<noteq> QUEUE_IN" "QUEUE_IN \<noteq> QUEUE_OUT_NOTIFY" "QUEUE_OUT_USER \<noteq> QUEUE_IN"
  "QUEUE_IN \<noteq> QUEUE_OUT_USER" "QUEUE_OUT_NOTIFY \<noteq> QUEUE_OUT_USER"
  by (simp_all add: queue_defs)

definition init_queue_at :: "nat \<Rightarrow> engine_t \<Rightarrow> engine_t" where
  "init_queue_at a s = set_queue a (init_queue (queues s a)) s"

definition set_rule_main :: "u32 \<Rightarrow> engine_t \<Rightarrow> engine_t" where
  "set_rule_main twin s = s\<lparr>rules := fst (set_update_rule (rules s) twin 0 ACTION_NOTIFY_UPWARDS)\<rparr>"

definition engine_main :: "event_processor_t \<Rightarrow> engine_t \<Rightarrow> event_processor_t \<times> engine_t" where
  "engine_main processor s =
     (let s = init_queue_at QUEUE_IN s;
          s = init_queue_at QUEUE_OUT_NOTIFY s;
          s = init_queue_at QUEUE_OUT_USER s;
          s = s\<lparr>rules := rule_engine_init (rules s)\<rparr>;
          s = set_rule_main 0 s;
          s = set_rule_main 1 s;
          s = set_rule_main 2 s;
          s = set_rule_main 3 s;
          s = set_rule_main 4 s;
          s = s\<lparr>memory := twins_memory_init (memory s)\<rparr>;
          s = event_dispatcher_init QUEUE_OUT_NOTIFY QUEUE_OUT_USER s
      in (event_processor_init processor QUEUE_IN, s))"

text \<open>
  What is written when the engine is stopped: the records of a log, at most as many as the array
  has; \<open>opened\<close> says whether \<open>fopen\<close> succeeded.
\<close>

datatype csv_line = Csv_Header | Csv_Record u64 f32 u32

definition csv_record :: "TimeSeriesRecord \<Rightarrow> csv_line" where
  "csv_record r = Csv_Record (timestamp_ns r) (ts_value r) (ts_twin_id r)"

definition dump_log :: "bool \<Rightarrow> history_t \<Rightarrow> csv_line list option" where
  "dump_log opened h =
     (let final_count = unat (log_index h);
          final_count = (if MAX_HISTORY_RECORDS < final_count then MAX_HISTORY_RECORDS else final_count)
      in if opened
         then Some (Csv_Header # map (\<lambda>i. csv_record (history_log h i)) [0..<final_count])
         else None)"

subsection \<open>The state the threads start from\<close>

text \<open>The rule the program configures: variable 0 of the first five twins goes to the parent.\<close>

definition main_rules :: "rule_engine_t \<Rightarrow> bool" where
  "main_rules r \<longleftrightarrow> rules_ok r \<and>
     (\<forall>t v. get_update_rule r t v =
        (if unat t < 5 \<and> v = 0 then ACTION_NOTIFY_UPWARDS else ACTION_IGNORE))"

definition main_wiring :: "engine_t \<Rightarrow> bool" where
  "main_wiring s \<longleftrightarrow>
     main_rules (rules s) \<and> notify_queue s = QUEUE_OUT_NOTIFY \<and>
     user_actions_queue s = QUEUE_OUT_USER"

definition static_engine :: engine_t where
  "static_engine =
     \<lparr>queues = \<lambda>_. zero_queue, notify_queue = 0, user_actions_queue = 0, rules = initial_rules,
      memory = zero_memory, console = []\<rparr>"

definition main_engine :: engine_t where
  "main_engine = snd (engine_main \<lparr>in_queue = 0\<rparr> static_engine)"

lemma main_rule_keys:
  assumes "rules_ok r" "\<And>t v. get_update_rule r t v = ACTION_IGNORE"
  defines "put \<equiv> \<lambda>t r. fst (set_update_rule r t 0 ACTION_NOTIFY_UPWARDS)"
  shows "main_rules (put 4 (put 3 (put 2 (put 1 (put 0 r)))))"
proof -
  let ?kvs = "[((0, 0), ACTION_NOTIFY_UPWARDS), ((1, 0), ACTION_NOTIFY_UPWARDS),
    ((2, 0), ACTION_NOTIFY_UPWARDS), ((3, 0), ACTION_NOTIFY_UPWARDS), ((4, 0), ACTION_NOTIFY_UPWARDS)]
    :: ((u32 \<times> u16) \<times> rule_action_t) list"
  have five: "unat t < 5 \<longleftrightarrow> t \<in> {0, 1, 2, 3, 4}" for t :: u32
  proof -
    have "unat t < 5 \<longleftrightarrow> unat t \<in> {unat (0::u32), unat (1::u32), unat (2::u32), unat (3::u32), unat (4::u32)}"
      by auto
    then show ?thesis by (simp only: insert_iff empty_iff word_unat_eq_iff)
  qed
  have all: "put 4 (put 3 (put 2 (put 1 (put 0 r)))) = updates.put_all r ?kvs" by (simp add: put_def)
  have "get_update_rule (updates.put_all r ?kvs) t v =
      (if unat t < 5 \<and> v = 0 then ACTION_NOTIFY_UPWARDS else ACTION_IGNORE)" for t v
    using updates.get_put_all [OF assms(1), of ?kvs "(t, v)"] assms(2) [of t v]
    by (auto simp: five get_update_rule_def config_defs split: if_splits)
  then show ?thesis
    unfolding main_rules_def all using updates.put_all_inv [OF assms(1), of ?kvs] by blast
qed

lemma zero_queue_length: "length (buffer zero_queue) = QUEUE_SIZE"
  by (simp add: zero_queue_def)

lemma main_engine_facts:
  "engine_ok main_engine" "main_wiring main_engine" "queue_content (queues main_engine a) = []"
  "fst (engine_main p static_engine) = \<lparr>in_queue = QUEUE_IN\<rparr>"
proof -
  have q: "queues main_engine a = (if a \<le> 2 then init_queue zero_queue else zero_queue)" for a
    by (simp add: main_engine_def engine_main_def init_queue_at_def set_rule_main_def
        static_engine_def event_dispatcher_init_def Let_def queue_defs)
  have ok: "queue_ok (queues main_engine a)" "queue_content (queues main_engine a) = []" for a
    using init_queue_ok [of zero_queue] zero_queue_length by (simp_all add: q)
  have r: "main_rules (rules main_engine)"
    using main_rule_keys [of "rule_engine_init initial_rules"]
    by (simp add: main_engine_def engine_main_def init_queue_at_def set_rule_main_def
        static_engine_def event_dispatcher_init_def Let_def rules_ok_initial rules_ok_init init_rules)
  have m: "memory main_engine = twins_memory_init zero_memory"
    by (simp add: main_engine_def engine_main_def init_queue_at_def set_rule_main_def
        static_engine_def event_dispatcher_init_def Let_def)
  show "engine_ok main_engine"
    using r ok by (simp add: engine_ok_def m memory_ok_init main_rules_def queue_events_ok_def)
  show "main_wiring main_engine"
    using r by (simp add: main_wiring_def main_engine_def engine_main_def event_dispatcher_init_def Let_def)
  show "queue_content (queues main_engine a) = []" by (rule ok)
  show "fst (engine_main p static_engine) = \<lparr>in_queue = QUEUE_IN\<rparr>"
    by (cases p) (simp add: engine_main_def event_processor_init_def Let_def)
qed

subsection \<open>The threads together\<close>

text \<open>
  The engine with what the receiver and the sender keep for themselves.  A step is a round of the
  loop of one of the three threads; the first queue is the receiver's and the processor's, the
  second the dispatcher's and the sender's.
\<close>

record node_t =
  engine :: engine_t
  rx :: receiver_t
  tx :: sender_t

definition node_receive :: "parser_env \<Rightarrow> byte list \<Rightarrow> byte list option \<Rightarrow> node_t \<Rightarrow> node_t" where
  "node_receive env behind received n =
     (let r = receive_round env behind received ((rx n)\<lparr>r_queue := queues (engine n) QUEUE_IN\<rparr>)
      in n\<lparr>engine := set_queue QUEUE_IN (r_queue r) (engine n), rx := r\<rparr>)"

definition node_process :: "(nat \<Rightarrow> u64) \<Rightarrow> event_t \<Rightarrow> node_t \<Rightarrow> node_t option" where
  "node_process clk stack n =
     map_option (\<lambda>(rc, s). n\<lparr>engine := s\<rparr>)
       (event_processor_process_next clk stack \<lparr>in_queue = QUEUE_IN\<rparr> (engine n))"

definition node_send :: "nat list \<Rightarrow> event_t \<Rightarrow> u64 \<Rightarrow> node_t \<Rightarrow> node_t option" where
  "node_send connectors stack now n =
     map_option (\<lambda>(q, st). n\<lparr>engine := set_queue QUEUE_OUT_NOTIFY q (engine n), tx := st\<rparr>)
       (sender_round connectors stack now (queues (engine n) QUEUE_OUT_NOTIFY, tx n))"

text \<open>The events a round of the receiver has put behind those already on its queue.\<close>

definition arrivals :: "node_t \<Rightarrow> node_t \<Rightarrow> event_t list" where
  "arrivals n n' =
     drop (queue_length (queues (engine n) QUEUE_IN)) (queue_content (queues (engine n') QUEUE_IN))"

text \<open>The states that can be reached, with all the events that have arrived, in order.\<close>

inductive node_runs :: "nat list \<Rightarrow> node_t \<Rightarrow> event_t list \<Rightarrow> node_t \<Rightarrow> bool"
  for connectors n where
  start: "node_runs connectors n [] n"
| receive: "node_runs connectors n evs n' \<Longrightarrow> length (stack_updates env) = MAX_VARS_PER_EVENT \<Longrightarrow>
    n'' = node_receive env behind received n' \<Longrightarrow>
    node_runs connectors n (evs @ arrivals n' n'') n''"
| process: "node_runs connectors n evs n' \<Longrightarrow> node_process clk stack n' = Some n'' \<Longrightarrow>
    node_runs connectors n evs n''"
| send: "node_runs connectors n evs n' \<Longrightarrow> node_send connectors stack now n' = Some n'' \<Longrightarrow>
    node_runs connectors n evs n''"

text \<open>What the parent is to get of an event, and as which message on which socket.\<close>

type_synonym view = "event_header_t \<times> (u16 \<times> f32) list"

fun forwarded :: "view \<Rightarrow> view list" where
  "forwarded (hdr, ps) =
     (let qs = filter (\<lambda>(v, x). unat (twin_id hdr) < 5 \<and> v = 0) ps
      in if qs = [] then [] else [(hdr, qs)])"

fun wire_message :: "nat list \<Rightarrow> view \<Rightarrow> nat \<times> byte list" where
  "wire_message connectors (hdr, ps) =
     (connectors ! unat (twin_id hdr),
      mp_encode_all (update_items (timestamp hdr) (the (f32_to_u64 (deviation hdr))) (twin_id hdr) ps))"

lemma sent_as_view: "sent_as connectors ev = wire_message connectors (event_view ev)"
  by (simp add: sent_as_def message_of_def event_view_def)

lemma forwarded_update:
  assumes "main_wiring s" "payload ev = Update u"
  shows "batch_view (header ev) (selected (rules s) (twin_id (header ev)) ACTION_NOTIFY_UPWARDS (carried u))
    = forwarded (event_view ev)"
proof -
  have "map pair_of (selected (rules s) (twin_id (header ev)) ACTION_NOTIFY_UPWARDS (carried u)) =
      filter (\<lambda>(v, x). unat (twin_id (header ev)) < 5 \<and> v = 0) (map pair_of (carried u))" (is "map _ ?s = ?f")
    using assms(1)
    by (auto simp: selected_def main_wiring_def main_rules_def filter_map comp_def pair_of_def
        intro!: arg_cong [where f = "map pair_of"] filter_cong)
  moreover have "?s = [] \<longleftrightarrow> ?f = []" unfolding calculation [symmetric] by simp
  ultimately show ?thesis
    unfolding batch_view_def using assms(2) by (simp add: event_view_def Let_def)
qed

text \<open>The receiver only appends.\<close>

lemma push_appends:
  "queue_ok q \<Longrightarrow> queue_ok (snd (push_event q e)) \<and>
   prefix (queue_content q) (queue_content (snd (push_event q e)))"
  using ring.content_bound [of q] by (simp add: push_event_ok ring.push_content)

lemma parse_batches_appends:
  "queue_ok q \<Longrightarrow> queue_ok (fst (snd (parse_batches idx now hdr n (q, c, ups, vp, h, out)))) \<and>
   prefix (queue_content q) (queue_content (fst (snd (parse_batches idx now hdr n (q, c, ups, vp, h, out)))))"
proof (induction "unat n - unat vp" arbitrary: q c ups vp h out rule: less_induct)
  case less
  show ?case
  proof (cases "vp < n")
    case False
    then show ?thesis using less.prems by (simp add: parse_batches_end)
  next
    case True
    obtain c1 ups1 b vp1 h1
      where b: "parse_batch idx now (twin_id hdr) n (c, ups, 0, vp, h) = (c1, ups1, b, vp1, h1)"
      by (metis prod_cases5)
    show ?thesis
      unfolding parse_batches_step [OF True b]
      using less.hyps [OF parse_batch_from_0(5) [OF True b]] push_appends [OF less.prems]
        prefix_order.trans by blast
  qed
qed

lemma deserialize_appends:
  "queue_ok q \<Longrightarrow> queue_ok (fst (snd (deserialize_event env q h data))) \<and>
   prefix (queue_content q) (queue_content (fst (snd (deserialize_event env q h data))))"
  by (simp add: deserialize_event_def Let_def split_beta parse_batches_appends push_appends)

text \<open>A round of the receiver, seen from the queue.\<close>

lemma node_receive_queue:
  assumes "engine_ok (engine n)" "length (stack_updates env) = MAX_VARS_PER_EVENT"
    "n' = node_receive env behind received n"
  shows "\<exists>q. engine n' = set_queue QUEUE_IN q (engine n) \<and> queue_events_ok q \<and>
    queue_content q = queue_content (queues (engine n) QUEUE_IN) @ arrivals n n'" "tx n' = tx n"
proof -
  let ?q = "queues (engine n) QUEUE_IN"
  let ?r = "receive_round env behind received ((rx n)\<lparr>r_queue := ?q\<rparr>)"
  have q: "queue_events_ok ?q" using assms(1) by (simp add: engine_ok_def)
  have "queue_events_ok (r_queue ?r) \<and> prefix (queue_content ?q) (queue_content (r_queue ?r))"
    using q deserialize_events_ok_aux [OF q assms(2)] deserialize_appends [of ?q env]
    by (auto simp: receive_round_queue queue_events_ok_def split: option.split)
  moreover have "engine n' = set_queue QUEUE_IN (r_queue ?r) (engine n)"
    by (simp add: assms(3) node_receive_def Let_def)
  ultimately show "\<exists>q. engine n' = set_queue QUEUE_IN q (engine n) \<and> queue_events_ok q \<and>
    queue_content q = queue_content ?q @ arrivals n n'"
    by (auto simp: arrivals_def elim!: prefixE)
  show "tx n' = tx n" by (simp add: assms(3) node_receive_def Let_def)
qed

text \<open>The invariant of the composed system.\<close>

definition pending :: "node_t \<Rightarrow> view list" where
  "pending n =
     queue_views (queues (engine n) QUEUE_OUT_NOTIFY) @
     concat (map forwarded (queue_views (queues (engine n) QUEUE_IN)))"

definition to_parent :: "view \<Rightarrow> bool" where
  "to_parent w \<longleftrightarrow> event_type (fst w) = EVENT_UPDATE \<and> unat (twin_id (fst w)) < 5"

definition node_inv :: "nat list \<Rightarrow> event_t list \<Rightarrow> node_t \<Rightarrow> bool" where
  "node_inv connectors evs n \<longleftrightarrow>
     engine_ok (engine n) \<and> main_wiring (engine n) \<and>
     list_all to_parent (queue_views (queues (engine n) QUEUE_OUT_NOTIFY)) \<and>
     (\<exists>sent. wire (tx n) = map (wire_message connectors) sent \<and>
        subseq (sent @ pending n) (concat (map (forwarded \<circ> event_view) evs)))"

lemma node_inv_receive:
  assumes "node_inv cs evs n" "length (stack_updates env) = MAX_VARS_PER_EVENT"
    "n' = node_receive env behind received n"
  shows "node_inv cs (evs @ arrivals n n') n'"
proof -
  have ok: "engine_ok (engine n)" using assms(1) by (simp add: node_inv_def)
  obtain q where q: "engine n' = set_queue QUEUE_IN q (engine n)" "queue_events_ok q"
    "queue_content q = queue_content (queues (engine n) QUEUE_IN) @ arrivals n n'"
    using node_receive_queue(1) [OF ok assms(2,3)] by blast
  obtain sent where sent: "wire (tx n) = map (wire_message cs) sent"
    "subseq (sent @ pending n) (concat (map (forwarded \<circ> event_view) evs))"
    using assms(1) by (auto simp: node_inv_def)
  have "pending n' = pending n @ concat (map (forwarded \<circ> event_view) (arrivals n n'))"
    by (simp add: pending_def q(1,3) queue_views_def queue_defs comp_def)
  then have "subseq (sent @ pending n') (concat (map (forwarded \<circ> event_view) (evs @ arrivals n n')))"
    using list_emb_append_mono [OF sent(2) subseq_order.refl] by simp
  then show ?thesis
    using assms(1) sent(1) q(2) node_receive_queue(2) [OF ok assms(2,3)]
    by (auto simp: node_inv_def q(1) engine_ok_set_queue main_wiring_def queue_defs)
qed

text \<open>A round of the processor: what it dispatches reaches the notify queue as \<open>forwarded\<close> says.\<close>

lemma forwarded_to_parent:
  "event_ok ev \<Longrightarrow> payload ev = Update u \<Longrightarrow> list_all to_parent (forwarded (event_view ev))"
  by (auto simp: event_view_def Let_def to_parent_def event_ok_def filter_empty_conv)

lemma dispatch_forwards:
  assumes "engine_ok s" "main_wiring s" "event_ok ev" "dispatch_event clk ev s = Some t"
  shows "engine_ok t" "main_wiring t" "list_all to_parent (forwarded (event_view ev))"
    "queue_views (queues t QUEUE_OUT_NOTIFY) =
       take (QUEUE_SIZE - 1) (queue_views (queues s QUEUE_OUT_NOTIFY) @ forwarded (event_view ev))"
    "queues t QUEUE_IN = queues s QUEUE_IN"
proof -
  have w: "notify_queue s = QUEUE_OUT_NOTIFY" "user_actions_queue s = QUEUE_OUT_USER"
    using assms(2) by (simp_all add: main_wiring_def)
  show "engine_ok t" "main_wiring t"
    using dispatch_ok_aux [OF assms(1,3), of clk] assms(2,4) by (auto simp: main_wiring_def)
  have len: "length (queue_views (queues s a)) \<le> QUEUE_SIZE - 1" for a
    using assms(1) ring.content_bound [of "queues s a"]
    by (simp add: queue_views_def engine_ok_def queue_events_ok_def)
  have "list_all to_parent (forwarded (event_view ev)) \<and>
    queue_views (queues t QUEUE_OUT_NOTIFY) =
       take (QUEUE_SIZE - 1) (queue_views (queues s QUEUE_OUT_NOTIFY) @ forwarded (event_view ev)) \<and>
    queues t QUEUE_IN = queues s QUEUE_IN"
  proof (cases "payload ev")
    case (Update u)
    then show ?thesis
      using dispatch_routes_aux [OF assms(1) Update assms(3) _ assms(4)] w
        forwarded_update [OF assms(2) Update] forwarded_to_parent [OF assms(3) Update]
      by (simp add: queue_defs)
  next
    case (Error e)
    then have "forwarded (event_view ev) = []" by (simp add: event_view_def)
    moreover obtain ls where "t = print_lines ls s"
      using dispatch_error [OF Error assms(3), of clk s] assms(4) by auto
    ultimately show ?thesis using len [of QUEUE_OUT_NOTIFY] by simp
  qed
  then show "list_all to_parent (forwarded (event_view ev))"
    "queue_views (queues t QUEUE_OUT_NOTIFY) =
       take (QUEUE_SIZE - 1) (queue_views (queues s QUEUE_OUT_NOTIFY) @ forwarded (event_view ev))"
    "queues t QUEUE_IN = queues s QUEUE_IN"
    by blast+
qed

lemma subseq_take: "subseq (take k ys @ zs) (ys @ zs)"
proof -
  have "subseq (take k ys) ys" by (rule prefix_imp_subseq [OF take_is_prefix])
  then show ?thesis by (intro list_emb_append_mono) simp_all
qed

lemma node_process_cases:
  assumes "engine_ok (engine n)" "main_wiring (engine n)"
  obtains "queue_content (queues (engine n) QUEUE_IN) = []" "node_process clk stack n = Some n"
  | ev evs t q where "queue_content (queues (engine n) QUEUE_IN) = ev # evs"
    "dispatch_event clk ev (engine n) = Some t" "queue_content q = evs" "queue_events_ok q"
    "node_process clk stack n = Some (n\<lparr>engine := set_queue QUEUE_IN q t\<rparr>)"
proof (cases "queue_content (queues (engine n) QUEUE_IN)")
  case Nil
  have "queue_ok (queues (engine n) QUEUE_IN)" using assms(1) by (simp add: engine_ok_def queue_events_ok_def)
  then have "event_processor_process_next clk stack \<lparr>in_queue = QUEUE_IN\<rparr> (engine n) = Some (0, engine n)"
    using process_next_empty [OF _ Nil, of clk stack "\<lparr>in_queue = QUEUE_IN\<rparr>" "engine n"] by simp
  with Nil show ?thesis by (intro that(1)) (simp_all add: node_process_def)
next
  case (Cons ev evs)
  have q: "queue_events_ok (queues (engine n) QUEUE_IN)" using assms(1) by (simp add: engine_ok_def)
  have apart: "apart (in_queue \<lparr>in_queue = QUEUE_IN\<rparr>) (engine n)"
    using assms(2) by (simp add: apart_def main_wiring_def queue_defs)
  show ?thesis
  proof (rule process_next_event [OF assms(1) apart _ , of "queues (engine n) QUEUE_IN" ev evs clk stack])
    fix t q'
    assume "event_processor_process_next clk stack \<lparr>in_queue = QUEUE_IN\<rparr>
        (set_queue (in_queue \<lparr>in_queue = QUEUE_IN\<rparr>) (queues (engine n) QUEUE_IN) (engine n)) =
        Some (0, set_queue (in_queue \<lparr>in_queue = QUEUE_IN\<rparr>) q' t)"
      and run: "dispatch_event clk ev (engine n) = Some t" and q': "queue_content q' = evs" "queue_events_ok q'"
    then have "node_process clk stack n = Some (n\<lparr>engine := set_queue QUEUE_IN q' t\<rparr>)"
      by (simp add: node_process_def)
    then show ?thesis by (rule that(2) [OF Cons run q'])
  qed (use q Cons in auto)
qed

lemma node_inv_process:
  assumes inv: "node_inv cs evs n" and step: "node_process clk stack n = Some n'"
  shows "node_inv cs evs n'"
proof -
  have ok: "engine_ok (engine n)" "main_wiring (engine n)" using inv by (simp_all add: node_inv_def)
  show ?thesis
  proof (rule node_process_cases [OF ok, of clk stack])
    assume "node_process clk stack n = Some n"
    with inv step show ?thesis by simp
  next
    fix ev rest t q
    assume content: "queue_content (queues (engine n) QUEUE_IN) = ev # rest"
      and run: "dispatch_event clk ev (engine n) = Some t" and q: "queue_content q = rest" "queue_events_ok q"
      and n': "node_process clk stack n = Some (n\<lparr>engine := set_queue QUEUE_IN q t\<rparr>)"
    have ev: "event_ok ev" using ok(1) content by (auto simp: engine_ok_def queue_events_ok_def dest: spec [of _ QUEUE_IN])
    note f = dispatch_forwards [OF ok ev run]
    have n'': "n' = n\<lparr>engine := set_queue QUEUE_IN q t\<rparr>" using step n' by simp
    have "pending n = (queue_views (queues (engine n) QUEUE_OUT_NOTIFY) @ forwarded (event_view ev)) @
        concat (map forwarded (map event_view rest))"
      by (simp add: pending_def queue_views_def content)
    moreover have "pending n' = take (QUEUE_SIZE - 1) (queue_views (queues (engine n) QUEUE_OUT_NOTIFY) @
        forwarded (event_view ev)) @ concat (map forwarded (map event_view rest))"
      using f(4) by (simp add: pending_def n'' queue_views_def q(1) del: take_append)
    ultimately have "subseq (pending n') (pending n)" by (simp only: subseq_take)
    then have "subseq (sent @ pending n') (sent @ pending n)" for sent
      by (intro list_emb_append_mono) simp_all
    then show ?thesis
      using inv f q(2) by (auto simp: node_inv_def n'' engine_ok_set_queue main_wiring_def queue_defs list_all_take
          intro: subseq_order.trans)
  qed
qed

text \<open>A round of the sender: it is defined exactly if the first event can be sent.\<close>

lemma sender_round_defined:
  assumes "queue_ok q" "queue_content q = ev # rest" "event_ok ev" "to_parent (event_view ev)"
    "length connectors = 5"
  shows "sender_round connectors stack now (q, st) \<noteq> None \<longleftrightarrow> sendable 5 ev"
proof
  assume "sendable 5 ev"
  then have "sendable (length connectors) ev" by (simp add: assms(5))
  then show "sender_round connectors stack now (q, st) \<noteq> None"
    by (rule sender_round_event [OF assms(1,2), of connectors stack now st]) simp
next
  assume "sender_round connectors stack now (q, st) \<noteq> None"
  moreover have "event_type (header ev) = EVENT_UPDATE" "unat (twin_id (header ev)) < 5"
    using assms(4) by (simp_all add: to_parent_def event_view_def)
  ultimately show "sendable 5 ev"
    using ring.pop_first [OF assms(1,2), of stack] assms(3)
    by (auto simp: sender_round_def send_event_def serialize_event_def sendable_def split_beta
        split: option.splits if_splits)
qed

lemma node_send_cases:
  assumes inv: "node_inv cs evs n" and cs: "length cs = 5"
  obtains "queue_content (queues (engine n) QUEUE_OUT_NOTIFY) = []" "node_send cs stack now n = Some n"
  | ev rest q h where "queue_content (queues (engine n) QUEUE_OUT_NOTIFY) = ev # rest" "sendable 5 ev"
    "queue_content q = rest" "queue_events_ok q"
    "node_send cs stack now n = Some (n\<lparr>engine := set_queue QUEUE_OUT_NOTIFY q (engine n),
       tx := (tx n)\<lparr>history2 := h, wire := wire (tx n) @ [sent_as cs ev]\<rparr>\<rparr>)"
  | ev rest where "queue_content (queues (engine n) QUEUE_OUT_NOTIFY) = ev # rest" "\<not> sendable 5 ev"
    "node_send cs stack now n = None"
proof (cases "queue_content (queues (engine n) QUEUE_OUT_NOTIFY)")
  case Nil
  have "queue_ok (queues (engine n) QUEUE_OUT_NOTIFY)"
    using inv by (simp add: node_inv_def engine_ok_def queue_events_ok_def)
  from sender_round_empty [OF this Nil, of cs stack now "tx n"] Nil show ?thesis
    by (intro that(1)) (simp_all add: node_send_def)
next
  case (Cons ev rest)
  have q: "queue_events_ok (queues (engine n) QUEUE_OUT_NOTIFY)" and ev: "to_parent (event_view ev)"
    using inv Cons by (auto simp: node_inv_def engine_ok_def queue_views_def)
  then have ok: "queue_ok (queues (engine n) QUEUE_OUT_NOTIFY)" "event_ok ev" "list_all event_ok rest"
    using Cons by (simp_all add: queue_events_ok_def)
  note defined = sender_round_defined [OF ok(1) Cons ok(2) ev cs, of stack now "tx n"]
  show ?thesis
  proof (cases "sendable 5 ev")
    case True
    then have "sendable (length cs) ev" using cs by simp
    from sender_round_event [OF ok(1) Cons this, of stack now "tx n"] obtain q' h where
      "queue_ok q'" "queue_content q' = rest"
      "sender_round cs stack now (queues (engine n) QUEUE_OUT_NOTIFY, tx n) =
         Some (q', (tx n)\<lparr>history2 := h, wire := wire (tx n) @ [sent_as cs ev]\<rparr>)" by blast
    then show ?thesis
      using ok(3) by (intro that(2) [OF Cons True]) (simp_all add: node_send_def queue_events_ok_def)
  next
    case False
    with defined have "sender_round cs stack now (queues (engine n) QUEUE_OUT_NOTIFY, tx n) = None"
      by blast
    then show ?thesis by (intro that(3) [OF Cons False]) (simp add: node_send_def)
  qed
qed

lemma node_inv_send:
  assumes inv: "node_inv cs evs n" and cs: "length cs = 5" and step: "node_send cs stack now n = Some n'"
  shows "node_inv cs evs n'"
proof (rule node_send_cases [OF inv cs, of stack now])
  assume "node_send cs stack now n = Some n"
  with inv step show ?thesis by simp
next
  fix ev rest q h
  assume content: "queue_content (queues (engine n) QUEUE_OUT_NOTIFY) = ev # rest"
    and q: "queue_content q = rest" "queue_events_ok q"
    and "node_send cs stack now n = Some (n\<lparr>engine := set_queue QUEUE_OUT_NOTIFY q (engine n),
       tx := (tx n)\<lparr>history2 := h, wire := wire (tx n) @ [sent_as cs ev]\<rparr>\<rparr>)"
  with step have n': "n' = n\<lparr>engine := set_queue QUEUE_OUT_NOTIFY q (engine n),
       tx := (tx n)\<lparr>history2 := h, wire := wire (tx n) @ [sent_as cs ev]\<rparr>\<rparr>" by simp
  obtain sent where sent: "wire (tx n) = map (wire_message cs) sent"
    "subseq (sent @ pending n) (concat (map (forwarded \<circ> event_view) evs))"
    using inv by (auto simp: node_inv_def)
  have "sent @ pending n = (sent @ [event_view ev]) @ pending n'"
    by (simp add: pending_def n' queue_views_def content q(1))
  with sent have "wire (tx n') = map (wire_message cs) (sent @ [event_view ev])"
    "subseq ((sent @ [event_view ev]) @ pending n') (concat (map (forwarded \<circ> event_view) evs))"
    by (simp_all add: n' sent_as_view)
  moreover have "list_all to_parent (queue_views q)"
    using inv by (simp add: node_inv_def queue_views_def content q(1))
  ultimately show ?thesis
    using inv q(2) unfolding node_inv_def
    by (intro conjI exI [of _ "sent @ [event_view ev]"])
      (simp_all add: n' engine_ok_set_queue main_wiring_def)
qed (use step in simp)

text \<open>A node that starts with the state the program sets up.\<close>

definition main_node :: "receiver_t \<Rightarrow> node_t" where
  "main_node r =
     \<lparr>engine = main_engine, rx = r, tx = \<lparr>history2 = zero_history, wire = []\<rparr>\<rparr>"

lemma main_node_inv: "node_inv cs [] (main_node r)"
  using main_engine_facts
  by (simp add: node_inv_def main_node_def queue_views_def pending_def)

lemma node_runs_inv:
  "node_runs cs n evs n' \<Longrightarrow> length cs = 5 \<Longrightarrow> node_inv cs [] n \<Longrightarrow> node_inv cs evs n'"
  by (induction rule: node_runs.induct)
    (auto intro: node_inv_receive node_inv_process node_inv_send)

subsection \<open>What the engine promises\<close>

text \<open>
  C5. Whatever messages arrive and however the rounds of the three threads interleave, every
  message the engine sends is one that its rules select: it carries the updates of variable 0 of
  one of the first five twins out of an event that arrived, with that event's header, and goes to
  the socket of its twin.  The messages are sent in the order in which their events arrived, none
  of them twice.
\<close>

theorem engine_sends_only_selected:
  assumes "open_connectors sock conn 0 connector_urls = Some connectors"
    "node_runs connectors (main_node r) evs n"
  shows "\<exists>sent. wire (tx n) = map (wire_message connectors) sent \<and>
    subseq sent (concat (map forwarded (map event_view evs)))"
proof -
  have "node_inv connectors evs n"
    using node_runs_inv [OF assms(2) _ main_node_inv] open_connectors_length [OF assms(1)]
    by (simp add: length_connector_urls)
  then obtain sent where sent: "wire (tx n) = map (wire_message connectors) sent"
    "subseq (sent @ pending n) (concat (map (forwarded \<circ> event_view) evs))"
    by (auto simp: node_inv_def)
  have "subseq sent (sent @ pending n)" by (rule prefix_imp_subseq) simp
  with sent show ?thesis by (auto simp: comp_def intro: subseq_order.trans)
qed

lemma notify_events_ok:
  assumes "node_inv cs evs n" "ev \<in> set (queue_content (queues (engine n) QUEUE_OUT_NOTIFY))"
  shows "event_ok ev \<and> to_parent (event_view ev)"
proof -
  have "queue_events_ok (queues (engine n) QUEUE_OUT_NOTIFY)"
    "list_all to_parent (queue_views (queues (engine n) QUEUE_OUT_NOTIFY))"
    using assms(1) by (simp_all add: node_inv_def engine_ok_def)
  with assms(2) show ?thesis by (auto simp: queue_events_ok_def queue_views_def list_all_iff)
qed

text \<open>What is on the notify queue has the header of an event that arrived.\<close>

lemma notify_header_arrived:
  assumes "node_inv cs evs n" "ev \<in> set (queue_content (queues (engine n) QUEUE_OUT_NOTIFY))"
  obtains ev' where "ev' \<in> set evs" "header ev' = header ev"
proof -
  obtain sent where "subseq (sent @ pending n) (concat (map (forwarded \<circ> event_view) evs))"
    using assms(1) by (auto simp: node_inv_def)
  moreover have "event_view ev \<in> set (sent @ pending n)"
    using assms(2) by (simp add: pending_def queue_views_def)
  ultimately have "event_view ev \<in> set (concat (map (forwarded \<circ> event_view) evs))"
    by (auto elim: list_emb_set)
  then obtain ev' where "ev' \<in> set evs" "event_view ev \<in> set (forwarded (event_view ev'))" by auto
  then show ?thesis
    using that [of ev'] by (auto simp: event_view_def Let_def split: if_splits)
qed

text \<open>
  C11. As long as the deviations of the events that arrive convert back to integers, no thread of
  the engine ever gets into undefined behaviour: the processor and the sender can do their next
  round in every state that can be reached.
\<close>

theorem engine_never_stuck:
  assumes "open_connectors sock conn 0 connector_urls = Some connectors"
    "node_runs connectors (main_node r) evs n"
    "list_all (\<lambda>ev. f32_to_u64 (deviation (header ev)) \<noteq> None) evs"
  shows "node_process clk stack n \<noteq> None \<and> node_send connectors stack now n \<noteq> None"
proof
  have cs: "length connectors = 5"
    using open_connectors_length [OF assms(1)] by (simp add: length_connector_urls)
  have inv: "node_inv connectors evs n" by (rule node_runs_inv [OF assms(2) cs main_node_inv])
  then have ok: "engine_ok (engine n)" "main_wiring (engine n)" by (simp_all add: node_inv_def)
  show "node_process clk stack n \<noteq> None"
    by (rule node_process_cases [OF ok, of clk stack]) simp_all
  show "node_send connectors stack now n \<noteq> None"
  proof (rule node_send_cases [OF inv cs, of stack now])
    fix ev rest
    assume content: "queue_content (queues (engine n) QUEUE_OUT_NOTIFY) = ev # rest"
      and stuck: "\<not> sendable 5 ev"
    obtain ev' where "ev' \<in> set evs" "header ev' = header ev"
      using notify_header_arrived [OF inv, of ev] content by auto
    moreover have "event_ok ev" "to_parent (event_view ev)"
      using notify_events_ok [OF inv, of ev] content by simp_all
    ultimately have "sendable 5 ev"
      using assms(3) by (auto simp: sendable_def to_parent_def event_view_def list_all_iff)
    with stuck show ?thesis ..
  qed simp_all
qed

text \<open>Keys of the memory are a twin and the low byte of a variable's number.\<close>

lemma update_keys:
  "map_of (rev (map (target_of twin) ps)) (twin, v) =
     map_of (rev (map (\<lambda>(v, x). (ucast v, x)) (map pair_of ps))) v"
  by (induction ps rule: rev_induct) (auto simp: target_of_def pair_of_def)

lemma take_forwarded: "take (QUEUE_SIZE - Suc 0) (forwarded w) = forwarded w"
  by (cases w) (simp add: Let_def config_defs)

subsection \<open>One update message through the three threads\<close>

text \<open>A round of the processor followed by one of the sender, some times.\<close>

fun node_rounds ::
  "nat list \<Rightarrow> (nat \<Rightarrow> u64) \<Rightarrow> event_t \<Rightarrow> u64 \<Rightarrow> nat \<Rightarrow> node_t \<Rightarrow> node_t option" where
  "node_rounds connectors clk stack now 0 n = Some n"
| "node_rounds connectors clk stack now (Suc k) n =
     (case node_process clk stack n of
        None \<Rightarrow> None
      | Some n \<Rightarrow>
          (case node_send connectors stack now n of
             None \<Rightarrow> None | Some n \<Rightarrow> node_rounds connectors clk stack now k n))"

text \<open>What is left of the value of a variable, given by the low byte of its number, after some updates.\<close>

definition value_after :: "(u16 \<times> f32) list \<Rightarrow> u8 \<Rightarrow> f32 \<Rightarrow> f32" where
  "value_after vs v old =
     (case map_of (rev (map (\<lambda>(v, x). (ucast v, x)) vs)) v of None \<Rightarrow> old | Some x \<Rightarrow> x)"

lemma value_after_append: "value_after (vs @ ws) v old = value_after ws v (value_after vs v old)"
  by (auto simp: value_after_def map_add_def split: option.split)

definition updated_memory :: "u32 \<Rightarrow> (u16 \<times> f32) list \<Rightarrow> twins_memory_t \<Rightarrow> twins_memory_t \<Rightarrow> bool" where
  "updated_memory twin vs m m' \<longleftrightarrow>
     (\<forall>t v. valid_var (t, v) \<longrightarrow>
        get_value m' (t, v) = (if t = twin then value_after vs v (get_value m (t, v)) else get_value m (t, v))) \<and>
     (\<forall>t. twins_memory_get_status m' t =
        (if t = twin \<and> (\<exists>p \<in> set vs. valid_var (twin, ucast (fst p))) then 0 else twins_memory_get_status m t))"

lemma updated_memory_append:
  "updated_memory twin vs m1 m2 \<Longrightarrow> updated_memory twin ws m2 m3 \<Longrightarrow> updated_memory twin (vs @ ws) m1 m3"
  by (simp add: updated_memory_def value_after_append) blast

lemma updated_memory_Nil: "updated_memory twin [] m m"
  by (simp add: updated_memory_def value_after_def)

definition idle_queues :: "node_t \<Rightarrow> bool" where
  "idle_queues n \<longleftrightarrow>
     queue_content (queues (engine n) QUEUE_IN) = [] \<and> queue_content (queues (engine n) QUEUE_OUT_NOTIFY) = []"

lemma dispatched_memory:
  assumes "engine_ok s" "event_ok ev" "event_view ev = (hdr, vs)" "vs \<noteq> []" "dispatch_event clk ev s = Some t"
  shows "updated_memory (twin_id hdr) vs (memory s) (memory t)"
proof -
  obtain u where u: "payload ev = Update u" "map pair_of (carried u) = vs" and hdr: "header ev = hdr"
    using assms(3,4) by (cases "payload ev") (auto simp: event_view_def)
  note mem = dispatch_memory_aux [OF assms(1) u(1) assms(2,5)]
  have "map_of (rev (map (target_of (twin_id hdr)) (carried u))) (t, v) =
      (if t = twin_id hdr then map_of (rev (map (\<lambda>(v, x). (ucast v, x)) vs)) v else None)" for t v
  proof (cases "t = twin_id hdr")
    case False
    then have "(t, v) \<notin> fst ` set (rev (map (target_of (twin_id hdr)) (carried u)))"
      by (auto simp: target_of_def)
    with False show ?thesis by (simp add: map_of_eq_None_iff)
  qed (use update_keys [of "twin_id hdr" "carried u" v] u(2) in simp)
  then have "get_value (memory t) (tw, v) =
      (if tw = twin_id hdr then value_after vs v (get_value (memory s) (tw, v)) else get_value (memory s) (tw, v))"
    if "valid_var (tw, v)" for tw v
    using mem [of "(tw, v)"] that
    by (cases "tw = twin_id hdr") (simp_all add: hdr value_after_def del: get_value.simps split: option.split)
  moreover have "(\<exists>p \<in> set (carried u). valid_var (fst (target_of (twin_id hdr) p))) \<longleftrightarrow>
      (\<exists>p \<in> set vs. valid_var (twin_id hdr, ucast (fst p)))"
    unfolding u(2) [symmetric] by (auto simp: target_of_def pair_of_def)
  ultimately show ?thesis using mem by (simp add: updated_memory_def hdr del: get_value.simps)
qed

text \<open>An event at the head of the processor's queue, through the processor and the sender.\<close>

lemma round_handles_event:
  assumes inv: "node_inv cs evs n" and cs: "length cs = 5"
    and content: "queue_content (queues (engine n) QUEUE_IN) = ev # rest"
      "queue_content (queues (engine n) QUEUE_OUT_NOTIFY) = []"
    and ev: "event_view ev = (hdr, vs)" "vs \<noteq> []" "f32_to_u64 (deviation hdr) \<noteq> None"
  shows "\<exists>n1 n2. node_process clk stack n = Some n1 \<and> node_send cs stack now n1 = Some n2 \<and>
    node_inv cs evs n2 \<and> queue_content (queues (engine n2) QUEUE_IN) = rest \<and>
    queue_content (queues (engine n2) QUEUE_OUT_NOTIFY) = [] \<and>
    wire (tx n2) = wire (tx n) @ map (wire_message cs) (forwarded (hdr, vs)) \<and>
    updated_memory (twin_id hdr) vs (memory (engine n)) (memory (engine n2))"
proof -
  have ok: "engine_ok (engine n)" "main_wiring (engine n)" using inv by (simp_all add: node_inv_def)
  have ev_ok: "event_ok ev" using ok(1) content by (auto simp: engine_ok_def queue_events_ok_def dest: spec [of _ QUEUE_IN])
  obtain t q where t: "dispatch_event clk ev (engine n) = Some t" "queue_content q = rest"
    "node_process clk stack n = Some (n\<lparr>engine := set_queue QUEUE_IN q t\<rparr>)"
    by (rule node_process_cases [OF ok, of clk stack]) (use content in auto)
  define n1 where "n1 = n\<lparr>engine := set_queue QUEUE_IN q t\<rparr>"
  have inv1: "node_inv cs evs n1" using node_inv_process [OF inv t(3)] by (simp add: n1_def)
  have views: "queue_views (queues (engine n1) QUEUE_OUT_NOTIFY) = forwarded (hdr, vs)"
    using dispatch_forwards(4) [OF ok ev_ok t(1)] content(2) take_forwarded [of "(hdr, vs)"]
    by (simp add: n1_def queue_views_def ev(1) del: forwarded.simps)
  have mem: "updated_memory (twin_id hdr) vs (memory (engine n)) (memory (engine n1))"
    using dispatched_memory [OF ok(1) ev_ok ev(1,2) t(1)] by (simp add: n1_def)
  have one: "length (forwarded (hdr, vs)) \<le> 1" by (simp add: Let_def)
  have n1: "node_process clk stack n = Some n1" "tx n1 = tx n" "queue_content (queues (engine n1) QUEUE_IN) = rest"
    using t by (simp_all add: n1_def)
  show ?thesis
  proof (rule node_send_cases [OF inv1 cs, of stack now])
    assume empty: "queue_content (queues (engine n1) QUEUE_OUT_NOTIFY) = []" and sent: "node_send cs stack now n1 = Some n1"
    then have "forwarded (hdr, vs) = []" using views by (simp add: queue_views_def)
    then show ?thesis using sent empty n1 inv1 mem by (intro exI [of _ n1]) (simp del: forwarded.simps)
  next
    fix ev' more q' h
    assume c: "queue_content (queues (engine n1) QUEUE_OUT_NOTIFY) = ev' # more" "queue_content q' = more"
      and sent: "node_send cs stack now n1 = Some (n1\<lparr>engine := set_queue QUEUE_OUT_NOTIFY q' (engine n1),
         tx := (tx n1)\<lparr>history2 := h, wire := wire (tx n1) @ [sent_as cs ev']\<rparr>\<rparr>)" (is "_ = Some ?n2")
    have "forwarded (hdr, vs) = event_view ev' # map event_view more" using views c(1) by (simp add: queue_views_def)
    with one have fw: "forwarded (hdr, vs) = [event_view ev']" "more = []" by (cases more; simp)+
    have "node_inv cs evs ?n2" by (rule node_inv_send [OF inv1 cs sent])
    then show ?thesis
      using sent n1 mem c(2) unfolding fw(1)
      by (intro exI [of _ n1] exI [of _ ?n2]) (simp add: fw(2) sent_as_view queue_defs)
  next
    fix ev' more
    assume c: "queue_content (queues (engine n1) QUEUE_OUT_NOTIFY) = ev' # more" and stuck: "\<not> sendable 5 ev'"
    then have ev': "ev' \<in> set (queue_content (queues (engine n1) QUEUE_OUT_NOTIFY))" by simp
    then have "event_view ev' \<in> set (forwarded (hdr, vs))"
      unfolding views [symmetric] queue_views_def by simp
    then have "fst (event_view ev') = hdr" by (simp add: Let_def split: if_splits)
    then have "header ev' = hdr" by (simp add: event_view_def)
    then have "sendable 5 ev'"
      using notify_events_ok [OF inv1 ev'] ev(3) by (simp add: sendable_def to_parent_def event_view_def)
    with stuck show ?thesis ..
  qed
qed

lemma rounds_handle_events:
  "node_inv cs evs n \<Longrightarrow> length cs = 5 \<Longrightarrow>
   map event_view (queue_content (queues (engine n) QUEUE_IN)) = map (Pair hdr) vss \<Longrightarrow>
   queue_content (queues (engine n) QUEUE_OUT_NOTIFY) = [] \<Longrightarrow> [] \<notin> set vss \<Longrightarrow>
   f32_to_u64 (deviation hdr) \<noteq> None \<Longrightarrow>
   \<exists>n'. node_rounds cs clk stack now (length vss) n = Some n' \<and> idle_queues n' \<and>
     updated_memory (twin_id hdr) (concat vss) (memory (engine n)) (memory (engine n')) \<and>
     wire (tx n') = wire (tx n) @ map (wire_message cs) (concat (map (\<lambda>vs. forwarded (hdr, vs)) vss))"
proof (induction vss arbitrary: n)
  case Nil
  then show ?case by (simp add: idle_queues_def updated_memory_Nil)
next
  case (Cons vs vss)
  obtain ev rest where c: "queue_content (queues (engine n) QUEUE_IN) = ev # rest" "event_view ev = (hdr, vs)"
    "map event_view rest = map (Pair hdr) vss"
    using Cons.prems(3) by auto
  have vs: "vs \<noteq> []" "[] \<notin> set vss" using Cons.prems(5) by auto
  obtain n1 n2 where run: "node_process clk stack n = Some n1" "node_send cs stack now n1 = Some n2"
    and n2: "node_inv cs evs n2" "queue_content (queues (engine n2) QUEUE_IN) = rest"
      "queue_content (queues (engine n2) QUEUE_OUT_NOTIFY) = []"
      "wire (tx n2) = wire (tx n) @ map (wire_message cs) (forwarded (hdr, vs))"
      "updated_memory (twin_id hdr) vs (memory (engine n)) (memory (engine n2))"
    using round_handles_event [OF Cons.prems(1,2) c(1) Cons.prems(4) c(2) vs(1) Cons.prems(6), of clk stack now] by blast
  from Cons.IH [OF n2(1) Cons.prems(2) _ n2(3) vs(2) Cons.prems(6)] obtain n' where
    "node_rounds cs clk stack now (length vss) n2 = Some n'" "idle_queues n'"
    "wire (tx n') = wire (tx n2) @ map (wire_message cs) (concat (map (\<lambda>vs. forwarded (hdr, vs)) vss))"
    "updated_memory (twin_id hdr) (concat vss) (memory (engine n2)) (memory (engine n'))"
    using n2(2) c(3) by (auto simp del: forwarded.simps)
  with run n2(4) updated_memory_append [OF n2(5)] show ?case
    by (intro exI [of _ n']) (simp del: forwarded.simps)
qed

lemma chunks_count: "0 < k \<Longrightarrow> length (chunks k vs) \<le> length vs"
proof (induction "length vs" arbitrary: vs rule: less_induct)
  case less
  show ?case
  proof (cases "vs = []")
    case False
    with less.prems have "length (drop k vs) < length vs" by simp
    from less.hyps [OF this less.prems] less.prems False show ?thesis
      by (cases vs) (simp_all add: chunks_step)
  qed simp
qed

lemma node_runs_buffer:
  "node_runs cs n evs n' \<Longrightarrow> length (r_buffer (rx n')) = length (r_buffer (rx n))"
proof (induction rule: node_runs.induct)
  case (process evs n' clk stack n'')
  then show ?case by (auto simp: node_process_def)
next
  case (send evs n' stack now n'')
  then show ?case by (auto simp: node_send_def)
qed (auto simp: node_receive_def Let_def receive_round_def zmq_recv_into_def split_beta split: option.split)

lemma message_arrives:
  assumes "engine_ok (engine n)" "queue_content (queues (engine n) QUEUE_IN) = []"
    "length (r_buffer (rx n)) = ZMQ_BUFFER_SIZE" "fits_buffer (ts, dev, twin, vs)"
    "length (stack_updates env) = MAX_VARS_PER_EVENT"
    "n0 = node_receive env behind (Some (encode_message (ts, dev, twin, vs))) n"
  shows "map event_view (queue_content (queues (engine n0) QUEUE_IN)) =
      map (Pair \<lparr>event_type = EVENT_UPDATE, timestamp = ts, deviation = u64_to_f32 dev, twin_id = twin\<rparr>)
        (chunks MAX_VARS_PER_EVENT vs)"
    "arrivals n n0 = queue_content (queues (engine n0) QUEUE_IN)"
proof -
  let ?rx = "(rx n)\<lparr>r_queue := queues (engine n) QUEUE_IN\<rparr>"
  have k: "0 < MAX_VARS_PER_EVENT" by (simp add: config_defs)
  obtain q where q: "engine n0 = set_queue QUEUE_IN q (engine n)" "queue_content q = arrivals n n0"
    using node_receive_queue(1) [OF assms(1,5,6)] assms(2) by auto
  then show "arrivals n n0 = queue_content (queues (engine n0) QUEUE_IN)" by simp
  have "queues (engine n0) QUEUE_IN =
      r_queue (receive_round env behind (Some (encode_message (ts, dev, twin, vs))) ?rx)"
    by (simp add: assms(6) node_receive_def Let_def)
  moreover have "length vs \<le> 512"
    using assms(4) entries_longer [of vs] by (simp add: fits_buffer_def update_items_def config_defs)
  then have "length (chunks MAX_VARS_PER_EVENT vs) \<le> QUEUE_SIZE - 1"
    using chunks_count [OF k, of vs] by (simp add: config_defs)
  moreover have "queue_ok (r_queue ?rx)" "length (r_buffer ?rx) = ZMQ_BUFFER_SIZE" "queue_content (r_queue ?rx) = []"
    using assms(1-3) by (simp_all add: engine_ok_def queue_events_ok_def)
  moreover have "wire_header 0 ts dev (ucast twin) =
      \<lparr>event_type = EVENT_UPDATE, timestamp = ts, deviation = u64_to_f32 dev, twin_id = twin\<rparr>"
    by (simp add: wire_header_def event_type_defs word_bytes)
  ultimately show "map event_view (queue_content (queues (engine n0) QUEUE_IN)) =
      map (Pair \<lparr>event_type = EVENT_UPDATE, timestamp = ts, deviation = u64_to_f32 dev, twin_id = twin\<rparr>)
        (chunks MAX_VARS_PER_EVENT vs)"
    using message_round_queued [of ?rx env "(ts, dev, twin, vs)" behind] assms(4,5) by simp
qed

lemma update_handled_aux:
  assumes "open_connectors sock conn 0 connector_urls = Some connectors"
    "node_runs connectors (main_node r) evs n" "idle_queues n" "length (r_buffer r) = ZMQ_BUFFER_SIZE"
    "fits_buffer (ts, dev, twin, vs)" "length (stack_updates env) = MAX_VARS_PER_EVENT"
    "f32_to_u64 (u64_to_f32 dev) \<noteq> None"
  shows "\<exists>n'.
     node_rounds connectors clk stack now (length (chunks MAX_VARS_PER_EVENT vs))
       (node_receive env behind (Some (encode_message (ts, dev, twin, vs))) n) = Some n' \<and>
     idle_queues n' \<and> updated_memory twin vs (memory (engine n)) (memory (engine n')) \<and>
     wire (tx n') = wire (tx n) @ map (wire_message connectors)
       (concat (map (\<lambda>ps. forwarded
          (\<lparr>event_type = EVENT_UPDATE, timestamp = ts, deviation = u64_to_f32 dev, twin_id = twin\<rparr>, ps))
          (chunks MAX_VARS_PER_EVENT vs)))"
proof -
  define n0 where "n0 = node_receive env behind (Some (encode_message (ts, dev, twin, vs))) n"
  let ?hdr = "\<lparr>event_type = EVENT_UPDATE, timestamp = ts, deviation = u64_to_f32 dev, twin_id = twin\<rparr>"
  let ?vss = "chunks MAX_VARS_PER_EVENT vs"
  have k: "0 < MAX_VARS_PER_EVENT" by (simp add: config_defs)
  have cs: "length connectors = 5"
    using open_connectors_length [OF assms(1)] by (simp add: length_connector_urls)
  have inv: "node_inv connectors evs n" by (rule node_runs_inv [OF assms(2) cs main_node_inv])
  then have ok: "engine_ok (engine n)" by (simp add: node_inv_def)
  have inv0: "node_inv connectors (evs @ arrivals n n0) n0"
    by (rule node_inv_receive [OF inv assms(6) n0_def])
  obtain q where q: "engine n0 = set_queue QUEUE_IN q (engine n)"
    using node_receive_queue(1) [OF ok assms(6) n0_def] by blast
  have same: "memory (engine n0) = memory (engine n)"
    "queue_content (queues (engine n0) QUEUE_OUT_NOTIFY) = []" "tx n0 = tx n"
    using assms(3) node_receive_queue(2) [OF ok assms(6) n0_def] by (simp_all add: q idle_queues_def)
  have "map event_view (queue_content (queues (engine n0) QUEUE_IN)) = map (Pair ?hdr) ?vss"
    using message_arrives(1) [OF ok _ _ assms(5,6) n0_def] node_runs_buffer [OF assms(2)] assms(3,4)
    by (simp add: main_node_def idle_queues_def)
  moreover have "[] \<notin> set ?vss" using chunks_length [of "[]" MAX_VARS_PER_EVENT vs] by auto
  ultimately show ?thesis
    unfolding n0_def [symmetric]
    using rounds_handle_events [OF inv0 cs, of ?hdr ?vss clk stack now] same assms(7) concat_chunks [OF k, of vs]
    by (simp del: forwarded.simps)
qed

text \<open>
  C4. An update message, of any number of variables, that reaches an idle engine in any state it can get
  into is completely handled by one round of the receiver and, for each \<open>MAX_VARS_PER_EVENT\<close> of
  its variables, one round of the processor and one of the sender: the engine is idle again, the memory
  holds the last value that the message gives for each variable and is otherwise unchanged, the
  twin is connected if it has one of the variables and no other status changes, and the updates of
  variable 0 of one of the first five twins, and nothing else, have been sent to the parent.
\<close>

theorem update_handled_end_to_end:
  assumes "open_connectors sock conn 0 connector_urls = Some connectors"
    "node_runs connectors (main_node r) evs n" "idle_queues n" "length (r_buffer r) = ZMQ_BUFFER_SIZE"
    "fits_buffer (ts, dev, twin, vs)" "length (stack_updates env) = MAX_VARS_PER_EVENT"
    "f32_to_u64 (u64_to_f32 dev) \<noteq> None"
  shows "\<exists>n'.
     node_rounds connectors clk stack now (length (chunks MAX_VARS_PER_EVENT vs))
       (node_receive env behind (Some (encode_message (ts, dev, twin, vs))) n) = Some n' \<and>
     idle_queues n' \<and> updated_memory twin vs (memory (engine n)) (memory (engine n')) \<and>
     wire (tx n') = wire (tx n) @ map (wire_message connectors)
       (concat (map (\<lambda>ps. forwarded
          (\<lparr>event_type = EVENT_UPDATE, timestamp = ts, deviation = u64_to_f32 dev, twin_id = twin\<rparr>, ps))
          (chunks MAX_VARS_PER_EVENT vs)))"
  using assms by (rule update_handled_aux)

text \<open>The contract at concrete inputs.\<close>

definition idle_receiver :: receiver_t where
  "idle_receiver =
     \<lparr>r_queue = zero_queue, r_history = zero_history, r_buffer = replicate ZMQ_BUFFER_SIZE 0,
      r_console = []\<rparr>"

definition sample_updates :: "(u16 \<times> f32) list" where
  "sample_updates = map (\<lambda>i. (of_nat i, of_nat (i + 4))) [0..<9]"

lemma sample_fits: "fits_buffer (7, 0, 2, sample_updates)"
  by (simp add: fits_buffer_def update_items_def mp_uint_def config_defs sample_updates_def upt_rec)

lemma main_connectors:
  "open_connectors (\<lambda>k. Some k) (\<lambda>s url. 0) 0 connector_urls = Some [0, 1, 2, 3, 4]"
  by (rule sample_connectors)

lemma idle_buffer: "length (r_buffer idle_receiver) = ZMQ_BUFFER_SIZE"
  by (simp add: idle_receiver_def)

lemma sample_batches:
  "chunks MAX_VARS_PER_EVENT sample_updates =
    [[(0, 4), (1, 5), (2, 6), (3, 7), (4, 8), (5, 9), (6, 10), (7, 11)], [(8, 12)]]"
  by (simp add: sample_updates_def config_defs chunks_step upt_rec)

lemma node_rounds_run:
  "node_runs cs n0 evs n \<Longrightarrow> node_rounds cs clk stack now k n = Some n' \<Longrightarrow> node_runs cs n0 evs n'"
proof (induction k arbitrary: n)
  case (Suc k)
  obtain n1 n2 where "node_process clk stack n = Some n1" "node_send cs stack now n1 = Some n2"
    "node_rounds cs clk stack now k n2 = Some n'"
    using Suc.prems(2) by (auto split: option.splits)
  then show ?case
    using Suc.IH [OF node_runs.send [OF node_runs.process [OF Suc.prems(1)]]] by blast
qed simp

text \<open>A message of nine variables at the start, which makes two events.\<close>

definition sample_header :: event_header_t where
  "sample_header = \<lparr>event_type = EVENT_UPDATE, timestamp = 7, deviation = u64_to_f32 0, twin_id = 2\<rparr>"

definition sample_arrived :: node_t where
  "sample_arrived =
     node_receive zero_env [] (Some (encode_message (7, 0, 2, sample_updates))) (main_node idle_receiver)"

lemma sample_wire: "wire_message [0, 1, 2, 3, 4] (sample_header, [(0, 4)]) = (2, [0x97, 0, 7, 0, 2, 1, 0, 0xca, 0, 0, 0, 4])"
  by (simp add: sample_header_def zero_float update_items_def mp_uint_def be32_def)

lemma sample_forwarded: "concat (map (\<lambda>ps. forwarded (sample_header, ps)) (chunks MAX_VARS_PER_EVENT sample_updates)) = [(sample_header, [(0, 4)])]"
  by (simp add: sample_batches sample_header_def)

lemma sample_idle: "idle_queues (main_node idle_receiver)" "engine_ok (engine (main_node idle_receiver))"
  using main_engine_facts by (simp_all add: idle_queues_def main_node_def)

lemma sample_run:
  obtains evs where "node_runs [0, 1, 2, 3, 4] (main_node idle_receiver) evs sample_arrived"
    "map event_view evs = map (Pair sample_header) (chunks MAX_VARS_PER_EVENT sample_updates)"
proof -
  have "length (r_buffer (rx (main_node idle_receiver))) = ZMQ_BUFFER_SIZE"
    "queue_content (queues (engine (main_node idle_receiver)) QUEUE_IN) = []"
    using sample_idle(1) idle_buffer by (simp_all add: main_node_def idle_queues_def)
  note arrives = message_arrives [OF sample_idle(2) this(2,1) sample_fits zero_env_updates sample_arrived_def]
  have "node_runs [0, 1, 2, 3, 4] (main_node idle_receiver)
      ([] @ arrivals (main_node idle_receiver) sample_arrived) sample_arrived"
    by (rule node_runs.receive [OF node_runs.start zero_env_updates sample_arrived_def])
  then show ?thesis
    using arrives by (intro that [of "arrivals (main_node idle_receiver) sample_arrived"]) (simp_all add: sample_header_def)
qed

lemma zero_deviation: "f32_to_u64 (u64_to_f32 0) \<noteq> None"
  by (simp add: zero_float)

theorem update_handled_end_to_end_witness:
  "\<exists>n. node_rounds [0, 1, 2, 3, 4] (\<lambda>_. 0) zero_event 0 2
       (node_receive zero_env [] (Some (encode_message (7, 0, 2, sample_updates))) (main_node idle_receiver)) = Some n \<and>
     idle_queues n \<and> get_value (memory (engine n)) (2, 8) = 12 \<and>
     twins_memory_get_status (memory (engine n)) 2 = 0 \<and>
     wire (tx n) = [(2, [0x97, 0, 7, 0, 2, 1, 0, 0xca, 0, 0, 0, 4])]"
proof -
  have two: "length (chunks MAX_VARS_PER_EVENT sample_updates) = 2" by (simp add: sample_batches)
  from update_handled_end_to_end [OF main_connectors node_runs.start sample_idle(1) idle_buffer sample_fits
      zero_env_updates zero_deviation, of "\<lambda>_. 0" zero_event 0 "[]"] obtain n where
    n: "node_rounds [0, 1, 2, 3, 4] (\<lambda>_. 0) zero_event 0 2
       (node_receive zero_env [] (Some (encode_message (7, 0, 2, sample_updates))) (main_node idle_receiver)) = Some n"
      "idle_queues n" "updated_memory 2 sample_updates (memory (engine (main_node idle_receiver))) (memory (engine n))"
      "wire (tx n) = map (wire_message [0, 1, 2, 3, 4]) [(sample_header, [(0, 4)])]"
    unfolding two sample_header_def [symmetric] sample_forwarded by (auto simp: main_node_def)
  have "valid_var (2, 8)" "valid_var (2, ucast (fst (8 :: u16, 12 :: f32)))" "(8, 12) \<in> set sample_updates"
    by (simp_all add: valid_twin_def config_defs sample_updates_def upt_rec)
  moreover have "value_after sample_updates 8 x = 12" for x
    by (simp add: value_after_def sample_updates_def upt_rec)
  ultimately have "get_value (memory (engine n)) (2, 8) = 12" "twins_memory_get_status (memory (engine n)) 2 = 0"
    using n(3) unfolding updated_memory_def by (metis (no_types, lifting))+
  with n(1,2,4) sample_wire show ?thesis by auto
qed

theorem engine_sends_only_selected_witness:
  "\<exists>n evs. node_runs [0, 1, 2, 3, 4] (main_node idle_receiver) evs n \<and> wire (tx n) \<noteq> [] \<and>
     (\<exists>sent. wire (tx n) = map (wire_message [0, 1, 2, 3, 4]) sent \<and>
        subseq sent [(sample_header, [(0, 4)])])"
proof -
  obtain evs where evs: "node_runs [0, 1, 2, 3, 4] (main_node idle_receiver) evs sample_arrived"
    "map event_view evs = map (Pair sample_header) (chunks MAX_VARS_PER_EVENT sample_updates)" by (rule sample_run)
  from update_handled_aux [OF main_connectors node_runs.start sample_idle(1) idle_buffer sample_fits
      zero_env_updates zero_deviation, of "\<lambda>_. 0" zero_event 0 "[]"] obtain k n where
    n: "node_rounds [0, 1, 2, 3, 4] (\<lambda>_. 0) zero_event 0 k sample_arrived = Some n"
      "wire (tx n) = wire (tx (main_node idle_receiver)) @ map (wire_message [0, 1, 2, 3, 4]) [(sample_header, [(0, 4)])]"
    unfolding sample_header_def [symmetric] sample_forwarded sample_arrived_def [symmetric] by blast
  have reach: "node_runs [0, 1, 2, 3, 4] (main_node idle_receiver) evs n"
    by (rule node_rounds_run [OF evs(1) n(1)])
  have "concat (map forwarded (map event_view evs)) = [(sample_header, [(0, 4)])]"
    using sample_forwarded unfolding evs(2) by (simp add: comp_def del: forwarded.simps)
  with engine_sends_only_selected [OF main_connectors reach] have
    "\<exists>sent. wire (tx n) = map (wire_message [0, 1, 2, 3, 4]) sent \<and> subseq sent [(sample_header, [(0, 4)])]"
    by (simp only:)
  moreover have "wire (tx n) \<noteq> []" unfolding n(2) by simp
  ultimately show ?thesis using reach by blast
qed

theorem engine_never_stuck_witness:
  "\<exists>evs. node_runs [0, 1, 2, 3, 4] (main_node idle_receiver) evs sample_arrived \<and> length evs = 2 \<and>
     node_process (\<lambda>_. 0) zero_event sample_arrived \<noteq> None \<and>
     node_send [0, 1, 2, 3, 4] zero_event 0 sample_arrived \<noteq> None"
proof -
  obtain evs where evs: "node_runs [0, 1, 2, 3, 4] (main_node idle_receiver) evs sample_arrived"
    "map event_view evs = map (Pair sample_header) (chunks MAX_VARS_PER_EVENT sample_updates)" by (rule sample_run)
  have "fst (event_view ev) = sample_header" if "ev \<in> set evs" for ev
  proof -
    have "event_view ev \<in> set (map event_view evs)" using that by simp
    then show ?thesis unfolding evs(2) by auto
  qed
  then have "list_all (\<lambda>ev. f32_to_u64 (deviation (header ev)) \<noteq> None) evs"
    using zero_deviation by (auto simp: list_all_iff event_view_def sample_header_def)
  moreover have "length evs = 2" using arg_cong [OF evs(2), of length] by (simp add: sample_batches)
  ultimately show ?thesis using engine_never_stuck [OF main_connectors evs(1)] evs(1) by blast
qed

end
