(* ===== verification/Test_Clients.thy ===== *)
theory Test_Clients
  imports Event_Sender Event_Reciever
begin

text \<open>
  The two programs at the ends of the pipeline (\<open>engine/utils_testing/c_clients/src\<close>): \<open>zmq_send.c\<close>
  plays the devices and pushes update messages to an engine, \<open>zmq_recieve.c\<close> plays the parent and
  logs the messages an engine forwards.  ZeroMQ, the clock, the host name and the success of
  \<open>fopen\<close> are parameters.  Waiting and pinning the threads to cores are left out.
\<close>

subsection \<open>The sending client\<close>

text \<open>The twin of a host; other hosts play twin 1.\<close>

definition host_twin :: "string \<Rightarrow> u32" where
  "host_twin hostname =
     (if hostname = ''rbpi5-2'' then 10
      else if hostname = ''rbpi5-3'' then 0
      else if hostname = ''rbpi5-4'' then 1
      else if hostname = ''rbpi5-5'' then 2
      else if hostname = ''rbpi5-6'' then 3
      else if hostname = ''rbpi5-7'' then 4
      else 1)"

definition pruebas :: "nat list" where
  "pruebas = [10, 50, 100, 200, 500, 1000, 5000]"

text \<open>\<open>float deviation = 0.5f\<close>\<close>

definition client_deviation :: f32 where
  "client_deviation = 0x3f000000"

text \<open>
  \<open>base_value\<close> starts at 0 and grows by \<open>1.0f\<close> per message; as long as it is below \<open>2^24\<close> these
  additions are exact, so the value of message \<open>k\<close> is the float of \<open>k\<close>.
\<close>

definition base_value :: "nat \<Rightarrow> f32" where
  "base_value k = u64_to_f32 (of_nat k)"

definition client_message :: "u64 \<Rightarrow> u64 \<Rightarrow> u32 \<Rightarrow> f32 \<Rightarrow> byte list" where
  "client_message ts dev twin v =
     (let pc = cw_pack_context_init ZMQ_BUFFER_SIZE None;
          pc = cw_pack_array_size pc (5 + 1 * 2);
          pc = cw_pack_unsigned pc 0;
          pc = cw_pack_unsigned pc ts;
          pc = cw_pack_unsigned pc dev;
          pc = cw_pack_unsigned pc (ucast twin);
          pc = cw_pack_unsigned pc 1;
          pc = cw_pack_unsigned pc 0;
          pc = cw_pack_float pc v
      in p_out pc)"

fun send_messages :: "(nat \<Rightarrow> u64) \<Rightarrow> u64 \<Rightarrow> u32 \<Rightarrow> nat \<Rightarrow> nat \<Rightarrow> byte list list" where
  "send_messages clk dev twin k 0 = []"
| "send_messages clk dev twin k (Suc m) =
     client_message (clk k) dev twin (base_value k) # send_messages clk dev twin (Suc k) m"

fun send_tests :: "(nat \<Rightarrow> u64) \<Rightarrow> u64 \<Rightarrow> u32 \<Rightarrow> nat \<Rightarrow> nat list \<Rightarrow> byte list list" where
  "send_tests clk dev twin k [] = []"
| "send_tests clk dev twin k (n # tests) =
     send_messages clk dev twin k n @ send_tests clk dev twin (k + n) tests"

text \<open>The exit code and what is handed to \<open>zmq_send\<close>.\<close>

definition send_main :: "string \<Rightarrow> int \<Rightarrow> (nat \<Rightarrow> u64) \<Rightarrow> (int \<times> byte list list) option" where
  "send_main hostname connect_rc clk =
     (if connect_rc \<noteq> 0 then Some (1, [])
      else
        (case f32_to_u64 client_deviation of
           None \<Rightarrow> None
         | Some dev \<Rightarrow> Some (0, send_tests clk dev (host_twin hostname) 0 pruebas)))"

subsection \<open>The receiving client\<close>

definition MAX_MSGS :: nat where
  "MAX_MSGS = 1000000"

definition HISTORY_LOG_SIZE :: nat where
  "HISTORY_LOG_SIZE = 8000000"

record mensaje_t =
  sending_ts :: u64
  receiving_ts :: u64
  msg_twin_id :: u32
  message_id :: f32

record client_t =
  total_received :: nat
  msg_log :: "nat \<Rightarrow> mensaje_t"
  c_buffer :: "byte list"

definition read_message :: "u64 \<Rightarrow> cw_unpack_context \<Rightarrow> mensaje_t" where
  "read_message now ctx =
     (let ctx = cw_unpack_next ctx;
          ctx = cw_unpack_next ctx;
          ts = as_u64 ctx;
          ctx = cw_unpack_next ctx;
          ctx = cw_unpack_next ctx;
          twin = ucast (as_u64 ctx);
          ctx = cw_unpack_next ctx;
          ctx = cw_unpack_next ctx;
          ctx = cw_unpack_next ctx
      in \<lparr>sending_ts = ts, receiving_ts = now, msg_twin_id = twin, message_id = as_real ctx\<rparr>)"

text \<open>
  One round of the loop; \<open>None\<close> ends the program at once, with the exit code -1 and without a file.
  \<open>behind\<close> is what follows the buffer in memory, as for the receiver of the engine.
\<close>

definition client_round ::
  "parser_env \<Rightarrow> u64 \<Rightarrow> byte list \<Rightarrow> byte list option \<Rightarrow> client_t \<Rightarrow> client_t option" where
  "client_round env now behind received st =
     (case received of
        None \<Rightarrow> Some st
      | Some msg \<Rightarrow>
          (let buf = zmq_recv_into (c_buffer st) msg; size = length msg;
               st = st\<lparr>c_buffer := buf, total_received := total_received st + 1\<rparr>;
               ctx = cw_unpack_context_init (stack_ctx env) (buffer_addr env)
                 (take size (buf @ behind)) None;
               ctx = cw_unpack_next ctx
           in if u_return_code ctx \<noteq> 0 then None
              else if as_size ctx < 4 then None
              else
                (let m = read_message now ctx
                 in if total_received st \<le> MAX_MSGS
                    then Some (st\<lparr>msg_log := (msg_log st)(total_received st - 1 := m)\<rparr>)
                    else Some st)))"

fun client_rounds ::
  "(parser_env \<times> u64 \<times> byte list \<times> byte list option) list \<Rightarrow> client_t \<Rightarrow> client_t option" where
  "client_rounds [] st = Some st"
| "client_rounds ((env, now, behind, received) # rounds) st =
     (case client_round env now behind received st of
        None \<Rightarrow> None | Some st \<Rightarrow> client_rounds rounds st)"

text \<open>
  The file written at the end: one line per message received; reading behind the array is \<open>None\<close>,
  and there is no file when \<open>fopen\<close> fails.
\<close>

datatype client_line = Client_Header | Client_Message u64 u64 u32 f32

definition client_line_of :: "mensaje_t \<Rightarrow> client_line" where
  "client_line_of m =
     Client_Message (sending_ts m) (receiving_ts m) (msg_twin_id m) (message_id m)"

definition client_dump :: "bool \<Rightarrow> client_t \<Rightarrow> client_line list option" where
  "client_dump opened st =
     (if \<not> opened then Some []
      else if HISTORY_LOG_SIZE < total_received st then None
      else Some (Client_Header # map (\<lambda>i. client_line_of (msg_log st i)) [0..<total_received st]))"

subsection \<open>What the sending client sends\<close>

lemma client_message_items:
  "client_message ts dev twin v = encode_message (ts, dev, twin, [(0, v)])"
  and client_message_fits: "fits_buffer (ts, dev, twin, [(0, v)])"
proof -
  let ?its = "update_items ts dev twin [(0, v)]" and ?pc = "cw_pack_context_init ZMQ_BUFFER_SIZE None"
  have len: "length (mp_encode_all ?its) \<le> ZMQ_BUFFER_SIZE"
    using length_update_items [of ts dev twin "[(0, v)]"] by (simp add: config_defs)
  then show "fits_buffer (ts, dev, twin, [(0, v)])" by (simp add: fits_buffer_def)
  have "client_message ts dev twin v = p_out (pack_items ?its ?pc)"
    by (simp add: client_message_def update_items_def pack_routines pack_ready_init Let_def)
  with len show "client_message ts dev twin v = encode_message (ts, dev, twin, [(0, v)])"
    using pack_items_fit [of ?pc ?its] by (simp add: pack_ready_init cw_put_def)
qed

text \<open>The message number \<open>k\<close> of a device.\<close>

definition device_message :: "(nat \<Rightarrow> u64) \<Rightarrow> u32 \<Rightarrow> nat \<Rightarrow> update_message" where
  "device_message clk twin k = (clk k, 0, twin, [(0, base_value k)])"

lemma send_messages_upt:
  "send_messages clk 0 twin k m = map (encode_message \<circ> device_message clk twin) [k..<k + m]"
  by (induction m arbitrary: k)
    (simp_all add: client_message_items device_message_def upt_conv_Cons del: upt_Suc encode_message.simps)

lemma send_tests_upt:
  "send_tests clk 0 twin k tests =
     map (encode_message \<circ> device_message clk twin) [k..<k + sum_list tests]"
proof (induction tests arbitrary: k)
  case (Cons t tests)
  have "[k..<k + (t + sum_list tests)] = [k..<k + t] @ [k + t..<k + t + sum_list tests]"
    using upt_add_eq_append [of k "k + t" "sum_list tests"] by (simp add: add.assoc)
  with Cons show ?case by (simp add: send_messages_upt)
qed simp

lemma client_deviation_zero: "f32_to_u64 client_deviation = Some 0"
  by (simp add: client_deviation_def f32_to_u64_def)

text \<open>
  A device that can connect sends 6860 messages: the \<open>k\<close>-th is the update message with the
  time of its sending, deviation 0, the twin of its host, and variable 0 with the value \<open>k\<close>.  Each
  fits the buffer of the engine.
\<close>

theorem device_sends_updates:
  "send_main hostname 0 clk =
     Some (0, map (encode_message \<circ> device_message clk (host_twin hostname)) [0..<6860]) \<and>
   list_all (\<lambda>k. fits_buffer (device_message clk (host_twin hostname) k)) [0..<6860]"
proof -
  have "sum_list pruebas = 6860" by (simp add: pruebas_def)
  then show ?thesis
    by (simp add: send_main_def client_deviation_zero send_tests_upt device_message_def
        client_message_fits list_all_iff del: upt_conv_Cons_Cons)
qed

text \<open>
  The device of the host \<open>rbpi5-2\<close> plays a twin that the engine does not have: its updates are
  dropped without a sign.
\<close>

lemma rbpi5_2_has_no_twin: "\<not> unat (host_twin ''rbpi5-2'') < MAX_TWINS"
  by (simp add: host_twin_def config_defs)

subsection \<open>What the receiving client logs\<close>

lemma next_in_sequence:
  assumes "list_all item_fits (xs @ [it])" "unread_at c (mp_encode_all (xs @ it # ys) @ bs)"
  shows "cw_unpack_next (fold read_item xs c) = fold read_item (xs @ [it]) c"
proof -
  have "unread_at c (mp_encode_all xs @ (mp_encode it @ mp_encode_all ys @ bs))"
    using assms(2) by simp
  then have "unread_at (fold read_item xs c) (mp_encode it @ mp_encode_all ys @ bs)"
    using codec.read_all [of xs c] assms(1) by (simp add: mp_encode_all_def)
  from next_unread(1) [OF this] assms(1) show ?thesis by simp
qed

lemma read_message_items:
  assumes "unread_at c (mp_encode_all [MUint 0, MUint ts, MUint dev, MUint (ucast twin), MUint n, MUint v, MFloat x] @ bs)"
  shows "read_message now c =
    \<lparr>sending_ts = ts, receiving_ts = now, msg_twin_id = twin, message_id = x\<rparr>"
proof -
  note n = next_in_sequence [where c = c and bs = bs]
  show ?thesis
    using n [of "[]" "MUint 0" "[MUint ts, MUint dev, MUint (ucast twin), MUint n, MUint v, MFloat x]"]
      n [of "[MUint 0]" "MUint ts" "[MUint dev, MUint (ucast twin), MUint n, MUint v, MFloat x]"]
      n [of "[MUint 0, MUint ts]" "MUint dev" "[MUint (ucast twin), MUint n, MUint v, MFloat x]"]
      n [of "[MUint 0, MUint ts, MUint dev]" "MUint (ucast twin)" "[MUint n, MUint v, MFloat x]"]
      n [of "[MUint 0, MUint ts, MUint dev, MUint (ucast twin)]" "MUint n" "[MUint v, MFloat x]"]
      n [of "[MUint 0, MUint ts, MUint dev, MUint (ucast twin), MUint n]" "MUint v" "[MFloat x]"]
      n [of "[MUint 0, MUint ts, MUint dev, MUint (ucast twin), MUint n, MUint v]" "MFloat x" "[]"] assms
    by (simp add: read_message_def Let_def word_bytes)
qed

text \<open>One round of the client that is given an update message with at least one variable.\<close>

lemma client_round_update:
  assumes "length (c_buffer st) = ZMQ_BUFFER_SIZE" "fits_buffer (ts, dev, twin, (v, x) # vs)"
    "total_received st < MAX_MSGS"
  shows "\<exists>buf. client_round env now behind (Some (encode_message (ts, dev, twin, (v, x) # vs))) st =
    Some (st\<lparr>c_buffer := buf, total_received := total_received st + 1,
      msg_log := (msg_log st)(total_received st :=
        \<lparr>sending_ts = ts, receiving_ts = now, msg_twin_id = twin, message_id = x\<rparr>)\<rparr>) \<and>
    length buf = ZMQ_BUFFER_SIZE"
proof -
  let ?msg = "encode_message (ts, dev, twin, (v, x) # vs)" and ?n = "of_nat (5 + 2 * length ((v, x) # vs)) :: u32"
  let ?buf = "zmq_recv_into (c_buffer st) ?msg"
  let ?c = "cw_unpack_context_init (stack_ctx env) (buffer_addr env) ?msg None"
  have fit: "length ?msg \<le> ZMQ_BUFFER_SIZE" using assms(2) by (simp add: fits_buffer_def)
  then have data: "take (length ?msg) (?buf @ behind) = ?msg" and buf: "length ?buf = ZMQ_BUFFER_SIZE"
    using assms(1) by (simp_all add: zmq_recv_into_def)
  have "5 + 2 * length ((v, x) # vs) < 2 ^ 32" by (rule fits_buffer_count [OF assms(2)])
  then have n: "\<not> ?n < 4" by (simp add: word_less_nat_alt unat_of_nat_small del: of_nat_add of_nat_mult)
  have "unread_at ?c (mp_encode (MArray ?n) @ (mp_encode_all [MUint 0, MUint ts, MUint dev,
      MUint (ucast twin), MUint (of_nat (length ((v, x) # vs))), MUint (ucast v), MFloat x] @
      mp_encode_all (entries_items vs)))"
    using unread_at_init by (simp add: update_items_def)
  note start = this
  have fits: "item_fits (MArray ?n)" by simp
  note arr = next_unread [OF start fits]
  have rc: "u_return_code (cw_unpack_next ?c) = 0" "as_size (cw_unpack_next ?c) = ?n"
    using arr(2) unfolding arr(1) unread_at_def by (blast, simp)
  have "read_message now (cw_unpack_next ?c) =
      \<lparr>sending_ts = ts, receiving_ts = now, msg_twin_id = twin, message_id = x\<rparr>"
    unfolding arr(1) by (rule read_message_items [OF arr(2)])
  then show ?thesis
    unfolding client_round_def option.case Let_def data rc using n assms(3) buf
    by (intro exI [of _ ?buf]) simp
qed

text \<open>
  C22. What an engine sends, its parent logs: an update event that an engine packs and that arrives
  at the client is logged with the event's time and twin and the value of its first update.
\<close>

theorem client_logs_sent_event:
  assumes "payload ev = Update u" "event_ok ev" "carried u = p # ps" "serialize_event ev = Some bytes"
    "length (c_buffer st) = ZMQ_BUFFER_SIZE" "total_received st < MAX_MSGS"
  shows "\<exists>buf. client_round env now behind (Some bytes) st =
    Some (st\<lparr>c_buffer := buf, total_received := total_received st + 1,
      msg_log := (msg_log st)(total_received st :=
        \<lparr>sending_ts = timestamp (header ev), receiving_ts = now, msg_twin_id = twin_id (header ev),
         message_id = upd_value p\<rparr>)\<rparr>) \<and>
    length buf = ZMQ_BUFFER_SIZE"
proof -
  obtain dev where dev: "f32_to_u64 (deviation (header ev)) = Some dev"
    using assms(1,4) by (auto simp: serialize_event_def as_update_def split: option.splits)
  obtain v x where p: "pair_of p = (v, x)" "x = upd_value p" by (simp add: pair_of_def)
  have "bytes = encode_message (timestamp (header ev), dev, twin_id (header ev), (v, x) # map pair_of ps)"
    "fits_buffer (timestamp (header ev), dev, twin_id (header ev), (v, x) # map pair_of ps)"
    using serialize_aux [OF assms(1,2) dev] assms(3,4) p(1) by (simp_all add: fits_buffer_def)
  with client_round_update [OF assms(5) _ assms(6)] p(2) show ?thesis by simp
qed

text \<open>
  The client leaves its log behind when a message is malformed, and counts messages it no longer
  logs: the dump then shows zeros, and reads behind the array when there are more of them.
\<close>

lemma client_dump_overrun:
  "HISTORY_LOG_SIZE < total_received st \<Longrightarrow> client_dump True st = None"
  by (simp add: client_dump_def)

lemma client_ends_on_short_message:
  "client_round env now behind (Some []) st = None"
proof -
  let ?c = "cw_unpack_context_init (stack_ctx env) (buffer_addr env) [] None"
  have "u_return_code (cw_unpack_next ?c) \<noteq> 0"
    by (simp add: cw_unpack_next_def cw_unpack_context_init_def cw_unpack_assert_space_def UNPACK_ERROR_def)
  then show ?thesis by (simp add: client_round_def Let_def)
qed

text \<open>The contract at a concrete input.\<close>

definition idle_client :: client_t where
  "idle_client =
     \<lparr>total_received = 0,
      msg_log = \<lambda>_. \<lparr>sending_ts = 0, receiving_ts = 0, msg_twin_id = 0, message_id = 0\<rparr>,
      c_buffer = replicate ZMQ_BUFFER_SIZE 0\<rparr>"

theorem client_logs_sent_event_witness:
  "\<exists>bytes st. serialize_event (sample_update 1) = Some bytes \<and>
     client_round zero_env 5 [] (Some bytes) idle_client = Some st \<and>
     msg_log st 0 = \<lparr>sending_ts = 9, receiving_ts = 5, msg_twin_id = 1, message_id = 4\<rparr>"
proof -
  have "\<exists>bytes. serialize_event (sample_update 1) = Some bytes"
    using serialize_aux(1) [OF sample_update_facts(1,2)] zero_float sample_update_facts by auto
  then obtain bytes where bytes: "serialize_event (sample_update 1) = Some bytes" ..
  have st: "length (c_buffer idle_client) = ZMQ_BUFFER_SIZE" "total_received idle_client < MAX_MSGS"
    by (simp_all add: idle_client_def MAX_MSGS_def)
  show ?thesis
    using client_logs_sent_event [OF sample_update_facts(1,2) _ bytes st, of _ "[]" zero_env 5 "[]"] bytes
    by (auto simp: sample_update_facts idle_client_def)
qed

end
