(* ===== verification/Spec2Isabelle.thy ===== *)
theory Spec2Isabelle
  imports Event_Processor Event_Sender Event_Reciever Cwpack_Skip Api_Server Crow_Base64 Crow_Sha1
    Crow_Routes Crow_Router Crow_Http_Request Crow_Query Chrony_Service Crow_Connection_Run Queue_Concurrency
    Engine_Main Test_Clients
begin

text \<open>
  Verification of the real-time digital twin engine.

  \<^bold>\<open>The program.\<close>  \<open>engine/\<close> is a C process that runs on each device of a network and keeps digital
  twins of other devices.  Messages in MessagePack arrive on a ZeroMQ socket; the receiver thread
  parses each into one or more events and pushes them on a ring buffer; the processor thread pops
  events, writes the values into the memory of the twins and, where a rule says so, pushes an event
  with the selected updates on an output queue; the sender thread pops from that queue, packs the
  event and sends it to the engine above.  A fourth thread answers queries about the memory.
  \<open>api/\<close> is a separate C++ program, an HTTP server (the header-only library Crow, kept in the
  repository as \<open>api/include/external/crow_all.h\<close>) that edits the configuration file of the time
  service.  The two C clients of \<open>engine/utils_testing\<close> send the messages of the experiments and log
  those that come out.

  \<^bold>\<open>How it is modelled.\<close>  C and C++ integers are words of their width where they can wrap, records
  are the structs, an enumeration is a \<open>datatype\<close> or its number.  A function that mutates a struct
  returns it.  \<open>None\<close> is a behaviour C does not define, or (where said) a thread that has ended; an
  error of the program is a value (\<open>Inl\<close>, a return code, a response).  What lies outside the
  repository is an argument: the clock, \<open>zmq_recv\<close> and the other ZeroMQ calls, \<open>strtod\<close>, the
  contents of files, indeterminate memory behind a buffer, and the order of threads.  A \<open>float\<close> or
  \<open>double\<close> is its bit pattern; only the two conversions the engine performs are computed.

  \<^bold>\<open>The engine, theory by theory.\<close>
  \<^item> \<open>Prelude\<close>: types, bytes of words, lists, sums.  \<open>Bounded_Table\<close>: the interface (a locale) of a
    table with bounded keys, interpreted on the memory and on the rules.
  \<^item> \<open>Event_Types\<close> (\<open>config.h\<close>, \<open>event_types.h\<close>): events and their type invariant \<open>event_ok\<close>.
  \<^item> \<open>Event_Queue\<close> (\<open>event_queue.c\<close>): the ring buffer, the interface \<open>bounded_fifo\<close> and its
    interpretation; any sequence of calls refines a bounded FIFO list.
  \<^item> \<open>Queue_Concurrency\<close>: the same bodies cut into single reads and writes and interleaved; with one
    producer and one consumer every run is a run of the FIFO list, with two producers an event is
    lost.  Memory is taken to be sequentially consistent, which the plain variables of the code do
    not promise.
  \<^item> \<open>Twins_Memory\<close>, \<open>Rule_Engine\<close>: the tables of values and of rules with all their operations.
  \<^item> \<open>Byte_Order\<close>, \<open>Cwpack_Pack\<close>, \<open>Cwpack_Unpack\<close>, \<open>Cwpack_Skip\<close> (\<open>engine/include/external/cwpack.c\<close>
    and its headers): the MessagePack library, every routine and opcode; the interface \<open>item_reader\<close>
    says what a reader of packed items promises.  Unpacking stays in the buffer, packing and unpacking
    are a round trip, skipping ends where unpacking does.
  \<^item> \<open>C_Float\<close>: the conversions between \<open>uint64_t\<close> and \<open>float\<close>.
  \<^item> \<open>Event_Parser\<close> (\<open>event_parser.c\<close>): message to events, on all inputs.
  \<^item> \<open>Event_Dispatcher\<close>, \<open>Event_Processor\<close> (\<open>event_dispatcher.c\<close>, \<open>event_processor.c\<close>): what an event
    does to the memory and to the queues, with the queues in a store because the rules of two
    directions may name the same one.
  \<^item> \<open>Event_Sender\<close>, \<open>Event_Reciever\<close>, \<open>Api_Server\<close>: the threads at the sockets.
  \<^item> \<open>Engine_Main\<close> (\<open>tests/full_test_v2.c\<close>): start-up and the interleaving of the rounds of the
    receiver, the processor and the sender as an inductive relation; the end-to-end properties.
  \<^item> \<open>Test_Clients\<close> (\<open>utils_testing/c_clients\<close>): the sending and the logging client.

  \<^bold>\<open>The HTTP service.\<close>
  \<^item> \<open>Crow_Json\<close>, \<open>Crow_Json_Value\<close>: the JSON parser, which cuts strings in place, and the values it
    gives; grammar, bounds, round trips, lookup by binary search.
  \<^item> \<open>Crow_Routes\<close>: the checks made on the pattern of a route.  \<open>Crow_Trie\<close>: the search tree of the
    router; inserting adds one pattern, joining chains of nodes keeps all, and the search, with its
    shared parameter and blueprint vectors, finds the least rule that matches.  \<open>Crow_Router\<close>: rules by
    method, and what becomes of a request (a rule, a redirect, 404, 405, HEAD, OPTIONS).
  \<^item> \<open>Crow_Http\<close>: the parser of requests (\<open>http_parser_execute\<close> and the callbacks of \<open>HTTPParser\<close>), a
    state machine fed with the pieces of a connection; the connection it calls back is a parameter.
    \<open>Crow_Http_Safe\<close>: it never loops, and without a NUL none of its assertions fails.
    \<open>Crow_Http_Line\<close>, \<open>Crow_Http_Header\<close>, \<open>Crow_Http_Request\<close>: what it hands over is the request that
    the client sent, and what goes wrong when requests and pieces do not coincide.
  \<^item> \<open>Crow_Query\<close>: the query string, parsed and decoded in place.  \<open>Crow_Base64\<close>, \<open>Crow_Sha1\<close>.
  \<^item> \<open>Chrony_Service\<close> (\<open>ChronyService.cpp\<close>, \<open>ChronyController.cpp\<close>): the route that changes the
    configuration file, from the body of the request to the lines of the file.
  \<^item> \<open>Crow_Connection\<close> (\<open>Connection\<close>, \<open>response\<close>, \<open>Router::handle\<close>): the object that the parser calls
    back, with the program's handlers; from the bytes of the requests to those of the responses.
    \<open>Crow_Http_Keep\<close> is the interface (a locale) between parser and connection: what the three
    callbacks keep, feeding keeps.  \<open>Crow_Connection_Run\<close> interprets it: after any sequence of reads,
    failures and time-outs a connection reads or is closed or closing; unknown URLs; and where one
    request spoils the next.

  \<^bold>\<open>Kinds of properties.\<close>  For each component an invariant that all its operations keep, its
  behaviour on every branch, errors included, and where it has a contract, an abstract one it
  refines (a FIFO list, a table, a reader of items, the list of patterns of a tree).  Several
  properties state what the code does where that is not what it means to do; they are named in the
  findings of the manifest.

  \<^bold>\<open>Bounds and fuel.\<close>  Loops of the threads that depend on a flag or on incoming messages run over
  the list of what they are given, one element per round, so nothing is assumed of their number.
  The other loops are total functions with a measure.  The skipping
  loop of cwpack counts in a \<open>long\<close> that data can increase; it is a partial function, without a result when
  the \<open>long\<close> overflows, and proved to return when the count has room, because every step consumes a byte.  The JSON parser has the code's own limit of depth; its fuel is three per character
  of the text and one more, and it is proved that this is enough and that more changes nothing.  The
  jumps of the HTTP parser to \<open>reexecute\<close> are bounded by five switches a character, and it is proved
  that the states are ranked so that this is never reached.

  \<^bold>\<open>Not modelled.\<close>
  \<^item> \<open>engine/src/core_binding.c\<close>, thread creation, signals, console output: calls of the operating
    system without state of the program.
  \<^item> The other programs of \<open>engine/tests\<close>: manual tests and time measurements that print.
  \<^item> The copy of cwpack of the clients: the same text as the engine's.
  \<^item> Asio: a third-party library the HTTP library calls; and of Crow what needs it (the
    server, which accepts connections, and its threads, sockets and queue of timers; a connection is
    modelled over a socket that is open or closed), as well as what the service does not use: websockets, mustache
    templates, multipart bodies, cookies, sessions, compression, middleware, blueprints, the JSON
    writer, static files, logging.
  \<^item> The Python and shell programs and the measurements.

  \<^bold>\<open>Simplified.\<close>  Loads from a buffer of cwpack are total, only the checks of space before them are
  proved; the JSON parser collects elements in unbounded lists, the growing array is treated on its
  own; a response that is completed after its handler has returned is not modelled; writing to an open
  socket succeeds.

  \<^bold>\<open>Left for later.\<close>  The JSON writer; a weaker memory model for the queue.
\<close>

end
